(* ===== verification/Rust_Prelude.thy ===== *)
theory Rust_Prelude
  imports Main "HOL-Library.Word" "HOL-Library.Char_ord" "HOL-Library.List_Lexorder"
    "HOL-Library.AList"
begin

unbundle bit_operations_syntax

text \<open>
  The prelude of the development: what the Rust sources use of the language and of its
  standard library, with the lemmas the component theories share.

  \<^item> machine integers: \<open>u8\<close> and \<open>u64\<close> are words, \<open>isize::MAX\<close> bounds every allocation;
  \<^item> the outcome of running a fallible function: a value, an error, a panic, or no return;
  \<^item> big-endian and little-endian byte conversions (\<open>to_be_bytes\<close>, \<open>from_be_bytes\<close>, \<open>to_le_bytes\<close>);
  \<^item> \<open>String\<close>: a HOL \<^typ>\<open>string\<close> holds the UTF-8 bytes of a Rust string, one \<^typ>\<open>char\<close> for
    each byte, and \<open>utf8_ok\<close> is the check of \<open>String::from_utf8\<close>;
  \<^item> \<open>HashMap\<close> and \<open>HashSet\<close>: an association list with distinct keys, a list of distinct elements;
    their order stands for the order in which the hash table happens to iterate;
  \<^item> \<open>BTreeMap\<close>: an association list in strictly ascending key order, which is the order in
    which the Rust map iterates.
\<close>

named_theorems bt_simps \<open>rewriting of ordered association lists\<close>
named_theorems outcome_simps \<open>rewriting of outcomes\<close>
named_theorems byte_simps \<open>byte-level encodings and their inverses\<close>

subsection \<open>Machine integers and outcomes\<close>

type_synonym u8 = "8 word"
type_synonym u32 = "32 word"
type_synonym u64 = "64 word"
type_synonym bytes = "u8 list"

definition isize_max :: nat where
  "isize_max = 2 ^ 63 - 1"

datatype ('e, 'a) outcome = Ok 'a | Err 'e | Panic | Diverge

fun obind :: "('e, 'a) outcome \<Rightarrow> ('a \<Rightarrow> ('e, 'b) outcome) \<Rightarrow> ('e, 'b) outcome" where
  "obind (Ok x) f = f x"
| "obind (Err e) f = Err e"
| "obind Panic f = Panic"
| "obind Diverge f = Diverge"

fun omap_err :: "('e \<Rightarrow> 'f) \<Rightarrow> ('e, 'a) outcome \<Rightarrow> ('f, 'a) outcome" where
  "omap_err g (Ok x) = Ok x"
| "omap_err g (Err e) = Err (g e)"
| "omap_err g Panic = Panic"
| "omap_err g Diverge = Diverge"

lemma obind_cong [fundef_cong]:
  "m = m' \<Longrightarrow> (\<And>x. m' = Ok x \<Longrightarrow> f x = f' x) \<Longrightarrow> obind m f = obind m' f'"
  by (cases m') auto

lemma obind_eq_Ok: "obind m f = Ok y \<longleftrightarrow> (\<exists>x. m = Ok x \<and> f x = Ok y)"
  by (cases m) auto

lemma obind_eq_Diverge:
  "obind m f = Diverge \<longleftrightarrow> m = Diverge \<or> (\<exists>x. m = Ok x \<and> f x = Diverge)"
  by (cases m) auto

lemma obind_eq_Panic:
  "obind m f = Panic \<longleftrightarrow> m = Panic \<or> (\<exists>x. m = Ok x \<and> f x = Panic)"
  by (cases m) auto

lemma omap_err_eq_Ok [simp]: "omap_err g m = Ok y \<longleftrightarrow> m = Ok y"
  by (cases m) auto

lemma omap_err_eq_Diverge [simp]: "omap_err g m = Diverge \<longleftrightarrow> m = Diverge"
  by (cases m) auto

lemmas obind_iffs [outcome_simps] = obind_eq_Ok obind_eq_Diverge obind_eq_Panic

text \<open>
  A function with fuel: with more fuel it gives the same result, unless it had run out.
\<close>

definition improves :: "('e, 'a) outcome \<Rightarrow> ('e, 'a) outcome \<Rightarrow> bool" where
  "improves m m' \<longleftrightarrow> m = Diverge \<or> m' = m"

lemma improves_refl [simp]: "improves m m" "improves Diverge m"
  by (simp_all add: improves_def)

lemma improvesD: "improves m m' \<Longrightarrow> m \<noteq> Diverge \<Longrightarrow> m' = m"
  by (auto simp: improves_def)

lemma improves_obind:
  "improves m m' \<Longrightarrow> (\<And>x. m = Ok x \<Longrightarrow> improves (f x) (f' x)) \<Longrightarrow>
   improves (obind m f) (obind m' f')"
  by (cases m) (auto simp: improves_def)

lemma improves_omap_err: "improves m m' \<Longrightarrow> improves (omap_err g m) (omap_err g m')"
  by (auto simp: improves_def)

text \<open>
  A function of fuel settles when enough fuel gives one result.
\<close>

definition settles :: "(nat \<Rightarrow> 'a) \<Rightarrow> 'a \<Rightarrow> bool" where
  "settles f r \<longleftrightarrow> (\<exists>N. \<forall>n \<ge> N. f n = r)"

lemma settles_const [simp]: "settles (\<lambda>n. r) r"
  by (simp add: settles_def)

lemma settlesI:
  assumes "\<And>n. improves (f n) (f (Suc n))" "f N = r" "r \<noteq> Diverge"
  shows "settles f r"
proof -
  have "f n = r" if "N \<le> n" for n
    using that by (induction n rule: dec_induct) (use assms improvesD in metis)+
  then show ?thesis by (auto simp: settles_def)
qed

lemma settles_obind:
  assumes "settles m (Ok x)" "settles (f x) r"
  shows "settles (\<lambda>n. obind (m n) (\<lambda>x. f x n)) r"
proof -
  from assms obtain M N where "\<forall>n \<ge> M. m n = Ok x" "\<forall>n \<ge> N. f x n = r" by (auto simp: settles_def)
  then show ?thesis unfolding settles_def by (intro exI [of _ "max M N"]) simp
qed

lemma settles_unique: "settles f r \<Longrightarrow> settles f q \<Longrightarrow> r = q"
  unfolding settles_def by (metis nle_le)

text \<open>\<open>iter().map(f).collect::<Result<Vec<_>, _>>()\<close>: the first error stops the collection.\<close>

fun omap_list :: "('a \<Rightarrow> ('e, 'b) outcome) \<Rightarrow> 'a list \<Rightarrow> ('e, 'b list) outcome" where
  "omap_list f [] = Ok []"
| "omap_list f (x # xs) = obind (f x) (\<lambda>y. obind (omap_list f xs) (\<lambda>ys. Ok (y # ys)))"

lemma omap_list_Ok_map:
  "(\<And>x. x \<in> set xs \<Longrightarrow> f (g x) = Ok (h x)) \<Longrightarrow> omap_list f (map g xs) = Ok (map h xs)"
  by (induction xs) auto

lemma omap_list_total:
  "(\<And>x. x \<in> set xs \<Longrightarrow> f x \<noteq> Diverge) \<Longrightarrow> omap_list f xs \<noteq> Diverge"
  by (induction xs) (auto simp: obind_eq_Diverge)

lemma omap_list_length: "omap_list f xs = Ok ys \<Longrightarrow> length ys = length xs"
  by (induction xs arbitrary: ys) (auto simp: obind_eq_Ok)

lemma omap_list_nth:
  "omap_list f xs = Ok ys \<Longrightarrow> i < length xs \<Longrightarrow> f (xs ! i) = Ok (ys ! i)"
proof (induction xs arbitrary: ys i)
  case Nil
  then show ?case by simp
next
  case (Cons x xs)
  then show ?case by (cases i) (auto simp: obind_eq_Ok)
qed

text \<open>
  Loops that may stop early: \<open>ofold\<close> threads a value through the iterations, \<open>ofind\<close> returns the first
  result.
\<close>

fun ofold :: "('s \<Rightarrow> 'a \<Rightarrow> ('e, 's) outcome) \<Rightarrow> 's \<Rightarrow> 'a list \<Rightarrow> ('e, 's) outcome" where
  "ofold f s [] = Ok s"
| "ofold f s (x # xs) = obind (f s x) (\<lambda>s. ofold f s xs)"

fun ofind :: "('a \<Rightarrow> ('e, 'b option) outcome) \<Rightarrow> 'a list \<Rightarrow> ('e, 'b option) outcome" where
  "ofind f [] = Ok None"
| "ofind f (x # xs) = obind (f x) (\<lambda>r. case r of None \<Rightarrow> ofind f xs | Some y \<Rightarrow> Ok (Some y))"

lemma ofold_cong [fundef_cong]:
  "xs = ys \<Longrightarrow> s = t \<Longrightarrow> (\<And>s x. x \<in> set ys \<Longrightarrow> f s x = g s x) \<Longrightarrow> ofold f s xs = ofold g t ys"
proof (induction ys arbitrary: xs s t)
  case (Cons y ys)
  then show ?case by (auto intro!: obind_cong)
qed simp

lemma ofind_cong [fundef_cong]:
  "xs = ys \<Longrightarrow> (\<And>x. x \<in> set ys \<Longrightarrow> f x = g x) \<Longrightarrow> ofind f xs = ofind g ys"
proof (induction ys arbitrary: xs)
  case (Cons y ys)
  then show ?case by (auto intro!: obind_cong split: option.split)
qed simp

lemma ofold_induct:
  assumes "ofold f s xs = Ok t" "P s" "\<And>s x t. x \<in> set xs \<Longrightarrow> P s \<Longrightarrow> f s x = Ok t \<Longrightarrow> P t"
  shows "P t"
  using assms
proof (induction xs arbitrary: s)
  case (Cons x xs)
  from Cons.prems(1) obtain u where u: "f s x = Ok u" "ofold f u xs = Ok t" by (auto simp: obind_eq_Ok)
  show ?case by (rule Cons.IH [OF u(2)]) (use Cons.prems(2,3) u(1) in auto)
qed simp

lemma ofind_Some:
  "ofind f xs = Ok (Some y) \<Longrightarrow> \<exists>x \<in> set xs. f x = Ok (Some y)"
  by (induction xs) (auto simp: obind_eq_Ok split: option.splits)

lemma settles_ofold:
  assumes "\<And>x s. x \<in> set xs \<Longrightarrow> I s \<Longrightarrow> \<exists>t. settles (\<lambda>n. f n s x) (Ok t) \<and> I t" "I s"
  shows "\<exists>t. settles (\<lambda>n. ofold (f n) s xs) (Ok t) \<and> I t"
  using assms
proof (induction xs arbitrary: s)
  case (Cons x xs)
  from Cons.prems obtain u where u: "settles (\<lambda>n. f n s x) (Ok u)" "I u" by fastforce
  from Cons.IH [OF Cons.prems(1) u(2)] obtain t where "settles (\<lambda>n. ofold (f n) u xs) (Ok t)" "I t" by auto
  with settles_obind [OF u(1), of "\<lambda>u n. ofold (f n) u xs"] show ?case by auto
next
  case Nil
  then show ?case by (intro exI [of _ s]) simp
qed

lemma settles_ofind:
  assumes "\<And>x. x \<in> set xs \<Longrightarrow> settles (\<lambda>n. f n x) (Ok (g x))"
  shows "settles (\<lambda>n. ofind (f n) xs) (Ok (case filter (\<lambda>x. g x \<noteq> None) xs of [] \<Rightarrow> None | x # _ \<Rightarrow> g x))"
  using assms
proof (induction xs)
  case (Cons x xs)
  let ?next = "\<lambda>r n. case r of None \<Rightarrow> ofind (f n) xs | Some y \<Rightarrow> Ok (Some y)"
  have "settles (\<lambda>n. f n x) (Ok (g x))" using Cons.prems by simp
  from settles_obind [OF this, of ?next] Cons show ?case by (cases "g x") auto
qed simp

text \<open>
  A function that mutates a state and may fail: the state it leaves behind, whether or not it
  fails, with its outcome. \<open>sbind\<close> is the operator \<open>?\<close>: it goes on only after \<open>Ok\<close>.
\<close>

fun sbind :: "'s \<times> ('e, 'a) outcome \<Rightarrow> ('s \<Rightarrow> 'a \<Rightarrow> 's \<times> ('e, 'b) outcome) \<Rightarrow> 's \<times> ('e, 'b) outcome" where
  "sbind (s, Ok x) f = f s x"
| "sbind (s, Err e) f = (s, Err e)"
| "sbind (s, Panic) f = (s, Panic)"
| "sbind (s, Diverge) f = (s, Diverge)"

lemma sbind_eq_Ok:
  "sbind r f = (s', Ok y) \<longleftrightarrow> (\<exists>s x. r = (s, Ok x) \<and> f s x = (s', Ok y))"
  by (cases r; cases "snd r") auto

lemma snd_sbind_eq_Ok:
  "snd (sbind r f) = Ok y \<longleftrightarrow> (\<exists>x. snd r = Ok x \<and> snd (f (fst r) x) = Ok y)"
  by (cases r; cases "snd r") auto

lemma snd_sbind_Diverge: "snd r = Diverge \<Longrightarrow> snd (sbind r f) = Diverge"
  by (cases r) simp

subsection \<open>Byte order\<close>

primrec be_bytes :: "nat \<Rightarrow> nat \<Rightarrow> bytes" where
  "be_bytes 0 x = []"
| "be_bytes (Suc n) x = be_bytes n (x div 256) @ [of_nat (x mod 256)]"

definition from_be :: "bytes \<Rightarrow> nat" where
  "from_be bs = foldl (\<lambda>a b. a * 256 + unat b) 0 bs"

definition le_bytes :: "nat \<Rightarrow> nat \<Rightarrow> bytes" where
  "le_bytes n x = rev (be_bytes n x)"

definition from_le :: "bytes \<Rightarrow> nat" where
  "from_le bs = from_be (rev bs)"

lemma length_be_bytes [simp, byte_simps]: "length (be_bytes n x) = n"
  by (induction n arbitrary: x) auto

lemma length_le_bytes [simp, byte_simps]: "length (le_bytes n x) = n"
  by (simp add: le_bytes_def)

lemma unat_byte_less: "unat (b :: u8) < 256"
  using unsigned_less [of b, where 'a = nat] by simp

lemma unat_of_nat_byte: "unat (of_nat (x mod 256) :: u8) = x mod 256"
  by (simp add: unat_of_nat)

lemma from_be_snoc: "from_be (bs @ [b]) = from_be bs * 256 + unat b"
  by (simp add: from_be_def)

lemma from_be_bytes: "from_be (be_bytes n x) = x mod 256 ^ n"
proof (induction n arbitrary: x)
  case 0
  then show ?case by (simp add: from_be_def)
next
  case (Suc n)
  have "from_be (be_bytes (Suc n) x) = (x div 256 mod 256 ^ n) * 256 + x mod 256"
    by (simp add: from_be_snoc Suc.IH unat_of_nat_byte del: of_nat_mod)
  also have "\<dots> = x mod 256 ^ Suc n"
    using mod_mult2_eq [of x 256 "256 ^ n"] by (simp add: mult.commute)
  finally show ?case .
qed

lemma from_be_bytes_id [byte_simps]: "x < 256 ^ n \<Longrightarrow> from_be (be_bytes n x) = x"
  by (simp add: from_be_bytes)

lemma from_le_bytes_id [byte_simps]: "x < 256 ^ n \<Longrightarrow> from_le (le_bytes n x) = x"
  by (simp add: from_le_def le_bytes_def from_be_bytes)

lemma from_be_less: "from_be bs < 256 ^ length bs"
proof (induction bs rule: rev_induct)
  case Nil
  then show ?case by (simp add: from_be_def)
next
  case (snoc b bs)
  have "unat b < 256" by (rule unat_byte_less)
  then have "from_be bs * 256 + unat b < (from_be bs + 1) * 256" by simp
  also have "\<dots> \<le> 256 ^ length bs * 256" using snoc.IH by (intro mult_right_mono) auto
  finally show ?case by (simp add: from_be_snoc mult.commute)
qed

lemma be_bytes_from_be: "be_bytes (length bs) (from_be bs) = bs"
proof (induction bs rule: rev_induct)
  case Nil
  then show ?case by simp
next
  case (snoc b bs)
  have lt: "unat b < 256" using unat_byte_less [of b] by simp
  then have "(from_be bs * 256 + unat b) div 256 = from_be bs"
    and "(from_be bs * 256 + unat b) mod 256 = unat b" by auto
  then show ?case using snoc.IH by (simp add: from_be_snoc)
qed

text \<open>\<open>read_exact\<close> on a byte slice: the bytes read and the bytes left, or the end of the input.\<close>

definition read_exact :: "nat \<Rightarrow> bytes \<Rightarrow> (bytes \<times> bytes) option" where
  "read_exact n rs = (if n \<le> length rs then Some (take n rs, drop n rs) else None)"

lemma read_exact_append [simp, byte_simps]:
  "length xs = n \<Longrightarrow> read_exact n (xs @ rs) = Some (xs, rs)"
  by (auto simp: read_exact_def)

lemma read_exact_SomeD:
  "read_exact n rs = Some (xs, rs') \<Longrightarrow> rs = xs @ rs' \<and> length xs = n"
  by (auto simp: read_exact_def split: if_splits)

subsection \<open>Strings\<close>

definition str_bytes :: "string \<Rightarrow> bytes" where
  "str_bytes s = map (\<lambda>c. of_nat (of_char c)) s"

definition bytes_str :: "bytes \<Rightarrow> string" where
  "bytes_str bs = map (\<lambda>b. char_of (unat b)) bs"

definition utf8_cont :: "nat \<Rightarrow> bool" where
  "utf8_cont b \<longleftrightarrow> 0x80 \<le> b \<and> b \<le> 0xBF"

text \<open>The well-formed UTF-8 byte sequences, as \<open>core::str::from_utf8\<close> checks them.\<close>

fun utf8_ok :: "nat list \<Rightarrow> bool" where
  "utf8_ok [] = True"
| "utf8_ok (b # bs) =
     (if b < 0x80 then utf8_ok bs
      else if 0xC2 \<le> b \<and> b \<le> 0xDF then
        (case bs of b1 # r \<Rightarrow> utf8_cont b1 \<and> utf8_ok r | _ \<Rightarrow> False)
      else if 0xE0 \<le> b \<and> b \<le> 0xEF then
        (case bs of b1 # b2 # r \<Rightarrow>
           (if b = 0xE0 then 0xA0 \<le> b1 \<and> b1 \<le> 0xBF
            else if b = 0xED then 0x80 \<le> b1 \<and> b1 \<le> 0x9F else utf8_cont b1)
           \<and> utf8_cont b2 \<and> utf8_ok r
         | _ \<Rightarrow> False)
      else if 0xF0 \<le> b \<and> b \<le> 0xF4 then
        (case bs of b1 # b2 # b3 # r \<Rightarrow>
           (if b = 0xF0 then 0x90 \<le> b1 \<and> b1 \<le> 0xBF
            else if b = 0xF4 then 0x80 \<le> b1 \<and> b1 \<le> 0x8F else utf8_cont b1)
           \<and> utf8_cont b2 \<and> utf8_cont b3 \<and> utf8_ok r
         | _ \<Rightarrow> False)
      else False)"

definition valid_str :: "string \<Rightarrow> bool" where
  "valid_str s \<longleftrightarrow> utf8_ok (map of_char s)"

definition from_utf8 :: "bytes \<Rightarrow> string option" where
  "from_utf8 bs = (if utf8_ok (map unat bs) then Some (bytes_str bs) else None)"

lemma length_str_bytes [simp]: "length (str_bytes s) = length s"
  by (simp add: str_bytes_def)

lemma of_char_less: "(of_char c :: nat) < 256"
  using nat_of_char_less_256 by simp

lemma unat_of_char: "unat (of_nat (of_char c) :: u8) = of_char c"
  using of_char_less [of c] by (simp add: unat_of_nat)

lemma bytes_str_str_bytes [simp, byte_simps]: "bytes_str (str_bytes s) = s"
  by (simp add: bytes_str_def str_bytes_def unat_of_char comp_def map_idI)

lemma str_bytes_bytes_str [simp]: "str_bytes (bytes_str bs) = bs"
proof -
  have "(of_nat (of_char (char_of (unat b))) :: u8) = b" for b :: u8
  proof -
    have "unat b < 256" by (rule unat_byte_less)
    then have "of_char (char_of (unat b)) = unat b" by (simp add: of_char_of)
    then show ?thesis by simp
  qed
  then show ?thesis by (simp add: bytes_str_def str_bytes_def comp_def)
qed

lemma from_utf8_str_bytes [simp, byte_simps]: "valid_str s \<Longrightarrow> from_utf8 (str_bytes s) = Some s"
  by (simp add: from_utf8_def valid_str_def) (simp add: str_bytes_def unat_of_char comp_def)

lemma of_char_bytes_str: "map of_char (bytes_str bs) = map unat bs"
  by (induction bs) (simp_all add: bytes_str_def of_char_of unat_byte_less)

lemma from_utf8_valid: "from_utf8 bs = Some s \<Longrightarrow> valid_str s \<and> str_bytes s = bs"
  by (auto simp: from_utf8_def valid_str_def of_char_bytes_str split: if_splits)

lemma str_bytes_inject [simp]: "str_bytes s = str_bytes t \<longleftrightarrow> s = t"
  by (metis bytes_str_str_bytes)

subsection \<open>Ordered maps\<close>

primrec bt_insert :: "'k::linorder \<Rightarrow> 'v \<Rightarrow> ('k \<times> 'v) list \<Rightarrow> ('k \<times> 'v) list" where
  "bt_insert k v [] = [(k, v)]"
| "bt_insert k v (e # m) =
     (if k < fst e then (k, v) # e # m
      else if k = fst e then (k, v) # m
      else e # bt_insert k v m)"

definition bt_get :: "('k::linorder \<times> 'v) list \<Rightarrow> 'k \<Rightarrow> 'v option" where
  "bt_get m k = map_of m k"

text \<open>\<open>collect()\<close> into a map inserts the pairs in iteration order.\<close>

definition bt_collect :: "('k::linorder \<times> 'v) list \<Rightarrow> ('k \<times> 'v) list" where
  "bt_collect kvs = foldl (\<lambda>m (k, v). bt_insert k v m) [] kvs"

definition bt_ok :: "('k::linorder \<times> 'v) list \<Rightarrow> bool" where
  "bt_ok m \<longleftrightarrow> sorted_wrt (<) (map fst m)"

lemma bt_ok_Nil [simp]: "bt_ok []"
  by (simp add: bt_ok_def)

lemma bt_ok_Cons [simp]: "bt_ok (e # m) \<longleftrightarrow> (\<forall>k \<in> fst ` set m. fst e < k) \<and> bt_ok m"
  by (auto simp: bt_ok_def)

lemma fst_set_bt_insert: "fst ` set (bt_insert k v m) = insert k (fst ` set m)"
  by (induction m) auto

lemma bt_ok_insert [simp, bt_simps]: "bt_ok m \<Longrightarrow> bt_ok (bt_insert k v m)"
  by (induction m) (auto simp: fst_set_bt_insert)

lemma bt_get_insert [simp, bt_simps]:
  "bt_get (bt_insert k v m) k' = (if k' = k then Some v else bt_get m k')"
  by (induction m) (auto simp: bt_get_def)

lemma bt_get_Nil [simp]: "bt_get [] k = None"
  by (simp add: bt_get_def)

lemma bt_get_Cons [simp]: "bt_get (e # m) k = (if k = fst e then Some (snd e) else bt_get m k)"
  by (cases e) (auto simp: bt_get_def)

lemma set_bt_insert: "set (bt_insert k v m) \<subseteq> insert (k, v) (set m)"
  by (induction m) auto

lemma bt_insert_snoc [bt_simps]:
  "\<forall>k' \<in> fst ` set m. k' < k \<Longrightarrow> bt_insert k v m = m @ [(k, v)]"
  by (induction m) auto

lemma bt_ok_snoc: "bt_ok (m @ [e]) \<longleftrightarrow> bt_ok m \<and> (\<forall>k \<in> fst ` set m. k < fst e)"
  by (induction m) auto

lemma bt_ok_map: "(\<And>e. e \<in> set m \<Longrightarrow> fst (f e) = fst e) \<Longrightarrow> bt_ok m \<Longrightarrow> bt_ok (map f m)"
  by (induction m) auto

lemma bt_ok_distinct: "bt_ok m \<Longrightarrow> distinct (map fst m)"
  unfolding bt_ok_def using strict_sorted_iff by blast

lemma length_bt_insert: "length (bt_insert k v m) \<le> Suc (length m)"
  by (induction m) auto

lemma bt_collect_aux:
  "bt_ok (m @ kvs) \<Longrightarrow> foldl (\<lambda>m (k, v). bt_insert k v m) m kvs = m @ kvs"
proof (induction kvs arbitrary: m)
  case Nil
  then show ?case by simp
next
  case (Cons e kvs)
  have "bt_ok ((m @ [e]) @ kvs)" using Cons.prems by simp
  moreover have "bt_insert (fst e) (snd e) m = m @ [e]"
    using Cons.prems by (subst bt_insert_snoc) (auto simp: bt_ok_def sorted_wrt_append)
  ultimately show ?case using Cons.IH [of "m @ [e]"] by (simp add: case_prod_beta)
qed

lemma bt_collect_id [bt_simps]: "bt_ok kvs \<Longrightarrow> bt_collect kvs = kvs"
  using bt_collect_aux [of "[]" kvs] by (simp add: bt_collect_def)

subsection \<open>Hash maps and hash sets\<close>

definition hm_insert :: "'k \<Rightarrow> 'v \<Rightarrow> ('k \<times> 'v) list \<Rightarrow> ('k \<times> 'v) list" where
  "hm_insert k v m = AList.update k v m"

definition hm_remove :: "'k \<Rightarrow> ('k \<times> 'v) list \<Rightarrow> ('k \<times> 'v) list" where
  "hm_remove k m = AList.delete k m"

definition hm_ok :: "('k \<times> 'v) list \<Rightarrow> bool" where
  "hm_ok m \<longleftrightarrow> distinct (map fst m)"

lemma hm_get_insert [simp]: "map_of (hm_insert k v m) = (map_of m)(k \<mapsto> v)"
  by (simp add: hm_insert_def update_conv')

lemma hm_get_remove [simp]: "map_of (hm_remove k m) = (map_of m)(k := None)"
  by (simp add: hm_remove_def delete_conv')

lemma hm_ok_insert [simp]: "hm_ok m \<Longrightarrow> hm_ok (hm_insert k v m)"
  by (simp add: hm_ok_def hm_insert_def distinct_update)

lemma hm_ok_remove [simp]: "hm_ok m \<Longrightarrow> hm_ok (hm_remove k m)"
  by (simp add: hm_ok_def hm_remove_def distinct_delete)

lemma hm_ok_Nil [simp]: "hm_ok []"
  by (simp add: hm_ok_def)

lemma length_hm_insert:
  "length (hm_insert k v m) = (if map_of m k = None then Suc (length m) else length m)"
  by (induction m) (auto simp: hm_insert_def)

lemma set_hm_insert: "set (hm_insert k v m) \<subseteq> insert (k, v) (set m)"
  by (induction m) (auto simp: hm_insert_def)

lemma set_hm_remove: "set (hm_remove k m) \<subseteq> set m"
  by (induction m) (auto simp: hm_remove_def)

lemma set_map_fst_dom: "set (map fst m) = dom (map_of m)"
  by (simp add: dom_map_of_conv_image_fst)

definition hs_insert :: "'a \<Rightarrow> 'a list \<Rightarrow> 'a list" where
  "hs_insert x s = List.insert x s"

definition hs_remove :: "'a \<Rightarrow> 'a list \<Rightarrow> 'a list" where
  "hs_remove x s = remove1 x s"

lemma set_hs_insert [simp]: "set (hs_insert x s) = insert x (set s)"
  by (simp add: hs_insert_def)

lemma distinct_hs_insert [simp]: "distinct s \<Longrightarrow> distinct (hs_insert x s)"
  by (simp add: hs_insert_def)

lemma set_hs_remove [simp]: "distinct s \<Longrightarrow> set (hs_remove x s) = set s - {x}"
  by (simp add: hs_remove_def)

lemma distinct_hs_remove [simp]: "distinct s \<Longrightarrow> distinct (hs_remove x s)"
  by (simp add: hs_remove_def)

subsection \<open>Time\<close>

text \<open>Instants and durations count nanoseconds; an operation that reads the clock takes the reading as an argument.\<close>

type_synonym instant = nat
type_synonym duration = nat

definition from_secs :: "nat \<Rightarrow> duration" where "from_secs s = s * 1000000000"
definition from_millis :: "nat \<Rightarrow> duration" where "from_millis m = m * 1000000"
definition as_millis :: "duration \<Rightarrow> nat" where "as_millis d = d div 1000000"

end
