(* ===== verification/Cid_Core.thy ===== *)
theory Cid_Core
  imports Rust_Prelude
begin

text \<open>
  Content identifiers (\<open>ipfrs-core/src/cid.rs\<close>): the hash algorithms, the multibase
  encodings, the \<open>CidBuilder\<close> and the \<open>CidExt\<close> conversions between CIDv0 and CIDv1.

  The type \<open>Cid\<close> itself, its binary and text forms and the multihash digests come from the
  crates \<open>cid\<close>, \<open>multibase\<close> and \<open>multihash-codetable\<close>, which are not part of the repository.
  They are the record \<open>cid_crate\<close>, a parameter of every definition that uses them; the type
  variable stands for the opaque type \<open>Cid\<close>. What the code relies on is stated where it is
  used (\<open>cid_laws\<close> and \<open>cid_v0_laws\<close> below).
\<close>

subsection \<open>Hash algorithms\<close>

datatype HashAlgorithm =
  Sha256 | Sha512 | Sha3_256 | Sha3_512 | Blake2b256 | Blake2b512 | Blake2s256 | Blake3

fun hash_name :: "HashAlgorithm \<Rightarrow> string" where
  "hash_name Sha256 = ''SHA2-256''"
| "hash_name Sha512 = ''SHA2-512''"
| "hash_name Sha3_256 = ''SHA3-256''"
| "hash_name Sha3_512 = ''SHA3-512''"
| "hash_name Blake2b256 = ''BLAKE2b-256''"
| "hash_name Blake2b512 = ''BLAKE2b-512''"
| "hash_name Blake2s256 = ''BLAKE2s-256''"
| "hash_name Blake3 = ''BLAKE3''"

fun hash_size :: "HashAlgorithm \<Rightarrow> nat" where
  "hash_size Sha256 = 32"
| "hash_size Sha512 = 64"
| "hash_size Sha3_256 = 32"
| "hash_size Sha3_512 = 64"
| "hash_size Blake2b256 = 32"
| "hash_size Blake2b512 = 64"
| "hash_size Blake2s256 = 32"
| "hash_size Blake3 = 32"

definition is_sha :: "HashAlgorithm \<Rightarrow> bool" where
  "is_sha a \<longleftrightarrow> a \<in> {Sha256, Sha512, Sha3_256, Sha3_512}"

definition is_blake :: "HashAlgorithm \<Rightarrow> bool" where
  "is_blake a \<longleftrightarrow> a \<in> {Blake2b256, Blake2b512, Blake2s256, Blake3}"

definition is_256_bit :: "HashAlgorithm \<Rightarrow> bool" where
  "is_256_bit a \<longleftrightarrow> a \<in> {Sha256, Sha3_256, Blake2b256, Blake2s256, Blake3}"

definition is_512_bit :: "HashAlgorithm \<Rightarrow> bool" where
  "is_512_bit a \<longleftrightarrow> a \<in> {Sha512, Sha3_512, Blake2b512}"

definition hash_all :: "HashAlgorithm list" where
  "hash_all = [Sha256, Sha512, Sha3_256, Sha3_512, Blake2b256, Blake2b512, Blake2s256, Blake3]"

text \<open>
  The errors of \<open>ipfrs_core::Error\<close> (\<open>ipfrs-core/src/error.rs\<close>). A message is its fixed text; the
  parts that a format string fills in at run time are left out.
\<close>

datatype core_error =
    Error_Io string
  | BlockNotFound string
  | Error_Cid string
  | Serialization string
  | Deserialization string
  | Error_Network string
  | Storage string
  | Encryption string
  | InvalidData string
  | InvalidInput string
  | Error_NotFound string
  | Protocol string
  | NotImplemented string
  | Internal string
  | Initialization string
  | Verification string

definition err_category :: "core_error \<Rightarrow> string" where
  "err_category e =
     (case e of Error_Io _ \<Rightarrow> ''io'' | BlockNotFound _ \<Rightarrow> ''not_found'' | Error_Cid _ \<Rightarrow> ''cid''
      | Serialization _ \<Rightarrow> ''serialization'' | Deserialization _ \<Rightarrow> ''deserialization''
      | Error_Network _ \<Rightarrow> ''network'' | Storage _ \<Rightarrow> ''storage'' | Encryption _ \<Rightarrow> ''encryption''
      | InvalidData _ \<Rightarrow> ''invalid_data'' | InvalidInput _ \<Rightarrow> ''invalid_input''
      | Error_NotFound _ \<Rightarrow> ''not_found'' | Protocol _ \<Rightarrow> ''protocol''
      | NotImplemented _ \<Rightarrow> ''not_implemented'' | Internal _ \<Rightarrow> ''internal''
      | Initialization _ \<Rightarrow> ''initialization'' | Verification _ \<Rightarrow> ''verification'')"

definition err_is_recoverable :: "core_error \<Rightarrow> bool" where
  "err_is_recoverable e \<longleftrightarrow>
     (case e of Error_Io _ \<Rightarrow> True | Error_Network _ \<Rightarrow> True | Storage _ \<Rightarrow> True | _ \<Rightarrow> False)"

definition err_is_not_found :: "core_error \<Rightarrow> bool" where
  "err_is_not_found e \<longleftrightarrow> (case e of BlockNotFound _ \<Rightarrow> True | Error_NotFound _ \<Rightarrow> True | _ \<Rightarrow> False)"

text \<open>
  \<open>FromStr for HashAlgorithm\<close>. The full Unicode \<open>str::to_uppercase\<close> is the parameter \<open>upper\<close>.
\<close>

definition hash_from_str :: "(string \<Rightarrow> string) \<Rightarrow> string \<Rightarrow> (core_error, HashAlgorithm) outcome" where
  "hash_from_str upper s =
     (let u = upper s in
      if u \<in> {''SHA256'', ''SHA2-256'', ''SHA-256''} then Ok Sha256
      else if u \<in> {''SHA512'', ''SHA2-512'', ''SHA-512''} then Ok Sha512
      else if u \<in> {''SHA3-256'', ''SHA3_256''} then Ok Sha3_256
      else if u \<in> {''SHA3-512'', ''SHA3_512''} then Ok Sha3_512
      else if u \<in> {''BLAKE2B256'', ''BLAKE2B-256'', ''BLAKE2B_256''} then Ok Blake2b256
      else if u \<in> {''BLAKE2B512'', ''BLAKE2B-512'', ''BLAKE2B_512''} then Ok Blake2b512
      else if u \<in> {''BLAKE2S256'', ''BLAKE2S-256'', ''BLAKE2S_256''} then Ok Blake2s256
      else if u \<in> {''BLAKE3'', ''BLAKE3-256'', ''BLAKE3_256''} then Ok Blake3
      else Err (InvalidData ''Unknown hash algorithm''))"

subsection \<open>Multibase encodings\<close>

datatype MultibaseEncoding = Base32Lower | Base58Btc | Base64 | Base64Url | Base32Upper

fun mb_prefix :: "MultibaseEncoding \<Rightarrow> char" where
  "mb_prefix Base32Lower = CHR ''b''"
| "mb_prefix Base58Btc = CHR ''z''"
| "mb_prefix Base64 = CHR ''m''"
| "mb_prefix Base64Url = CHR ''u''"
| "mb_prefix Base32Upper = CHR ''B''"

fun mb_name :: "MultibaseEncoding \<Rightarrow> string" where
  "mb_name Base32Lower = ''base32 (lowercase)''"
| "mb_name Base58Btc = ''base58btc''"
| "mb_name Base64 = ''base64''"
| "mb_name Base64Url = ''base64url''"
| "mb_name Base32Upper = ''base32 (uppercase)''"

definition mb_from_prefix :: "char \<Rightarrow> MultibaseEncoding option" where
  "mb_from_prefix c =
     (if c = CHR ''b'' then Some Base32Lower
      else if c = CHR ''z'' then Some Base58Btc
      else if c = CHR ''m'' then Some Base64
      else if c = CHR ''u'' then Some Base64Url
      else if c = CHR ''B'' then Some Base32Upper
      else None)"

definition mb_all :: "MultibaseEncoding list" where
  "mb_all = [Base32Lower, Base58Btc, Base64, Base64Url, Base32Upper]"

subsection \<open>The cid crate, and the builder\<close>

datatype Version = V0 | V1

record 'c cid_crate =
  cid_to_bytes :: "'c \<Rightarrow> bytes"
  cid_try_from :: "bytes \<Rightarrow> 'c option"
  cid_parse :: "string \<Rightarrow> 'c option"
  mh_digest :: "HashAlgorithm \<Rightarrow> bytes \<Rightarrow> bytes"
  mh_code :: "bytes \<Rightarrow> u64"
  cid_new :: "Version \<Rightarrow> u64 \<Rightarrow> bytes \<Rightarrow> 'c option"
  cid_new_v0 :: "bytes \<Rightarrow> 'c option"
  cid_new_v1 :: "u64 \<Rightarrow> bytes \<Rightarrow> 'c"
  cid_version :: "'c \<Rightarrow> Version"
  cid_codec :: "'c \<Rightarrow> u64"
  cid_hash :: "'c \<Rightarrow> bytes"
  ipld_size :: nat

text \<open>
  The last field is not code: it is \<open>size_of::<Ipld>()\<close>, which the compiler chooses and on
  which the largest list that can be allocated depends.
\<close>

definition codec_RAW :: u64 where "codec_RAW = 0x55"
definition codec_DAG_CBOR :: u64 where "codec_DAG_CBOR = 0x71"
definition codec_DAG_JSON :: u64 where "codec_DAG_JSON = 0x0129"
definition codec_DAG_PB :: u64 where "codec_DAG_PB = 0x70"

record CidBuilder =
  cb_version :: Version
  cb_codec :: u64
  cb_hash_algorithm :: HashAlgorithm

definition cb_new :: CidBuilder where
  "cb_new = \<lparr>cb_version = V1, cb_codec = 0x55, cb_hash_algorithm = Sha256\<rparr>"

definition cb_v0 :: CidBuilder where
  "cb_v0 = \<lparr>cb_version = V0, cb_codec = 0x70, cb_hash_algorithm = Sha256\<rparr>"

definition cb_set_version :: "Version \<Rightarrow> CidBuilder \<Rightarrow> CidBuilder" where
  "cb_set_version v b = b\<lparr>cb_version := v\<rparr>"

definition cb_set_codec :: "u64 \<Rightarrow> CidBuilder \<Rightarrow> CidBuilder" where
  "cb_set_codec c b = b\<lparr>cb_codec := c\<rparr>"

definition cb_set_hash_algorithm :: "HashAlgorithm \<Rightarrow> CidBuilder \<Rightarrow> CidBuilder" where
  "cb_set_hash_algorithm a b = b\<lparr>cb_hash_algorithm := a\<rparr>"

definition ok_or :: "'e \<Rightarrow> 'a option \<Rightarrow> ('e, 'a) outcome" where
  "ok_or e x = (case x of Some y \<Rightarrow> Ok y | None \<Rightarrow> Err e)"

definition cb_build :: "'c cid_crate \<Rightarrow> CidBuilder \<Rightarrow> bytes \<Rightarrow> (core_error, 'c) outcome" where
  "cb_build E b data =
     (let hash = mh_digest E (cb_hash_algorithm b) data in
      if cb_version b = V0 then
        if cb_hash_algorithm b \<noteq> Sha256
        then Err (InvalidInput ''CIDv0 requires SHA2-256 hash algorithm'')
        else ok_or (Error_Cid ''Failed to create CIDv0'') (cid_new_v0 E hash)
      else ok_or (Error_Cid ''Failed to create CID'') (cid_new E (cb_version b) (cb_codec b) hash))"

definition cb_build_dag_cbor :: "'c cid_crate \<Rightarrow> CidBuilder \<Rightarrow> bytes \<Rightarrow> (core_error, 'c) outcome" where
  "cb_build_dag_cbor E b data = cb_build E (b\<lparr>cb_codec := 0x71\<rparr>) data"

definition cb_build_raw :: "'c cid_crate \<Rightarrow> CidBuilder \<Rightarrow> bytes \<Rightarrow> (core_error, 'c) outcome" where
  "cb_build_raw E b data = cb_build E (b\<lparr>cb_codec := 0x55\<rparr>) data"

definition cb_build_v0 :: "'c cid_crate \<Rightarrow> CidBuilder \<Rightarrow> bytes \<Rightarrow> (core_error, 'c) outcome" where
  "cb_build_v0 E b data =
     ok_or (Error_Cid ''Failed to create CIDv0'') (cid_new_v0 E (mh_digest E Sha256 data))"

subsection \<open>\<open>CidExt\<close> and parsing\<close>

definition is_v0 :: "'c cid_crate \<Rightarrow> 'c \<Rightarrow> bool" where
  "is_v0 E c \<longleftrightarrow> cid_version E c = V0"

definition is_v1 :: "'c cid_crate \<Rightarrow> 'c \<Rightarrow> bool" where
  "is_v1 E c \<longleftrightarrow> cid_version E c = V1"

definition can_be_v0 :: "'c cid_crate \<Rightarrow> 'c \<Rightarrow> bool" where
  "can_be_v0 E c \<longleftrightarrow> mh_code E (cid_hash E c) = 0x12 \<and> cid_codec E c = codec_DAG_PB"

definition to_v1 :: "'c cid_crate \<Rightarrow> 'c \<Rightarrow> (core_error, 'c) outcome" where
  "to_v1 E c =
     (if cid_version E c = V1 then Ok c else Ok (cid_new_v1 E codec_DAG_PB (cid_hash E c)))"

definition to_v0 :: "'c cid_crate \<Rightarrow> 'c \<Rightarrow> (core_error, 'c) outcome" where
  "to_v0 E c =
     (if cid_version E c = V0 then Ok c
      else if mh_code E (cid_hash E c) \<noteq> 0x12
      then Err (InvalidInput ''CIDv0 requires SHA2-256 hash algorithm'')
      else if cid_codec E c \<noteq> codec_DAG_PB
      then Err (InvalidInput ''CIDv0 requires DAG-PB codec (0x70)'')
      else ok_or (Error_Cid ''Failed to create CIDv0'') (cid_new_v0 E (cid_hash E c)))"

definition parse_cid :: "'c cid_crate \<Rightarrow> string \<Rightarrow> (core_error, 'c) outcome" where
  "parse_cid E s = ok_or (Error_Cid ''Failed to parse CID'') (cid_parse E s)"

definition starts_with :: "string \<Rightarrow> string \<Rightarrow> bool" where
  "starts_with p s \<longleftrightarrow> take (length p) s = p"

definition parse_cid_with_base ::
    "'c cid_crate \<Rightarrow> string \<Rightarrow> (core_error, 'c \<times> MultibaseEncoding) outcome" where
  "parse_cid_with_base E s =
     (case s of
        [] \<Rightarrow> Err (Error_Cid ''Empty CID string'')
      | first_char # _ \<Rightarrow>
          if starts_with ''Qm'' s
          then obind (ok_or (Error_Cid ''Failed to parse CIDv0'') (cid_parse E s))
                 (\<lambda>cid. Ok (cid, Base58Btc))
          else obind (ok_or (Error_Cid ''Unknown multibase prefix'') (mb_from_prefix first_char))
                 (\<lambda>base. obind (ok_or (Error_Cid ''Failed to parse CID'') (cid_parse E s))
                   (\<lambda>cid. Ok (cid, base))))"

subsection \<open>What the code relies on\<close>

text \<open>
  Documented behaviour of the crate \<open>cid\<close>: \<open>to_bytes\<close> and \<open>try_from\<close> are inverse, and
  \<open>Cid::new\<close> does not fail for version 1 (only version 0 restricts codec and hash).
\<close>

definition cid_laws :: "'c cid_crate \<Rightarrow> bool" where
  "cid_laws E \<longleftrightarrow>
     (\<forall>c. cid_try_from E (cid_to_bytes E c) = Some c) \<and>
     (\<forall>codec h. cid_new E V1 codec h \<noteq> None)"

text \<open>
  Documented behaviour for version 0: a CIDv0 has the codec DAG-PB and a SHA2-256 hash,
  \<open>new_v0\<close> gives it back from its hash, and \<open>new_v1\<close> keeps codec and hash.
\<close>

definition cid_v0_laws :: "'c cid_crate \<Rightarrow> bool" where
  "cid_v0_laws E \<longleftrightarrow>
     (\<forall>c. cid_version E c = V0 \<longrightarrow>
        mh_code E (cid_hash E c) = 0x12 \<and> cid_codec E c = codec_DAG_PB \<and>
        cid_new_v0 E (cid_hash E c) = Some c) \<and>
     (\<forall>codec c. cid_version E (cid_new_v1 E codec (cid_hash E c)) = V1 \<and>
        cid_codec E (cid_new_v1 E codec (cid_hash E c)) = codec \<and>
        cid_hash E (cid_new_v1 E codec (cid_hash E c)) = cid_hash E c)"

text \<open>The CID of a DAG-CBOR block, as \<open>CidBuilder::new().build_dag_cbor(bytes)\<close> computes it.\<close>

definition dag_cbor_cid :: "'c cid_crate \<Rightarrow> bytes \<Rightarrow> 'c" where
  "dag_cbor_cid E bs = the (cid_new E V1 0x71 (mh_digest E Sha256 bs))"

lemma ok_or_eq_Ok [simp]: "ok_or e x = Ok y \<longleftrightarrow> x = Some y"
  by (auto simp: ok_or_def split: option.splits)

lemma ok_or_Some [simp]: "ok_or e (Some y) = Ok y"
  by (simp add: ok_or_def)

lemma ok_or_None [simp]: "ok_or e None = Err e"
  by (simp add: ok_or_def)

lemma ok_or_not_Diverge [simp]: "ok_or e x \<noteq> Diverge" "ok_or e x \<noteq> Panic"
  by (auto simp: ok_or_def split: option.splits)

lemma build_dag_cbor_new:
  "cid_laws E \<Longrightarrow> cb_build_dag_cbor E cb_new bs = Ok (dag_cbor_cid E bs)"
  by (auto simp: cb_build_dag_cbor_def cb_build_def cb_new_def dag_cbor_cid_def cid_laws_def Let_def)

lemma cid_try_from_to_bytes [simp]: "cid_laws E \<Longrightarrow> cid_try_from E (cid_to_bytes E c) = Some c"
  by (simp add: cid_laws_def)

text \<open>
  A concrete instance for the witnesses: 64-bit digests, a CIDv0 is a digest and a CIDv1 a
  codec with a digest.
\<close>

definition crate64 :: "(u64 + u64 \<times> u64) cid_crate" where
  "crate64 =
     \<lparr>cid_to_bytes = (\<lambda>c. case c of Inl h \<Rightarrow> 0x12 # be_bytes 8 (unat h)
        | Inr (codec, h) \<Rightarrow> 1 # be_bytes 8 (unat codec) @ be_bytes 8 (unat h)),
      cid_try_from = (\<lambda>bs.
        if length bs = 9 \<and> hd bs = 0x12 then Some (Inl (of_nat (from_be (tl bs))))
        else if length bs = 17 \<and> hd bs = 1
        then Some (Inr (of_nat (from_be (take 8 (tl bs))), of_nat (from_be (drop 8 (tl bs)))))
        else None),
      cid_parse = (\<lambda>s. None),
      mh_digest = (\<lambda>a bs. be_bytes 8 (foldl (\<lambda>h b. (h * 31 + unat b + 7) mod 2 ^ 64) 0 bs)),
      mh_code = (\<lambda>h. 0x12),
      cid_new = (\<lambda>v codec h. Some (Inr (codec, of_nat (from_be h)))),
      cid_new_v0 = (\<lambda>h. Some (Inl (of_nat (from_be h)))),
      cid_new_v1 = (\<lambda>codec h. Inr (codec, of_nat (from_be h))),
      cid_version = (\<lambda>c. case c of Inl _ \<Rightarrow> V0 | Inr _ \<Rightarrow> V1),
      cid_codec = (\<lambda>c. case c of Inl _ \<Rightarrow> 0x70 | Inr (codec, _) \<Rightarrow> codec),
      cid_hash = (\<lambda>c. case c of Inl h \<Rightarrow> be_bytes 8 (unat h) | Inr (_, h) \<Rightarrow> be_bytes 8 (unat h)),
      ipld_size = 112\<rparr>"

lemma from_be_bytes_u64 [simp]: "(of_nat (from_be (be_bytes 8 (unat (w :: u64)))) :: u64) = w"
proof -
  have "unat w < 256 ^ 8" using unsigned_less [of w, where 'a = nat] by simp
  then show ?thesis by (simp add: from_be_bytes_id)
qed

lemma cid_laws_crate64: "cid_laws crate64"
  by (auto simp: cid_laws_def crate64_def split: sum.splits)

lemma cid_v0_laws_crate64: "cid_v0_laws crate64"
  by (auto simp: cid_v0_laws_def crate64_def codec_DAG_PB_def split: sum.splits)

subsection \<open>Properties\<close>

definition ascii_upper :: "string \<Rightarrow> string" where
  "ascii_upper s =
     map (\<lambda>c. if 97 \<le> (of_char c :: nat) \<and> (of_char c :: nat) \<le> 122 then char_of ((of_char c :: nat) - 32) else c) s"

text \<open>
  The printed name of every hash algorithm parses back to it, whatever the case of its
  letters: \<open>FromStr\<close> inverts \<open>Display\<close>, if \<open>to_uppercase\<close> acts on ASCII strings as documented.
\<close>

theorem hash_from_str_name:
  assumes "\<forall>s. (\<forall>c \<in> set s. (of_char c :: nat) < 128) \<longrightarrow> upper s = ascii_upper s"
    and "\<forall>c \<in> set s. (of_char c :: nat) < 128" "ascii_upper s = ascii_upper (hash_name a)"
  shows "hash_from_str upper s = Ok a"
proof -
  have "upper s = ascii_upper (hash_name a)" using assms by metis
  then show "hash_from_str upper s = Ok a"
    by (cases a) (simp_all add: hash_from_str_def ascii_upper_def of_char_def char_of_def bit_0 Let_def)
qed

theorem hash_from_str_name_witness:
  "hash_from_str ascii_upper ''blake2B-256'' = Ok Blake2b256 \<and>
   hash_from_str ascii_upper (hash_name Sha3_512) = Ok Sha3_512"
proof
  show "hash_from_str ascii_upper ''blake2B-256'' = Ok Blake2b256"
    by (rule hash_from_str_name) (simp_all add: ascii_upper_def of_char_def char_of_def bit_0)
  show "hash_from_str ascii_upper (hash_name Sha3_512) = Ok Sha3_512"
    by (rule hash_from_str_name) (simp_all add: of_char_def)
qed

text \<open>
  A CIDv0 survives the conversion to CIDv1 and back, and a CIDv1 converts to CIDv0 only
  when \<open>can_be_v0\<close> says so.
\<close>

theorem to_v0_to_v1:
  assumes "cid_v0_laws E"
  shows "(is_v0 E c \<longrightarrow> obind (to_v1 E c) (to_v0 E) = Ok c) \<and>
    (to_v0 E c = Ok d \<longrightarrow> can_be_v0 E c)"
  using assms
  by (auto simp: cid_v0_laws_def is_v0_def to_v1_def to_v0_def can_be_v0_def split: if_splits)

theorem to_v0_to_v1_witness:
  "obind (to_v1 crate64 (Inl 5)) (to_v0 crate64) = Ok (Inl 5)"
  using to_v0_to_v1 [OF cid_v0_laws_crate64, of "Inl 5"] by (simp add: is_v0_def crate64_def)

end
