(* ===== verification/Ipld_Core.thy ===== *)
theory Ipld_Core
  imports Cid_Core
begin

text \<open>
  The IPLD data model (\<open>ipfrs-core/src/ipld.rs\<close>, the enum \<open>Ipld\<close> and its accessors).

  An \<open>i128\<close> is an \<^typ>\<open>int\<close> (the range is part of \<open>ipld_ok\<close> in the codec theory), an \<open>f64\<close> is
  its bit pattern, a \<open>String\<close> its UTF-8 bytes, a \<open>BTreeMap\<close> an ordered association list.
\<close>

datatype 'c Ipld =
    Null
  | Bool bool
  | Integer int
  | Float u64
  | String string
  | Bytes bytes
  | List "'c Ipld list"
  | Map "(string \<times> 'c Ipld) list"
  | Link 'c

definition link :: "'c \<Rightarrow> 'c Ipld" where
  "link cid = Link cid"

definition is_link :: "'c Ipld \<Rightarrow> bool" where
  "is_link i \<longleftrightarrow> (case i of Link _ \<Rightarrow> True | _ \<Rightarrow> False)"

definition as_link :: "'c Ipld \<Rightarrow> 'c option" where
  "as_link i = (case i of Link c \<Rightarrow> Some c | _ \<Rightarrow> None)"

text \<open>\<open>links\<close> and \<open>collect_links\<close>: the recursion appends to the vector it is given.\<close>

fun collect_links :: "'c Ipld \<Rightarrow> 'c list \<Rightarrow> 'c list"
  and collect_links_list :: "'c Ipld list \<Rightarrow> 'c list \<Rightarrow> 'c list"
  and collect_links_map :: "(string \<times> 'c Ipld) list \<Rightarrow> 'c list \<Rightarrow> 'c list" where
  "collect_links (Link c) result = result @ [c]"
| "collect_links (List l) result = collect_links_list l result"
| "collect_links (Map m) result = collect_links_map m result"
| "collect_links _ result = result"
| "collect_links_list [] result = result"
| "collect_links_list (i # is) result = collect_links_list is (collect_links i result)"
| "collect_links_map [] result = result"
| "collect_links_map ((k, v) # m) result = collect_links_map m (collect_links v result)"

definition links :: "'c Ipld \<Rightarrow> 'c list" where
  "links i = collect_links i []"

definition is_null :: "'c Ipld \<Rightarrow> bool" where
  "is_null i \<longleftrightarrow> (case i of Null \<Rightarrow> True | _ \<Rightarrow> False)"

definition is_bool :: "'c Ipld \<Rightarrow> bool" where
  "is_bool i \<longleftrightarrow> (case i of Bool _ \<Rightarrow> True | _ \<Rightarrow> False)"

definition is_integer :: "'c Ipld \<Rightarrow> bool" where
  "is_integer i \<longleftrightarrow> (case i of Integer _ \<Rightarrow> True | _ \<Rightarrow> False)"

definition is_float :: "'c Ipld \<Rightarrow> bool" where
  "is_float i \<longleftrightarrow> (case i of Float _ \<Rightarrow> True | _ \<Rightarrow> False)"

definition is_string :: "'c Ipld \<Rightarrow> bool" where
  "is_string i \<longleftrightarrow> (case i of String _ \<Rightarrow> True | _ \<Rightarrow> False)"

definition is_bytes :: "'c Ipld \<Rightarrow> bool" where
  "is_bytes i \<longleftrightarrow> (case i of Bytes _ \<Rightarrow> True | _ \<Rightarrow> False)"

definition is_list :: "'c Ipld \<Rightarrow> bool" where
  "is_list i \<longleftrightarrow> (case i of List _ \<Rightarrow> True | _ \<Rightarrow> False)"

definition is_map :: "'c Ipld \<Rightarrow> bool" where
  "is_map i \<longleftrightarrow> (case i of Map _ \<Rightarrow> True | _ \<Rightarrow> False)"

definition as_bool :: "'c Ipld \<Rightarrow> bool option" where
  "as_bool i = (case i of Bool b \<Rightarrow> Some b | _ \<Rightarrow> None)"

definition as_integer :: "'c Ipld \<Rightarrow> int option" where
  "as_integer i = (case i of Integer n \<Rightarrow> Some n | _ \<Rightarrow> None)"

definition as_float :: "'c Ipld \<Rightarrow> u64 option" where
  "as_float i = (case i of Float f \<Rightarrow> Some f | _ \<Rightarrow> None)"

definition as_string :: "'c Ipld \<Rightarrow> string option" where
  "as_string i = (case i of String s \<Rightarrow> Some s | _ \<Rightarrow> None)"

definition as_bytes :: "'c Ipld \<Rightarrow> bytes option" where
  "as_bytes i = (case i of Bytes b \<Rightarrow> Some b | _ \<Rightarrow> None)"

definition as_list :: "'c Ipld \<Rightarrow> 'c Ipld list option" where
  "as_list i = (case i of List l \<Rightarrow> Some l | _ \<Rightarrow> None)"

definition as_map :: "'c Ipld \<Rightarrow> (string \<times> 'c Ipld) list option" where
  "as_map i = (case i of Map m \<Rightarrow> Some m | _ \<Rightarrow> None)"

definition ipld_get :: "'c Ipld \<Rightarrow> string \<Rightarrow> 'c Ipld option" where
  "ipld_get i key = Option.bind (as_map i) (\<lambda>m. bt_get m key)"

definition ipld_index :: "'c Ipld \<Rightarrow> nat \<Rightarrow> 'c Ipld option" where
  "ipld_index i idx =
     Option.bind (as_list i) (\<lambda>l. if idx < length l then Some (l ! idx) else None)"

definition ipld_len :: "'c Ipld \<Rightarrow> nat" where
  "ipld_len i =
     (case i of List l \<Rightarrow> length l | Map m \<Rightarrow> length m | String s \<Rightarrow> length s
      | Bytes b \<Rightarrow> length b | _ \<Rightarrow> 0)"

definition ipld_is_empty :: "'c Ipld \<Rightarrow> bool" where
  "ipld_is_empty i \<longleftrightarrow>
     (case i of Null \<Rightarrow> True | List l \<Rightarrow> l = [] | Map m \<Rightarrow> m = [] | String s \<Rightarrow> s = []
      | Bytes b \<Rightarrow> b = [] | _ \<Rightarrow> False)"

definition ipld_type_name :: "'c Ipld \<Rightarrow> string" where
  "ipld_type_name i =
     (case i of Null \<Rightarrow> ''null'' | Bool _ \<Rightarrow> ''bool'' | Integer _ \<Rightarrow> ''integer''
      | Float _ \<Rightarrow> ''float'' | String _ \<Rightarrow> ''string'' | Bytes _ \<Rightarrow> ''bytes''
      | List _ \<Rightarrow> ''list'' | Map _ \<Rightarrow> ''map'' | Link _ \<Rightarrow> ''link'')"

subsection \<open>The links of a value as a set\<close>

text \<open>The reference notion: the links of a value are the leaves of its tree that are links.\<close>

inductive link_in :: "'c \<Rightarrow> 'c Ipld \<Rightarrow> bool" where
  here: "link_in c (Link c)"
| in_list: "i \<in> set l \<Longrightarrow> link_in c i \<Longrightarrow> link_in c (List l)"
| in_map: "(k, v) \<in> set m \<Longrightarrow> link_in c v \<Longrightarrow> link_in c (Map m)"

inductive_simps link_in_simps [simp]:
  "link_in c Null" "link_in c (Bool b)" "link_in c (Integer n)" "link_in c (Float f)"
  "link_in c (String s)" "link_in c (Bytes bs)" "link_in c (List l)" "link_in c (Map m)"
  "link_in c (Link d)"

lemma set_collect_links:
  "set (collect_links i result) = set result \<union> {c. link_in c i}"
  "set (collect_links_list l result) = set result \<union> {c. \<exists>i \<in> set l. link_in c i}"
  "set (collect_links_map m result) = set result \<union> {c. \<exists>(k, v) \<in> set m. link_in c v}"
  by (induction i result and l result and m result
      rule: collect_links_collect_links_list_collect_links_map.induct) auto

lemma as_link_Link [simp]: "as_link (Link c) = Some c"
  by (simp add: as_link_def)

lemma as_link_eq_Some: "as_link i = Some c \<longleftrightarrow> i = Link c"
  by (cases i) (auto simp: as_link_def)

end
