(* ===== verification/Dag_Cbor.thy ===== *)
theory Dag_Cbor
  imports Ipld_Core
begin

unbundle bit_operations_syntax

text \<open>
  The DAG-CBOR codec (\<open>ipfrs-core/src/ipld.rs\<close>, \<open>encode_dag_cbor\<close> to \<open>f16_to_f64\<close>).

  The encoder appends to a buffer; its model returns the bytes appended. The decoder reads
  from a byte slice and is recursive: its model takes the nesting depth it may still descend
  as fuel, and \<open>from_dag_cbor\<close> starts it with one more than the length of the input.
  \<open>decode_total\<close> shows that this fuel never runs out. Allocations larger than \<open>isize::MAX\<close>
  bytes panic, as \<open>Vec\<close> does; running out of memory below that limit and the size of the
  call stack are not modelled.
\<close>

subsection \<open>Encoding\<close>

definition CID_TAG :: u64 where "CID_TAG = 42"

definition encode_cbor_length :: "u8 \<Rightarrow> u64 \<Rightarrow> bytes" where
  "encode_cbor_length major_type len =
     (let mt = push_bit 5 major_type in
      if len < 24 then [mt OR ucast len]
      else if len < 256 then [mt OR 24, ucast len]
      else if len < 65536 then (mt OR 25) # be_bytes 2 (unat len)
      else if len < 4294967296 then (mt OR 26) # be_bytes 4 (unat len)
      else (mt OR 27) # be_bytes 8 (unat len))"

definition encode_cbor_tag :: "u64 \<Rightarrow> bytes" where
  "encode_cbor_tag tag = encode_cbor_length 6 tag"

definition encode_cbor_integer :: "int \<Rightarrow> bytes" where
  "encode_cbor_integer value =
     (if 0 \<le> value then encode_cbor_length 0 (word_of_int value)
      else encode_cbor_length 1 (word_of_int (- 1 - value)))"

function encode_dag_cbor :: "'c cid_crate \<Rightarrow> 'c Ipld \<Rightarrow> bytes" where
  "encode_dag_cbor E Null = [0xf6]"
| "encode_dag_cbor E (Bool b) = [if b then 0xf5 else 0xf4]"
| "encode_dag_cbor E (Integer i) = encode_cbor_integer i"
| "encode_dag_cbor E (Float f) = 0xfb # be_bytes 8 (unat f)"
| "encode_dag_cbor E (String s) = encode_cbor_length 3 (of_nat (length s)) @ str_bytes s"
| "encode_dag_cbor E (Bytes b) = encode_cbor_length 2 (of_nat (length b)) @ b"
| "encode_dag_cbor E (List list) =
     encode_cbor_length 4 (of_nat (length list)) @ concat (map (encode_dag_cbor E) list)"
| "encode_dag_cbor E (Map map') =
     encode_cbor_length 5 (of_nat (length map')) @
     concat (map (\<lambda>e. encode_cbor_length 3 (of_nat (length (fst e))) @ str_bytes (fst e) @
                       encode_dag_cbor E (snd e)) map')"
| "encode_dag_cbor E (Link cid) =
     encode_cbor_tag CID_TAG @
     (let prefixed = 0 # cid_to_bytes E cid
      in encode_cbor_length 2 (of_nat (length prefixed)) @ prefixed)"
  by pat_completeness auto
termination
proof (relation "measure (\<lambda>(E, i). size i)", goal_cases)
  case 1
  then show ?case by simp
next
  case (2 E list x)
  then show ?case by (simp add: size_list_estimation' less_Suc_eq_le)
next
  case (3 E map' e)
  then have "size (snd e) < size_list (size_prod (\<lambda>_. 0) size) map'"
    by (intro size_list_estimation [of e]) (auto simp: size_prod_simp split: prod.splits)
  then show ?case by simp
qed

definition to_dag_cbor :: "'c cid_crate \<Rightarrow> 'c Ipld \<Rightarrow> (core_error, bytes) outcome" where
  "to_dag_cbor E i = Ok (encode_dag_cbor E i)"

subsection \<open>Decoding\<close>

definition decode_cbor_uint :: "u8 \<Rightarrow> bytes \<Rightarrow> (core_error, u64 \<times> bytes) outcome" where
  "decode_cbor_uint additional_info rs =
     (if additional_info \<le> 23 then Ok (ucast additional_info, rs)
      else if additional_info = 24 then
        (case read_exact 1 rs of Some (buf, rs) \<Rightarrow> Ok (of_nat (from_be buf), rs)
         | None \<Rightarrow> Err (Deserialization ''Failed to read u8''))
      else if additional_info = 25 then
        (case read_exact 2 rs of Some (buf, rs) \<Rightarrow> Ok (of_nat (from_be buf), rs)
         | None \<Rightarrow> Err (Deserialization ''Failed to read u16''))
      else if additional_info = 26 then
        (case read_exact 4 rs of Some (buf, rs) \<Rightarrow> Ok (of_nat (from_be buf), rs)
         | None \<Rightarrow> Err (Deserialization ''Failed to read u32''))
      else if additional_info = 27 then
        (case read_exact 8 rs of Some (buf, rs) \<Rightarrow> Ok (of_nat (from_be buf), rs)
         | None \<Rightarrow> Err (Deserialization ''Failed to read u64''))
      else Err (Deserialization ''Invalid additional info for integer''))"

text \<open>
  \<open>f16_to_f64\<close> works on the bit patterns. The loop that normalises a subnormal shifts the
  fraction left until bit 10 is set; it runs at most ten times on a nonzero 10-bit fraction.
\<close>

fun f16_normalise :: "nat \<Rightarrow> u64 \<Rightarrow> int \<Rightarrow> u64 \<times> int" where
  "f16_normalise 0 f e = (f, e)"
| "f16_normalise (Suc n) f e =
     (if f AND 0x400 = 0 then f16_normalise n (push_bit 1 f) (e - 1) else (f, e))"

definition f16_to_f64 :: "16 word \<Rightarrow> u64" where
  "f16_to_f64 bits =
     (let sign = ucast (drop_bit 15 bits AND 1) :: u64;
          exp = uint (drop_bit 10 bits AND 0x1f);
          frac = ucast (bits AND 0x3ff) :: u64
      in if exp = 0 then
           if frac = 0 then push_bit 63 sign
           else (let (f, e) = f16_normalise 11 frac (- 14);
                     new_exp = word_of_int (e + 1023) :: u64;
                     new_frac = push_bit 42 (f AND 0x3ff)
                 in push_bit 63 sign OR push_bit 52 new_exp OR new_frac)
         else if exp = 31 then
           if frac = 0 then push_bit 63 sign OR push_bit 52 0x7ff
           else push_bit 63 sign OR push_bit 52 0x7ff OR push_bit 42 frac
         else (let new_exp = word_of_int (exp - 15 + 1023) :: u64;
                   new_frac = push_bit 42 frac
               in push_bit 63 sign OR push_bit 52 new_exp OR new_frac))"

text \<open>
  The cast \<open>f as f64\<close> of an \<open>f32\<close>, on bit patterns: exact for every number and infinity. A NaN
  keeps its sign and payload and becomes quiet, which is what the hardware conversion does.
\<close>

fun f32_normalise :: "nat \<Rightarrow> u64 \<Rightarrow> int \<Rightarrow> u64 \<times> int" where
  "f32_normalise 0 f e = (f, e)"
| "f32_normalise (Suc n) f e =
     (if f AND 0x800000 = 0 then f32_normalise n (push_bit 1 f) (e - 1) else (f, e))"

definition f32_to_f64 :: "u32 \<Rightarrow> u64" where
  "f32_to_f64 bits =
     (let sign = ucast (drop_bit 31 bits AND 1) :: u64;
          exp = uint (drop_bit 23 bits AND 0xff);
          frac = ucast (bits AND 0x7fffff) :: u64
      in if exp = 0 then
           if frac = 0 then push_bit 63 sign
           else (let (f, e) = f32_normalise 24 frac (- 126)
                 in push_bit 63 sign OR push_bit 52 (word_of_int (e + 1023))
                    OR push_bit 29 (f AND 0x7fffff))
         else if exp = 255 then
           if frac = 0 then push_bit 63 sign OR push_bit 52 0x7ff
           else push_bit 63 sign OR push_bit 52 0x7ff OR push_bit 51 1 OR push_bit 29 frac
         else push_bit 63 sign OR push_bit 52 (word_of_int (exp - 127 + 1023)) OR push_bit 29 frac)"

type_synonym 'c cbor_decoder = "bytes \<Rightarrow> (core_error, 'c Ipld \<times> bytes) outcome"

definition decode_bytes :: "u8 \<Rightarrow> 'c cbor_decoder" where
  "decode_bytes additional_info rs =
     obind (decode_cbor_uint additional_info rs) (\<lambda>(len, rs).
       if isize_max < unat len then Panic
       else case read_exact (unat len) rs of
              None \<Rightarrow> Err (Deserialization ''Failed to read bytes'')
            | Some (bs, rs) \<Rightarrow> Ok (Bytes bs, rs))"

definition decode_text :: "u8 \<Rightarrow> 'c cbor_decoder" where
  "decode_text additional_info rs =
     obind (decode_cbor_uint additional_info rs) (\<lambda>(len, rs).
       if isize_max < unat len then Panic
       else case read_exact (unat len) rs of
              None \<Rightarrow> Err (Deserialization ''Failed to read string'')
            | Some (bs, rs) \<Rightarrow>
                (case from_utf8 bs of None \<Rightarrow> Err (Deserialization ''Invalid UTF-8'')
                 | Some s \<Rightarrow> Ok (String s, rs)))"

primrec decode_items :: "'c cbor_decoder \<Rightarrow> nat \<Rightarrow> bytes \<Rightarrow> (core_error, 'c Ipld list \<times> bytes) outcome" where
  "decode_items dec 0 rs = Ok ([], rs)"
| "decode_items dec (Suc n) rs =
     obind (dec rs) (\<lambda>(x, rs). obind (decode_items dec n rs) (\<lambda>(xs, rs). Ok (x # xs, rs)))"

definition decode_array :: "'c cid_crate \<Rightarrow> 'c cbor_decoder \<Rightarrow> u8 \<Rightarrow> 'c cbor_decoder" where
  "decode_array E dec additional_info rs =
     obind (decode_cbor_uint additional_info rs) (\<lambda>(len, rs).
       if isize_max < unat len * ipld_size E then Panic
       else obind (decode_items dec (unat len) rs) (\<lambda>(list, rs). Ok (List list, rs)))"

primrec decode_entries ::
    "'c cbor_decoder \<Rightarrow> nat \<Rightarrow> (string \<times> 'c Ipld) list \<Rightarrow> bytes
       \<Rightarrow> (core_error, (string \<times> 'c Ipld) list \<times> bytes) outcome" where
  "decode_entries dec 0 m rs = Ok (m, rs)"
| "decode_entries dec (Suc n) m rs =
     obind (dec rs) (\<lambda>(key, rs).
       case key of
         String key_str \<Rightarrow>
           obind (dec rs) (\<lambda>(v, rs). decode_entries dec n (bt_insert key_str v m) rs)
       | _ \<Rightarrow> Err (Deserialization ''Map keys must be strings in IPLD''))"

definition decode_map :: "'c cbor_decoder \<Rightarrow> u8 \<Rightarrow> 'c cbor_decoder" where
  "decode_map dec additional_info rs =
     obind (decode_cbor_uint additional_info rs) (\<lambda>(len, rs).
       obind (decode_entries dec (unat len) [] rs) (\<lambda>(m, rs). Ok (Map m, rs)))"

definition decode_tag :: "'c cid_crate \<Rightarrow> 'c cbor_decoder \<Rightarrow> u8 \<Rightarrow> 'c cbor_decoder" where
  "decode_tag E dec additional_info rs =
     obind (decode_cbor_uint additional_info rs) (\<lambda>(tag, rs).
       if tag = CID_TAG then
         obind (dec rs) (\<lambda>(bytes_ipld, rs).
           case bytes_ipld of
             Bytes bs \<Rightarrow>
               (let bs = (case bs of b # bs' \<Rightarrow> if b = 0 then bs' else bs | [] \<Rightarrow> bs)
                in case cid_try_from E bs of
                     None \<Rightarrow> Err (Deserialization ''Invalid CID'')
                   | Some cid \<Rightarrow> Ok (Link cid, rs))
           | _ \<Rightarrow> Err (Deserialization ''CID tag must wrap bytes''))
       else dec rs)"

definition decode_simple :: "u8 \<Rightarrow> 'c cbor_decoder" where
  "decode_simple additional_info rs =
     (if additional_info = 20 then Ok (Bool False, rs)
      else if additional_info = 21 then Ok (Bool True, rs)
      else if additional_info = 22 then Ok (Null, rs)
      else if additional_info = 25 then
        (case read_exact 2 rs of None \<Rightarrow> Err (Deserialization ''Failed to read f16'')
         | Some (bs, rs) \<Rightarrow> Ok (Float (f16_to_f64 (of_nat (from_be bs))), rs))
      else if additional_info = 26 then
        (case read_exact 4 rs of None \<Rightarrow> Err (Deserialization ''Failed to read f32'')
         | Some (bs, rs) \<Rightarrow> Ok (Float (f32_to_f64 (of_nat (from_be bs))), rs))
      else if additional_info = 27 then
        (case read_exact 8 rs of None \<Rightarrow> Err (Deserialization ''Failed to read f64'')
         | Some (bs, rs) \<Rightarrow> Ok (Float (of_nat (from_be bs)), rs))
      else Err (Deserialization ''Unknown simple value''))"

text \<open>One call of \<open>decode_dag_cbor\<close>; \<open>dec\<close> is the recursive call.\<close>

definition decode_step :: "'c cid_crate \<Rightarrow> 'c cbor_decoder \<Rightarrow> 'c cbor_decoder" where
  "decode_step E dec rs =
     (case read_exact 1 rs of
        None \<Rightarrow> Err (Deserialization ''Failed to read CBOR'')
      | Some (first_byte, rs) \<Rightarrow>
          (let major_type = drop_bit 5 (hd first_byte);
               additional_info = hd first_byte AND 0x1f
           in if major_type = 0 then
                obind (decode_cbor_uint additional_info rs) (\<lambda>(v, rs). Ok (Integer (uint v), rs))
              else if major_type = 1 then
                obind (decode_cbor_uint additional_info rs) (\<lambda>(v, rs). Ok (Integer (- 1 - uint v), rs))
              else if major_type = 2 then decode_bytes additional_info rs
              else if major_type = 3 then decode_text additional_info rs
              else if major_type = 4 then decode_array E dec additional_info rs
              else if major_type = 5 then decode_map dec additional_info rs
              else if major_type = 6 then decode_tag E dec additional_info rs
              else if major_type = 7 then decode_simple additional_info rs
              else Err (Deserialization ''Unknown CBOR major type'')))"

primrec decode_dag_cbor :: "'c cid_crate \<Rightarrow> nat \<Rightarrow> 'c cbor_decoder" where
  "decode_dag_cbor E 0 = (\<lambda>rs. Diverge)"
| "decode_dag_cbor E (Suc fuel) = decode_step E (decode_dag_cbor E fuel)"

definition from_dag_cbor :: "'c cid_crate \<Rightarrow> bytes \<Rightarrow> (core_error, 'c Ipld) outcome" where
  "from_dag_cbor E data =
     obind (decode_dag_cbor E (Suc (length data)) data) (\<lambda>(i, rs). Ok i)"

subsection \<open>Headers\<close>

lemma unat_ucast_u8: "unat (ucast (w :: u64) :: u8) = unat w mod 256"
  by (simp add: unsigned_ucast_eq take_bit_eq_mod)

lemma unat_ucast_u64: "unat (ucast (b :: u8) :: u64) = unat b"
  by (simp add: unsigned_ucast_eq take_bit_eq_mod) (use unat_byte_less [of b] in simp)

lemma header_split:
  fixes mt ai :: u8
  assumes "mt < 8" "ai < 32"
  shows "drop_bit 5 (push_bit 5 mt OR ai) = mt" and "(push_bit 5 mt OR ai) AND 0x1f = ai"
proof -
  have m: "take_bit 3 mt = mt" and a: "take_bit 5 ai = ai"
    using assms by (simp_all add: word_unat_eq_iff unsigned_take_bit_eq take_bit_eq_mod word_less_nat_alt unat_mod)
  show "drop_bit 5 (push_bit 5 mt OR ai) = mt"
  proof (rule bit_word_eqI)
    fix n assume "n < LENGTH(8)"
    then show "bit (drop_bit 5 (push_bit 5 mt OR ai)) n = bit mt n"
      by (subst (2) m [symmetric], subst (1) a [symmetric])
        (auto simp: bit_simps)
  qed
  have e: "(0x1f :: u8) = mask 5" by (simp add: mask_eq_exp_minus_1)
  show "(push_bit 5 mt OR ai) AND 0x1f = ai"
    unfolding e
  proof (rule bit_word_eqI)
    fix n assume "n < LENGTH(8)"
    show "bit ((push_bit 5 mt OR ai) AND mask 5) n = bit ai n"
      by (subst (2) a [symmetric]) (auto simp: bit_simps)
  qed
qed

lemma from_be_byte: "from_be [b] = unat b"
  by (simp add: from_be_def)

lemma read_exact_1 [simp]: "read_exact 1 (b # rs) = Some ([b], rs)"
  "read_exact (Suc 0) (b # rs) = Some ([b], rs)"
  by (simp_all add: read_exact_def)

text \<open>The additional information and the bytes that \<open>encode_cbor_length\<close> puts after the major type.\<close>

definition cbor_arg :: "u64 \<Rightarrow> u8 \<times> bytes" where
  "cbor_arg len =
     (if len < 24 then (ucast len, [])
      else if len < 256 then (24, [ucast len])
      else if len < 65536 then (25, be_bytes 2 (unat len))
      else if len < 4294967296 then (26, be_bytes 4 (unat len))
      else (27, be_bytes 8 (unat len)))"

lemma encode_cbor_length_arg:
  "encode_cbor_length mt len = (push_bit 5 mt OR fst (cbor_arg len)) # snd (cbor_arg len)"
  by (simp add: encode_cbor_length_def cbor_arg_def Let_def)

lemma cbor_arg_less: "fst (cbor_arg len) < 32"
  by (auto simp: cbor_arg_def word_less_nat_alt unat_ucast_u8)

lemma decode_cbor_arg:
  "decode_cbor_uint (fst (cbor_arg len)) (snd (cbor_arg len) @ rs) = Ok (len, rs)"
proof -
  have l: "unat len < 256 ^ 8" using unsigned_less [of len, where 'a = nat] by simp
  consider (a) "len < 24" | (b) "24 \<le> len" "len < 256" | (c) "256 \<le> len" "len < 65536"
    | (d) "65536 \<le> len" "len < 4294967296" | (e) "4294967296 \<le> len"
    by (metis linorder_not_less)
  then show ?thesis
  proof cases
    case a
    then have "unat len mod 256 = unat len" by (simp add: word_less_nat_alt)
    then have "(ucast len :: u8) \<le> 23" "ucast (ucast len :: u8) = len"
      using a by (auto simp: word_le_nat_alt word_less_nat_alt unat_ucast_u8 unat_ucast_u64 intro!: word_unat_eq_iff [THEN iffD2])
    with a show ?thesis by (simp add: cbor_arg_def decode_cbor_uint_def)
  next
    case b
    then have "unat len mod 256 = unat len" by (simp add: word_less_nat_alt)
    then have "(of_nat (unat (ucast len :: u8)) :: u64) = len" by (simp add: unat_ucast_u8)
    with b show ?thesis
      by (simp add: cbor_arg_def decode_cbor_uint_def from_be_byte word_less_nat_alt word_le_nat_alt)
  next
    case c
    then have "unat len < 256 ^ 2" by (simp add: word_less_nat_alt)
    with c show ?thesis
      by (simp add: cbor_arg_def decode_cbor_uint_def from_be_bytes_id word_less_nat_alt word_le_nat_alt)
  next
    case d
    then have "unat len < 256 ^ 4" by (simp add: word_less_nat_alt)
    with d show ?thesis
      by (simp add: cbor_arg_def decode_cbor_uint_def from_be_bytes_id word_less_nat_alt word_le_nat_alt)
  next
    case e
    with l show ?thesis
      by (simp add: cbor_arg_def decode_cbor_uint_def from_be_bytes_id word_less_nat_alt word_le_nat_alt)
  qed
qed

lemma decode_step_header:
  assumes "mt < 8"
  shows "decode_step E dec (encode_cbor_length mt len @ rs) =
    (let ai = fst (cbor_arg len); rs = snd (cbor_arg len) @ rs in
     if mt = 0 then Ok (Integer (uint len), drop (length (snd (cbor_arg len))) rs)
     else if mt = 1 then Ok (Integer (- 1 - uint len), drop (length (snd (cbor_arg len))) rs)
     else if mt = 2 then decode_bytes ai rs
     else if mt = 3 then decode_text ai rs
     else if mt = 4 then decode_array E dec ai rs
     else if mt = 5 then decode_map dec ai rs
     else if mt = 6 then decode_tag E dec ai rs
     else decode_simple ai rs)"
proof -
  have "mt = 7 \<or> mt = 6 \<or> mt = 5 \<or> mt = 4 \<or> mt = 3 \<or> mt = 2 \<or> mt = 1 \<or> mt = 0"
    using assms by (simp add: word_less_nat_alt word_unat_eq_iff) arith
  then show ?thesis
    using header_split [OF assms cbor_arg_less, of len]
    by (auto simp: decode_step_def encode_cbor_length_arg decode_cbor_arg Let_def)
qed

subsection \<open>Round trip\<close>

text \<open>
  The values that the codec carries faithfully: integers between \<open>-2^64\<close> and \<open>2^64 - 1\<close>, valid
  strings, ordered maps, and vectors no longer than Rust can hold.
\<close>

fun ipld_ok :: "'c cid_crate \<Rightarrow> 'c Ipld \<Rightarrow> bool" where
  "ipld_ok E Null = True"
| "ipld_ok E (Bool b) = True"
| "ipld_ok E (Integer i) = (- (2 ^ 64) \<le> i \<and> i < 2 ^ 64)"
| "ipld_ok E (Float f) = True"
| "ipld_ok E (String s) = (valid_str s \<and> length s \<le> isize_max)"
| "ipld_ok E (Bytes b) = (length b \<le> isize_max)"
| "ipld_ok E (List l) =
     (length l * ipld_size E \<le> isize_max \<and> length l < 2 ^ 64 \<and> list_all (ipld_ok E) l)"
| "ipld_ok E (Map m) =
     (bt_ok m \<and> length m < 2 ^ 64 \<and>
      list_all (\<lambda>e. valid_str (fst e) \<and> length (fst e) \<le> isize_max) m \<and>
      list_all (ipld_ok E) (map snd m))"
| "ipld_ok E (Link c) =
     (length (cid_to_bytes E c) < isize_max \<and> cid_try_from E (cid_to_bytes E c) = Some c)"

lemma size_in_list: "x \<in> set l \<Longrightarrow> size x < size (List l)"
  by (simp add: size_list_estimation' less_Suc_eq_le)

lemma size_in_map: "e \<in> set m \<Longrightarrow> size (snd e) < size (Map m)"
  by (auto simp: less_Suc_eq_le intro!: size_list_estimation' [of e] split: prod.splits)
    (cases e, simp)

lemma unat_of_nat_u64: "n < 2 ^ 64 \<Longrightarrow> unat (of_nat n :: u64) = n"
  by (simp add: unat_of_nat)

lemma unat_of_nat_isize [simp]: "n \<le> isize_max \<Longrightarrow> unat (of_nat n :: u64) = n"
  by (rule unat_of_nat_u64) (simp add: isize_max_def)

lemma decode_items_roundtrip:
  "(\<And>x rs. x \<in> set l \<Longrightarrow> dec (enc x @ rs) = Ok (x, rs)) \<Longrightarrow>
   decode_items dec (length l) (concat (map enc l) @ rs) = Ok (l, rs)"
  by (induction l) auto

lemma decode_entries_roundtrip:
  assumes "\<And>e rs. e \<in> set m \<Longrightarrow> dec (kenc (fst e) @ rs) = Ok (String (fst e), rs)"
    and "\<And>e rs. e \<in> set m \<Longrightarrow> dec (enc (snd e) @ rs) = Ok (snd e, rs)"
    and "bt_ok (acc @ m)"
  shows "decode_entries dec (length m) acc (concat (map (\<lambda>e. kenc (fst e) @ enc (snd e)) m) @ rs)
    = Ok (acc @ m, rs)"
  using assms
proof (induction m arbitrary: acc)
  case Nil
  then show ?case by simp
next
  case (Cons e m)
  have "bt_insert (fst e) (snd e) acc = acc @ [e]"
    using Cons.prems(3) by (subst bt_insert_snoc) (auto simp: bt_ok_def sorted_wrt_append)
  moreover have "decode_entries dec (length m) (acc @ [e])
      (concat (map (\<lambda>e. kenc (fst e) @ enc (snd e)) m) @ rs) = Ok ((acc @ [e]) @ m, rs)"
    using Cons.prems by (intro Cons.IH) auto
  ultimately show ?case using Cons.prems(1,2) by simp
qed

lemma decode_text_roundtrip:
  "valid_str s \<Longrightarrow> length s \<le> isize_max \<Longrightarrow>
   decode_step E dec (encode_cbor_length 3 (of_nat (length s)) @ str_bytes s @ rs) = Ok (String s, rs)"
  by (simp add: decode_step_header decode_text_def decode_cbor_arg Let_def)

lemma decode_bytes_roundtrip:
  "length b \<le> isize_max \<Longrightarrow>
   decode_step E dec (encode_cbor_length 2 (of_nat (length b)) @ b @ rs) = Ok (Bytes b, rs)"
  by (simp add: decode_step_header decode_bytes_def decode_cbor_arg Let_def)

lemma uint_word_of_int_u64: "0 \<le> i \<Longrightarrow> i < 2 ^ 64 \<Longrightarrow> uint (word_of_int i :: u64) = i"
  by (simp add: uint_word_of_int)

lemma decode_integer_roundtrip:
  assumes "- (2 ^ 64) \<le> i" "i < 2 ^ 64"
  shows "decode_step E dec (encode_cbor_integer i @ rs) = Ok (Integer i, rs)"
proof (cases "0 \<le> i")
  case True
  with assms(2) uint_word_of_int_u64 [of i] show ?thesis
    by (simp add: encode_cbor_integer_def decode_step_header Let_def)
next
  case False
  with assms(1) have "uint (word_of_int (- 1 - i) :: u64) = - 1 - i"
    by (intro uint_word_of_int_u64) auto
  with False show ?thesis
    by (simp add: encode_cbor_integer_def decode_step_header Let_def del: of_int_diff)
qed

lemma decode_float_roundtrip:
  "decode_step E dec (0xfb # be_bytes 8 (unat f) @ rs) = Ok (Float f, rs)"
proof -
  have "unat f < 256 ^ 8" using unsigned_less [of f, where 'a = nat] by simp
  then show ?thesis
    by (simp add: decode_step_def decode_simple_def Let_def from_be_bytes_id)
qed

lemma decode_link_roundtrip:
  assumes "length (cid_to_bytes E c) < isize_max" "cid_try_from E (cid_to_bytes E c) = Some c"
  shows "decode_step E (decode_step E dec) (encode_dag_cbor E (Link c) @ rs) = Ok (Link c, rs)"
proof -
  have "decode_step E dec (encode_cbor_length 2 (of_nat (length (0 # cid_to_bytes E c))) @
      (0 # cid_to_bytes E c) @ rs) = Ok (Bytes (0 # cid_to_bytes E c), rs)"
    using assms(1) by (intro decode_bytes_roundtrip) simp
  then show ?thesis
    using assms(2)
    by (simp add: encode_cbor_tag_def decode_step_header decode_tag_def decode_cbor_arg Let_def
        CID_TAG_def del: of_nat_Suc)
qed

lemma decode_encode:
  "ipld_ok E i \<Longrightarrow> Suc (size i) < fuel \<Longrightarrow>
   decode_dag_cbor E fuel (encode_dag_cbor E i @ rs) = Ok (i, rs)"
proof (induction i arbitrary: fuel rs)
  case (Link c)
  from Link.prems(2) have "fuel = Suc (Suc (fuel - 2))" by simp
  with Link.prems(1) decode_link_roundtrip [of E c "decode_dag_cbor E (fuel - 2)" rs]
  show ?case by (metis decode_dag_cbor.simps(2) ipld_ok.simps(9))
next
  case (List l)
  then obtain f where f: "fuel = Suc f" by (cases fuel) auto
  have "decode_items (decode_dag_cbor E f) (length l) (concat (map (encode_dag_cbor E) l) @ rs) = Ok (l, rs)"
  proof (rule decode_items_roundtrip)
    fix x rs assume x: "x \<in> set l"
    with List.prems(2) f size_in_list [OF x] have "Suc (size x) < f" by linarith
    with x List.prems(1) show "decode_dag_cbor E f (encode_dag_cbor E x @ rs) = Ok (x, rs)"
      by (intro List.IH) (auto simp: list_all_iff)
  qed
  with List.prems(1) f show ?case
    by (simp add: decode_step_header decode_array_def decode_cbor_arg Let_def unat_of_nat_u64)
next
  case (Map m)
  then obtain f where f: "fuel = Suc f" by (cases fuel) auto
  have 1: "decode_dag_cbor E f (encode_dag_cbor E (snd e) @ rs) = Ok (snd e, rs)"
    if e: "e \<in> set m" for e rs
  proof -
    from Map.prems(2) f size_in_map [OF e] have "Suc (size (snd e)) < f" by linarith
    with e Map.prems(1) show ?thesis
      by (intro Map.IH [of e]) (auto simp: list_all_iff snds.simps prod_eq_iff)
  qed
  have 2: "decode_dag_cbor E f ((encode_cbor_length 3 (of_nat (length (fst e))) @ str_bytes (fst e)) @ rs)
      = Ok (String (fst e), rs)" if e: "e \<in> set m" for e rs
  proof -
    from Map.prems(2) f size_in_map [OF e] obtain g where "f = Suc g" by (cases f) auto
    with e Map.prems(1) show ?thesis
      by (simp add: list_all_iff decode_text_roundtrip)
  qed
  from decode_entries_roundtrip [OF 2 1, of m "[]" rs] Map.prems(1) f show ?case
    by (simp add: decode_step_header decode_map_def decode_cbor_arg Let_def unat_of_nat_u64)
next
  case Null
  then obtain f where "fuel = Suc f" by (cases fuel) auto
  then show ?case by (simp add: decode_step_def decode_simple_def Let_def)
next
  case (Bool b)
  then obtain f where "fuel = Suc f" by (cases fuel) auto
  then show ?case by (simp add: decode_step_def decode_simple_def Let_def)
next
  case (Integer n)
  then obtain f where "fuel = Suc f" by (cases fuel) auto
  with Integer.prems show ?case by (simp add: decode_integer_roundtrip)
next
  case (Float w)
  then obtain f where "fuel = Suc f" by (cases fuel) auto
  then show ?case by (simp add: decode_float_roundtrip)
next
  case (String s)
  then obtain f where "fuel = Suc f" by (cases fuel) auto
  with String.prems show ?case by (simp add: decode_text_roundtrip)
next
  case (Bytes bs)
  then obtain f where "fuel = Suc f" by (cases fuel) auto
  with Bytes.prems show ?case by (simp add: decode_bytes_roundtrip)
qed

subsection \<open>The decoder consumes its input, so its fuel suffices\<close>

definition shrinks :: "(bytes \<Rightarrow> (core_error, 'a \<times> bytes) outcome) \<Rightarrow> bool" where
  "shrinks dec \<longleftrightarrow> (\<forall>rs x rs'. dec rs = Ok (x, rs') \<longrightarrow> length rs' < length rs)"

definition total_upto :: "nat \<Rightarrow> (bytes \<Rightarrow> (core_error, 'a \<times> bytes) outcome) \<Rightarrow> bool" where
  "total_upto n dec \<longleftrightarrow> (\<forall>rs. length rs \<le> n \<longrightarrow> dec rs \<noteq> Diverge)"

lemma shrinksD: "shrinks dec \<Longrightarrow> dec rs = Ok (x, rs') \<Longrightarrow> length rs' < length rs"
  by (auto simp: shrinks_def)

lemma case_String_iffs:
  "(case key of String s \<Rightarrow> f s | _ \<Rightarrow> Err e) = Ok y \<longleftrightarrow> (\<exists>s. key = String s \<and> f s = Ok y)"
  "(case key of String s \<Rightarrow> f s | _ \<Rightarrow> Err e) = Diverge \<longleftrightarrow> (\<exists>s. key = String s \<and> f s = Diverge)"
  by (cases key; auto)+

lemma case_Bytes_iffs:
  "(case key of Bytes s \<Rightarrow> f s | _ \<Rightarrow> Err e) = Ok y \<longleftrightarrow> (\<exists>s. key = Bytes s \<and> f s = Ok y)"
  "(case key of Bytes s \<Rightarrow> f s | _ \<Rightarrow> Err e) = Diverge \<longleftrightarrow> (\<exists>s. key = Bytes s \<and> f s = Diverge)"
  by (cases key; auto)+

lemma decode_cbor_uint_length:
  "decode_cbor_uint ai rs = Ok (v, rs') \<Longrightarrow> length rs' \<le> length rs"
  by (auto simp: decode_cbor_uint_def dest!: read_exact_SomeD split: if_splits option.splits)

lemma decode_cbor_uint_total [simp]: "decode_cbor_uint ai rs \<noteq> Diverge" "decode_cbor_uint ai rs \<noteq> Panic"
  by (auto simp: decode_cbor_uint_def split: if_splits option.splits)

lemma decode_items_length:
  "shrinks dec \<Longrightarrow> decode_items dec n rs = Ok (l, rs') \<Longrightarrow> length rs' \<le> length rs"
  by (induction n arbitrary: rs l)
    (fastforce simp: obind_eq_Ok split: prod.splits dest: shrinksD)+

lemma decode_items_total:
  assumes "shrinks dec" "total_upto k dec"
  shows "length rs \<le> k \<Longrightarrow> decode_items dec n rs \<noteq> Diverge"
proof (induction n arbitrary: rs)
  case (Suc n)
  have "decode_items dec n rs' \<noteq> Diverge" if "dec rs = Ok (x, rs')" for x rs'
    using shrinksD [OF assms(1) that] Suc.prems by (intro Suc.IH) simp
  moreover have "dec rs \<noteq> Diverge" using assms(2) Suc.prems by (simp add: total_upto_def)
  ultimately show ?case by (auto simp: obind_eq_Diverge)
qed simp

lemma decode_entries_length:
  "shrinks dec \<Longrightarrow> decode_entries dec n m rs = Ok (m', rs') \<Longrightarrow> length rs' \<le> length rs"
proof (induction n arbitrary: m rs)
  case (Suc n)
  then obtain k r1 v r2 where 1: "dec rs = Ok (String k, r1)" and 2: "dec r1 = Ok (v, r2)"
    and 3: "decode_entries dec n (bt_insert k v m) r2 = Ok (m', rs')"
    by (auto simp: obind_eq_Ok case_String_iffs)
  from Suc.IH [OF Suc.prems(1) 3] shrinksD [OF Suc.prems(1) 1] shrinksD [OF Suc.prems(1) 2]
  show ?case by simp
qed simp

lemma decode_entries_total:
  assumes "shrinks dec" "total_upto k dec"
  shows "length rs \<le> k \<Longrightarrow> decode_entries dec n m rs \<noteq> Diverge"
proof (induction n arbitrary: rs m)
  case (Suc n)
  have *: "dec r \<noteq> Diverge" if "length r \<le> length rs" for r
    using assms(2) Suc.prems that by (simp add: total_upto_def)
  have "decode_entries dec n m' r2 \<noteq> Diverge"
    if "dec rs = Ok (x, r1)" "dec r1 = Ok (v, r2)" for x r1 v r2 m'
    using shrinksD [OF assms(1) that(1)] shrinksD [OF assms(1) that(2)] Suc.prems
    by (intro Suc.IH) simp
  moreover have "dec r1 \<noteq> Diverge" if "dec rs = Ok (x, r1)" for x r1
    using shrinksD [OF assms(1) that] by (intro *) simp
  ultimately show ?case using * [of rs]
    by (auto simp: obind_eq_Diverge case_String_iffs)
qed simp

lemmas decode_part_defs = decode_bytes_def decode_text_def decode_array_def decode_map_def
  decode_tag_def decode_simple_def

lemma decode_step_length:
  assumes "shrinks dec" "decode_step E dec (b # r) = Ok (x, rs')"
  shows "length rs' \<le> length r"
  using assms(2)
  by (auto simp: decode_step_def decode_part_defs Let_def obind_eq_Ok case_Bytes_iffs
      split: if_splits option.splits
      dest!: read_exact_SomeD decode_cbor_uint_length decode_items_length [OF assms(1)]
        decode_entries_length [OF assms(1)] shrinksD [OF assms(1)])

lemma shrinks_decode_step: "shrinks dec \<Longrightarrow> shrinks (decode_step E dec)"
  unfolding shrinks_def [of "decode_step E dec"]
proof (intro allI impI)
  fix rs :: bytes and x rs' assume "shrinks dec" "decode_step E dec rs = Ok (x, rs')"
  then show "length rs' < length rs"
    using decode_step_length [of dec E "hd rs" "tl rs" x rs']
    by (cases rs) (auto simp: less_Suc_eq_le, auto simp: decode_step_def read_exact_def)
qed

lemma shrinks_decode: "shrinks (decode_dag_cbor E fuel)"
  by (induction fuel) (auto simp: shrinks_decode_step, auto simp: shrinks_def)

lemma decode_parts_total:
  assumes "shrinks dec" "total_upto k dec" "length r \<le> k"
  shows "decode_array E dec ai r \<noteq> Diverge" and "decode_map dec ai r \<noteq> Diverge"
    and "decode_tag E dec ai r \<noteq> Diverge"
proof -
  have len: "length r' \<le> k" if "decode_cbor_uint ai r = Ok (v, r')" for v r'
    using decode_cbor_uint_length [OF that] assms(3) by simp
  show "decode_array E dec ai r \<noteq> Diverge"
    using decode_items_total [OF assms(1,2) len]
    by (auto simp: decode_array_def obind_eq_Diverge split: if_splits)
  show "decode_map dec ai r \<noteq> Diverge"
    using decode_entries_total [OF assms(1,2) len]
    by (auto simp: decode_map_def obind_eq_Diverge)
  have "dec r' \<noteq> Diverge" if "decode_cbor_uint ai r = Ok (v, r')" for v r'
    using assms(2) len [OF that] by (simp add: total_upto_def)
  then show "decode_tag E dec ai r \<noteq> Diverge"
    by (auto simp: decode_tag_def obind_eq_Diverge case_Bytes_iffs Let_def
        split: if_splits option.splits)
qed

lemma decode_leaves_total:
  "decode_bytes ai r \<noteq> Diverge" "decode_text ai r \<noteq> Diverge" "decode_simple ai r \<noteq> Diverge"
  by (auto simp: decode_bytes_def decode_text_def decode_simple_def obind_eq_Diverge
      split: option.splits if_splits)

lemma total_decode_step:
  assumes "shrinks dec" "total_upto k dec"
  shows "total_upto (Suc k) (decode_step E dec)"
  unfolding total_upto_def
proof (intro allI impI)
  fix rs :: bytes assume len: "length rs \<le> Suc k"
  show "decode_step E dec rs \<noteq> Diverge"
  proof (cases rs)
    case (Cons b r)
    with len have "length r \<le> k" by simp
    then show ?thesis
      using decode_parts_total [OF assms]
      by (simp add: Cons decode_step_def Let_def obind_eq_Diverge decode_leaves_total)
  qed (simp add: decode_step_def read_exact_def)
qed

lemma total_decode: "total_upto fuel (decode_dag_cbor E (Suc fuel))"
proof (induction fuel)
  case 0
  show ?case by (auto simp: total_upto_def decode_step_def read_exact_def)
next
  case (Suc fuel)
  then show ?case
    using total_decode_step [OF shrinks_decode Suc.IH, of E] by (simp only: decode_dag_cbor.simps)
qed

text \<open>More fuel never changes a result.\<close>

definition refines :: "(bytes \<Rightarrow> ('e, 'a) outcome) \<Rightarrow> (bytes \<Rightarrow> ('e, 'a) outcome) \<Rightarrow> bool" where
  "refines d d' \<longleftrightarrow> (\<forall>rs. improves (d rs) (d' rs))"

lemma refinesD: "refines d d' \<Longrightarrow> improves (d rs) (d' rs)"
  by (auto simp: refines_def)

lemma decode_items_refines:
  "refines d d' \<Longrightarrow> improves (decode_items d n rs) (decode_items d' n rs)"
  by (induction n arbitrary: rs) (auto intro!: improves_obind dest: refinesD)

lemma decode_entries_refines:
  "refines d d' \<Longrightarrow> improves (decode_entries d n m rs) (decode_entries d' n m rs)"
  by (induction n arbitrary: rs m)
    (auto intro!: improves_obind dest: refinesD split: Ipld.splits)

lemma decode_step_refines:
  assumes "refines d d'"
  shows "refines (decode_step E d) (decode_step E d')"
proof -
  have "improves (decode_array E d ai rs) (decode_array E d' ai rs)" for ai rs
    unfolding decode_array_def using decode_items_refines [OF assms]
    by (auto intro!: improves_obind)
  moreover have "improves (decode_map d ai rs) (decode_map d' ai rs)" for ai rs
    unfolding decode_map_def using decode_entries_refines [OF assms]
    by (auto intro!: improves_obind)
  moreover have "improves (decode_tag E d ai rs) (decode_tag E d' ai rs)" for ai rs
    unfolding decode_tag_def using refinesD [OF assms]
    by (auto intro!: improves_obind)
  ultimately show ?thesis
    unfolding refines_def decode_step_def Let_def by (auto split: option.splits)
qed

lemma decode_fuel_le: "f \<le> g \<Longrightarrow> improves (decode_dag_cbor E f rs) (decode_dag_cbor E g rs)"
proof (induction f arbitrary: g rs)
  case (Suc f)
  then obtain g' where g: "g = Suc g'" "f \<le> g'" by (cases g) auto
  from Suc.IH [OF g(2)] have "refines (decode_dag_cbor E f) (decode_dag_cbor E g')"
    by (simp add: refines_def)
  from decode_step_refines [OF this, of E] show ?case by (simp add: g refines_def)
qed simp

lemma decode_fuel_irrelevant:
  assumes "length rs < f" and "decode_dag_cbor E g rs \<noteq> Diverge"
  shows "decode_dag_cbor E f rs = decode_dag_cbor E g rs"
proof -
  have f: "decode_dag_cbor E f rs \<noteq> Diverge"
    using assms(1) total_decode [of "f - 1" E] by (cases f) (auto simp: total_upto_def)
  show ?thesis
    using improvesD [OF decode_fuel_le [of f g E rs] f] improvesD [OF decode_fuel_le [of g f E rs] assms(2)]
    by (cases "f \<le> g") auto
qed

lemma from_dag_cbor_encode:
  assumes "ipld_ok E i"
  shows "from_dag_cbor E (encode_dag_cbor E i @ rs) = Ok i"
proof -
  let ?bs = "encode_dag_cbor E i @ rs"
  have "decode_dag_cbor E (Suc (Suc (size i))) ?bs = Ok (i, rs)"
    using assms by (intro decode_encode) simp_all
  then have "decode_dag_cbor E (Suc (length ?bs)) ?bs = Ok (i, rs)"
    using decode_fuel_irrelevant [of ?bs "Suc (length ?bs)" E "Suc (Suc (size i))"] by simp
  then show ?thesis by (simp only: from_dag_cbor_def obind.simps prod.case)
qed

lemma from_dag_cbor_not_Diverge: "from_dag_cbor E data \<noteq> Diverge"
  using total_decode [of "length data" E]
  by (auto simp: from_dag_cbor_def total_upto_def obind_eq_Diverge simp del: decode_dag_cbor.simps)

subsection \<open>What the decoder returns\<close>

text \<open>The binary form of a CID fits in a vector (it is at most about a hundred bytes long).\<close>

definition cid_bytes_bounded :: "'c cid_crate \<Rightarrow> bool" where
  "cid_bytes_bounded E \<longleftrightarrow> (\<forall>c. length (cid_to_bytes E c) < isize_max)"

definition decodes_ok :: "'c cid_crate \<Rightarrow> 'c cbor_decoder \<Rightarrow> bool" where
  "decodes_ok E dec \<longleftrightarrow> (\<forall>rs x rs'. dec rs = Ok (x, rs') \<longrightarrow> ipld_ok E x)"

lemma decodes_okD: "decodes_ok E dec \<Longrightarrow> dec rs = Ok (x, rs') \<Longrightarrow> ipld_ok E x"
  by (auto simp: decodes_ok_def)

lemma decode_items_ok:
  "decodes_ok E dec \<Longrightarrow> decode_items dec n rs = Ok (l, rs') \<Longrightarrow> length l = n \<and> list_all (ipld_ok E) l"
  by (induction n arbitrary: rs l) (fastforce simp: obind_eq_Ok dest: decodes_okD)+

lemma list_all_snd_bt_insert:
  "list_all P (map snd m) \<Longrightarrow> P v \<Longrightarrow> list_all P (map snd (bt_insert k v m))"
  "list_all (\<lambda>e. Q (fst e)) m \<Longrightarrow> Q k \<Longrightarrow> list_all (\<lambda>e. Q (fst e)) (bt_insert k v m)"
  by (induction m) auto

lemma decode_entries_ok:
  assumes "decodes_ok E dec"
  shows "decode_entries dec n m rs = Ok (m', rs') \<Longrightarrow> bt_ok m \<Longrightarrow> list_all (ipld_ok E) (map snd m) \<Longrightarrow>
    list_all (\<lambda>e. valid_str (fst e) \<and> length (fst e) \<le> isize_max) m \<Longrightarrow>
    bt_ok m' \<and> length m' \<le> length m + n \<and> list_all (ipld_ok E) (map snd m') \<and>
    list_all (\<lambda>e. valid_str (fst e) \<and> length (fst e) \<le> isize_max) m'"
proof (induction n arbitrary: m rs)
  case (Suc n)
  then obtain k r1 v r2 where 1: "dec rs = Ok (String k, r1)" and 2: "dec r1 = Ok (v, r2)"
    and 3: "decode_entries dec n (bt_insert k v m) r2 = Ok (m', rs')"
    by (auto simp: obind_eq_Ok case_String_iffs)
  from decodes_okD [OF assms 1] decodes_okD [OF assms 2] Suc.prems
  have "bt_ok m' \<and> length m' \<le> length (bt_insert k v m) + n \<and> list_all (ipld_ok E) (map snd m') \<and>
    list_all (\<lambda>e. valid_str (fst e) \<and> length (fst e) \<le> isize_max) m'"
    by (intro Suc.IH [OF 3] bt_ok_insert list_all_snd_bt_insert) simp_all
  then show ?case using length_bt_insert [of k v m] by auto
qed simp

lemma uint_u64_range: "0 \<le> uint (v :: u64)" "uint (v :: u64) < 2 ^ 64"
  using uint_lt2p [of v] by simp_all

lemma ipld_ok_uint: "ipld_ok E (Integer (uint (v :: u64)))" "ipld_ok E (Integer (- 1 - uint (v :: u64)))"
  unfolding ipld_ok.simps using uint_u64_range [of v] by linarith+

lemma unat_u64_less: "unat (v :: u64) < 2 ^ 64"
  using unsigned_less [of v, where 'a = nat] by simp

lemma decode_step_ok:
  assumes E: "cid_laws E" "cid_bytes_bounded E" and dec: "decodes_ok E dec"
  shows "decodes_ok E (decode_step E dec)"
proof -
  have b: "ipld_ok E x" if "decode_bytes ai rs = Ok (x, rs')" for ai rs x rs'
    using that by (auto simp: decode_bytes_def obind_eq_Ok dest!: read_exact_SomeD
        split: if_splits option.splits)
  have t: "ipld_ok E x" if "decode_text ai rs = Ok (x, rs')" for ai rs x rs'
    using that by (auto simp: decode_text_def obind_eq_Ok dest!: read_exact_SomeD from_utf8_valid
        split: if_splits option.splits)
  have a: "ipld_ok E x" if "decode_array E dec ai rs = Ok (x, rs')" for ai rs x rs'
    using that unat_u64_less
    by (auto simp: decode_array_def obind_eq_Ok dest!: decode_items_ok [OF dec] split: if_splits)
  have m: "ipld_ok E x" if "decode_map dec ai rs = Ok (x, rs')" for ai rs x rs'
    using that unat_u64_less
    by (auto simp: decode_map_def obind_eq_Ok dest!: decode_entries_ok [OF dec])
      (meson le_less_trans)
  have g: "ipld_ok E x" if "decode_tag E dec ai rs = Ok (x, rs')" for ai rs x rs'
    using that E by (auto simp: decode_tag_def obind_eq_Ok case_Bytes_iffs Let_def cid_bytes_bounded_def
        dest: decodes_okD [OF dec] split: if_splits option.splits)
  have s: "ipld_ok E x" if "decode_simple ai rs = Ok (x, rs')" for ai rs x rs'
    using that by (auto simp: decode_simple_def split: if_splits option.splits)
  show ?thesis
    unfolding decodes_ok_def decode_step_def Let_def
    by (auto simp: obind_eq_Ok simp del: ipld_ok.simps split: if_splits option.splits
        intro: b t a m g s ipld_ok_uint)
qed

lemma from_dag_cbor_ok:
  assumes "cid_laws E" "cid_bytes_bounded E" "from_dag_cbor E bs = Ok i"
  shows "ipld_ok E i"
proof -
  have "decodes_ok E (decode_dag_cbor E fuel)" for fuel
    by (induction fuel) (simp_all add: decode_step_ok assms, simp add: decodes_ok_def)
  then show ?thesis
    using assms(3) by (auto simp: from_dag_cbor_def obind_eq_Ok dest: decodes_okD
        simp del: decode_dag_cbor.simps)
qed

lemma ipld_ok_Link: "cid_laws E \<Longrightarrow> cid_bytes_bounded E \<Longrightarrow> ipld_ok E (Link c)"
  by (simp add: cid_bytes_bounded_def)

lemma cid_bytes_bounded_crate64: "cid_bytes_bounded crate64"
  by (auto simp: cid_bytes_bounded_def crate64_def isize_max_def split: sum.splits)

subsection \<open>Properties\<close>

text \<open>
  (C2) Round trip: an IPLD value whose integers have at most 64 bits of magnitude is encoded
  and decoded back to itself, whatever bytes follow it in the input.
\<close>

theorem dag_cbor_roundtrip:
  assumes "ipld_ok E i"
  shows "obind (to_dag_cbor E i) (\<lambda>bs. from_dag_cbor E (bs @ rs)) = Ok i"
  using from_dag_cbor_encode [OF assms] by (simp add: to_dag_cbor_def)

theorem dag_cbor_roundtrip_witness:
  "obind (to_dag_cbor crate64 (Map [(''a'', List [Integer (- 5), Link (Inr (0x71, 9))]), (''b'', Null)]))
     (\<lambda>bs. from_dag_cbor crate64 (bs @ [])) =
   Ok (Map [(''a'', List [Integer (- 5), Link (Inr (0x71, 9))]), (''b'', Null)])"
proof (rule dag_cbor_roundtrip)
  have "ipld_size crate64 = 112" by (simp add: crate64_def)
  then show "ipld_ok crate64 (Map [(''a'', List [Integer (- 5), Link (Inr (0x71, 9))]), (''b'', Null)])"
    using ipld_ok_Link [OF cid_laws_crate64 cid_bytes_bounded_crate64, of "Inr (0x71, 9)"]
    by (simp add: valid_str_def of_char_def isize_max_def)
qed

text \<open>
  Decoding is canonicalising: whatever bytes are accepted, re-encoding the decoded value
  gives bytes that decode to the same value.
\<close>

theorem dag_cbor_reencode:
  assumes "cid_laws E" and "cid_bytes_bounded E" and "from_dag_cbor E bs = Ok i"
  shows "from_dag_cbor E (encode_dag_cbor E i) = Ok i"
  using from_dag_cbor_encode [OF from_dag_cbor_ok [OF assms], of "[]"] by simp

theorem dag_cbor_reencode_witness:
  "from_dag_cbor crate64 (encode_dag_cbor crate64 (List [Integer 1])) = Ok (List [Integer 1])"
proof (rule dag_cbor_reencode [OF cid_laws_crate64 cid_bytes_bounded_crate64])
  show "from_dag_cbor crate64 [0x81, 0x18, 1, 0xff] = Ok (List [Integer 1])"
    by (simp add: from_dag_cbor_def decode_step_def decode_array_def decode_cbor_uint_def
        read_exact_def from_be_def Let_def isize_max_def crate64_def)
qed

text \<open>
  (C30) The recursion of the decoder is bounded by the input: on every input, well formed or hostile, the fuel that
  \<open>from_dag_cbor\<close> starts with, one more than the length of the input, is never exhausted, so decoding comes to a value, an error or
  the panic of an allocation (\<open>decode_length_panics\<close>). The stack of the machine has no limit in the model.
\<close>

theorem from_dag_cbor_total: "from_dag_cbor E data \<noteq> Diverge"
  by (rule from_dag_cbor_not_Diverge)

text \<open>
  The encoding is prefix-free, hence injective: two well-formed values whose encodings
  start the same byte string are equal, and so is what follows them.
\<close>

theorem encode_dag_cbor_prefix_free:
  assumes "ipld_ok E i" and "ipld_ok E j"
    and "encode_dag_cbor E i @ rs = encode_dag_cbor E j @ rs'"
  shows "i = j \<and> rs = rs'"
  using from_dag_cbor_encode [OF assms(1), of rs] from_dag_cbor_encode [OF assms(2), of rs'] assms(3)
  by simp

theorem encode_dag_cbor_prefix_free_witness:
  "Integer 7 = (Integer 7 :: (u64 + u64 \<times> u64) Ipld) \<and> [1] = ([1] :: bytes)"
  by (rule encode_dag_cbor_prefix_free [of crate64]) simp_all

text \<open>
  Integers outside 64 bits are not carried: the encoder keeps only the low 64 bits of
  the magnitude, silently, so an \<open>i128\<close> above \<open>u64::MAX\<close> decodes to its residue.
\<close>

theorem encode_integer_truncates:
  assumes "2 ^ 64 \<le> n"
  shows "from_dag_cbor E (encode_dag_cbor E (Integer n)) = Ok (Integer (n mod 2 ^ 64)) \<and>
    from_dag_cbor E (encode_dag_cbor E (Integer n)) \<noteq> Ok (Integer n)"
proof -
  have "encode_dag_cbor E (Integer n) = encode_dag_cbor E (Integer (n mod 2 ^ 64))"
  proof -
    have "(word_of_int n :: u64) = word_of_int (n mod 2 ^ 64)"
      by (simp add: word_of_int_eq_iff take_bit_eq_mod)
    with assms show ?thesis by (simp add: encode_cbor_integer_def)
  qed
  moreover have "ipld_ok E (Integer (n mod 2 ^ 64))"
    by (simp add: order.trans [of _ 0])
  ultimately have "from_dag_cbor E (encode_dag_cbor E (Integer n)) = Ok (Integer (n mod 2 ^ 64))"
    using from_dag_cbor_encode [of E "Integer (n mod 2 ^ 64)" "[]"] by simp
  moreover have "n mod 2 ^ 64 < n" using assms pos_mod_bound [of "2 ^ 64" n] by simp
  ultimately show ?thesis by simp
qed

theorem encode_integer_truncates_witness:
  "from_dag_cbor crate64 (encode_dag_cbor crate64 (Integer (2 ^ 64))) = Ok (Integer 0)"
  using encode_integer_truncates [of "2 ^ 64" crate64] by simp

text \<open>
  Nine bytes are enough to make the decoder panic: a byte string, text or array header
  that announces more than \<open>isize::MAX\<close> bytes is allocated before anything is read.
\<close>

theorem decode_length_panics:
  assumes "major \<in> {2, 3}" and "isize_max < unat len"
  shows "from_dag_cbor E (encode_cbor_length major len @ rs) = Panic"
proof -
  have "major < 8" using assms(1) by auto
  then show ?thesis
    using assms
    by (auto simp: from_dag_cbor_def decode_step_header decode_bytes_def decode_text_def
        decode_cbor_arg Let_def)
qed

theorem decode_length_panics_witness:
  "from_dag_cbor crate64 (encode_cbor_length 2 (2 ^ 63) @ []) = Panic \<and>
   length (encode_cbor_length 2 (2 ^ 63)) = 9"
  using decode_length_panics [of 2 "2 ^ 63" crate64 "[]"]
  by (simp add: isize_max_def encode_cbor_length_def)

end
