(* ===== verification/Block_Store.thy ===== *)
theory Block_Store
  imports Dag_Cbor
begin

text \<open>
  Content-addressed block stores.

  \<^item> \<open>ipfrs-knowledge/src/store.rs\<close>: the trait \<open>BlockStore\<close>, a record of operations on an arbitrary
    store type, and its in-memory implementation \<open>MemStore\<close>;
  \<^item> \<open>ipfrs-storage/src/traits.rs\<close> and \<open>memory.rs\<close>: the trait of the persistent backends
    (imported as \<open>BlockStoreTrait\<close>), whose operations may fail, with its default methods, and the
    backend \<open>MemoryBlockStore\<close>; an \<open>async\<close> method runs to completion between two steps;
  \<^item> \<open>ipfrs-knowledge/src/error.rs\<close>: the error type of the knowledge crate.

  The locales \<open>block_store\<close> and \<open>cold_store\<close> state what clients rely on; both are interpreted
  here on the implementations.
\<close>

datatype KError = Core core_error | Decode string | NotFound string | Graph string

subsection \<open>The synchronous trait and \<open>MemStore\<close>\<close>

record ('s, 'c) BlockStore =
  bs_put :: "'s \<Rightarrow> 'c \<Rightarrow> bytes \<Rightarrow> 's"
  bs_get :: "'s \<Rightarrow> 'c \<Rightarrow> bytes option"
  bs_len :: "'s \<Rightarrow> nat"

definition bs_has :: "('s, 'c) BlockStore \<Rightarrow> 's \<Rightarrow> 'c \<Rightarrow> bool" where
  "bs_has S s cid \<longleftrightarrow> bs_get S s cid \<noteq> None"

definition bs_is_empty :: "('s, 'c) BlockStore \<Rightarrow> 's \<Rightarrow> bool" where
  "bs_is_empty S s \<longleftrightarrow> bs_len S s = 0"

record 'c MemStore =
  ms_blocks :: "('c \<times> bytes) list"

definition ms_new :: "'c MemStore" where
  "ms_new = \<lparr>ms_blocks = []\<rparr>"

definition mem_store :: "('c MemStore, 'c) BlockStore" where
  "mem_store =
     \<lparr>bs_put = (\<lambda>s cid bytes. s\<lparr>ms_blocks := hm_insert cid bytes (ms_blocks s)\<rparr>),
      bs_get = (\<lambda>s cid. map_of (ms_blocks s) cid),
      bs_len = (\<lambda>s. length (ms_blocks s))\<rparr>"

definition ms_inv :: "'c MemStore \<Rightarrow> bool" where
  "ms_inv s \<longleftrightarrow> hm_ok (ms_blocks s)"

subsection \<open>The backend trait and \<open>MemoryBlockStore\<close>\<close>

record 'c Block =
  blk_cid :: 'c
  blk_data :: bytes

definition block_from_parts :: "'c \<Rightarrow> bytes \<Rightarrow> 'c Block" where
  "block_from_parts cid data = \<lparr>blk_cid = cid, blk_data = data\<rparr>"

record ('k, 'c) BlockStoreTrait =
  ct_put :: "'k \<Rightarrow> 'c Block \<Rightarrow> 'k \<times> (core_error, unit) outcome"
  ct_get :: "'k \<Rightarrow> 'c \<Rightarrow> (core_error, 'c Block option) outcome"
  ct_has :: "'k \<Rightarrow> 'c \<Rightarrow> (core_error, bool) outcome"
  ct_delete :: "'k \<Rightarrow> 'c \<Rightarrow> 'k \<times> (core_error, unit) outcome"
  ct_list_cids :: "'k \<Rightarrow> (core_error, 'c list) outcome"
  ct_len :: "'k \<Rightarrow> nat"

fun ct_put_many :: "('k, 'c) BlockStoreTrait \<Rightarrow> 'k \<Rightarrow> 'c Block list \<Rightarrow> 'k \<times> (core_error, unit) outcome" where
  "ct_put_many K k [] = (k, Ok ())"
| "ct_put_many K k (b # bs) = sbind (ct_put K k b) (\<lambda>k _. ct_put_many K k bs)"

definition ct_get_many ::
    "('k, 'c) BlockStoreTrait \<Rightarrow> 'k \<Rightarrow> 'c list \<Rightarrow> (core_error, 'c Block option list) outcome" where
  "ct_get_many K k cids = omap_list (ct_get K k) cids"

definition ct_has_many ::
    "('k, 'c) BlockStoreTrait \<Rightarrow> 'k \<Rightarrow> 'c list \<Rightarrow> (core_error, bool list) outcome" where
  "ct_has_many K k cids = omap_list (ct_has K k) cids"

fun ct_delete_many :: "('k, 'c) BlockStoreTrait \<Rightarrow> 'k \<Rightarrow> 'c list \<Rightarrow> 'k \<times> (core_error, unit) outcome" where
  "ct_delete_many K k [] = (k, Ok ())"
| "ct_delete_many K k (c # cs) = sbind (ct_delete K k c) (\<lambda>k _. ct_delete_many K k cs)"

record 'c MemoryBlockStore =
  mb_blocks :: "('c \<times> 'c Block) list"

definition mb_new :: "'c MemoryBlockStore" where
  "mb_new = \<lparr>mb_blocks = []\<rparr>"

definition mb_clear :: "'c MemoryBlockStore \<Rightarrow> 'c MemoryBlockStore" where
  "mb_clear k = k\<lparr>mb_blocks := []\<rparr>"

definition memory_block_store :: "('c MemoryBlockStore, 'c) BlockStoreTrait" where
  "memory_block_store =
     \<lparr>ct_put = (\<lambda>k block. (k\<lparr>mb_blocks := hm_insert (blk_cid block) block (mb_blocks k)\<rparr>, Ok ())),
      ct_get = (\<lambda>k cid. Ok (map_of (mb_blocks k) cid)),
      ct_has = (\<lambda>k cid. Ok (map_of (mb_blocks k) cid \<noteq> None)),
      ct_delete = (\<lambda>k cid. (k\<lparr>mb_blocks := hm_remove cid (mb_blocks k)\<rparr>, Ok ())),
      ct_list_cids = (\<lambda>k. Ok (map fst (mb_blocks k))),
      ct_len = (\<lambda>k. length (mb_blocks k))\<rparr>"

text \<open>Every entry is stored under the CID of its block.\<close>

definition mb_inv :: "'c MemoryBlockStore \<Rightarrow> bool" where
  "mb_inv k \<longleftrightarrow> hm_ok (mb_blocks k) \<and> list_all (\<lambda>(c, b). blk_cid b = c) (mb_blocks k)"

subsection \<open>What clients rely on\<close>

text \<open>A set of blocks is held when each is found under its own CID.\<close>

definition holds :: "('s, 'c) BlockStore \<Rightarrow> 'c cid_crate \<Rightarrow> 's \<Rightarrow> bytes set \<Rightarrow> bool" where
  "holds S E s B \<longleftrightarrow> (\<forall>b \<in> B. bs_get S s (dag_cbor_cid E b) = Some b)"

lemma holds_mono: "holds S E s B \<Longrightarrow> A \<subseteq> B \<Longrightarrow> holds S E s A"
  by (auto simp: holds_def)

lemma holdsD: "holds S E s B \<Longrightarrow> b \<in> B \<Longrightarrow> bs_get S s (dag_cbor_cid E b) = Some b"
  by (auto simp: holds_def)

locale block_store =
  fixes S :: "('s, 'c) BlockStore"
    and inv :: "'s \<Rightarrow> bool"
  assumes inv_put: "inv s \<Longrightarrow> inv (bs_put S s c b)"
    and get_put: "inv s \<Longrightarrow> bs_get S (bs_put S s c b) c' = (if c' = c then Some b else bs_get S s c')"
    and len_put: "inv s \<Longrightarrow>
      bs_len S (bs_put S s c b) = (if bs_has S s c then bs_len S s else Suc (bs_len S s))"
begin

lemma holds_put:
  assumes "inv s" "holds S E s B" "inj_on (dag_cbor_cid E) (insert b B)"
  shows "holds S E (bs_put S s (dag_cbor_cid E b) b) (insert b B)"
  unfolding holds_def
proof
  fix b' assume b': "b' \<in> insert b B"
  then show "bs_get S (bs_put S s (dag_cbor_cid E b) b) (dag_cbor_cid E b') = Some b'"
    using assms inj_onD [OF assms(3), of b' b] by (auto simp: get_put holds_def)
qed

lemma put_idempotent: "inv s \<Longrightarrow> bs_get S (bs_put S (bs_put S s c b) c b) = bs_get S (bs_put S s c b)"
  by (auto simp: get_put inv_put)

end

interpretation mem: block_store mem_store ms_inv
  by unfold_locales (auto simp: mem_store_def ms_inv_def bs_has_def length_hm_insert)

text \<open>
  A backend that may fail. \<open>content\<close> is what it stores: an operation that reports success has
  done what it says, and one that reports failure has not removed or altered a stored block.
\<close>

locale cold_store =
  fixes K :: "('k, 'c) BlockStoreTrait"
    and content :: "'k \<Rightarrow> 'c \<rightharpoonup> bytes"
    and kinv :: "'k \<Rightarrow> bool"
  assumes put_ok: "kinv k \<Longrightarrow> ct_put K k b = (k', Ok u) \<Longrightarrow>
      kinv k' \<and> content k' = (content k)(blk_cid b \<mapsto> blk_data b)"
    and put_err: "kinv k \<Longrightarrow> ct_put K k b = (k', r) \<Longrightarrow> r \<noteq> Ok () \<Longrightarrow> kinv k' \<and> content k' = content k"
    and get_ok: "kinv k \<Longrightarrow> ct_get K k c = Ok ob \<Longrightarrow> ob = map_option (block_from_parts c) (content k c)"
    and delete_ok: "kinv k \<Longrightarrow> ct_delete K k c = (k', Ok u) \<Longrightarrow>
      kinv k' \<and> content k' = (content k)(c := None)"
    and delete_err: "kinv k \<Longrightarrow> ct_delete K k c = (k', r) \<Longrightarrow> r \<noteq> Ok () \<Longrightarrow>
      kinv k' \<and> content k' = content k"
    and list_ok: "kinv k \<Longrightarrow> ct_list_cids K k = Ok cs \<Longrightarrow> distinct cs \<and> set cs = dom (content k)"
    and finite_content: "kinv k \<Longrightarrow> finite (dom (content k))"
    and no_diverge: "ct_get K k c \<noteq> Diverge" "ct_list_cids K k \<noteq> Diverge"
begin

lemma put_many_ok:
  "kinv k \<Longrightarrow> ct_put_many K k bs = (k', Ok u) \<Longrightarrow>
   kinv k' \<and> content k' = foldl (\<lambda>m b. m(blk_cid b \<mapsto> blk_data b)) (content k) bs"
proof (induction bs arbitrary: k)
  case (Cons b bs)
  then obtain k1 where "ct_put K k b = (k1, Ok ())" "ct_put_many K k1 bs = (k', Ok u)"
    by (auto simp: sbind_eq_Ok)
  with put_ok [OF Cons.prems(1), of b k1 "()"] Cons.IH [of k1] show ?case by (simp del: fun_upd_apply)
qed simp

lemma delete_many_ok:
  "kinv k \<Longrightarrow> ct_delete_many K k cs = (k', Ok u) \<Longrightarrow>
   kinv k' \<and> content k' = content k |` (- set cs)"
proof (induction cs arbitrary: k)
  case (Cons c cs)
  then obtain k1 where k1: "ct_delete K k c = (k1, Ok ())" "ct_delete_many K k1 cs = (k', Ok u)"
    by (auto simp: sbind_eq_Ok)
  have "kinv k1" "content k1 = (content k)(c := None)"
    using delete_ok [OF Cons.prems(1) k1(1)] by auto
  with Cons.IH [OF _ k1(2)] show ?case
    by (auto simp: restrict_map_def fun_eq_iff)
qed (simp add: restrict_map_def fun_eq_iff)

end

definition mb_content :: "'c MemoryBlockStore \<Rightarrow> 'c \<rightharpoonup> bytes" where
  "mb_content k c = map_option blk_data (map_of (mb_blocks k) c)"

lemma mb_inv_cid: "mb_inv k \<Longrightarrow> map_of (mb_blocks k) c = Some b \<Longrightarrow> blk_cid b = c"
  by (auto simp: mb_inv_def list_all_iff dest!: map_of_SomeD)

lemma mb_inv_insert:
  "mb_inv k \<Longrightarrow> mb_inv (k\<lparr>mb_blocks := hm_insert (blk_cid b) b (mb_blocks k)\<rparr>)"
  using set_hm_insert [of "blk_cid b" b "mb_blocks k"] by (auto simp: mb_inv_def list_all_iff)

lemma mb_inv_remove: "mb_inv k \<Longrightarrow> mb_inv (k\<lparr>mb_blocks := hm_remove c (mb_blocks k)\<rparr>)"
  using set_hm_remove [of c "mb_blocks k"] by (auto simp: mb_inv_def list_all_iff)

lemma mb_list_cids: "mb_inv k \<Longrightarrow> distinct (map fst (mb_blocks k)) \<and> set (map fst (mb_blocks k)) = dom (mb_content k)"
  unfolding set_map_fst_dom by (auto simp: mb_inv_def hm_ok_def mb_content_def dom_def)

interpretation mb: cold_store memory_block_store mb_content mb_inv
proof unfold_locales
  fix k :: "'a MemoryBlockStore" and c :: 'a and ob :: "'a Block option"
  assume "mb_inv k" "ct_get memory_block_store k c = Ok ob"
  then show "ob = map_option (block_from_parts c) (mb_content k c)"
    using mb_inv_cid [of k c]
    by (cases "map_of (mb_blocks k) c")
      (auto simp: memory_block_store_def mb_content_def block_from_parts_def)
next
  fix k :: "'a MemoryBlockStore" and cs
  assume "mb_inv k" "ct_list_cids memory_block_store k = Ok cs"
  then show "distinct cs \<and> set cs = dom (mb_content k)"
    using mb_list_cids [of k] by (auto simp: memory_block_store_def)
next
  fix k :: "'a MemoryBlockStore"
  assume "mb_inv k"
  then show "finite (dom (mb_content k))" using mb_list_cids [of k] by (metis List.finite_set)
qed (auto simp: memory_block_store_def mb_inv_insert mb_inv_remove mb_content_def fun_eq_iff)

end
