(* ===== verification/Hamt.thy ===== *)
theory Hamt
  imports Block_Store "HOL-Library.Multiset"
begin

unbundle bit_operations_syntax

text \<open>
  The block-backed hash-array-mapped trie (\<open>ipfrs-knowledge/src/hamt.rs\<close>), generic in the block
  store as the Rust code is.

  An \<open>EntityId\<close> is a list of 32 bytes (\<open>[u8; 32]\<close>) and a node an array of 16 slots; both lengths
  are part of the invariants. \<open>insert\<close> returns the store with the new root, as \<open>&mut S\<close> does.
  \<open>entries\<close> walks the trie with an explicit stack; since a store may hold anything, the loop
  takes fuel, and \<open>entries_enough_fuel\<close> says how much suffices on a trie.

  The specification is a trie in memory (\<open>tslot\<close>), with its own lookup and insertion.
  \<open>insert_slots_refines\<close> and \<open>get_refines\<close> relate the code to it under the assumption that no two
  different blocks among those stored and written have the same CID.
\<close>

subsection \<open>The code\<close>

type_synonym EntityId = bytes

datatype 'c Slot = Empty | Leaf EntityId 'c | Branch 'c

definition WIDTH :: nat where "WIDTH = 16"
definition MAX_DEPTH :: nat where "MAX_DEPTH = 64"

definition nibble :: "EntityId \<Rightarrow> nat \<Rightarrow> nat" where
  "nibble key depth =
     (let byte = key ! (depth div 2)
      in unat (if depth mod 2 = 0 then drop_bit 4 byte else byte AND 0x0f))"

definition slot_to_ipld :: "'c Slot \<Rightarrow> 'c Ipld" where
  "slot_to_ipld s =
     (case s of
        Empty \<Rightarrow> Null
      | Leaf k v \<Rightarrow> Map (bt_collect [(''k'', Bytes k), (''v'', link v)])
      | Branch c \<Rightarrow> link c)"

definition slot_from_ipld :: "'c Ipld \<Rightarrow> (KError, 'c Slot) outcome" where
  "slot_from_ipld i =
     (case i of
        Null \<Rightarrow> Ok Empty
      | Link c \<Rightarrow> Ok (Branch c)
      | Map m \<Rightarrow>
          obind (case bt_get m ''k'' of
                   Some (Bytes b) \<Rightarrow>
                     (if length b = 32 then Ok b else Err (Decode ''hamt leaf key size''))
                 | _ \<Rightarrow> Err (Decode ''hamt leaf missing key''))
            (\<lambda>k. obind (ok_or (Decode ''hamt leaf missing value'')
                           (Option.bind (bt_get m ''v'') as_link))
              (\<lambda>v. Ok (Leaf k v)))
      | _ \<Rightarrow> Err (Decode ''bad hamt slot''))"

definition node_ipld :: "'c Slot list \<Rightarrow> 'c Ipld" where
  "node_ipld slots =
     Map (bt_collect [(''@type'', String ''hamt''), (''slots'', List (map slot_to_ipld slots))])"

definition node_to_cid ::
    "'c cid_crate \<Rightarrow> ('s, 'c) BlockStore \<Rightarrow> 's \<Rightarrow> 'c Slot list \<Rightarrow> 's \<times> (KError, 'c) outcome" where
  "node_to_cid E S store slots =
     sbind (store, omap_err Core (to_dag_cbor E (node_ipld slots))) (\<lambda>store bytes.
       sbind (store, omap_err Core (cb_build_dag_cbor E cb_new bytes)) (\<lambda>store cid.
         (bs_put S store cid bytes, Ok cid)))"

definition load ::
    "'c cid_crate \<Rightarrow> ('s, 'c) BlockStore \<Rightarrow> 's \<Rightarrow> 'c \<Rightarrow> (KError, 'c Slot list) outcome" where
  "load E S store cid =
     obind (ok_or (NotFound ''hamt node'') (bs_get S store cid)) (\<lambda>bytes.
       obind (omap_err Core (from_dag_cbor E bytes)) (\<lambda>ipld.
         case ipld of
           Map m \<Rightarrow>
             (case bt_get m ''slots'' of
                Some (List l) \<Rightarrow>
                  (if length l = WIDTH then omap_list slot_from_ipld l
                   else Err (Decode ''hamt node bad slots''))
              | _ \<Rightarrow> Err (Decode ''hamt node bad slots''))
         | _ \<Rightarrow> Err (Decode ''hamt node not a map'')))"

definition hamt_empty :: "'c cid_crate \<Rightarrow> ('s, 'c) BlockStore \<Rightarrow> 's \<Rightarrow> 's \<times> (KError, 'c) outcome" where
  "hamt_empty E S store = node_to_cid E S store (replicate WIDTH Empty)"

function insert_slots ::
    "'c cid_crate \<Rightarrow> ('s, 'c) BlockStore \<Rightarrow> 's \<Rightarrow> 'c Slot list \<Rightarrow> EntityId \<Rightarrow> 'c \<Rightarrow> nat
       \<Rightarrow> 's \<times> (KError, 'c) outcome" where
  "insert_slots E S store slots key val depth =
     (if MAX_DEPTH \<le> depth then (store, Err (Graph ''hamt depth exceeded''))
      else let nib = nibble key depth in
        sbind
          (case slots ! nib of
             Empty \<Rightarrow> (store, Ok (Leaf key val))
           | Leaf k v \<Rightarrow>
               if k = key then (store, Ok (Leaf key val))
               else sbind (insert_slots E S store (replicate WIDTH Empty) k v (depth + 1))
                 (\<lambda>store c1. sbind (store, load E S store c1)
                   (\<lambda>store child. sbind (insert_slots E S store child key val (depth + 1))
                     (\<lambda>store c2. (store, Ok (Branch c2)))))
           | Branch c \<Rightarrow>
               sbind (store, load E S store c)
                 (\<lambda>store child. sbind (insert_slots E S store child key val (depth + 1))
                   (\<lambda>store c'. (store, Ok (Branch c')))))
          (\<lambda>store new. node_to_cid E S store (slots[nib := new])))"
  by pat_completeness auto
termination
  by (relation "measure (\<lambda>(E, S, store, slots, key, val, depth). MAX_DEPTH - depth)")
    (auto simp: MAX_DEPTH_def)

declare insert_slots.simps [simp del]

definition hamt_insert ::
    "'c cid_crate \<Rightarrow> ('s, 'c) BlockStore \<Rightarrow> 's \<Rightarrow> 'c \<Rightarrow> EntityId \<Rightarrow> 'c \<Rightarrow> 's \<times> (KError, 'c) outcome" where
  "hamt_insert E S store root key val =
     sbind (store, load E S store root) (\<lambda>store slots. insert_slots E S store slots key val 0)"

text \<open>The loop of \<open>get\<close>: \<open>cur\<close> and \<open>depth\<close> are its variables.\<close>

function get_loop ::
    "'c cid_crate \<Rightarrow> ('s, 'c) BlockStore \<Rightarrow> 's \<Rightarrow> EntityId \<Rightarrow> 'c \<Rightarrow> nat \<Rightarrow> (KError, 'c option) outcome" where
  "get_loop E S store key cur depth =
     (if MAX_DEPTH \<le> depth then Ok None
      else obind (load E S store cur) (\<lambda>slots.
        case slots ! nibble key depth of
          Empty \<Rightarrow> Ok None
        | Leaf k v \<Rightarrow> Ok (if k = key then Some v else None)
        | Branch c \<Rightarrow> get_loop E S store key c (depth + 1)))"
  by pat_completeness auto
termination
  by (relation "measure (\<lambda>(E, S, store, key, cur, depth). MAX_DEPTH - depth)")
    (auto simp: MAX_DEPTH_def)

declare get_loop.simps [simp del]

definition hamt_get ::
    "'c cid_crate \<Rightarrow> ('s, 'c) BlockStore \<Rightarrow> 's \<Rightarrow> 'c \<Rightarrow> EntityId \<Rightarrow> (KError, 'c option) outcome" where
  "hamt_get E S store root key = get_loop E S store key root 0"

text \<open>
  The loop of \<open>entries\<close>: the vector \<open>stack\<close> is kept with its top first, so a slot loop that
  pushes branches in slot order puts them in front in reverse.
\<close>

definition slot_leaves :: "'c Slot list \<Rightarrow> (EntityId \<times> 'c) list" where
  "slot_leaves slots = concat (map (\<lambda>s. case s of Leaf k v \<Rightarrow> [(k, v)] | _ \<Rightarrow> []) slots)"

definition slot_branches :: "'c Slot list \<Rightarrow> 'c list" where
  "slot_branches slots = concat (map (\<lambda>s. case s of Branch c \<Rightarrow> [c] | _ \<Rightarrow> []) slots)"

fun entries_loop ::
    "'c cid_crate \<Rightarrow> ('s, 'c) BlockStore \<Rightarrow> 's \<Rightarrow> nat \<Rightarrow> 'c list \<Rightarrow> (EntityId \<times> 'c) list
       \<Rightarrow> (KError, (EntityId \<times> 'c) list) outcome" where
  "entries_loop E S store fuel [] out = Ok out"
| "entries_loop E S store 0 (cid # stack) out = Diverge"
| "entries_loop E S store (Suc fuel) (cid # stack) out =
     obind (load E S store cid) (\<lambda>slots.
       entries_loop E S store fuel (rev (slot_branches slots) @ stack) (out @ slot_leaves slots))"

definition hamt_entries ::
    "'c cid_crate \<Rightarrow> ('s, 'c) BlockStore \<Rightarrow> 's \<Rightarrow> nat \<Rightarrow> 'c \<Rightarrow> (KError, (EntityId \<times> 'c) list) outcome" where
  "hamt_entries E S store fuel root = entries_loop E S store fuel [root] []"

subsection \<open>The specification: a trie in memory\<close>

datatype 'c tslot = TEmpty | TLeaf EntityId 'c | TBranch "'c tslot list"

function tget :: "'c tslot list \<Rightarrow> EntityId \<Rightarrow> nat \<Rightarrow> 'c option" where
  "tget ts key depth =
     (if MAX_DEPTH \<le> depth then None
      else case ts ! nibble key depth of
             TEmpty \<Rightarrow> None
           | TLeaf k v \<Rightarrow> (if k = key then Some v else None)
           | TBranch us \<Rightarrow> tget us key (depth + 1))"
  by pat_completeness auto
termination
  by (relation "measure (\<lambda>(ts, key, depth). MAX_DEPTH - depth)") (auto simp: MAX_DEPTH_def)

declare tget.simps [simp del]

abbreviation tempty :: "'c tslot list" where
  "tempty \<equiv> replicate WIDTH TEmpty"

function tinsert :: "'c tslot list \<Rightarrow> EntityId \<Rightarrow> 'c \<Rightarrow> nat \<Rightarrow> 'c tslot list option" where
  "tinsert ts key val depth =
     (if MAX_DEPTH \<le> depth then None
      else let nib = nibble key depth in
        map_option (\<lambda>new. ts[nib := new])
          (case ts ! nib of
             TEmpty \<Rightarrow> Some (TLeaf key val)
           | TLeaf k v \<Rightarrow>
               if k = key then Some (TLeaf key val)
               else Option.bind (tinsert tempty k v (depth + 1))
                 (\<lambda>child. map_option TBranch (tinsert child key val (depth + 1)))
           | TBranch us \<Rightarrow> map_option TBranch (tinsert us key val (depth + 1))))"
  by pat_completeness auto
termination
  by (relation "measure (\<lambda>(ts, key, val, depth). MAX_DEPTH - depth)") (auto simp: MAX_DEPTH_def)

declare tinsert.simps [simp del]

text \<open>How a trie is laid out in blocks: a branch is the CID of the encoding of its node.\<close>

definition node_bytes :: "'c cid_crate \<Rightarrow> 'c Slot list \<Rightarrow> bytes" where
  "node_bytes E slots = encode_dag_cbor E (node_ipld slots)"

fun conc :: "'c cid_crate \<Rightarrow> 'c tslot \<Rightarrow> 'c Slot" where
  "conc E TEmpty = Empty"
| "conc E (TLeaf k v) = Leaf k v"
| "conc E (TBranch us) = Branch (dag_cbor_cid E (node_bytes E (map (conc E) us)))"

definition tbytes :: "'c cid_crate \<Rightarrow> 'c tslot list \<Rightarrow> bytes" where
  "tbytes E ts = node_bytes E (map (conc E) ts)"

definition tcid :: "'c cid_crate \<Rightarrow> 'c tslot list \<Rightarrow> 'c" where
  "tcid E ts = dag_cbor_cid E (tbytes E ts)"

fun sblocks :: "'c cid_crate \<Rightarrow> 'c tslot \<Rightarrow> bytes set" where
  "sblocks E (TBranch us) = insert (tbytes E us) (\<Union> (set (map (sblocks E) us)))"
| "sblocks E _ = {}"

definition cblocks :: "'c cid_crate \<Rightarrow> 'c tslot list \<Rightarrow> bytes set" where
  "cblocks E ts = \<Union> (set (map (sblocks E) ts))"

definition tblocks :: "'c cid_crate \<Rightarrow> 'c tslot list \<Rightarrow> bytes set" where
  "tblocks E ts = insert (tbytes E ts) (cblocks E ts)"

text \<open>The blocks that an insertion writes, those of the nodes it discards again included.\<close>

function twrites :: "'c cid_crate \<Rightarrow> 'c tslot list \<Rightarrow> EntityId \<Rightarrow> 'c \<Rightarrow> nat \<Rightarrow> bytes set" where
  "twrites E ts key val depth =
     (if MAX_DEPTH \<le> depth then {}
      else (case ts ! nibble key depth of
             TEmpty \<Rightarrow> {}
           | TLeaf k v \<Rightarrow>
               if k = key then {}
               else twrites E tempty k v (depth + 1) \<union>
                 (case tinsert tempty k v (depth + 1) of
                    None \<Rightarrow> {} | Some child \<Rightarrow> twrites E child key val (depth + 1))
           | TBranch us \<Rightarrow> twrites E us key val (depth + 1)) \<union>
        (case tinsert ts key val depth of None \<Rightarrow> {} | Some ts' \<Rightarrow> {tbytes E ts'}))"
  by pat_completeness auto
termination
  by (relation "measure (\<lambda>(E, ts, key, val, depth). MAX_DEPTH - depth)") (auto simp: MAX_DEPTH_def)

declare twrites.simps [simp del]

subsection \<open>Blocks of nodes\<close>

definition cid_env :: "'c cid_crate \<Rightarrow> bool" where
  "cid_env E \<longleftrightarrow> cid_laws E \<and> cid_bytes_bounded E \<and> 16 * ipld_size E \<le> isize_max"

fun slot_ok :: "'c Slot \<Rightarrow> bool" where
  "slot_ok (Leaf k v) = (length k = 32)"
| "slot_ok _ = True"

lemma slot_to_ipld_simps [simp]:
  "slot_to_ipld Empty = Null"
  "slot_to_ipld (Leaf k v) = Map [(''k'', Bytes k), (''v'', Link v)]"
  "slot_to_ipld (Branch c) = Link c"
  by (simp_all add: slot_to_ipld_def bt_collect_def link_def less_char_def)

lemma node_ipld_eq:
  "node_ipld slots = Map [(''@type'', String ''hamt''), (''slots'', List (map slot_to_ipld slots))]"
  by (simp add: node_ipld_def bt_collect_def less_char_def)

lemma slot_from_to_ipld: "slot_ok s \<Longrightarrow> slot_from_ipld (slot_to_ipld s) = Ok s"
  by (cases s) (simp_all add: slot_from_ipld_def)

lemma slot_ipld_ok: "cid_env E \<Longrightarrow> slot_ok s \<Longrightarrow> ipld_ok E (slot_to_ipld s)"
  by (cases s) (auto simp: cid_env_def cid_bytes_bounded_def isize_max_def valid_str_def of_char_def less_char_def)

lemma node_ipld_ok:
  assumes "cid_env E" "length slots = 16" "\<forall>s \<in> set slots. slot_ok s"
  shows "ipld_ok E (node_ipld slots)"
proof -
  have "ipld_ok E (List (map slot_to_ipld slots))"
    using assms slot_ipld_ok [OF assms(1)] by (auto simp: cid_env_def list_all_iff)
  then show ?thesis
    by (simp add: node_ipld_eq valid_str_def of_char_def isize_max_def less_char_def)
qed

lemma load_node:
  assumes "cid_env E" "length slots = 16" "\<forall>s \<in> set slots. slot_ok s"
    and "bs_get S store cid = Some (node_bytes E slots)"
  shows "load E S store cid = Ok slots"
proof -
  have "from_dag_cbor E (node_bytes E slots) = Ok (node_ipld slots)"
    using from_dag_cbor_encode [OF node_ipld_ok [OF assms(1-3)], of "[]"] by (simp add: node_bytes_def)
  moreover have "omap_list slot_from_ipld (map slot_to_ipld slots) = Ok (map (\<lambda>s. s) slots)"
    using assms(3) by (intro omap_list_Ok_map) (auto simp: slot_from_to_ipld)
  ultimately show ?thesis
    using assms(2,4) by (simp add: load_def node_ipld_eq WIDTH_def)
qed

lemma node_to_cid_eq:
  "cid_env E \<Longrightarrow> node_to_cid E S store slots =
   (bs_put S store (dag_cbor_cid E (node_bytes E slots)) (node_bytes E slots),
    Ok (dag_cbor_cid E (node_bytes E slots)))"
  by (simp add: node_to_cid_def to_dag_cbor_def build_dag_cbor_new cid_env_def node_bytes_def)

subsection \<open>Nibbles\<close>

definition nibs :: "EntityId \<Rightarrow> nat list" where
  "nibs k = map (nibble k) [0..<64]"

definition on_path :: "nat list \<Rightarrow> EntityId \<Rightarrow> bool" where
  "on_path p k \<longleftrightarrow> take (length p) (nibs k) = p"

lemma on_path_Nil [simp]: "on_path [] k"
  by (simp add: on_path_def)

lemma on_path_snoc:
  "length p < 64 \<Longrightarrow> on_path (p @ [i]) k \<longleftrightarrow> on_path p k \<and> nibble k (length p) = i"
  by (auto simp: on_path_def nibs_def take_Suc_conv_app_nth)

lemma nibble_less: "nibble k d < 16"
proof -
  have "unat (drop_bit 4 b) < 16" "unat (b AND 0xf) < 16" for b :: u8
  proof -
    show "unat (drop_bit 4 b) < 16"
      using unat_byte_less [of b] by (simp add: drop_bit_eq_div unat_div)
    have "b AND 0xf = take_bit 4 b" by (simp add: take_bit_eq_mask mask_eq_exp_minus_1)
    then show "unat (b AND 0xf) < 16" by (simp add: unsigned_take_bit_eq take_bit_eq_mod unat_mod)
  qed
  then show ?thesis by (simp add: nibble_def Let_def)
qed

lemma byte_from_nibbles:
  fixes a b :: u8
  assumes "drop_bit 4 a = drop_bit 4 b" "a AND 0xf = b AND 0xf"
  shows "a = b"
proof (rule bit_word_eqI)
  fix n
  have m: "x AND 0xf = take_bit 4 x" for x :: u8 by (simp add: take_bit_eq_mask mask_eq_exp_minus_1)
  show "bit a n = bit b n"
  proof (cases "n < 4")
    case True
    then show ?thesis using arg_cong [OF assms(2), of "\<lambda>x. bit x n"] by (simp add: m bit_take_bit_iff)
  next
    case False
    then show ?thesis using arg_cong [OF assms(1), of "\<lambda>x. bit x (n - 4)"] by (simp add: bit_drop_bit_eq)
  qed
qed

lemma nibs_inject:
  assumes "length k = 32" "length k' = 32" "nibs k = nibs k'"
  shows "k = k'"
proof (rule nth_equalityI)
  fix j assume "j < length k"
  with assms(1) have j: "2 * j < 64" "2 * j + 1 < 64" by simp_all
  have n: "nibble k d = nibble k' d" if "d < 64" for d
    using arg_cong [OF assms(3), of "\<lambda>xs. xs ! d"] that by (simp add: nibs_def)
  have "drop_bit 4 (k ! j) = drop_bit 4 (k' ! j)"
    using n [OF j(1)] by (simp add: nibble_def word_unat_eq_iff)
  moreover have "k ! j AND 0xf = k' ! j AND 0xf"
    using n [OF j(2)] by (simp add: nibble_def word_unat_eq_iff)
  ultimately show "k ! j = k' ! j" by (rule byte_from_nibbles)
qed (simp add: assms)

lemma on_path_inject:
  assumes "length k = 32" "length k' = 32" "length p = 64" "on_path p k" "on_path p k'"
  shows "k = k'"
proof (rule nibs_inject [OF assms(1,2)])
  have "nibs k = p" "nibs k' = p" using assms(3-5) by (simp_all add: on_path_def nibs_def)
  then show "nibs k = nibs k'" by simp
qed

subsection \<open>Well-formed tries\<close>

text \<open>In a trie below the path \<open>p\<close>, every key starts with the nibbles of its path.\<close>

inductive twf :: "nat list \<Rightarrow> 'c tslot list \<Rightarrow> bool" and swf :: "nat list \<Rightarrow> 'c tslot \<Rightarrow> bool" where
  node: "length ts = 16 \<Longrightarrow> length p < 64 \<Longrightarrow> (\<And>i. i < 16 \<Longrightarrow> swf (p @ [i]) (ts ! i)) \<Longrightarrow> twf p ts"
| empty: "swf q TEmpty"
| leaf: "length k = 32 \<Longrightarrow> on_path q k \<Longrightarrow> swf q (TLeaf k v)"
| branch: "twf q us \<Longrightarrow> swf q (TBranch us)"

inductive_simps twf_iff: "twf p ts"
inductive_simps swf_simps [simp]: "swf q TEmpty" "swf q (TLeaf k v)" "swf q (TBranch us)"

lemma twf_length: "twf p ts \<Longrightarrow> length ts = 16" "twf p ts \<Longrightarrow> length p < 64"
  by (simp_all add: twf_iff)

lemma twf_slot: "twf p ts \<Longrightarrow> i < 16 \<Longrightarrow> swf (p @ [i]) (ts ! i)"
  by (simp add: twf_iff)

lemma twf_tempty: "length p < 64 \<Longrightarrow> twf p tempty"
  by (simp add: twf_iff WIDTH_def)

lemma twf_update: "twf p ts \<Longrightarrow> i < 16 \<Longrightarrow> swf (p @ [i]) t \<Longrightarrow> twf p (ts[i := t])"
  by (auto simp: twf_iff nth_list_update)

lemma tget_tempty: "tget tempty k d = None"
  by (subst tget.simps) (use nibble_less [of k d] in \<open>simp add: WIDTH_def\<close>)

definition sget :: "'c tslot \<Rightarrow> EntityId \<Rightarrow> nat \<Rightarrow> 'c option" where
  "sget t k d =
     (case t of TEmpty \<Rightarrow> None | TLeaf k' v \<Rightarrow> if k' = k then Some v else None
      | TBranch us \<Rightarrow> tget us k d)"

lemma sget_simps [simp]:
  "sget TEmpty k d = None" "sget (TLeaf k' v) k d = (if k' = k then Some v else None)"
  "sget (TBranch us) k d = tget us k d"
  by (simp_all add: sget_def)

lemma tget_slot:
  "length p < 64 \<Longrightarrow> tget ts k (length p) = sget (ts ! nibble k (length p)) k (Suc (length p))"
  by (subst tget.simps) (simp add: MAX_DEPTH_def sget_def split: tslot.split)

text \<open>Replacing the slot of a key by one that stores the key stores the key in the node.\<close>

lemma tget_update:
  assumes "twf p ts" "on_path p k" "i = nibble k (length p)" "swf (p @ [i]) t"
    and "\<And>k'. length k' = 32 \<Longrightarrow> on_path (p @ [i]) k' \<Longrightarrow>
      sget t k' (Suc (length p)) = (if k' = k then Some v else sget (ts ! i) k' (Suc (length p)))"
  shows "twf p (ts[i := t]) \<and> (\<forall>k'. length k' = 32 \<longrightarrow> on_path p k' \<longrightarrow>
      tget (ts[i := t]) k' (length p) = (if k' = k then Some v else tget ts k' (length p)))"
proof (intro conjI allI impI)
  have d: "length p < 64" "length ts = 16" using twf_length [OF assms(1)] by auto
  have i: "i < 16" using nibble_less assms(3) by simp
  show "twf p (ts[i := t])" by (rule twf_update [OF assms(1) i assms(4)])
  fix k' :: EntityId assume k': "length k' = 32" "on_path p k'"
  have n: "nibble k' (length p) < 16" by (rule nibble_less)
  show "tget (ts[i := t]) k' (length p) = (if k' = k then Some v else tget ts k' (length p))"
  proof (cases "nibble k' (length p) = i")
    case True
    then have "on_path (p @ [i]) k'" using k'(2) d by (simp add: on_path_snoc)
    from assms(5) [OF k'(1) this] True d i show ?thesis by (simp add: tget_slot)
  next
    case False
    then have "k' \<noteq> k" using assms(3) by auto
    with False d n show ?thesis by (simp add: tget_slot)
  qed
qed

lemma tinsert_unfold:
  assumes "length p < 64" "i = nibble k (length p)"
  shows "tinsert ts k v (length p) = map_option (\<lambda>new. ts[i := new])
          (case ts ! i of
             TEmpty \<Rightarrow> Some (TLeaf k v)
           | TLeaf k0 v0 \<Rightarrow>
               if k0 = k then Some (TLeaf k v)
               else Option.bind (tinsert tempty k0 v0 (length (p @ [i])))
                 (\<lambda>child. map_option TBranch (tinsert child k v (length (p @ [i]))))
           | TBranch us \<Rightarrow> map_option TBranch (tinsert us k v (length (p @ [i]))))"
  using assms by (subst tinsert.simps) (simp add: MAX_DEPTH_def Let_def split: tslot.split)

lemma tinsert_correct:
  assumes "twf p ts" "length k = 32" "on_path p k"
  shows "\<exists>ts'. tinsert ts k v (length p) = Some ts' \<and> twf p ts' \<and>
    (\<forall>k'. length k' = 32 \<longrightarrow> on_path p k' \<longrightarrow>
      tget ts' k' (length p) = (if k' = k then Some v else tget ts k' (length p)))"
  using assms
proof (induction "64 - length p" arbitrary: p ts k v rule: less_induct)
  case less
  define i q where "i = nibble k (length p)" and "q = p @ [i]"
  have d: "length p < 64" and i: "i < 16"
    using twf_length [OF less.prems(1)] nibble_less by (auto simp: i_def)
  have path: "on_path q k" using less.prems(3) d by (simp add: q_def i_def on_path_snoc)
  have slot: "swf q (ts ! i)" using twf_slot [OF less.prems(1) i] by (simp add: q_def)
  have len: "length q = Suc (length p)" by (simp add: q_def)
  have "64 - length q < 64 - length p" using d len by simp
  note IH = less.hyps [OF this, unfolded len]
  note unf = tinsert_unfold [OF d i_def, of ts v, folded q_def, unfolded len]
  have "\<exists>t. tinsert ts k v (length p) = Some (ts[i := t]) \<and> swf q t \<and>
    (\<forall>k'. length k' = 32 \<longrightarrow> on_path q k' \<longrightarrow>
      sget t k' (length q) = (if k' = k then Some v else sget (ts ! i) k' (length q)))"
  proof (cases "ts ! i")
    case TEmpty
    then show ?thesis using less.prems(2) path by (intro exI [of _ "TLeaf k v"]) (auto simp: unf)
  next
    case (TBranch us)
    with slot have "twf q us" by simp
    from IH [OF this less.prems(2) path, of v] TBranch show ?thesis by (auto simp: unf len)
  next
    case (TLeaf k0 v0)
    show ?thesis
    proof (cases "k0 = k")
      case True
      with TLeaf show ?thesis using less.prems(2) path
        by (intro exI [of _ "TLeaf k v"]) (auto simp: unf)
    next
      case False
      from slot TLeaf have k0: "length k0 = 32" "on_path q k0" by simp_all
      then have "length q < 64"
        using on_path_inject [OF k0(1) less.prems(2), of q] k0(2) path False d len by fastforce
      from IH [OF twf_tempty [OF this] k0, of v0] obtain c where c:
        "tinsert tempty k0 v0 (Suc (length p)) = Some c" "twf q c"
        "\<And>k'. length k' = 32 \<Longrightarrow> on_path q k' \<Longrightarrow>
          tget c k' (Suc (length p)) = (if k' = k0 then Some v0 else None)"
        by (auto simp: tget_tempty)
      from IH [OF c(2) less.prems(2) path, of v] c False TLeaf show ?thesis
        by (auto simp: unf len)
    qed
  qed
  then obtain t where t: "tinsert ts k v (length p) = Some (ts[i := t])" "swf (p @ [i]) t"
    "\<And>k'. length k' = 32 \<Longrightarrow> on_path (p @ [i]) k' \<Longrightarrow>
      sget t k' (Suc (length p)) = (if k' = k then Some v else sget (ts ! i) k' (Suc (length p)))"
    by (auto simp: q_def)
  from tget_update [OF less.prems(1,3) i_def t(2,3)] t(1) show ?case by blast
qed

text \<open>The three ways an insertion goes, for the proofs that follow its recursion.\<close>

lemma tinsert_cases:
  assumes "twf p ts" "length k = 32" "on_path p k" "i = nibble k (length p)" "q = p @ [i]"
  obtains (plain) "ts ! i = TEmpty \<or> (\<exists>v0. ts ! i = TLeaf k v0)"
      "tinsert ts k v (length p) = Some (ts[i := TLeaf k v])"
  | (split) k0 v0 c us' where "ts ! i = TLeaf k0 v0" "k0 \<noteq> k" "length q < 64" "length k0 = 32"
      "on_path q k0" "tinsert tempty k0 v0 (length q) = Some c" "twf q c"
      "tinsert c k v (length q) = Some us'" "twf q us'"
      "tinsert ts k v (length p) = Some (ts[i := TBranch us'])"
  | (descend) us us' where "ts ! i = TBranch us" "twf q us" "tinsert us k v (length q) = Some us'"
      "twf q us'" "tinsert ts k v (length p) = Some (ts[i := TBranch us'])"
proof -
  have d: "length p < 64" and i: "i < 16"
    using twf_length [OF assms(1)] nibble_less assms(4) by auto
  have path: "on_path q k" using assms(3-5) d by (simp add: on_path_snoc)
  have slot: "swf q (ts ! i)" using twf_slot [OF assms(1) i] assms(5) by simp
  note unf = tinsert_unfold [OF d assms(4), of ts v, folded assms(5)]
  show ?thesis
  proof (cases "ts ! i")
    case TEmpty
    then show ?thesis by (intro plain) (simp_all add: unf)
  next
    case (TBranch us)
    with slot have us: "twf q us" by simp
    from tinsert_correct [OF us assms(2) path, of v] obtain us' where
      "tinsert us k v (length q) = Some us'" "twf q us'" by blast
    with us TBranch show ?thesis by (intro descend [of us us']) (simp_all add: unf)
  next
    case (TLeaf k0 v0)
    show ?thesis
    proof (cases "k0 = k")
      case True
      with TLeaf show ?thesis by (intro plain) (simp_all add: unf)
    next
      case False
      from slot TLeaf have k0: "length k0 = 32" "on_path q k0" by simp_all
      then have q: "length q < 64"
        using on_path_inject [OF k0(1) assms(2), of q] path False d assms(5) by fastforce
      from tinsert_correct [OF twf_tempty [OF q] k0, of v0] obtain c where
        c: "tinsert tempty k0 v0 (length q) = Some c" "twf q c" by blast
      from tinsert_correct [OF c(2) assms(2) path, of v] obtain us' where
        us': "tinsert c k v (length q) = Some us'" "twf q us'" by blast
      show ?thesis
        by (rule split [of k0 v0 c us']) (use TLeaf False q k0 c us' in \<open>simp_all add: unf\<close>)
    qed
  qed
qed

subsection \<open>The blocks an insertion needs\<close>

lemma cblocks_tempty [simp]: "cblocks E tempty = {}"
  by (simp add: cblocks_def)

lemma sblocks_TBranch [simp]: "sblocks E (TBranch us) = tblocks E us"
  by (simp add: tblocks_def cblocks_def)

declare sblocks.simps(1) [simp del]

lemma cblocks_nth: "i < length ts \<Longrightarrow> sblocks E (ts ! i) \<subseteq> cblocks E ts"
  by (auto simp: cblocks_def intro!: bexI [of _ "ts ! i"])

lemma cblocks_update: "cblocks E (ts[i := t]) \<subseteq> cblocks E ts \<union> sblocks E t"
  using set_update_subset_insert [of ts i t] by (auto simp: cblocks_def)

lemma cblocks_le: "cblocks E ts \<subseteq> tblocks E ts"
  by (auto simp: tblocks_def)

lemma tblocks_update:
  assumes "tbytes E (ts[i := TBranch us]) \<in> W" "tblocks E us \<subseteq> cblocks E ts \<union> W"
  shows "tblocks E (ts[i := TBranch us]) \<subseteq> cblocks E ts \<union> W"
  using cblocks_update [of E ts i "TBranch us"] assms
  unfolding tblocks_def [of E "ts[i := TBranch us]"] by auto

lemma twrites_unfold:
  assumes "length p < 64" "i = nibble k (length p)"
  shows "twrites E ts k v (length p) =
      (case ts ! i of
         TEmpty \<Rightarrow> {}
       | TLeaf k0 v0 \<Rightarrow>
           if k0 = k then {}
           else twrites E tempty k0 v0 (length (p @ [i])) \<union>
             (case tinsert tempty k0 v0 (length (p @ [i])) of
                None \<Rightarrow> {} | Some child \<Rightarrow> twrites E child k v (length (p @ [i])))
       | TBranch us \<Rightarrow> twrites E us k v (length (p @ [i]))) \<union>
      (case tinsert ts k v (length p) of None \<Rightarrow> {} | Some ts' \<Rightarrow> {tbytes E ts'})"
  using assms by (subst twrites.simps) (simp add: MAX_DEPTH_def Let_def split: tslot.split option.split)

lemma tinsert_blocks:
  assumes "twf p ts" "length k = 32" "on_path p k" "tinsert ts k v (length p) = Some ts'"
  shows "tblocks E ts' \<subseteq> cblocks E ts \<union> twrites E ts k v (length p)"
  using assms
proof (induction "64 - length p" arbitrary: p ts k v ts' rule: less_induct)
  case less
  define i q where iq: "i = nibble k (length p)" "q = p @ [i]"
  have d: "length p < 64" and i: "i < length ts"
    using twf_length [OF less.prems(1)] nibble_less by (auto simp: iq)
  have m: "64 - length q < 64 - length p" using d iq by simp
  have path: "on_path q k" using less.prems(3) d by (simp add: iq on_path_snoc)
  note IH = less.hyps [OF m]
  note unf = twrites_unfold [OF d iq(1), of E ts v, folded iq(2)]
  have root: "tbytes E ts' \<in> twrites E ts k v (length p)"
    using less.prems(4) by (simp add: unf)
  from less.prems(1-3) iq show ?case
  proof (cases rule: tinsert_cases [where v = v])
    case plain
    then have "ts' = ts[i := TLeaf k v]" using less.prems(4) by simp
    then show ?thesis using root cblocks_update [of E ts i "TLeaf k v"] by (auto simp: tblocks_def)
  next
    case (split k0 v0 c us')
    then have "ts' = ts[i := TBranch us']" using less.prems(4) by simp
    moreover have "tblocks E c \<subseteq> twrites E tempty k0 v0 (length q)"
      using IH [OF twf_tempty [OF split(3)] split(4,5,6)] by simp
    moreover have "tblocks E us' \<subseteq> cblocks E c \<union> twrites E c k v (length q)"
      by (rule IH [OF split(7) less.prems(2) path split(8)])
    moreover have "twrites E tempty k0 v0 (length q) \<union> twrites E c k v (length q)
        \<subseteq> twrites E ts k v (length p)"
      using split by (auto simp: unf)
    ultimately show ?thesis using root tblocks_update [of E ts i us'] cblocks_le [of E c] by blast
  next
    case (descend us us')
    then have "ts' = ts[i := TBranch us']" using less.prems(4) by simp
    moreover have "tblocks E us' \<subseteq> cblocks E us \<union> twrites E us k v (length q)"
      by (rule IH [OF descend(2) less.prems(2) path descend(3)])
    moreover have "twrites E us k v (length q) \<subseteq> twrites E ts k v (length p)"
      using descend by (auto simp: unf)
    moreover have "cblocks E us \<subseteq> cblocks E ts"
      using cblocks_nth [OF i, of E] descend(1) by (auto simp: tblocks_def)
    ultimately show ?thesis using root tblocks_update [of E ts i us'] by blast
  qed
qed

lemma conc_slot_ok: "twf p ts \<Longrightarrow> \<forall>s \<in> set (map (conc E) ts). slot_ok s"
proof
  fix s assume a: "twf p ts" "s \<in> set (map (conc E) ts)"
  then obtain i where "i < 16" "s = conc E (ts ! i)"
    by (auto simp: in_set_conv_nth twf_length)
  with twf_slot [OF a(1)] show "slot_ok s" by (cases "ts ! i") (auto, metis swf_simps(2))
qed

lemma load_trie:
  assumes "cid_env E" "twf p ts" "bs_get S store (tcid E ts) = Some (tbytes E ts)"
  shows "load E S store (tcid E ts) = Ok (map (conc E) ts)"
  using assms conc_slot_ok [OF assms(2)] twf_length [OF assms(2)]
  by (intro load_node) (simp_all add: tbytes_def)

lemma conc_TBranch [simp]: "conc E (TBranch us) = Branch (tcid E us)"
  by (simp add: tcid_def tbytes_def)

declare conc.simps(3) [simp del]

lemma insert_slots_unfold:
  assumes "length p < 64" "i = nibble k (length p)"
  shows "insert_slots E S store slots k v (length p) =
        sbind
          (case slots ! i of
             Empty \<Rightarrow> (store, Ok (Leaf k v))
           | Leaf k0 v0 \<Rightarrow>
               if k0 = k then (store, Ok (Leaf k v))
               else sbind (insert_slots E S store (replicate WIDTH Empty) k0 v0 (length (p @ [i])))
                 (\<lambda>store c1. sbind (store, load E S store c1)
                   (\<lambda>store child. sbind (insert_slots E S store child k v (length (p @ [i])))
                     (\<lambda>store c2. (store, Ok (Branch c2)))))
           | Branch c \<Rightarrow>
               sbind (store, load E S store c)
                 (\<lambda>store child. sbind (insert_slots E S store child k v (length (p @ [i])))
                   (\<lambda>store c'. (store, Ok (Branch c')))))
          (\<lambda>store new. node_to_cid E S store (slots[i := new]))"
  using assms by (subst insert_slots.simps) (simp add: MAX_DEPTH_def Let_def split: Slot.split)

lemma map_conc_update: "map (conc E) (ts[i := t]) = (map (conc E) ts)[i := conc E t]"
  by (simp add: map_update)

context block_store
begin

text \<open>Writing the node of a trie whose branches are held.\<close>

lemma put_node:
  assumes "cid_env E" "inv s" "holds S E s B" "cblocks E ts \<subseteq> B"
    "inj_on (dag_cbor_cid E) (insert (tbytes E ts) B)"
  shows "\<exists>s'. node_to_cid E S s (map (conc E) ts) = (s', Ok (tcid E ts)) \<and> inv s' \<and>
    holds S E s' (B \<union> tblocks E ts)"
proof -
  have "holds S E (bs_put S s (dag_cbor_cid E (tbytes E ts)) (tbytes E ts)) (B \<union> tblocks E ts)"
    by (rule holds_mono [OF holds_put [OF assms(2,3,5)]]) (use assms(4) in \<open>auto simp: tblocks_def\<close>)
  then show ?thesis
    using inv_put [OF assms(2)] assms(1) by (simp add: node_to_cid_eq tcid_def tbytes_def)
qed

lemma insert_slots_refines:
  assumes "cid_env E" "twf p ts" "length k = 32" "on_path p k"
    and "inv s" "holds S E s B" "cblocks E ts \<subseteq> B"
    and "inj_on (dag_cbor_cid E) (B \<union> twrites E ts k v (length p))"
    and "tinsert ts k v (length p) = Some ts'"
  shows "\<exists>s'. insert_slots E S s (map (conc E) ts) k v (length p) = (s', Ok (tcid E ts')) \<and>
    inv s' \<and> holds S E s' (B \<union> tblocks E ts')"
  using assms(2-)
proof (induction "64 - length p" arbitrary: p ts k v ts' s B rule: less_induct)
  case less
  define i q where iq: "i = nibble k (length p)" "q = p @ [i]"
  have d: "length p < 64" and i: "i < length ts"
    using twf_length [OF less.prems(1)] nibble_less by (auto simp: iq)
  have m: "64 - length q < 64 - length p" using d iq by simp
  have path: "on_path q k" using less.prems(3) d by (simp add: iq on_path_snoc)
  note IH = less.hyps [OF m]
  note unf = insert_slots_unfold [OF d iq(1), of E S s "map (conc E) ts" v, folded iq(2)]
  note wunf = twrites_unfold [OF d iq(1), of E ts v, folded iq(2)]
  have root: "tbytes E ts' \<in> twrites E ts k v (length p)"
    using less.prems(8) by (simp add: wunf)
  have fin: "\<exists>s'. node_to_cid E S s1 ((map (conc E) ts)[i := conc E t]) = (s', Ok (tcid E ts')) \<and>
      inv s' \<and> holds S E s' (B \<union> tblocks E ts')"
    if t: "ts' = ts[i := t]" and s1: "inv s1" "holds S E s1 (B \<union> sblocks E t)"
      and sub: "sblocks E t \<subseteq> B \<union> twrites E ts k v (length p)" for t s1
  proof -
    have c: "cblocks E ts' \<subseteq> B \<union> sblocks E t"
      using cblocks_update [of E ts i t] less.prems(6) t by auto
    have inj: "inj_on (dag_cbor_cid E) (insert (tbytes E ts') (B \<union> sblocks E t))"
      using less.prems(7) by (rule inj_on_subset) (use root sub in auto)
    from put_node [OF assms(1) s1 c inj] obtain s' where
      s': "node_to_cid E S s1 (map (conc E) ts') = (s', Ok (tcid E ts'))" "inv s'"
        "holds S E s' ((B \<union> sblocks E t) \<union> tblocks E ts')" by blast
    have "holds S E s' (B \<union> tblocks E ts')" using s'(3) by (rule holds_mono) auto
    with s' show ?thesis by (auto simp: t map_conc_update)
  qed
  from less.prems(1-3) iq show ?case
  proof (cases rule: tinsert_cases [where v = v])
    case plain
    with less.prems(8) have t: "ts' = ts[i := TLeaf k v]" by simp
    from fin [OF t less.prems(4)] less.prems(5) plain i show ?thesis by (auto simp: unf)
  next
    case (split k0 v0 c us')
    with less.prems(8) have t: "ts' = ts[i := TBranch us']" by simp
    have w: "twrites E tempty k0 v0 (length q) \<union> twrites E c k v (length q) \<subseteq> twrites E ts k v (length p)"
      using split by (auto simp: wunf)
    have cb: "tblocks E c \<subseteq> twrites E tempty k0 v0 (length q)"
      using tinsert_blocks [OF twf_tempty [OF split(3)] split(4-6)] by simp
    have inj1: "inj_on (dag_cbor_cid E) (B \<union> twrites E tempty k0 v0 (length q))"
      using less.prems(7) by (rule inj_on_subset) (use w in auto)
    have "cblocks E tempty \<subseteq> B" by simp
    from IH [OF twf_tempty [OF split(3)] split(4,5) less.prems(4,5) this inj1 split(6)] obtain s1 where
      s1: "insert_slots E S s (replicate WIDTH Empty) k0 v0 (length q) = (s1, Ok (tcid E c))" "inv s1"
        "holds S E s1 (B \<union> tblocks E c)" by (auto simp: WIDTH_def)
    have l: "load E S s1 (tcid E c) = Ok (map (conc E) c)"
      by (rule load_trie [OF assms(1) split(7)])
        (use holdsD [OF s1(3), of "tbytes E c"] in \<open>simp add: tcid_def tblocks_def\<close>)
    have inj2: "inj_on (dag_cbor_cid E) ((B \<union> tblocks E c) \<union> twrites E c k v (length q))"
      using less.prems(7) by (rule inj_on_subset) (use w cb in auto)
    have "cblocks E c \<subseteq> B \<union> tblocks E c" by (auto simp: tblocks_def)
    from IH [OF split(7) less.prems(2) path s1(2,3) this inj2 split(8)] obtain s2 where
      s2: "insert_slots E S s1 (map (conc E) c) k v (length q) = (s2, Ok (tcid E us'))" "inv s2"
        "holds S E s2 ((B \<union> tblocks E c) \<union> tblocks E us')" by blast
    have "tblocks E us' \<subseteq> cblocks E c \<union> twrites E c k v (length q)"
      by (rule tinsert_blocks [OF split(7) less.prems(2) path split(8)])
    then have sub: "sblocks E (TBranch us') \<subseteq> B \<union> twrites E ts k v (length p)"
      using w cb by (auto simp: tblocks_def)
    have "holds S E s2 (B \<union> sblocks E (TBranch us'))"
      using s2(3) by (rule holds_mono) auto
    from fin [OF t s2(2) this sub] split s1(1) s2(1) l i show ?thesis
      by (simp add: unf)
  next
    case (descend us us')
    with less.prems(8) have t: "ts' = ts[i := TBranch us']" by simp
    have w: "twrites E us k v (length q) \<subseteq> twrites E ts k v (length p)"
      using descend by (auto simp: wunf)
    have us: "tblocks E us \<subseteq> B"
      using cblocks_nth [OF i, of E] descend(1) less.prems(6) by auto
    have l: "load E S s (tcid E us) = Ok (map (conc E) us)"
      by (rule load_trie [OF assms(1) descend(2)])
        (use holdsD [OF less.prems(5), of "tbytes E us"] us in \<open>simp add: tcid_def tblocks_def\<close>)
    have inj1: "inj_on (dag_cbor_cid E) (B \<union> twrites E us k v (length q))"
      using less.prems(7) by (rule inj_on_subset) (use w in auto)
    have "cblocks E us \<subseteq> B" using us by (auto simp: tblocks_def)
    from IH [OF descend(2) less.prems(2) path less.prems(4,5) this inj1 descend(3)] obtain s2 where
      s2: "insert_slots E S s (map (conc E) us) k v (length q) = (s2, Ok (tcid E us'))" "inv s2"
        "holds S E s2 (B \<union> tblocks E us')" by blast
    have sub: "sblocks E (TBranch us') \<subseteq> B \<union> twrites E ts k v (length p)"
      using tinsert_blocks [OF descend(2) less.prems(2) path descend(3), of E] w us
      by (auto simp: tblocks_def)
    from fin [OF t s2(2) _ sub] s2 descend l i show ?thesis
      by (simp add: unf)
  qed
qed

end

subsection \<open>Reading a trie back\<close>

lemma get_loop_refines:
  assumes "cid_env E" "holds S E s B" "twf p ts" "tblocks E ts \<subseteq> B"
  shows "get_loop E S s k (tcid E ts) (length p) = Ok (tget ts k (length p))"
  using assms(3,4)
proof (induction "64 - length p" arbitrary: p ts rule: less_induct)
  case less
  define i q where iq: "i = nibble k (length p)" "q = p @ [i]"
  have d: "length p < 64" and i: "i < length ts" "i < 16"
    using twf_length [OF less.prems(1)] nibble_less by (auto simp: iq)
  have l: "load E S s (tcid E ts) = Ok (map (conc E) ts)"
    using holdsD [OF assms(2), of "tbytes E ts"] less.prems(2)
    by (intro load_trie [OF assms(1) less.prems(1)]) (simp add: tcid_def tblocks_def)
  show ?case
  proof (cases "ts ! i")
    case (TBranch us)
    have "tblocks E us \<subseteq> B"
      using cblocks_nth [OF i(1), of E] TBranch less.prems(2) by (auto simp: tblocks_def)
    moreover have "twf q us" using twf_slot [OF less.prems(1) i(2)] TBranch by (simp add: iq)
    ultimately have "get_loop E S s k (tcid E us) (length q) = Ok (tget us k (length q))"
      using less.hyps [of q us] d by (simp add: iq)
    with TBranch d l i show ?thesis
      by (subst get_loop.simps, subst tget.simps) (simp add: MAX_DEPTH_def iq)
  qed (use d l i in \<open>subst get_loop.simps, subst tget.simps, simp add: MAX_DEPTH_def iq\<close>)+
qed

fun ssize :: "'c tslot \<Rightarrow> nat" where
  "ssize (TBranch us) = Suc (sum_list (map ssize us))"
| "ssize _ = 0"

definition tsize :: "'c tslot list \<Rightarrow> nat" where
  "tsize ts = Suc (sum_list (map ssize ts))"

fun sleaves :: "'c tslot \<Rightarrow> (EntityId \<times> 'c) list" where
  "sleaves TEmpty = []"
| "sleaves (TLeaf k v) = [(k, v)]"
| "sleaves (TBranch us) = concat (map sleaves us)"

definition tleaves :: "'c tslot list \<Rightarrow> (EntityId \<times> 'c) list" where
  "tleaves ts = concat (map sleaves ts)"

definition children :: "'c tslot list \<Rightarrow> 'c tslot list list" where
  "children ts = concat (map (\<lambda>t. case t of TBranch us \<Rightarrow> [us] | _ \<Rightarrow> []) ts)"

lemma slot_branches_conc: "slot_branches (map (conc E) ts) = map (tcid E) (children ts)"
  by (induction ts) (auto simp: slot_branches_def children_def split: tslot.split)

lemma tsize_children: "tsize ts = Suc (sum_list (map tsize (children ts)))"
proof -
  have "sum_list (map ssize ts) = sum_list (map tsize (children ts))"
    by (induction ts) (auto simp: children_def tsize_def split: tslot.split)
  then show ?thesis by (simp add: tsize_def)
qed

lemma mset_tleaves_children:
  "mset (tleaves ts) = mset (slot_leaves (map (conc E) ts)) + mset (concat (map tleaves (children ts)))"
proof (induction ts)
  case (Cons t ts)
  then show ?case
    by (cases t) (simp_all add: tleaves_def slot_leaves_def children_def)
qed (simp add: tleaves_def slot_leaves_def children_def)

lemma children_ok:
  assumes "twf p ts" "us \<in> set (children ts)"
  shows "\<exists>q. twf q us" "tblocks E us \<subseteq> tblocks E ts"
proof -
  from assms(2) obtain i where i: "i < length ts" "ts ! i = TBranch us"
    by (auto simp: children_def in_set_conv_nth [of _ ts] split: tslot.splits)
  with twf_slot [OF assms(1), of i] twf_length [OF assms(1)] show "\<exists>q. twf q us" by auto
  show "tblocks E us \<subseteq> tblocks E ts"
    using cblocks_nth [OF i(1), of E] i(2) cblocks_le [of E ts] by auto
qed

lemma entries_loop_refines:
  assumes "cid_env E" "holds S E s B"
    and "\<forall>ts \<in> set tss. (\<exists>p. twf p ts) \<and> tblocks E ts \<subseteq> B"
    and "sum_list (map tsize tss) \<le> fuel"
  shows "\<exists>r. entries_loop E S s fuel (map (tcid E) tss) out = Ok (out @ r) \<and>
    mset r = mset (concat (map tleaves tss))"
  using assms(3,4)
proof (induction fuel arbitrary: tss out)
  case 0
  then have "tss = []" by (cases tss) (simp_all add: tsize_def)
  then show ?case by simp
next
  case (Suc fuel)
  show ?case
  proof (cases tss)
    case (Cons ts rest)
    from Suc.prems(1) Cons obtain p where p: "twf p ts" "tblocks E ts \<subseteq> B" by auto
    have l: "load E S s (tcid E ts) = Ok (map (conc E) ts)"
      using holdsD [OF assms(2), of "tbytes E ts"] p(2)
      by (intro load_trie [OF assms(1) p(1)]) (simp add: tcid_def tblocks_def)
    have "\<forall>us \<in> set (rev (children ts) @ rest). (\<exists>q. twf q us) \<and> tblocks E us \<subseteq> B"
      using children_ok [OF p(1)] p(2) Suc.prems(1) Cons by fastforce
    moreover have "sum_list (map tsize (rev (children ts) @ rest)) \<le> fuel"
      using Suc.prems(2) Cons by (simp add: tsize_children [of ts] rev_map [symmetric] sum_list_rev)
    ultimately obtain r where r: "entries_loop E S s fuel (map (tcid E) (rev (children ts) @ rest))
        (out @ slot_leaves (map (conc E) ts)) = Ok ((out @ slot_leaves (map (conc E) ts)) @ r)"
      "mset r = mset (concat (map tleaves (rev (children ts) @ rest)))"
      using Suc.IH by blast
    then show ?thesis using l mset_tleaves_children [of ts E]
      by (intro exI [of _ "slot_leaves (map (conc E) ts) @ r"])
        (simp add: Cons slot_branches_conc rev_map [symmetric] mset_concat sum_list_rev)
  qed simp
qed

lemma distinct_concat_upt:
  assumes "\<And>i. i < n \<Longrightarrow> distinct (f i)"
    and "\<And>i j x. i < n \<Longrightarrow> j < n \<Longrightarrow> x \<in> set (f i) \<Longrightarrow> x \<in> set (f j) \<Longrightarrow> i = j"
  shows "distinct (concat (map f [0..<n]))"
  using assms
proof (induction n)
  case (Suc n)
  have "distinct (concat (map f [0..<n]))" by (rule Suc.IH) (use Suc.prems in force)+
  moreover have "set (concat (map f [0..<n])) \<inter> set (f n) = {}"
    by (auto dest: Suc.prems(2) [of _ n, simplified, rotated])
  ultimately show ?case using Suc.prems(1) [of n] by simp
qed simp

lemma leaves_wf:
  fixes ts :: "'c tslot list" and t :: "'c tslot"
  shows "twf p ts \<Longrightarrow> distinct (map fst (tleaves ts)) \<and>
     (\<forall>k v. (k, v) \<in> set (tleaves ts) \<longleftrightarrow> length k = 32 \<and> on_path p k \<and> tget ts k (length p) = Some v)"
    and "swf q t \<Longrightarrow> distinct (map fst (sleaves t)) \<and>
     (\<forall>k v. (k, v) \<in> set (sleaves t) \<longleftrightarrow> length k = 32 \<and> on_path q k \<and> sget t k (length q) = Some v)"
proof (induction p ts and q t rule: twf_swf.inducts)
  case (node ts p)
  have ts: "tleaves ts = concat (map (\<lambda>i. sleaves (ts ! i)) [0..<16])"
    using node.hyps(1) map_nth [of ts] by (simp add: tleaves_def) (metis (no_types, lifting) map_map comp_def map_eq_conv)
  have mem: "(k, v) \<in> set (sleaves (ts ! i)) \<longleftrightarrow> length k = 32 \<and> on_path p k \<and> nibble k (length p) = i \<and>
      sget (ts ! i) k (Suc (length p)) = Some v" if "i < 16" for i k v
    using node.IH [OF that] node.hyps(2) by (auto simp: on_path_snoc)
  have "distinct (concat (map (\<lambda>i. map fst (sleaves (ts ! i))) [0..<16]))"
    by (rule distinct_concat_upt) (simp add: node.IH, auto simp: mem)
  then have "distinct (map fst (tleaves ts))" by (simp add: ts map_concat comp_def)
  moreover have "(k, v) \<in> set (tleaves ts) \<longleftrightarrow> length k = 32 \<and> on_path p k \<and> tget ts k (length p) = Some v"
    for k v
    using nibble_less [of k "length p"] by (auto simp: ts mem tget_slot node.hyps(2))
  ultimately show ?case by blast
qed (auto simp: tleaves_def)

lemma get_refines:
  assumes "cid_env E" "holds S E s B" "twf [] ts" "tblocks E ts \<subseteq> B"
  shows "hamt_get E S s (tcid E ts) k = Ok (tget ts k 0)"
  using get_loop_refines [OF assms, of k] by (simp add: hamt_get_def)

lemma entries_enough_fuel:
  assumes "cid_env E" "holds S E s B" "twf [] ts" "tblocks E ts \<subseteq> B" "tsize ts \<le> fuel"
  shows "\<exists>es. hamt_entries E S s fuel (tcid E ts) = Ok es \<and> distinct (map fst es) \<and>
    (\<forall>k. map_of es k = (if length k = 32 then tget ts k 0 else None))"
proof -
  from entries_loop_refines [OF assms(1,2), of "[ts]" fuel "[]"] assms(3-5) obtain es where
    es: "hamt_entries E S s fuel (tcid E ts) = Ok es" "mset es = mset (tleaves ts)"
    by (auto simp: hamt_entries_def)
  have "mset (map fst es) = mset (map fst (tleaves ts))" using es(2) by (metis mset_map)
  then have d: "distinct (map fst es)"
    using leaves_wf(1) [OF assms(3)] mset_eq_imp_distinct_iff by blast
  have "(k, v) \<in> set es \<longleftrightarrow> length k = 32 \<and> tget ts k 0 = Some v" for k v
    using leaves_wf(1) [OF assms(3)] mset_eq_setD [OF es(2)] by simp
  then have "map_of es k = Some v \<longleftrightarrow> (if length k = 32 then tget ts k 0 else None) = Some v" for k v
    using map_of_eq_Some_iff [OF d, of k] by simp
  then have "map_of es k = (if length k = 32 then tget ts k 0 else None)" for k
    by (metis not_Some_eq)
  with es(1) d show ?thesis by blast
qed

text \<open>A sequence of insertions, on the store and on the trie in memory.\<close>

fun hamt_inserts ::
    "'c cid_crate \<Rightarrow> ('s, 'c) BlockStore \<Rightarrow> 's \<Rightarrow> 'c \<Rightarrow> (EntityId \<times> 'c) list \<Rightarrow> 's \<times> (KError, 'c) outcome" where
  "hamt_inserts E S store root [] = (store, Ok root)"
| "hamt_inserts E S store root ((k, v) # kvs) =
     sbind (hamt_insert E S store root k v) (\<lambda>store root. hamt_inserts E S store root kvs)"

fun tinserts :: "'c cid_crate \<Rightarrow> 'c tslot list \<Rightarrow> bytes set \<Rightarrow> (EntityId \<times> 'c) list \<Rightarrow> bytes set" where
  "tinserts E ts W [] = W"
| "tinserts E ts W ((k, v) # kvs) =
     (case tinsert ts k v 0 of
        None \<Rightarrow> W
      | Some ts' \<Rightarrow> tinserts E ts' (W \<union> twrites E ts k v 0) kvs)"

lemma tinserts_ge: "W \<subseteq> tinserts E ts W kvs"
  by (induction E ts W kvs rule: tinserts.induct) (auto split: option.split)

context block_store
begin

lemma hamt_insert_refines:
  assumes "cid_env E" "inv s" "twf [] ts" "length k = 32" "holds S E s B" "tblocks E ts \<subseteq> B"
    and "inj_on (dag_cbor_cid E) (B \<union> twrites E ts k v 0)"
  shows "\<exists>s' ts'. tinsert ts k v 0 = Some ts' \<and> hamt_insert E S s (tcid E ts) k v = (s', Ok (tcid E ts')) \<and>
    inv s' \<and> twf [] ts' \<and> holds S E s' (B \<union> tblocks E ts') \<and>
    (\<forall>k'. length k' = 32 \<longrightarrow> tget ts' k' 0 = (if k' = k then Some v else tget ts k' 0))"
proof -
  from tinsert_correct [OF assms(3,4), of v] obtain ts' where ts': "tinsert ts k v 0 = Some ts'" "twf [] ts'"
    "\<forall>k'. length k' = 32 \<longrightarrow> tget ts' k' 0 = (if k' = k then Some v else tget ts k' 0)" by auto
  have "load E S s (tcid E ts) = Ok (map (conc E) ts)"
    using holdsD [OF assms(5), of "tbytes E ts"] assms(6)
    by (intro load_trie [OF assms(1,3)]) (simp add: tcid_def tblocks_def)
  moreover have "cblocks E ts \<subseteq> B" using assms(6) cblocks_le by blast
  ultimately show ?thesis
    using insert_slots_refines [OF assms(1,3,4), of s B v ts'] assms(2,5,7) ts'
    by (auto simp: hamt_insert_def)
qed

lemma hamt_inserts_refines:
  assumes "cid_env E" "inv s" "twf [] ts" "holds S E s B" "tblocks E ts \<subseteq> B" "B \<subseteq> W"
    and "\<forall>(k, v) \<in> set kvs. length k = 32" "inj_on (dag_cbor_cid E) (tinserts E ts W kvs)"
  shows "\<exists>s' ts' B'. hamt_inserts E S s (tcid E ts) kvs = (s', Ok (tcid E ts')) \<and> inv s' \<and>
    twf [] ts' \<and> holds S E s' B' \<and> B \<union> tblocks E ts' \<subseteq> B' \<and>
    (\<forall>k. length k = 32 \<longrightarrow> tget ts' k 0 = (case map_of (rev kvs) k of None \<Rightarrow> tget ts k 0 | Some v \<Rightarrow> Some v))"
  using assms(2-)
proof (induction kvs arbitrary: s ts B W)
  case (Cons kv kvs)
  obtain k v where kv: "kv = (k, v)" by force
  with Cons.prems(6) have k: "length k = 32" by simp
  from tinsert_correct [OF Cons.prems(2) k, of v] obtain ts' where t: "tinsert ts k v 0 = Some ts'" by auto
  let ?W = "W \<union> twrites E ts k v 0"
  have inj: "inj_on (dag_cbor_cid E) (tinserts E ts' ?W kvs)" using Cons.prems(7) kv t by simp
  have "inj_on (dag_cbor_cid E) (B \<union> twrites E ts k v 0)"
    using inj by (rule inj_on_subset) (use tinserts_ge [of ?W E ts' kvs] Cons.prems(5) in auto)
  from hamt_insert_refines [OF assms(1) Cons.prems(1,2) k Cons.prems(3,4) this] t obtain s' where
    s': "hamt_insert E S s (tcid E ts) k v = (s', Ok (tcid E ts'))" "inv s'" "twf [] ts'"
      "holds S E s' (B \<union> tblocks E ts')"
      "\<And>k'. length k' = 32 \<Longrightarrow> tget ts' k' 0 = (if k' = k then Some v else tget ts k' 0)" by auto
  have "tblocks E ts' \<subseteq> cblocks E ts \<union> twrites E ts k v 0"
    using tinsert_blocks [OF Cons.prems(2) k, of v ts' E] t by simp
  then have sub: "B \<union> tblocks E ts' \<subseteq> ?W" using Cons.prems(4,5) cblocks_le [of E ts] by blast
  have "\<forall>(k, v) \<in> set kvs. length k = 32" using Cons.prems(6) by simp
  from Cons.IH [OF s'(2,3,4) _ sub this inj] obtain s2 ts2 B2 where
    "hamt_inserts E S s' (tcid E ts') kvs = (s2, Ok (tcid E ts2))" "inv s2" "twf [] ts2"
    "holds S E s2 B2" "(B \<union> tblocks E ts') \<union> tblocks E ts2 \<subseteq> B2"
    "\<forall>k. length k = 32 \<longrightarrow> tget ts2 k 0 = (case map_of (rev kvs) k of None \<Rightarrow> tget ts' k 0 | Some v \<Rightarrow> Some v)"
    by auto
  with s'(1,5) show ?case
    by (intro exI [of _ s2] exI [of _ ts2] exI [of _ B2]) (auto simp: kv map_add_def split: option.split)
qed auto

lemma hamt_empty_refines:
  assumes "cid_env E" "inv s"
  shows "\<exists>s'. hamt_empty E S s = (s', Ok (tcid E tempty)) \<and> inv s' \<and> holds S E s' {tbytes E tempty}"
proof -
  have "map (conc E) tempty = replicate WIDTH Empty" by (simp add: WIDTH_def)
  with put_node [OF assms, of "{}" tempty] show ?thesis
    by (auto simp: hamt_empty_def holds_def tblocks_def)
qed

end

lemma cid_env_crate64: "cid_env crate64"
  using cid_laws_crate64 cid_bytes_bounded_crate64 by (simp add: cid_env_def crate64_def isize_max_def)

subsection \<open>A concrete instance\<close>

text \<open>
  For the witnesses: CIDs whose digest is the length of the block, so that the blocks of a growing
  trie are told apart without computing a hash.
\<close>

definition crate_len :: "(u64 + u64 \<times> u64) cid_crate" where
  "crate_len = crate64\<lparr>mh_digest := \<lambda>a bs. be_bytes 8 (length bs)\<rparr>"

lemma cid_env_crate_len: "cid_env crate_len"
  using cid_env_crate64 by (simp add: cid_env_def crate_len_def cid_laws_def cid_bytes_bounded_def)

lemma dag_cbor_cid_crate_len: "dag_cbor_cid crate_len bs = Inr (0x71, of_nat (from_be (be_bytes 8 (length bs))))"
  by (simp add: dag_cbor_cid_def crate_len_def crate64_def)

lemma length_concat_update:
  "i < length xs \<Longrightarrow> length (concat (xs[i := y])) + length (xs ! i) = length (concat xs) + length y"
  by (induction xs arbitrary: i) (auto split: nat.split)

lemma length_tbytes:
  assumes "length ts = 16"
  shows "length (tbytes E ts) = 19 + length (concat (map (encode_dag_cbor E \<circ> slot_to_ipld \<circ> conc E) ts))"
  using assms by (simp add: tbytes_def node_bytes_def node_ipld_eq encode_cbor_length_def Let_def str_bytes_def comp_assoc)

lemma length_tbytes_update:
  assumes "length ts = 16" "i < 16" "ts ! i = TEmpty" "length k = 32"
  shows "length (tbytes crate_len (ts[i := TLeaf k (Inl v)])) = length (tbytes crate_len ts) + 51"
proof -
  have "length (encode_dag_cbor crate_len (slot_to_ipld (Leaf k (Inl v)))) = 52"
    using assms(4) by (simp add: encode_cbor_length_def encode_cbor_tag_def CID_TAG_def Let_def
        str_bytes_def crate_len_def crate64_def)
  then show ?thesis
    using length_concat_update [of i "map (encode_dag_cbor crate_len \<circ> slot_to_ipld \<circ> conc crate_len) ts"
        "encode_dag_cbor crate_len (slot_to_ipld (Leaf k (Inl v)))"] assms
    by (simp add: length_tbytes map_update del: slot_to_ipld_simps(2))
qed

lemma length_tbytes_tempty: "length (tbytes crate_len tempty) = 35"
  by (simp add: length_tbytes WIDTH_def)

lemma dag_cbor_cid_neq:
  "length a < 2 ^ 64 \<Longrightarrow> length b < 2 ^ 64 \<Longrightarrow> length a \<noteq> length b \<Longrightarrow> dag_cbor_cid crate_len a \<noteq> dag_cbor_cid crate_len b"
  by (simp add: dag_cbor_cid_crate_len from_be_bytes_id of_nat_inverse word_of_nat_eq_iff take_bit_nat_eq_self)

subsection \<open>Properties\<close>

text \<open>
  (C3) The trie is a map. A sequence of insertions starting from the empty trie, on any 32-byte
  keys, succeeds (the depth limit is never hit); afterwards \<open>get\<close> finds under every key the value
  inserted last, and \<open>entries\<close>, given enough fuel, returns every binding exactly once. The
  hypothesis is that the blocks this sequence writes have different CIDs.
\<close>

theorem hamt_is_map:
  assumes "cid_env E" "ms_inv s" "\<forall>(k, v) \<in> set kvs. length k = 32"
    and "inj_on (dag_cbor_cid E) (tinserts E tempty {tbytes E tempty} kvs)"
  shows "\<exists>s' root n. sbind (hamt_empty E mem_store s) (\<lambda>s root. hamt_inserts E mem_store s root kvs) =
      (s', Ok root) \<and>
    (\<forall>k. length k = 32 \<longrightarrow> hamt_get E mem_store s' root k = Ok (map_of (rev kvs) k)) \<and>
    (\<forall>fuel \<ge> n. \<exists>es. hamt_entries E mem_store s' fuel root = Ok es \<and> distinct (map fst es) \<and>
       map_of es = map_of (rev kvs))"
proof -
  from mem.hamt_empty_refines [OF assms(1,2)] obtain s0 where
    s0: "hamt_empty E mem_store s = (s0, Ok (tcid E tempty))" "ms_inv s0" "holds mem_store E s0 {tbytes E tempty}"
    by blast
  have b: "tblocks E tempty \<subseteq> {tbytes E tempty}" by (simp add: tblocks_def)
  have t: "twf [] tempty" by (simp add: twf_tempty)
  from mem.hamt_inserts_refines [OF assms(1) s0(2) t s0(3) b order_refl assms(3,4)] obtain s' ts B where
    s': "hamt_inserts E mem_store s0 (tcid E tempty) kvs = (s', Ok (tcid E ts))" "twf [] ts"
      "holds mem_store E s' B" "tblocks E ts \<subseteq> B"
      "\<forall>k. length k = 32 \<longrightarrow> tget ts k 0 = (case map_of (rev kvs) k of None \<Rightarrow> tget tempty k 0 | Some v \<Rightarrow> Some v)"
    by blast
  have "length k = 32" if "map_of (rev kvs) k = Some v" for k v
    using assms(3) map_of_SomeD [OF that] by auto
  then have "(if length k = 32 then tget ts k 0 else None) = map_of (rev kvs) k" for k
    using s'(5) by (cases "map_of (rev kvs) k") (auto simp: tget_tempty)
  with s0(1) s' show ?thesis
    using get_refines [OF assms(1) s'(3,2,4)] entries_enough_fuel [OF assms(1) s'(3,2,4)]
    by (intro exI [of _ s'] exI [of _ "tcid E ts"] exI [of _ "tsize ts"]) (auto simp: fun_eq_iff tget_tempty split: option.split)
qed

lemma inj_on_crate_len:
  assumes "inj_on length B" "\<forall>b \<in> B. length b < 2 ^ 64"
  shows "inj_on (dag_cbor_cid crate_len) B"
proof (rule inj_onI)
  fix a b assume "a \<in> B" "b \<in> B" "dag_cbor_cid crate_len a = dag_cbor_cid crate_len b"
  then have "length a = length b" using dag_cbor_cid_neq [of a b] assms(2) by blast
  with \<open>a \<in> B\<close> \<open>b \<in> B\<close> show "a = b" using assms(1) by (auto dest: inj_onD)
qed

theorem hamt_is_map_witness:
  "\<exists>s' root n. sbind (hamt_empty crate_len mem_store ms_new)
      (\<lambda>s root. hamt_inserts crate_len mem_store s root [(replicate 32 0, Inl 1), (0x10 # replicate 31 0, Inl 2)]) =
      (s', Ok root) \<and>
    (\<forall>k. length k = 32 \<longrightarrow> hamt_get crate_len mem_store s' root k =
       Ok (map_of (rev [(replicate 32 0, Inl 1), (0x10 # replicate 31 0, Inl 2)]) k)) \<and>
    (\<forall>fuel \<ge> n. \<exists>es. hamt_entries crate_len mem_store s' fuel root = Ok es \<and> distinct (map fst es) \<and>
       map_of es = map_of (rev [(replicate 32 0, Inl 1), (0x10 # replicate 31 0, Inl 2)]))"
proof (rule hamt_is_map [OF cid_env_crate_len])
  let ?k1 = "replicate 32 0 :: EntityId" and ?k2 = "0x10 # replicate 31 0 :: EntityId"
  let ?t0 = "replicate 16 TEmpty :: (u64 + u64 \<times> u64) tslot list"
  let ?t1 = "?t0[0 := TLeaf ?k1 (Inl 1)]" let ?t2 = "?t1[1 := TLeaf ?k2 (Inl 2)]"
  have n: "nibble ?k1 0 = 0" "nibble ?k2 0 = 1" by (simp_all add: nibble_def)
  have t: "tinsert ?t0 ?k1 (Inl 1) 0 = Some ?t1" "tinsert ?t1 ?k2 (Inl 2) 0 = Some ?t2"
    by (subst tinsert.simps, simp add: MAX_DEPTH_def n)+
  have w: "twrites E ?t0 ?k1 (Inl 1) 0 = {tbytes E ?t1}" "twrites E ?t1 ?k2 (Inl 2) 0 = {tbytes E ?t2}" for E
    by (subst twrites.simps, simp add: MAX_DEPTH_def n t)+
  have l: "length (tbytes crate_len ?t0) = 35" "length (tbytes crate_len ?t1) = 86"
    "length (tbytes crate_len ?t2) = 137"
    using length_tbytes_tempty by (simp_all add: length_tbytes_update WIDTH_def)
  show "inj_on (dag_cbor_cid crate_len)
      (tinserts crate_len tempty {tbytes crate_len tempty} [(?k1, Inl 1), (?k2, Inl 2)])"
    using l by (auto simp: WIDTH_def t w inj_on_def dag_cbor_cid_neq intro: ccontr)
qed (simp_all add: ms_inv_def ms_new_def)

text \<open>
  Insertion is persistent: it gives a new root and leaves the trie under the old root, and
  any other trie whose blocks are in the store, as it was.
\<close>

theorem hamt_insert_persistent:
  assumes "cid_env E" "ms_inv s" "twf [] ts" "length key = 32" "holds mem_store E s B" "tblocks E ts \<subseteq> B"
    and "inj_on (dag_cbor_cid E) (B \<union> twrites E ts key val 0)"
    and "twf [] old" "tblocks E old \<subseteq> B"
  shows "\<exists>s' ts'. hamt_insert E mem_store s (tcid E ts) key val = (s', Ok (tcid E ts')) \<and>
    hamt_get E mem_store s' (tcid E old) k = hamt_get E mem_store s (tcid E old) k \<and>
    hamt_get E mem_store s' (tcid E ts') key = Ok (Some val)"
proof -
  from mem.hamt_insert_refines [OF assms(1-7)] obtain s' ts' where
    s': "hamt_insert E mem_store s (tcid E ts) key val = (s', Ok (tcid E ts'))" "twf [] ts'"
      "holds mem_store E s' (B \<union> tblocks E ts')" "tget ts' key 0 = Some val"
    using assms(4) by auto
  moreover have "hamt_get E mem_store s' (tcid E old) k = Ok (tget old k 0)"
    using get_refines [OF assms(1) s'(3) assms(8)] assms(9) by auto
  ultimately show ?thesis
    using get_refines [OF assms(1) s'(3,2)] get_refines [OF assms(1,5,8,9)] by auto
qed

theorem hamt_insert_persistent_witness:
  "\<exists>s' ts'. hamt_insert crate_len mem_store
      (bs_put mem_store ms_new (tcid crate_len tempty) (tbytes crate_len tempty))
      (tcid crate_len tempty) (replicate 32 0) (Inl 1) = (s', Ok (tcid crate_len ts')) \<and>
    hamt_get crate_len mem_store s' (tcid crate_len tempty) (replicate 32 0) =
      hamt_get crate_len mem_store
        (bs_put mem_store ms_new (tcid crate_len tempty) (tbytes crate_len tempty))
        (tcid crate_len tempty) (replicate 32 0) \<and>
    hamt_get crate_len mem_store s' (tcid crate_len ts') (replicate 32 0) = Ok (Some (Inl 1))"
proof (rule hamt_insert_persistent [OF cid_env_crate_len, where B = "{tbytes crate_len tempty}"])
  let ?k1 = "replicate 32 0 :: EntityId"
  let ?t0 = "replicate 16 TEmpty :: (u64 + u64 \<times> u64) tslot list"
  let ?t1 = "?t0[0 := TLeaf ?k1 (Inl 1)]"
  have n: "nibble ?k1 0 = 0" by (simp add: nibble_def)
  have t: "tinsert ?t0 ?k1 (Inl 1) 0 = Some ?t1" by (subst tinsert.simps, simp add: MAX_DEPTH_def n)
  have w: "twrites E ?t0 ?k1 (Inl 1) 0 = {tbytes E ?t1}" for E
    by (subst twrites.simps, simp add: MAX_DEPTH_def n t)
  have l: "length (tbytes crate_len ?t0) = 35" "length (tbytes crate_len ?t1) = 86"
    using length_tbytes_tempty by (simp_all add: length_tbytes_update WIDTH_def)
  show "inj_on (dag_cbor_cid crate_len) ({tbytes crate_len tempty} \<union> twrites crate_len tempty ?k1 (Inl 1) 0)"
    using l by (auto simp: WIDTH_def w inj_on_def dag_cbor_cid_neq intro: ccontr)
  show "ms_inv (bs_put mem_store ms_new (tcid crate_len tempty) (tbytes crate_len tempty))"
    by (rule mem.inv_put) (simp add: ms_inv_def ms_new_def)
  show "holds mem_store crate_len (bs_put mem_store ms_new (tcid crate_len tempty) (tbytes crate_len tempty))
      {tbytes crate_len tempty}"
    by (simp add: holds_def tcid_def mem.get_put ms_inv_def ms_new_def)
qed (simp_all add: twf_tempty tblocks_def)

end
