(* ===== verification/Rust_Float.thy ===== *)
theory Rust_Float
  imports Dag_Cbor
begin

unbundle bit_operations_syntax

text \<open>
  The numeric casts of Rust that the knowledge nodes use, on bit patterns: \<open>f64 as f32\<close> and
  \<open>i128 as f64\<close>, both rounding to nearest with ties to even. \<open>f32 as f64\<close> is \<open>f32_to_f64\<close> of
  the codec theory; here it is shown that the casts there and back give every \<open>f32\<close> that is
  not a NaN again.
\<close>

definition rne :: "nat \<Rightarrow> nat \<Rightarrow> nat" where
  "rne x sh =
     (let q = x div 2 ^ sh; r = x mod 2 ^ sh
      in if 2 ^ sh < 2 * r \<or> 2 ^ sh = 2 * r \<and> odd q then q + 1 else q)"

definition f64_to_f32 :: "u64 \<Rightarrow> u32" where
  "f64_to_f32 bits =
     (let sign = ucast (drop_bit 63 bits) :: u32;
          e = unat (drop_bit 52 bits AND 0x7ff);
          m = unat (bits AND 0xfffffffffffff)
      in push_bit 31 sign OR
         (if e = 2047 then
            (if m = 0 then 0x7f800000 else 0x7fc00000 OR of_nat (m div 2 ^ 29))
          else if 1150 < e then 0x7f800000
          else if 897 \<le> e then of_nat ((e - 897) * 2 ^ 23 + rne (2 ^ 52 + m) 29)
          else of_nat (rne ((if e = 0 then 0 else 2 ^ 52) + m) (29 + (897 - e)))))"

fun bit_length :: "nat \<Rightarrow> nat \<Rightarrow> nat" where
  "bit_length 0 n = 0"
| "bit_length (Suc fuel) n = (if n = 0 then 0 else Suc (bit_length fuel (n div 2)))"

definition i128_to_f64 :: "int \<Rightarrow> u64" where
  "i128_to_f64 n =
     (let sign = (if n < 0 then 1 else 0) :: u64;
          a = nat (abs n);
          l = bit_length 128 a
      in if a = 0 then 0
         else push_bit 63 sign OR
           of_nat ((l + 1021) * 2 ^ 52 + (if l \<le> 53 then a * 2 ^ (53 - l) else rne a (l - 53))))"

lemma rne_exact: "rne (q * 2 ^ sh) sh = q"
  by (simp add: rne_def Let_def)

text \<open>A word below a power of two has no bits from there on.\<close>

lemma no_high_bit: "\<not> bit w n" if "w < 2 ^ k" "k \<le> n" for w :: "'a :: len word"
proof (cases "k < LENGTH('a)")
  case True
  have "(2 :: 'a word) ^ k = of_nat (2 ^ k)" by simp
  then have "unat ((2 :: 'a word) ^ k) = 2 ^ k"
    using True by (simp only: unsigned_of_nat) (simp add: take_bit_nat_eq_self)
  then have "take_bit k w = w" using that(1)
    by (simp add: word_unat_eq_iff unsigned_take_bit_eq word_less_nat_alt take_bit_nat_eq_self)
  then show ?thesis using that(2) by (metis bit_take_bit_iff linorder_not_less)
next
  case False then show ?thesis using that(2) bit_imp_le_length[of w n] by auto
qed
text \<open>The fields of a double that is put together from them.\<close>

lemma f64_fields:
  fixes s e f :: u64
  assumes "s < 2" "e < 2 ^ 11" "f < 2 ^ 23"
  defines "x \<equiv> push_bit 63 s OR push_bit 52 e OR push_bit 29 f"
  shows "drop_bit 63 x = s" "drop_bit 52 x AND 0x7ff = e" "x AND 0xfffffffffffff = push_bit 29 f"
proof -
  have m: "0x7ff = (mask 11 :: u64)" "0xfffffffffffff = (mask 52 :: u64)" by (simp_all add: mask_eq_exp_minus_1)
  have b: "bit s n \<Longrightarrow> n = 0" "bit e n \<Longrightarrow> n < 11" "bit f n \<Longrightarrow> n < 23" for n
    using no_high_bit [of s 1 n] no_high_bit [OF assms(2), of n] no_high_bit [OF assms(3), of n] assms(1) by fastforce+
  show "drop_bit 63 x = s"
    by (rule bit_word_eqI) (auto simp: x_def bit_simps dest: b)
  show "drop_bit 52 x AND 0x7ff = e"
    unfolding m by (rule bit_word_eqI) (auto simp: x_def bit_simps dest: b)
  show "x AND 0xfffffffffffff = push_bit 29 f"
    unfolding m by (rule bit_word_eqI) (auto simp: x_def bit_simps dest: b)
qed
lemma bit23: "(f :: u64) AND 0x800000 = 0 \<longleftrightarrow> \<not> bit f 23"
  using and_exp_eq_0_iff_not_bit [of f 23] by simp

lemma unat_lt_iff: "unat (f :: u64) < 2 ^ 23 \<longleftrightarrow> f < 2 ^ 23" "unat (f :: u64) < 2 ^ 24 \<longleftrightarrow> f < 2 ^ 24"
  by (simp_all add: word_less_nat_alt)

lemma lt23:
  assumes "(f :: u64) < 2 ^ 24" "\<not> bit f 23"
  shows "f < 2 ^ 23"
proof -
  have "take_bit 23 f = f"
  proof (rule bit_word_eqI)
    fix n
    have "n \<le> 23" if "bit f n" using no_high_bit [OF assms(1), of n] that by fastforce
    with assms(2) show "bit (take_bit 23 f) n = bit f n"
      by (cases "n = 23") (auto simp: bit_take_bit_iff)
  qed
  then have "unat f = take_bit 23 (unat f)" by (metis unsigned_take_bit_eq)
  then show ?thesis using take_bit_nat_less_exp [of 23 "unat f"] unat_lt_iff(1) by metis
qed

lemma low23:
  assumes "(g :: u64) < 2 ^ 24" "\<not> g < 2 ^ 23"
  shows "unat (g AND 0x7fffff) + 2 ^ 23 = unat g" "g AND 0x7fffff < 2 ^ 23"
proof -
  have "g AND 0x7fffff = take_bit 23 g" by (simp add: take_bit_eq_mask mask_eq_exp_minus_1)
  then have "unat (g AND 0x7fffff) = unat g mod 2 ^ 23"
    by (simp add: take_bit_eq_mod unat_mod)
  then show "unat (g AND 0x7fffff) + 2 ^ 23 = unat g" "g AND 0x7fffff < 2 ^ 23"
    using assms le_mod_geq [of "2 ^ 23" "unat g"] unfolding word_less_nat_alt by (simp_all add: not_less)
qed

lemma f32_normalise_spec:
  "f \<noteq> 0 \<Longrightarrow> f < 2 ^ 24 \<Longrightarrow> 2 ^ 24 \<le> unat f * 2 ^ n \<Longrightarrow>
   \<exists>k g. f32_normalise n f e = (g, e - int k) \<and> unat g = unat f * 2 ^ k \<and> g < 2 ^ 24 \<and> \<not> g < 2 ^ 23"
proof (induction n arbitrary: f e)
  case 0 then show ?case by (simp add: word_less_nat_alt)
next
  case (Suc n)
  show ?case
  proof (cases "bit f 23")
    case False
    then have f: "f < 2 ^ 23" using lt23 Suc.prems(2) by blast
    then have "unat f * 2 < 2 ^ 64" by (simp add: word_less_nat_alt)
    then have u: "unat (push_bit 1 f) = unat f * 2" 
      by (simp add: push_bit_eq_mult unat_word_ariths)
    have "push_bit 1 f \<noteq> 0" "push_bit 1 f < 2 ^ 24" using Suc.prems(1) u f
      by (auto simp: word_less_nat_alt word_unat_eq_iff)
    moreover have "2 ^ 24 \<le> unat (push_bit 1 f) * 2 ^ n" using Suc.prems(3) u by (simp add: mult.assoc)
    ultimately obtain k g where "f32_normalise n (push_bit 1 f) (e - 1) = (g, e - 1 - int k)"
      "unat g = unat (push_bit 1 f) * 2 ^ k" "g < 2 ^ 24" "\<not> g < 2 ^ 23"
      using Suc.IH by blast
    then show ?thesis using False u
      by (intro exI [of _ "Suc k"] exI [of _ g]) (auto simp: bit23)
  next
    case True
    then have "\<not> f < 2 ^ 23" using no_high_bit [of f 23 23] by blast
    then show ?thesis using True Suc.prems(2) by (intro exI [of _ 0] exI [of _ f]) (auto simp: bit23)
  qed
qed

lemma f32_fields:
  fixes w :: u32
  shows "w = push_bit 31 (drop_bit 31 w) OR (push_bit 23 (drop_bit 23 w AND 0xff) OR (w AND 0x7fffff))"
    and "ucast (ucast (drop_bit 31 w AND 1) :: u64) = drop_bit 31 w"
    and "(ucast (drop_bit 31 w AND 1) :: u64) < 2"
proof -
  have m: "0xff = (mask 8 :: u32)" "0x7fffff = (mask 23 :: u32)" by (simp_all add: mask_eq_exp_minus_1)
  show "w = push_bit 31 (drop_bit 31 w) OR (push_bit 23 (drop_bit 23 w AND 0xff) OR (w AND 0x7fffff))"
  proof (rule bit_word_eqI)
    fix n assume "n < LENGTH(32)"
    then show "bit w n = bit (push_bit 31 (drop_bit 31 w) OR
        (push_bit 23 (drop_bit 23 w AND 0xff) OR (w AND 0x7fffff))) n"
      unfolding m by (cases "n = 31") (auto simp: bit_simps not_less)
  qed
  show "ucast (ucast (drop_bit 31 w AND 1) :: u64) = drop_bit 31 w"
    by (rule bit_word_eqI) (auto simp: bit_simps dest: bit_imp_le_length)
  show "(ucast (drop_bit 31 w AND 1) :: u64) < 2"
    by (cases "even (drop_bit 31 w)") (auto simp: and_one_eq even_iff_mod_2_eq_zero odd_iff_mod_2_eq_one)
qed

lemma push_or_eq_add:
  assumes "(f :: u32) < 2 ^ 23"
  shows "push_bit 23 e OR f = of_nat (unat e * 2 ^ 23 + unat f)"
proof -
  have "push_bit 23 e AND f = 0"
    using no_high_bit [OF assms] by (intro bit_word_eqI) (auto simp: bit_simps)
  then have "push_bit 23 e OR f = push_bit 23 e + f" by (simp add: disjunctive_add_eq_or)
  then show ?thesis by (simp add: push_bit_eq_mult)
qed

definition f32_is_nan :: "u32 \<Rightarrow> bool" where
  "f32_is_nan w \<longleftrightarrow> drop_bit 23 w AND 0xff = 0xff \<and> w AND 0x7fffff \<noteq> 0"

lemma ucast_fields:
  fixes w :: u32
  defines "f \<equiv> w AND 0x7fffff" and "e \<equiv> drop_bit 23 w AND 0xff"
  shows "f < 2 ^ 23" "(ucast f :: u64) < 2 ^ 23" "unat (ucast f :: u64) = unat f" "e < 256" "unat e < 256"
    "uint e = int (unat e)"
proof -
  have "f = take_bit 23 w" "e = take_bit 8 (drop_bit 23 w)"
    by (simp_all add: f_def e_def take_bit_eq_mask mask_eq_exp_minus_1)
  then have "unat f = take_bit 23 (unat w)" "unat e = take_bit 8 (unat (drop_bit 23 w))"
    by (simp_all add: unsigned_take_bit_eq)
  then have u: "unat f < 2 ^ 23" "unat e < 2 ^ 8"
    using take_bit_nat_less_exp by metis+
  moreover show c: "unat (ucast f :: u64) = unat f"
    using u(1) by (simp add: unsigned_ucast_eq take_bit_nat_eq_self)
  ultimately show "f < 2 ^ 23" "(ucast f :: u64) < 2 ^ 23" "e < 256" "unat e < 256"
    by (simp_all add: word_less_nat_alt)
  show "uint e = int (unat e)" by simp
qed

lemma f64_to_f32_fields:
  assumes "s < 2" "e < 2 ^ 11" "f < 2 ^ 23"
  shows "f64_to_f32 (push_bit 63 s OR push_bit 52 e OR push_bit 29 f) = push_bit 31 (ucast s) OR
     (if unat e = 2047 then (if f = 0 then 0x7f800000 else 0x7fc00000 OR of_nat (unat f))
      else if 1150 < unat e then 0x7f800000
      else if 897 \<le> unat e then of_nat ((unat e - 897) * 2 ^ 23 + (2 ^ 23 + unat f))
      else of_nat (rne ((if e = 0 then 0 else 2 ^ 52) + unat f * 2 ^ 29) (29 + (897 - unat e))))"
proof -
  have "unat f * 2 ^ 29 < 2 ^ 64" using assms(3) by (simp add: word_less_nat_alt)
  then have m: "unat (push_bit 29 f) = unat f * 2 ^ 29" by (simp add: push_bit_eq_mult unat_word_ariths)
  have "2 ^ 52 + unat f * 2 ^ 29 = (2 ^ 23 + unat f) * 2 ^ 29" by simp
  then have r: "rne (2 ^ 52 + unat f * 2 ^ 29) 29 = 2 ^ 23 + unat f" by (simp only: rne_exact)
  have z: "unat e = 0 \<longleftrightarrow> e = 0" "unat f = 0 \<longleftrightarrow> f = 0" by (simp_all add: unat_eq_0)
  show ?thesis
    unfolding f64_to_f32_def Let_def f64_fields [OF assms] m r z by (simp add: z)
qed

lemma f64_to_f32_f32_to_f64:
  assumes "\<not> f32_is_nan w"
  shows "f64_to_f32 (f32_to_f64 w) = w"
proof -
  define s e f where sef: "s = (ucast (drop_bit 31 w AND 1) :: u64)" "e = drop_bit 23 w AND 0xff" "f = w AND 0x7fffff"
  note uf = ucast_fields [of w, folded sef]
  have s: "s < 2" "ucast s = drop_bit 31 w" using f32_fields(2,3) [of w] sef by simp_all
  have w: "w = push_bit 31 (drop_bit 31 w) OR of_nat (unat e * 2 ^ 23 + unat f)"
    using f32_fields(1) [of w] push_or_eq_add [OF uf(1), of e] by (simp add: sef)
  have fz: "(ucast f :: u64) = 0 \<longleftrightarrow> f = 0" using uf(3) by (metis unat_eq_0)
  have ez: "int (unat e) = 0 \<longleftrightarrow> unat e = 0" "int (unat e) = 255 \<longleftrightarrow> unat e = 255"
    using of_nat_eq_iff [where 'a = int, of "unat e" 255] by (simp_all only: of_nat_numeral of_nat_eq_0_iff)
  have def: "f32_to_f64 w = (if unat e = 0 then
           if f = 0 then push_bit 63 s
           else (let (f, e) = f32_normalise 24 (ucast f) (- 126)
                 in push_bit 63 s OR push_bit 52 (word_of_int (e + 1023))
                    OR push_bit 29 (f AND 0x7fffff))
         else if unat e = 255 then
           if f = 0 then push_bit 63 s OR push_bit 52 0x7ff
           else push_bit 63 s OR push_bit 52 0x7ff OR push_bit 51 1 OR push_bit 29 (ucast f)
         else push_bit 63 s OR push_bit 52 (word_of_int (int (unat e) - 127 + 1023)) OR push_bit 29 (ucast f))"
    by (simp only: f32_to_f64_def Let_def sef [symmetric] uf(6) fz ez)
  consider (zero) "unat e = 0" "f = 0" | (subnormal) "unat e = 0" "f \<noteq> 0"
    | (inf) "unat e = 255" "f = 0" | (normal) "unat e \<noteq> 0" "unat e < 255"
    using assms uf(5) by (fastforce simp: f32_is_nan_def sef word_unat_eq_iff)
  then show ?thesis
  proof cases
    case zero
    then have "f32_to_f64 w = push_bit 63 s OR push_bit 52 0 OR push_bit 29 0" by (simp add: def)
    with f64_to_f32_fields [of s 0 0] zero w s show ?thesis by (simp add: rne_def)
  next
    case inf
    then have "f32_to_f64 w = push_bit 63 s OR push_bit 52 0x7ff OR push_bit 29 0" by (simp add: def)
    with f64_to_f32_fields [of s "0x7ff" 0] inf w s show ?thesis by simp
  next
    case normal
    let ?e = "of_nat (unat e + 896) :: u64"
    have "f32_to_f64 w = push_bit 63 s OR push_bit 52 ?e OR push_bit 29 (ucast f)"
      using normal by (simp add: def add.commute)
    moreover have e: "unat ?e = unat e + 896" using normal by (simp only: unsigned_of_nat) (simp add: take_bit_nat_eq_self)
    moreover have "?e < 2 ^ 11" unfolding word_less_nat_alt e using normal by simp
    ultimately have "f64_to_f32 (f32_to_f64 w) =
        push_bit 31 (ucast s) OR of_nat ((unat e - 1) * 2 ^ 23 + (2 ^ 23 + unat f))"
      using f64_to_f32_fields [of s ?e, OF s(1) _ uf(2)] normal uf(3) by simp
    moreover have "(unat e - 1) * 2 ^ 23 + (2 ^ 23 + unat f) = unat e * 2 ^ 23 + unat f"
      using normal by (cases "unat e") simp_all
    ultimately show ?thesis using w s(2) by metis
  next
    case subnormal
    have f0: "(ucast f :: u64) \<noteq> 0" using subnormal fz by simp
    have f1: "(ucast f :: u64) < 2 ^ 24" using uf(2) by (simp add: word_less_nat_alt)
    have "0 < unat (ucast f :: u64)" using f0 by (metis unat_gt_0)
    then have f2: "2 ^ 24 \<le> unat (ucast f :: u64) * 2 ^ 24" by simp
    from f32_normalise_spec [OF f0 f1 f2, of "- 126"] obtain k g where g:
      "f32_normalise 24 (ucast f) (- 126) = (g, - 126 - int k)" "unat g = unat f * 2 ^ k"
      "g < 2 ^ 24" "\<not> g < 2 ^ 23" using uf(3) by auto
    have "unat f * 2 ^ k < 2 ^ 24" using g(2,3) by (simp add: word_less_nat_alt)
    moreover have "2 ^ k \<le> unat f * 2 ^ k" using subnormal unat_gt_0 [of f] by (simp add: Suc_le_eq)
    ultimately have "(2 :: nat) ^ k < 2 ^ 24" by (rule le_less_trans [rotated])
    then have k: "k < 24" by (rule power_less_imp_less_exp [rotated]) simp
    have "k \<noteq> 0" using g(2,4) uf(1) by (cases k) (auto simp: word_less_nat_alt)
    define x where "x = (of_nat (897 - k) :: u64)"
    let ?h = "g AND 0x7fffff"
    have h: "unat ?h + 2 ^ 23 = unat g" "?h < 2 ^ 23" using low23 g(3,4) by auto
    have "word_of_int (897 - int k) = x" using k by (simp add: x_def of_nat_diff)
    then have d: "f32_to_f64 w = push_bit 63 s OR push_bit 52 x OR push_bit 29 ?h"
      using subnormal g(1) by (simp add: def)
    have e: "unat x = 897 - k"
      unfolding x_def by (simp only: unsigned_of_nat) (simp add: take_bit_nat_eq_self)
    have x: "x < 2 ^ 11" unfolding word_less_nat_alt e by simp
    have "x \<noteq> 0" "unat x \<noteq> 2047" "\<not> 1150 < unat x" "\<not> 897 \<le> unat x" "897 - unat x = k"
      using e k \<open>k \<noteq> 0\<close> by auto
    then have "f64_to_f32 (f32_to_f64 w) =
        push_bit 31 (ucast s) OR of_nat (rne (2 ^ 52 + unat ?h * 2 ^ 29) (29 + k))"
      unfolding d f64_to_f32_fields [OF s(1) x h(2)] by (simp only: if_False)
    moreover have "2 ^ 52 + unat ?h * 2 ^ 29 = unat f * 2 ^ (29 + k)"
    proof -
      have "2 ^ 52 + unat ?h * 2 ^ 29 = (unat ?h + 2 ^ 23) * 2 ^ 29" by simp
      then show ?thesis unfolding h(1) g(2) by (simp add: power_add)
    qed
    ultimately show ?thesis using w s(2) subnormal rne_exact [of "unat f" "29 + k"] by simp
  qed
qed
end
