(* ===== verification/Knowledge_Node.thy ===== *)
theory Knowledge_Node
  imports Hamt Rust_Float
begin

text \<open>
  Typed knowledge nodes (\<open>ipfrs-knowledge/src/node.rs\<close>) and their encoding as IPLD maps.

  SHA-256, hexadecimal coding and the Unicode functions \<open>trim\<close> and \<open>to_lowercase\<close> are
  parameters. A weight is the bit pattern of an \<open>f32\<close>; its casts from and to \<open>f64\<close> are those
  of \<open>Rust_Float\<close>. A \<open>BTreeMap\<close> is built by the insertions of the source, in their order.
\<close>

subsection \<open>The code\<close>

record digest_lib =
  sha256 :: "bytes \<Rightarrow> bytes"
  hex_encode :: "bytes \<Rightarrow> string"
  hex_decode :: "string \<Rightarrow> bytes option"
  str_trim :: "string \<Rightarrow> string"
  str_lowercase :: "string \<Rightarrow> string"

definition EntityId_of :: "digest_lib \<Rightarrow> string \<Rightarrow> string \<Rightarrow> EntityId" where
  "EntityId_of D kind name =
     sha256 D (str_bytes kind @ [0] @ str_bytes (str_lowercase D (str_trim D name)))"

definition EntityId_to_hex :: "digest_lib \<Rightarrow> EntityId \<Rightarrow> string" where
  "EntityId_to_hex D i = hex_encode D i"

definition EntityId_from_hex :: "digest_lib \<Rightarrow> string \<Rightarrow> (KError, EntityId) outcome" where
  "EntityId_from_hex D s =
     obind (ok_or (Decode ''entity id hex'') (hex_decode D s)) (\<lambda>v.
       if length v = 32 then Ok v else Err (Decode ''entity id must be 32 bytes''))"

datatype HypothesisStatus = Open | Supported | Refuted

definition status_as_str :: "HypothesisStatus \<Rightarrow> string" where
  "status_as_str s = (case s of Open \<Rightarrow> ''open'' | Supported \<Rightarrow> ''supported'' | Refuted \<Rightarrow> ''refuted'')"

definition status_parse :: "string \<Rightarrow> HypothesisStatus" where
  "status_parse s =
     (if s = ''supported'' then Supported else if s = ''refuted'' then Refuted else Open)"

datatype 'c KnowledgeNode =
    Entity (id_of: EntityId) (kind_of: string) (name_of: string) (aliases_of: "string list")
      (attrs_of: "(string \<times> string) list") (observations_of: "'c list")
  | Concept string string "'c list" "'c list"
  | Relation 'c string 'c "'c list" u32
  | Evidence 'c "(u64 \<times> u64) option" string "'c option"
  | Observation 'c string u64 string
  | Hypothesis string "'c list" "'c list" HypothesisStatus "'c option"

definition node_type_name :: "'c KnowledgeNode \<Rightarrow> string" where
  "node_type_name n =
     (case n of Entity _ _ _ _ _ _ \<Rightarrow> ''Entity'' | Concept _ _ _ _ \<Rightarrow> ''Concept''
      | Relation _ _ _ _ _ \<Rightarrow> ''Relation'' | Evidence _ _ _ _ \<Rightarrow> ''Evidence''
      | Observation _ _ _ _ \<Rightarrow> ''Observation'' | Hypothesis _ _ _ _ _ \<Rightarrow> ''Hypothesis'')"

definition node_links :: "'c list \<Rightarrow> 'c Ipld" where
  "node_links cids = List (map link cids)"

text \<open>The entries that \<open>to_ipld\<close> inserts, in the order of the insertions.\<close>

definition node_fields :: "'c KnowledgeNode \<Rightarrow> (string \<times> 'c Ipld) list" where
  "node_fields n =
     (''@type'', String (node_type_name n)) #
     (case n of
        Entity i kind name aliases attrs observations \<Rightarrow>
          [(''id'', Bytes i), (''kind'', String kind), (''name'', String name),
           (''aliases'', List (map String aliases)),
           (''attrs'', Map (bt_collect (map (\<lambda>(k, v). (k, String v)) attrs))),
           (''observations'', node_links observations)]
      | Concept name def' broader related \<Rightarrow>
          [(''name'', String name), (''definition'', String def'),
           (''broader'', node_links broader), (''related'', node_links related)]
      | Relation subject predicate object evidence weight \<Rightarrow>
          [(''subject'', link subject), (''predicate'', String predicate), (''object'', link object),
           (''evidence'', node_links evidence), (''weight'', Float (f32_to_f64 weight))]
      | Evidence source span extracted_by proof \<Rightarrow>
          [(''source'', link source)] @
          (case span of None \<Rightarrow> []
           | Some (a, b) \<Rightarrow> [(''span'', List [Integer (uint a), Integer (uint b)])]) @
          [(''extracted_by'', String extracted_by)] @
          (case proof of None \<Rightarrow> [] | Some p \<Rightarrow> [(''proof'', link p)])
      | Observation about' statement ts agent \<Rightarrow>
          [(''about'', link about'), (''statement'', String statement), (''ts'', Integer (uint ts)),
           (''agent'', String agent)]
      | Hypothesis claim supports refutes status proof \<Rightarrow>
          [(''claim'', String claim), (''supports'', node_links supports),
           (''refutes'', node_links refutes), (''status'', String (status_as_str status))] @
          (case proof of None \<Rightarrow> [] | Some p \<Rightarrow> [(''proof'', link p)]))"

definition node_to_ipld :: "'c KnowledgeNode \<Rightarrow> 'c Ipld" where
  "node_to_ipld n = Map (bt_collect (node_fields n))"

subsubsection \<open>Field accessors\<close>

type_synonym 'c ipld_map = "(string \<times> 'c Ipld) list"

definition quoted :: "string \<Rightarrow> string" where
  "quoted k = CHR 0x27 # k @ [CHR 0x27]"

definition as_map' :: "'c Ipld \<Rightarrow> (KError, 'c ipld_map) outcome" where
  "as_map' i = (case i of Map m \<Rightarrow> Ok m | _ \<Rightarrow> Err (Decode ''expected IPLD map''))"

definition field :: "'c ipld_map \<Rightarrow> string \<Rightarrow> (KError, 'c Ipld) outcome" where
  "field m k = ok_or (Decode (''missing field '' @ quoted k)) (bt_get m k)"

definition gstr :: "'c ipld_map \<Rightarrow> string \<Rightarrow> (KError, string) outcome" where
  "gstr m k = obind (field m k) (\<lambda>v. case v of String s \<Rightarrow> Ok s
     | _ \<Rightarrow> Err (Decode (''field '' @ quoted k @ '' not a string'')))"

definition gint :: "'c ipld_map \<Rightarrow> string \<Rightarrow> (KError, int) outcome" where
  "gint m k = obind (field m k) (\<lambda>v. case v of Integer n \<Rightarrow> Ok n
     | _ \<Rightarrow> Err (Decode (''field '' @ quoted k @ '' not an integer'')))"

definition gfloat :: "'c ipld_map \<Rightarrow> string \<Rightarrow> (KError, u64) outcome" where
  "gfloat m k = obind (field m k) (\<lambda>v. case v of Float x \<Rightarrow> Ok x
     | Integer n \<Rightarrow> Ok (i128_to_f64 n)
     | _ \<Rightarrow> Err (Decode (''field '' @ quoted k @ '' not a float'')))"

definition gbytes :: "'c ipld_map \<Rightarrow> string \<Rightarrow> (KError, bytes) outcome" where
  "gbytes m k = obind (field m k) (\<lambda>v. case v of Bytes b \<Rightarrow> Ok b
     | _ \<Rightarrow> Err (Decode (''field '' @ quoted k @ '' not bytes'')))"

definition glink :: "'c ipld_map \<Rightarrow> string \<Rightarrow> (KError, 'c) outcome" where
  "glink m k = obind (field m k) (\<lambda>v.
     ok_or (Decode (''field '' @ quoted k @ '' not a link'')) (as_link v))"

definition glink_opt :: "'c ipld_map \<Rightarrow> string \<Rightarrow> 'c option" where
  "glink_opt m k = Option.bind (bt_get m k) as_link"

definition glinks :: "'c ipld_map \<Rightarrow> string \<Rightarrow> (KError, 'c list) outcome" where
  "glinks m k = obind (field m k) (\<lambda>v. case v of
       List l \<Rightarrow> omap_list (\<lambda>v. ok_or (Decode (quoted k @ '' has non-link'')) (as_link v)) l
     | _ \<Rightarrow> Err (Decode (''field '' @ quoted k @ '' not a list'')))"

definition gstrlist :: "'c ipld_map \<Rightarrow> string \<Rightarrow> (KError, string list) outcome" where
  "gstrlist m k = obind (field m k) (\<lambda>v. case v of
       List l \<Rightarrow> omap_list (\<lambda>v. case v of String s \<Rightarrow> Ok s
                               | _ \<Rightarrow> Err (Decode (quoted k @ '' has non-string''))) l
     | _ \<Rightarrow> Err (Decode (''field '' @ quoted k @ '' not a list'')))"

definition gstrmap :: "'c ipld_map \<Rightarrow> string \<Rightarrow> (KError, (string \<times> string) list) outcome" where
  "gstrmap m k = obind (field m k) (\<lambda>v. case v of
       Map mm \<Rightarrow>
         obind (omap_list (\<lambda>(kk, v). case v of String s \<Rightarrow> Ok (kk, s)
                             | _ \<Rightarrow> Err (Decode (''attr '' @ quoted kk @ '' not a string''))) mm)
           (\<lambda>kvs. Ok (bt_collect kvs))
     | _ \<Rightarrow> Err (Decode (''field '' @ quoted k @ '' not a map'')))"

definition gspan :: "'c ipld_map \<Rightarrow> (KError, (u64 \<times> u64) option) outcome" where
  "gspan m =
     (case bt_get m ''span'' of
        None \<Rightarrow> Ok None
      | Some (List [x, y]) \<Rightarrow>
          obind (case x of Integer n \<Rightarrow> Ok (word_of_int n) | _ \<Rightarrow> Err (Decode ''span[0]'')) (\<lambda>a.
            obind (case y of Integer n \<Rightarrow> Ok (word_of_int n) | _ \<Rightarrow> Err (Decode ''span[1]'')) (\<lambda>b.
              Ok (Some (a, b))))
      | _ \<Rightarrow> Err (Decode ''span must be a 2-element list''))"

definition node_from_ipld :: "'c Ipld \<Rightarrow> (KError, 'c KnowledgeNode) outcome" where
  "node_from_ipld ipld =
     obind (as_map' ipld) (\<lambda>m. obind (gstr m ''@type'') (\<lambda>ty.
       if ty = ''Entity'' then
         obind (gbytes m ''id'') (\<lambda>i.
           if length i \<noteq> 32 then Err (Decode ''Entity.id must be 32 bytes'') else
           obind (gstr m ''kind'') (\<lambda>kind. obind (gstr m ''name'') (\<lambda>name.
           obind (gstrlist m ''aliases'') (\<lambda>aliases. obind (gstrmap m ''attrs'') (\<lambda>attrs.
           obind (glinks m ''observations'') (\<lambda>observations.
             Ok (Entity i kind name aliases attrs observations)))))))
       else if ty = ''Concept'' then
         obind (gstr m ''name'') (\<lambda>name. obind (gstr m ''definition'') (\<lambda>def'.
         obind (glinks m ''broader'') (\<lambda>broader. obind (glinks m ''related'') (\<lambda>related.
           Ok (Concept name def' broader related)))))
       else if ty = ''Relation'' then
         obind (glink m ''subject'') (\<lambda>subject. obind (gstr m ''predicate'') (\<lambda>predicate.
         obind (glink m ''object'') (\<lambda>object. obind (glinks m ''evidence'') (\<lambda>evidence.
         obind (gfloat m ''weight'') (\<lambda>weight.
           Ok (Relation subject predicate object evidence (f64_to_f32 weight)))))))
       else if ty = ''Evidence'' then
         obind (glink m ''source'') (\<lambda>source. obind (gspan m) (\<lambda>span.
         obind (gstr m ''extracted_by'') (\<lambda>extracted_by.
           Ok (Evidence source span extracted_by (glink_opt m ''proof'')))))
       else if ty = ''Observation'' then
         obind (glink m ''about'') (\<lambda>about'. obind (gstr m ''statement'') (\<lambda>statement.
         obind (gint m ''ts'') (\<lambda>ts. obind (gstr m ''agent'') (\<lambda>agent.
           Ok (Observation about' statement (word_of_int ts) agent)))))
       else if ty = ''Hypothesis'' then
         obind (gstr m ''claim'') (\<lambda>claim. obind (glinks m ''supports'') (\<lambda>supports.
         obind (glinks m ''refutes'') (\<lambda>refutes. obind (gstr m ''status'') (\<lambda>status.
           Ok (Hypothesis claim supports refutes (status_parse status) (glink_opt m ''proof''))))))
       else Err (Decode (''unknown node @type '' @ quoted ty))))"

definition node_encode :: "'c cid_crate \<Rightarrow> 'c KnowledgeNode \<Rightarrow> (KError, 'c \<times> bytes) outcome" where
  "node_encode E n =
     obind (omap_err Core (to_dag_cbor E (node_to_ipld n))) (\<lambda>bytes.
       obind (omap_err Core (cb_build_dag_cbor E cb_new bytes)) (\<lambda>cid. Ok (cid, bytes)))"

definition node_decode :: "'c cid_crate \<Rightarrow> bytes \<Rightarrow> (KError, 'c KnowledgeNode) outcome" where
  "node_decode E bytes = obind (omap_err Core (from_dag_cbor E bytes)) node_from_ipld"

subsection \<open>The encoding is invertible\<close>

definition text_ok :: "string \<Rightarrow> bool" where
  "text_ok s \<longleftrightarrow> valid_str s \<and> length s \<le> isize_max"

definition seq_ok :: "'c cid_crate \<Rightarrow> 'a list \<Rightarrow> bool" where
  "seq_ok E xs \<longleftrightarrow> length xs * ipld_size E \<le> isize_max \<and> length xs < 2 ^ 64"

text \<open>What Rust's types guarantee of a node, with the size limits of its allocations, and that a
  weight is a number.\<close>

fun node_ok :: "'c cid_crate \<Rightarrow> 'c KnowledgeNode \<Rightarrow> bool" where
  "node_ok E (Entity i kind name aliases attrs observations) =
     (length i = 32 \<and> text_ok kind \<and> text_ok name \<and> seq_ok E aliases \<and> list_all text_ok aliases \<and>
      bt_ok attrs \<and> length attrs < 2 ^ 64 \<and> list_all (\<lambda>(k, v). text_ok k \<and> text_ok v) attrs \<and>
      seq_ok E observations)"
| "node_ok E (Concept name def' broader related) =
     (text_ok name \<and> text_ok def' \<and> seq_ok E broader \<and> seq_ok E related)"
| "node_ok E (Relation subject predicate object evidence weight) =
     (text_ok predicate \<and> seq_ok E evidence \<and> \<not> f32_is_nan weight)"
| "node_ok E (Evidence source span extracted_by proof) = text_ok extracted_by"
| "node_ok E (Observation about' statement ts agent) = (text_ok statement \<and> text_ok agent)"
| "node_ok E (Hypothesis claim supports refutes status proof) =
     (text_ok claim \<and> seq_ok E supports \<and> seq_ok E refutes)"

lemma bt_get_collect: "bt_get (bt_collect kvs) k = map_of (rev kvs) k"
proof -
  have "bt_get (foldl (\<lambda>m (k, v). bt_insert k v m) m kvs) k = (map_of m ++ map_of (rev kvs)) k" for m
    by (induction kvs arbitrary: m) (auto simp: map_add_def bt_get_def [symmetric] split: option.split)
  from this [of "[]"] show ?thesis by (simp add: bt_collect_def)
qed

lemma ipld_ok_collect:
  assumes "list_all (\<lambda>(k, v). text_ok k \<and> ipld_ok E v) kvs" "length kvs < 2 ^ 64"
  shows "ipld_ok E (Map (bt_collect kvs))"
proof -
  have "bt_ok m \<Longrightarrow> bt_ok (foldl (\<lambda>m (k, v). bt_insert k v m) m kvs) \<and>
      set (foldl (\<lambda>m (k, v). bt_insert k v m) m kvs) \<subseteq> set m \<union> set kvs \<and>
      length (foldl (\<lambda>m (k, v). bt_insert k v m) m kvs) \<le> length m + length kvs" for m
  proof (induction kvs arbitrary: m)
    case (Cons e kvs)
    then show ?case
      using Cons.IH [of "bt_insert (fst e) (snd e) m"] set_bt_insert [of "fst e" "snd e" m]
        length_bt_insert [of "fst e" "snd e" m]
      by (cases e) fastforce
  qed simp
  from this [of "[]"] have "bt_ok (bt_collect kvs)" "set (bt_collect kvs) \<subseteq> set kvs"
    "length (bt_collect kvs) \<le> length kvs" by (auto simp: bt_collect_def)
  then show ?thesis using assms by (fastforce simp: list_all_iff text_ok_def)
qed

lemma ipld_ok_links:
  "cid_env E \<Longrightarrow> seq_ok E cids \<Longrightarrow> ipld_ok E (node_links cids)"
  by (auto simp: node_links_def seq_ok_def link_def list_all_iff cid_env_def cid_bytes_bounded_def)

lemma ipld_ok_link: "cid_env E \<Longrightarrow> ipld_ok E (link c)"
  by (simp add: link_def cid_env_def cid_bytes_bounded_def)

lemma ipld_ok_u64: "ipld_ok E (Integer (uint (w :: u64)))"
  using uint_lt2p [of w] uint_ge_0 [of w] by (auto intro: order_trans [of _ 0])

lemma text_ok_literals:
  "text_ok ''@type''" "text_ok ''id''" "text_ok ''kind''" "text_ok ''name''" "text_ok ''aliases''"
  "text_ok ''attrs''" "text_ok ''observations''" "text_ok ''definition''" "text_ok ''broader''"
  "text_ok ''related''" "text_ok ''subject''" "text_ok ''predicate''" "text_ok ''object''"
  "text_ok ''evidence''" "text_ok ''weight''" "text_ok ''source''" "text_ok ''span''"
  "text_ok ''extracted_by''" "text_ok ''proof''" "text_ok ''about''" "text_ok ''statement''"
  "text_ok ''ts''" "text_ok ''agent''" "text_ok ''claim''" "text_ok ''supports''"
  "text_ok ''refutes''" "text_ok ''status''"
  by (simp_all add: text_ok_def valid_str_def of_char_def isize_max_def)

lemma node_names_ok: "text_ok (node_type_name n)" "text_ok (status_as_str s)"
  by (cases n; simp add: node_type_name_def text_ok_def valid_str_def of_char_def isize_max_def)
    (cases s; simp add: status_as_str_def text_ok_def valid_str_def of_char_def isize_max_def)

lemma ipld_ok_String: "ipld_ok E (String s) = text_ok s"
  by (simp add: text_ok_def)

lemma node_to_ipld_ok:
  assumes "cid_env E" "node_ok E n"
  shows "ipld_ok E (node_to_ipld n)"
  unfolding node_to_ipld_def
proof (rule ipld_ok_collect)
  have s: "2 * ipld_size E \<le> isize_max" using assms(1) by (simp add: cid_env_def)
  note rules = ipld_ok_links [OF assms(1)] ipld_ok_link [OF assms(1)] ipld_ok_u64 ipld_ok_String
    text_ok_literals node_names_ok
  show "list_all (\<lambda>(k, v). text_ok k \<and> ipld_ok E v) (node_fields n)"
  proof (cases n)
    case (Entity i kind name aliases attrs observations)
    have "ipld_ok E (Map (bt_collect (map (\<lambda>(k, v). (k, String v)) attrs)))"
      using assms(2) Entity by (intro ipld_ok_collect) (auto simp: list_all_iff rules(4) simp del: ipld_ok.simps)
    moreover have "ipld_ok E (List (map String aliases))"
      using assms(2) Entity by (auto simp: list_all_iff seq_ok_def text_ok_def)
    moreover have "ipld_ok E (Bytes i)" using assms(2) Entity by (simp add: isize_max_def)
    ultimately show ?thesis
      using assms(2) Entity by (simp add: node_fields_def rules del: ipld_ok.simps)
  next
    case (Evidence source span extracted_by proof')
    have "ipld_ok E (List [Integer (uint a), Integer (uint b)])" for a b :: u64
      using s ipld_ok_u64 [of E a] ipld_ok_u64 [of E b] by simp
    then show ?thesis
      using assms(2) Evidence
      by (auto simp: node_fields_def rules simp del: ipld_ok.simps split: option.split)
  qed (use assms(2) in \<open>auto simp: node_fields_def rules simp del: ipld_ok.simps(3,5-9) split: option.split\<close>)
  show "length (node_fields n) < 2 ^ 64"
    by (cases n) (auto simp: node_fields_def split: option.split)
qed

lemma glinks_links: "bt_get m k = Some (node_links cids) \<Longrightarrow> glinks m k = Ok cids"
proof -
  have "omap_list (\<lambda>v. ok_or e (as_link v)) (map Link cids) = Ok (map (\<lambda>c. c) cids)" for e
    by (intro omap_list_Ok_map) (simp add: as_link_def)
  then show "bt_get m k = Some (node_links cids) \<Longrightarrow> glinks m k = Ok cids"
    by (simp add: glinks_def field_def node_links_def link_def [abs_def])
qed

lemma gstrlist_strings: "bt_get m k = Some (List (map String xs)) \<Longrightarrow> gstrlist m k = Ok xs"
proof -
  have "omap_list (\<lambda>v. case v of String s \<Rightarrow> Ok s | _ \<Rightarrow> Err e) (map String xs) = Ok (map (\<lambda>c. c) xs)" for e
    by (intro omap_list_Ok_map) simp
  then show "bt_get m k = Some (List (map String xs)) \<Longrightarrow> gstrlist m k = Ok xs"
    by (simp add: gstrlist_def field_def)
qed

lemma gstrmap_strings:
  assumes "bt_get m k = Some (Map (bt_collect (map (\<lambda>(k, v). (k, String v)) attrs)))" "bt_ok attrs"
  shows "gstrmap m k = Ok attrs"
proof -
  have "bt_ok (map (\<lambda>(k, v). (k, String v)) attrs)" using assms(2) by (intro bt_ok_map) auto
  then have c: "bt_collect (map (\<lambda>(k, v). (k, String v)) attrs) = map (\<lambda>(k, v). (k, String v)) attrs"
    by (rule bt_collect_id)
  have "omap_list f (map (\<lambda>(k, v). (k, String v)) attrs) = Ok attrs"
    if "\<And>k v. f (k, String v) = Ok (k, v)" for f :: "string \<times> 'a Ipld \<Rightarrow> (KError, string \<times> string) outcome"
    using omap_list_Ok_map [of attrs f "\<lambda>(k, v). (k, String v)" "\<lambda>c. c"] that by auto
  then show ?thesis using assms(2) unfolding gstrmap_def field_def assms(1) c by (simp add: bt_collect_id)
qed

lemma node_from_to_ipld:
  assumes "node_ok E n"
  shows "node_from_ipld (node_to_ipld n) = Ok n"
proof -
  note g = bt_get_collect node_fields_def node_type_name_def gstr_def gint_def gfloat_def gbytes_def
    glink_def glink_opt_def field_def as_link_def link_def as_map'_def
  note f = node_from_ipld_def node_to_ipld_def
  show ?thesis
  proof (cases n)
    case (Entity i kind name aliases attrs observations)
    then show ?thesis
      using assms gstrmap_strings [of "bt_collect (node_fields n)" "''attrs''" attrs]
        gstrlist_strings [of "bt_collect (node_fields n)" "''aliases''" aliases]
        glinks_links [of "bt_collect (node_fields n)" "''observations''" observations]
      by (simp add: f g)
  next
    case (Concept name def' broader related)
    then show ?thesis
      using glinks_links [of "bt_collect (node_fields n)" "''broader''" broader]
        glinks_links [of "bt_collect (node_fields n)" "''related''" related]
      by (simp add: f g)
  next
    case (Relation subject predicate object evidence weight)
    then show ?thesis
      using assms glinks_links [of "bt_collect (node_fields n)" "''evidence''" evidence]
      by (simp add: f g f64_to_f32_f32_to_f64)
  next
    case (Evidence source span extracted_by proof')
    then show ?thesis
      by (cases span; cases proof') (auto simp: f g gspan_def)
  next
    case (Observation about' statement ts agent)
    then show ?thesis by (simp add: f g)
  next
    case (Hypothesis claim supports refutes status proof')
    then show ?thesis
      using glinks_links [of "bt_collect (node_fields n)" "''supports''" supports]
        glinks_links [of "bt_collect (node_fields n)" "''refutes''" refutes]
      by (cases proof'; cases status) (simp_all add: f g status_as_str_def status_parse_def)
  qed
qed

lemma node_encode_eq:
  "cid_env E \<Longrightarrow> node_encode E n =
   Ok (dag_cbor_cid E (encode_dag_cbor E (node_to_ipld n)), encode_dag_cbor E (node_to_ipld n))"
  by (simp add: node_encode_def to_dag_cbor_def build_dag_cbor_new cid_env_def)

lemma node_decode_encode:
  assumes "cid_env E" "node_ok E n"
  shows "node_decode E (encode_dag_cbor E (node_to_ipld n)) = Ok n"
  using from_dag_cbor_encode [OF node_to_ipld_ok [OF assms], of "[]"] node_from_to_ipld [OF assms(2)]
  by (simp add: node_decode_def)

subsection \<open>Properties\<close>

text \<open>
  Decoding the block of a node gives the node again, for all six node types.
\<close>

theorem node_roundtrip:
  assumes "cid_env E" "node_ok E n"
  shows "obind (node_encode E n) (\<lambda>(cid, bytes). node_decode E bytes) = Ok n"
  using node_decode_encode [OF assms] by (simp add: node_encode_eq [OF assms(1)])

theorem node_roundtrip_witness:
  "obind (node_encode crate64 (Relation (Inl 1) ''knows'' (Inl 2) [Inr (0x71, 3)] 0x3f000000))
     (\<lambda>(cid, bytes). node_decode crate64 bytes) =
   Ok (Relation (Inl 1) ''knows'' (Inl 2) [Inr (0x71, 3)] 0x3f000000)"
  by (rule node_roundtrip [OF cid_env_crate64])
    (simp add: text_ok_def valid_str_def of_char_def isize_max_def seq_ok_def f32_is_nan_def crate64_def)

text \<open>
  A block identifies its node: different nodes never encode to the same bytes, so they share
  a CID only if the hash collides.
\<close>

theorem node_encode_inject:
  assumes "cid_env E" "node_ok E n" "node_ok E n'"
    and "node_encode E n = Ok (cid, bytes)" "node_encode E n' = Ok (cid', bytes)"
  shows "n = n'"
proof -
  have "node_decode E bytes = Ok n" "node_decode E bytes = Ok n'"
    using node_decode_encode [OF assms(1,2)] node_decode_encode [OF assms(1,3)] assms(4,5)
    by (simp_all add: node_encode_eq [OF assms(1)])
  then show ?thesis by simp
qed

theorem node_encode_inject_witness:
  "Observation (Inl 1) ''s'' 7 ''a'' = (Observation (Inl 1) ''s'' 7 ''a'' :: (u64 + u64 \<times> u64) KnowledgeNode)"
  by (rule node_encode_inject [OF cid_env_crate64 _ _ node_encode_eq [OF cid_env_crate64]
        node_encode_eq [OF cid_env_crate64]])
    (simp_all add: text_ok_def valid_str_def of_char_def isize_max_def)

end
