(* ===== verification/Vector_Index.thy ===== *)
theory Vector_Index
  imports Knowledge_Node
begin

unbundle bit_operations_syntax

text \<open>
  The content-addressed vector index (\<open>ipfrs-knowledge/src/vector.rs\<close>).

  An \<open>f32\<close> is its bit pattern. Its arithmetic (addition, multiplication, division, square root,
  \<open>Iterator::sum\<close>) is the parameter \<open>f32_arith\<close>, of which nothing is assumed: the properties here
  are about the structure of the index, the order of \<open>total_cmp\<close> (defined on the bit patterns as in
  the standard library) and the encoding. \<open>debug_assert\<close> is not compiled into release builds.
\<close>

subsection \<open>The code\<close>

record f32_arith =
  fa_add :: "u32 \<Rightarrow> u32 \<Rightarrow> u32"
  fa_mul :: "u32 \<Rightarrow> u32 \<Rightarrow> u32"
  fa_div :: "u32 \<Rightarrow> u32 \<Rightarrow> u32"
  fa_sqrt :: "u32 \<Rightarrow> u32"
  fa_sum :: "u32 list \<Rightarrow> u32"

definition DEFAULT_DIM :: nat where "DEFAULT_DIM = 256"

type_synonym Embedding = "u32 list"

text \<open>\<open>str::chars\<close>: the code points of valid UTF-8.\<close>

fun utf8_chars :: "bytes \<Rightarrow> nat list" where
  "utf8_chars [] = []"
| "utf8_chars (a # bs) =
     (if unat a < 0x80 then unat a # utf8_chars bs
      else if unat a < 0xe0 then
        (case bs of b # rs \<Rightarrow> ((unat a - 0xc0) * 64 + (unat b - 0x80)) # utf8_chars rs | _ \<Rightarrow> [])
      else if unat a < 0xf0 then
        (case bs of b # c # rs \<Rightarrow>
           ((unat a - 0xe0) * 4096 + (unat b - 0x80) * 64 + (unat c - 0x80)) # utf8_chars rs | _ \<Rightarrow> [])
      else
        (case bs of b # c # d # rs \<Rightarrow>
           ((unat a - 0xf0) * 262144 + (unat b - 0x80) * 4096 + (unat c - 0x80) * 64 + (unat d - 0x80))
             # utf8_chars rs | _ \<Rightarrow> []))"

definition windows :: "nat \<Rightarrow> 'a list \<Rightarrow> 'a list list" where
  "windows n xs = map (\<lambda>i. take n (drop i xs)) [0 ..< length xs + 1 - n]"

definition trigram_hash :: "nat list \<Rightarrow> u64" where
  "trigram_hash w =
     foldl (\<lambda>h c. (h XOR of_nat c) * 0x100000001b3) 0xcbf29ce484222325 w"

text \<open>One iteration of the loop of \<open>embed\<close>; \<open>h % 0\<close> panics.\<close>

definition embed_step :: "f32_arith \<Rightarrow> nat \<Rightarrow> Embedding \<Rightarrow> nat list \<Rightarrow> (KError, Embedding) outcome" where
  "embed_step A dim v w =
     (let h = trigram_hash w in
      if (of_nat dim :: u64) = 0 then Panic
      else let idx = unat (h mod of_nat dim);
               sign = (if drop_bit 63 h AND 1 = 1 then 0xbf800000 else 0x3f800000)
        in if idx < length v then Ok (v[idx := fa_add A (v ! idx) sign]) else Panic)"

fun embed_loop :: "f32_arith \<Rightarrow> nat \<Rightarrow> Embedding \<Rightarrow> nat list list \<Rightarrow> (KError, Embedding) outcome" where
  "embed_loop A dim v [] = Ok v"
| "embed_loop A dim v (w # ws) = obind (embed_step A dim v w) (\<lambda>v. embed_loop A dim v ws)"

definition f32_gt_zero :: "u32 \<Rightarrow> bool" where
  "f32_gt_zero x \<longleftrightarrow> 0 < x \<and> x \<le> 0x7f800000"

definition embed :: "digest_lib \<Rightarrow> f32_arith \<Rightarrow> string \<Rightarrow> nat \<Rightarrow> (KError, Embedding) outcome" where
  "embed D A text dim =
     (if isize_max < dim * 4 then Panic
      else let normalized = str_lowercase D (str_trim D text);
               chars = utf8_chars (str_bytes ('' '' @ normalized @ '' ''))
      in obind (embed_loop A dim (replicate dim 0) (windows 3 chars)) (\<lambda>v.
           let mag = fa_sqrt A (fa_sum A (map (\<lambda>x. fa_mul A x x) v))
           in Ok (if f32_gt_zero mag then map (\<lambda>x. fa_div A x mag) v else v)))"

definition cosine :: "f32_arith \<Rightarrow> Embedding \<Rightarrow> Embedding \<Rightarrow> u32" where
  "cosine A a b = fa_sum A (map (\<lambda>(x, y). fa_mul A x y) (zip a b))"

record 'c VectorIndex =
  vi_dim :: nat
  vi_entries :: "('c \<times> Embedding) list"

definition vi_new :: "nat \<Rightarrow> 'c VectorIndex" where
  "vi_new dim = \<lparr>vi_dim = dim, vi_entries = []\<rparr>"

definition vi_len :: "'c VectorIndex \<Rightarrow> nat" where
  "vi_len ix = length (vi_entries ix)"

definition vi_is_empty :: "'c VectorIndex \<Rightarrow> bool" where
  "vi_is_empty ix \<longleftrightarrow> vi_entries ix = []"

definition vi_add :: "'c VectorIndex \<Rightarrow> 'c \<Rightarrow> Embedding \<Rightarrow> 'c VectorIndex" where
  "vi_add ix target emb = ix\<lparr>vi_entries := vi_entries ix @ [(target, emb)]\<rparr>"

definition vi_remove :: "'c VectorIndex \<Rightarrow> 'c \<Rightarrow> 'c VectorIndex" where
  "vi_remove ix target = ix\<lparr>vi_entries := filter (\<lambda>(c, _). c \<noteq> target) (vi_entries ix)\<rparr>"

definition vi_upsert :: "'c VectorIndex \<Rightarrow> 'c \<Rightarrow> Embedding \<Rightarrow> 'c VectorIndex" where
  "vi_upsert ix target emb = vi_add (vi_remove ix target) target emb"

definition vi_add_text ::
    "digest_lib \<Rightarrow> f32_arith \<Rightarrow> 'c VectorIndex \<Rightarrow> 'c \<Rightarrow> string \<Rightarrow> (KError, 'c VectorIndex) outcome" where
  "vi_add_text D A ix target text = obind (embed D A text (vi_dim ix)) (\<lambda>e. Ok (vi_add ix target e))"

text \<open>\<open>f32::total_cmp\<close> compares the bit patterns as signed integers after flipping negative ones.\<close>

definition total_key :: "u32 \<Rightarrow> int" where
  "total_key x = sint (if bit x 31 then x XOR 0x7fffffff else x)"

definition vi_search :: "f32_arith \<Rightarrow> 'c VectorIndex \<Rightarrow> Embedding \<Rightarrow> nat \<Rightarrow> ('c \<times> u32) list" where
  "vi_search A ix query k =
     take k (sort_key (\<lambda>(c, s). - total_key s) (map (\<lambda>(c, e). (c, cosine A query e)) (vi_entries ix)))"

definition vi_search_text ::
    "digest_lib \<Rightarrow> f32_arith \<Rightarrow> 'c VectorIndex \<Rightarrow> string \<Rightarrow> nat \<Rightarrow> (KError, ('c \<times> u32) list) outcome" where
  "vi_search_text D A ix query k =
     obind (embed D A query (vi_dim ix)) (\<lambda>q. Ok (vi_search A ix q k))"

definition f32_le_bytes :: "u32 \<Rightarrow> bytes" where
  "f32_le_bytes f = le_bytes 4 (unat f)"

definition vi_entry_ipld :: "'c \<times> Embedding \<Rightarrow> 'c Ipld" where
  "vi_entry_ipld e =
     Map (bt_collect [(''c'', link (fst e)), (''v'', Bytes (concat (map f32_le_bytes (snd e))))])"

definition vi_to_ipld :: "'c VectorIndex \<Rightarrow> 'c Ipld" where
  "vi_to_ipld ix =
     Map (bt_collect
       [(''@type'', String ''vindex''), (''dim'', Integer (int (vi_dim ix))),
        (''entries'', List (map vi_entry_ipld (vi_entries ix)))])"

definition vi_encode :: "'c cid_crate \<Rightarrow> 'c VectorIndex \<Rightarrow> (KError, 'c \<times> bytes) outcome" where
  "vi_encode E ix =
     obind (omap_err Core (to_dag_cbor E (vi_to_ipld ix))) (\<lambda>bytes.
       obind (omap_err Core (cb_build_dag_cbor E cb_new bytes)) (\<lambda>cid. Ok (cid, bytes)))"

definition vi_store ::
    "'c cid_crate \<Rightarrow> ('s, 'c) BlockStore \<Rightarrow> 's \<Rightarrow> 'c VectorIndex \<Rightarrow> 's \<times> (KError, 'c) outcome" where
  "vi_store E S store ix =
     sbind (store, vi_encode E ix) (\<lambda>store (cid, bytes). (bs_put S store cid bytes, Ok cid))"

text \<open>\<open>chunks_exact(4)\<close> drops an incomplete last chunk.\<close>

fun f32_chunks :: "bytes \<Rightarrow> Embedding" where
  "f32_chunks (a # b # c # d # rs) = of_nat (from_le [a, b, c, d]) # f32_chunks rs"
| "f32_chunks _ = []"

definition vi_decode_entry :: "nat \<Rightarrow> 'c Ipld \<Rightarrow> (KError, 'c \<times> Embedding) outcome" where
  "vi_decode_entry dim e =
     (case e of
        Map em \<Rightarrow>
          obind (ok_or (Decode ''vindex entry missing cid'') (Option.bind (bt_get em ''c'') as_link)) (\<lambda>cid.
            obind (case bt_get em ''v'' of Some (Bytes b) \<Rightarrow> Ok b
                   | _ \<Rightarrow> Err (Decode ''vindex entry missing vec'')) (\<lambda>bytes.
              let emb = f32_chunks bytes in
              if length emb \<noteq> dim then Err (Decode ''vindex entry vector length != dim'')
              else Ok (cid, emb)))
      | _ \<Rightarrow> Err (Decode ''vindex entry not a map''))"

definition vi_decode :: "'c cid_crate \<Rightarrow> bytes \<Rightarrow> (KError, 'c VectorIndex) outcome" where
  "vi_decode E bytes =
     obind (omap_err Core (from_dag_cbor E bytes)) (\<lambda>ipld.
       case ipld of
         Map m \<Rightarrow>
           obind (case bt_get m ''dim'' of
                    Some (Integer n) \<Rightarrow>
                      (if 1 \<le> n \<and> n \<le> 65536 then Ok (nat n) else Err (Decode ''vindex dim out of range''))
                  | _ \<Rightarrow> Err (Decode ''vindex missing dim'')) (\<lambda>dim.
             obind (case bt_get m ''entries'' of Some (List l) \<Rightarrow> Ok l
                    | _ \<Rightarrow> Err (Decode ''vindex missing entries'')) (\<lambda>l.
               obind (omap_list (vi_decode_entry dim) l) (\<lambda>entries.
                 Ok \<lparr>vi_dim = dim, vi_entries = entries\<rparr>)))
       | _ \<Rightarrow> Err (Decode ''vindex not a map''))"

definition node_text :: "'c KnowledgeNode \<Rightarrow> string option" where
  "node_text n =
     (case n of
        Entity _ _ name aliases attrs _ \<Rightarrow>
          Some (name @ concat (map (\<lambda>a. '' '' @ a) aliases) @ concat (map (\<lambda>(k, v). '' '' @ v) attrs))
      | Concept name def' _ _ \<Rightarrow> Some (name @ '' '' @ def')
      | Observation _ statement _ _ \<Rightarrow> Some statement
      | Hypothesis claim _ _ _ _ \<Rightarrow> Some claim
      | Relation _ predicate _ _ _ \<Rightarrow> Some predicate
      | Evidence _ _ _ _ \<Rightarrow> None)"

definition block_text :: "'c cid_crate \<Rightarrow> bytes \<Rightarrow> (KError, string option) outcome" where
  "block_text E bytes =
     (case node_decode E bytes of
        Ok node \<Rightarrow> Ok (node_text node)
      | Err _ \<Rightarrow>
          (case from_dag_cbor E bytes of
             Ok (String s) \<Rightarrow> Ok (Some s)
           | Panic \<Rightarrow> Panic | Diverge \<Rightarrow> Diverge
           | _ \<Rightarrow> Ok None)
      | Panic \<Rightarrow> Panic
      | Diverge \<Rightarrow> Diverge)"

subsection \<open>Embedding\<close>

lemma embed_loop_ok:
  assumes "1 \<le> dim" "dim < 2 ^ 64" "length v = dim"
  shows "\<exists>v'. embed_loop A dim v ws = Ok v' \<and> length v' = dim"
  using assms(3)
proof (induction ws arbitrary: v)
  case (Cons w ws)
  have d: "unat (of_nat dim :: u64) = dim" using assms(2)
    by (simp only: unsigned_of_nat) (simp add: take_bit_nat_eq_self)
  then have nz: "(of_nat dim :: u64) \<noteq> 0" using assms(1) by (metis unat_0 not_one_le_zero)
  have "unat (trigram_hash w mod of_nat dim) < length v"
    unfolding unat_mod d using assms(1) Cons.prems by simp
  then show ?case using Cons.IH [of "v[_ := _]"] Cons.prems nz by (simp add: embed_step_def Let_def)
qed simp

lemma embed_ok:
  assumes "1 \<le> dim" "dim * 4 \<le> isize_max"
  shows "\<exists>v. embed D A text dim = Ok v \<and> length v = dim"
proof -
  have "dim < 2 ^ 64" using assms(2) by (simp add: isize_max_def)
  then obtain v where "embed_loop A dim (replicate dim 0)
      (windows 3 (utf8_chars (str_bytes ('' '' @ str_lowercase D (str_trim D text) @ '' '')))) = Ok v" "length v = dim"
    using embed_loop_ok [OF assms(1), of "replicate dim 0" A] by fastforce
  then show ?thesis using assms(2) by (simp add: embed_def Let_def)
qed

subsection \<open>Searching\<close>

lemma sorted_take_drop:
  assumes "sorted (map f xs)" "x \<in> set (take k xs)" "y \<in> set (drop k xs)"
  shows "f x \<le> f y"
proof -
  have "sorted (map f (take k xs) @ map f (drop k xs))"
    unfolding map_append [symmetric] using assms(1) by simp
  then show ?thesis using assms(2,3) by (simp add: sorted_append del: append_take_drop_id)
qed

lemma vi_search_spec:
  fixes ix A query k
  defines "scored \<equiv> map (\<lambda>(c, e). (c, cosine A query e)) (vi_entries ix)"
  shows "length (vi_search A ix query k) = min k (vi_len ix) \<and>
    sorted_wrt (\<lambda>a b. total_key (snd b) \<le> total_key (snd a)) (vi_search A ix query k) \<and>
    (\<exists>rest. mset (vi_search A ix query k) + mset rest = mset scored \<and>
      (\<forall>a \<in> set (vi_search A ix query k). \<forall>b \<in> set rest. total_key (snd b) \<le> total_key (snd a)))"
proof -
  let ?key = "\<lambda>(c, s). - total_key s" 
  let ?s = "sort_key ?key scored"
  have r: "vi_search A ix query k = take k ?s" by (simp add: vi_search_def scored_def)
  have s: "sorted (map ?key ?s)" by simp
  have "sorted_wrt (\<lambda>a b. ?key a \<le> ?key b) ?s" using s by (simp add: sorted_wrt_map)
  then have "sorted_wrt (\<lambda>a b. total_key (snd b) \<le> total_key (snd a)) (take k ?s)"
    by (auto simp: split_def intro: sorted_wrt_take)
  moreover have "mset (take k ?s) + mset (drop k ?s) = mset scored"
    by (metis append_take_drop_id mset_append mset_sort)
  moreover have "total_key (snd b) \<le> total_key (snd a)" if "a \<in> set (take k ?s)" "b \<in> set (drop k ?s)" for a b
    using sorted_take_drop [OF s that] by (simp add: split_def)
  ultimately show ?thesis unfolding r
    by (auto simp: vi_len_def scored_def)
qed

subsection \<open>Encoding\<close>

lemma f32_chunks_bytes: "f32_chunks (concat (map f32_le_bytes xs)) = xs"
proof (induction xs)
  case (Cons x xs)
  obtain a b c d where l: "f32_le_bytes x = [a, b, c, d]"
  proof -
    have "length (f32_le_bytes x) = 4" by (simp add: f32_le_bytes_def)
    then show thesis using that by (auto simp: numeral_eq_Suc length_Suc_conv)
  qed
  have "unat x < 256 ^ 4" using unsigned_less [of x, where 'a = nat] by simp
  then have "from_le [a, b, c, d] = unat x"
    unfolding l [symmetric] f32_le_bytes_def by (simp add: from_le_bytes_id)
  with Cons l show ?case by simp
qed simp

definition vi_ok :: "'c cid_crate \<Rightarrow> 'c VectorIndex \<Rightarrow> bool" where
  "vi_ok E ix \<longleftrightarrow>
     1 \<le> vi_dim ix \<and> vi_dim ix \<le> 65536 \<and> seq_ok E (vi_entries ix) \<and>
     list_all (\<lambda>(c, e). length e = vi_dim ix) (vi_entries ix)"

lemma vi_decode_entry_ok:
  "length e = dim \<Longrightarrow> vi_decode_entry dim (vi_entry_ipld (c, e)) = Ok (c, e)"
  by (simp add: vi_decode_entry_def vi_entry_ipld_def bt_get_collect f32_chunks_bytes as_link_def link_def)

lemma length_f32_bytes: "length (concat (map f32_le_bytes xs)) = 4 * length xs"
  by (induction xs) (simp_all add: f32_le_bytes_def)

lemma text_ok_vi: "text_ok ''c''" "text_ok ''v''" "text_ok ''@type''" "text_ok ''vindex''" "text_ok ''dim''" "text_ok ''entries''"
  by (simp_all add: text_ok_def valid_str_def of_char_def isize_max_def)

lemma vi_to_ipld_ok:
  assumes "cid_env E" "vi_ok E ix"
  shows "ipld_ok E (vi_to_ipld ix)"
proof -
  have e: "ipld_ok E (vi_entry_ipld (c, e))" if "length e = vi_dim ix" for c e
    unfolding vi_entry_ipld_def
    by (rule ipld_ok_collect)
      (use assms(2) that in \<open>auto simp: text_ok_vi ipld_ok_link [OF assms(1)] length_f32_bytes vi_ok_def isize_max_def simp del: ipld_ok.simps(9)\<close>)
  have "ipld_ok E (List (map vi_entry_ipld (vi_entries ix)))"
    using assms(2) e by (auto simp: vi_ok_def seq_ok_def list_all_iff simp del: ipld_ok.simps(8,9))
  then show ?thesis
    unfolding vi_to_ipld_def using assms(2)
    by (intro ipld_ok_collect) (auto simp: text_ok_vi ipld_ok_String vi_ok_def simp del: ipld_ok.simps(5-9))
qed

lemma vi_decode_encode:
  assumes "cid_env E" "vi_ok E ix"
  shows "vi_decode E (encode_dag_cbor E (vi_to_ipld ix)) = Ok ix"
proof -
  have "omap_list (vi_decode_entry (vi_dim ix)) (map vi_entry_ipld (vi_entries ix)) = Ok (map (\<lambda>e. e) (vi_entries ix))"
    by (rule omap_list_Ok_map) (use assms(2) in \<open>auto simp: vi_ok_def list_all_iff intro!: vi_decode_entry_ok\<close>)
  moreover have "from_dag_cbor E (encode_dag_cbor E (vi_to_ipld ix)) = Ok (vi_to_ipld ix)"
    using from_dag_cbor_encode [OF vi_to_ipld_ok [OF assms], of "[]"] by simp
  ultimately show ?thesis
    using assms(2) by (simp add: vi_decode_def vi_to_ipld_def bt_get_collect vi_ok_def)
qed

lemma vi_encode_eq:
  "cid_env E \<Longrightarrow> vi_encode E ix =
   Ok (dag_cbor_cid E (encode_dag_cbor E (vi_to_ipld ix)), encode_dag_cbor E (vi_to_ipld ix))"
  by (simp add: vi_encode_def to_dag_cbor_def build_dag_cbor_new cid_env_def)

lemma case_Ipld_iffs:
  "(case i of Map m \<Rightarrow> f m | _ \<Rightarrow> Err e) = Ok x \<longleftrightarrow> (\<exists>m. i = Map m \<and> f m = Ok x)"
  "(case oi of Some (Integer n) \<Rightarrow> g n | _ \<Rightarrow> Err e) = Ok y \<longleftrightarrow> (\<exists>n. oi = Some (Integer n) \<and> g n = Ok y)"
  "(case oi of Some (List l) \<Rightarrow> h l | _ \<Rightarrow> Err e) = Ok z \<longleftrightarrow> (\<exists>l. oi = Some (List l) \<and> h l = Ok z)"
  "(case oi of Some (Bytes b) \<Rightarrow> k b | _ \<Rightarrow> Err e) = Ok w \<longleftrightarrow> (\<exists>b. oi = Some (Bytes b) \<and> k b = Ok w)"
  by (auto split: Ipld.split option.split)

lemma vi_decode_valid:
  assumes "vi_decode E bytes = Ok ix"
  shows "1 \<le> vi_dim ix \<and> vi_dim ix \<le> 65536 \<and> list_all (\<lambda>(c, e). length e = vi_dim ix) (vi_entries ix)"
proof -
  from assms obtain l dim es where l: "omap_list (vi_decode_entry dim) l = Ok es" "ix = \<lparr>vi_dim = dim, vi_entries = es\<rparr>"
    "1 \<le> dim" "dim \<le> 65536"
    by (auto simp: vi_decode_def obind_eq_Ok case_Ipld_iffs split: if_splits)
  have "length e = dim" if "vi_decode_entry dim i = Ok (c, e)" for i :: "'a Ipld" and c e
    using that by (auto simp: vi_decode_entry_def obind_eq_Ok Let_def case_Ipld_iffs split: if_splits)
  then show ?thesis
    using l omap_list_length [OF l(1)] omap_list_nth [OF l(1)]
    by (auto simp: list_all_length split: prod.splits) metis
qed

subsection \<open>Uniqueness\<close>

definition vi_inv :: "'c VectorIndex \<Rightarrow> bool" where
  "vi_inv ix \<longleftrightarrow> distinct (map fst (vi_entries ix))"

lemma filter_key:
  "distinct (map fst xs) \<Longrightarrow> distinct (map fst (filter (\<lambda>(c', _). c' \<noteq> c) xs)) \<and>
   map_of (filter (\<lambda>(c', _). c' \<noteq> c) xs) = (map_of xs)(c := None)"
  by (induction xs) (auto simp: fun_eq_iff)

lemma vi_remove_spec:
  "vi_inv ix \<Longrightarrow> vi_inv (vi_remove ix c) \<and> vi_dim (vi_remove ix c) = vi_dim ix \<and>
   map_of (vi_entries (vi_remove ix c)) = (map_of (vi_entries ix))(c := None)"
  using filter_key [of "vi_entries ix" c] by (simp add: vi_inv_def vi_remove_def)

lemma vi_upsert_spec:
  "vi_inv ix \<Longrightarrow> vi_inv (vi_upsert ix c e) \<and> vi_dim (vi_upsert ix c e) = vi_dim ix \<and>
   map_of (vi_entries (vi_upsert ix c e)) = (map_of (vi_entries ix))(c \<mapsto> e)"
  using filter_key [of "vi_entries ix" c]
  by (auto simp: vi_inv_def vi_upsert_def vi_add_def vi_remove_def map_add_def fun_eq_iff split: option.split)

subsection \<open>Properties\<close>

text \<open>
  (C34) Search is an exact top-\<open>k\<close>: it returns \<open>min k n\<close> of the \<open>n\<close> scored entries, best first in the
  order of \<open>total_cmp\<close> (which ranks NaN scores too), and no entry left out beats one returned.
\<close>

theorem vi_search_top_k:
  "length (vi_search A ix query k) = min k (vi_len ix) \<and>
   sorted_wrt (\<lambda>a b. total_key (snd b) \<le> total_key (snd a)) (vi_search A ix query k) \<and>
   (\<exists>rest. mset (vi_search A ix query k) + mset rest =
        mset (map (\<lambda>(c, e). (c, cosine A query e)) (vi_entries ix)) \<and>
      (\<forall>a \<in> set (vi_search A ix query k). \<forall>b \<in> set rest. total_key (snd b) \<le> total_key (snd a)))"
  by (rule vi_search_spec)

text \<open>Arithmetic for the witnesses: a product is its second factor, a sum its first term.\<close>

definition arith0 :: f32_arith where
  "arith0 = \<lparr>fa_add = (\<lambda>x y. x), fa_mul = (\<lambda>x y. y), fa_div = (\<lambda>x y. x), fa_sqrt = (\<lambda>x. x),
     fa_sum = (\<lambda>xs. if xs = [] then 0 else hd xs)\<rparr>"

definition vi_example :: "nat VectorIndex" where
  "vi_example = \<lparr>vi_dim = 1, vi_entries = [(1, [0x3f000000]), (2, [0x3f800000])]\<rparr>"

theorem vi_search_top_k_witness:
  "vi_search arith0 vi_example [0] 1 = [(2, 0x3f800000)] \<and>
   length (vi_search arith0 vi_example [0] 1) = min 1 (vi_len vi_example)"
  using vi_search_top_k [of arith0 vi_example "[0]" 1]
  by (simp add: vi_search_def vi_example_def cosine_def arith0_def total_key_def)

text \<open>
  The persisted index is read back as it was: entries, their order and every bit of their
  vectors.
\<close>

theorem vi_roundtrip:
  assumes "cid_env E" "vi_ok E ix"
  shows "obind (vi_encode E ix) (\<lambda>(cid, bytes). vi_decode E bytes) = Ok ix"
  using vi_decode_encode [OF assms] by (simp add: vi_encode_eq [OF assms(1)])

theorem vi_roundtrip_witness:
  "obind (vi_encode crate64 \<lparr>vi_dim = 1, vi_entries = [(Inl 7, [0x7fc00001])]\<rparr>)
     (\<lambda>(cid, bytes). vi_decode crate64 bytes) = Ok \<lparr>vi_dim = 1, vi_entries = [(Inl 7, [0x7fc00001])]\<rparr>"
  by (rule vi_roundtrip [OF cid_env_crate64]) (simp add: vi_ok_def seq_ok_def crate64_def isize_max_def)

text \<open>
  (C35) An index decoded from untrusted bytes is safe to use: its dimension is between 1 and 65536,
  all its vectors have that length, and embedding a text for it never divides by zero or panics.
\<close>

theorem vi_decode_safe:
  assumes "vi_decode E bytes = Ok ix"
  shows "1 \<le> vi_dim ix \<and> vi_dim ix \<le> 65536 \<and>
    list_all (\<lambda>(c, e). length e = vi_dim ix) (vi_entries ix) \<and>
    (\<exists>hits. vi_search_text D A ix query k = Ok hits) \<and>
    (\<exists>ix'. vi_add_text D A ix target text = Ok ix')"
proof -
  note v = vi_decode_valid [OF assms]
  then have "vi_dim ix * 4 \<le> isize_max" by (simp add: isize_max_def)
  with v embed_ok [of "vi_dim ix" D A] show ?thesis
    by (fastforce simp: vi_search_text_def vi_add_text_def obind_eq_Ok)
qed

definition digest0 :: digest_lib where
  "digest0 = \<lparr>sha256 = (\<lambda>bs. take 32 (bs @ replicate 32 0)), hex_encode = (\<lambda>bs. bytes_str bs),
     hex_decode = (\<lambda>s. Some (str_bytes s)), str_trim = (\<lambda>s. s), str_lowercase = (\<lambda>s. s)\<rparr>"

theorem vi_decode_safe_witness:
  "\<exists>hits. vi_search_text digest0 arith0 \<lparr>vi_dim = 1, vi_entries = [(Inl 7 :: u64 + u64 \<times> u64, [0])]\<rparr>
     ''a'' 3 = Ok hits"
proof -
  have "vi_decode crate64 (encode_dag_cbor crate64 (vi_to_ipld \<lparr>vi_dim = 1, vi_entries = [(Inl 7, [0])]\<rparr>)) =
      Ok \<lparr>vi_dim = 1, vi_entries = [(Inl 7, [0])]\<rparr>"
    by (rule vi_decode_encode [OF cid_env_crate64]) (simp add: vi_ok_def seq_ok_def crate64_def isize_max_def)
  from vi_decode_safe [OF this, of digest0 arith0 "''a''" 3] show ?thesis by blast
qed

end
