(* ===== verification/Worklist.thy ===== *)
theory Worklist
  imports Rust_Prelude
begin

text \<open>
  The worklist traversal that several components run over block links: a stack of CIDs, a set of
  those already seen, and the successors of each new one pushed on the stack. \<open>closure_loop\<close> is
  the traversal alone; the components' loops, which also read stores and may fail, are shown to
  follow it. The locale \<open>link_graph\<close> gives the bound on its number of iterations.
\<close>

fun closure_loop :: "('c \<Rightarrow> 'c list) \<Rightarrow> nat \<Rightarrow> 'c list \<Rightarrow> 'c list \<Rightarrow> 'c list option" where
  "closure_loop succs 0 seen frontier = (if frontier = [] then Some seen else None)"
| "closure_loop succs (Suc fuel) seen frontier =
     (if frontier = [] then Some seen
      else let c = last frontier; rest = butlast frontier in
        if c \<in> set seen then closure_loop succs fuel seen rest
        else closure_loop succs fuel (hs_insert c seen) (rest @ succs c))"

definition reach :: "('c \<Rightarrow> 'c list) \<Rightarrow> 'c set \<Rightarrow> 'c set" where
  "reach succs A = {(a, b). b \<in> set (succs a)}\<^sup>* `` A"

lemma reach_base: "a \<in> A \<Longrightarrow> a \<in> reach succs A"
  by (auto simp: reach_def)

lemma reach_step: "a \<in> reach succs A \<Longrightarrow> b \<in> set (succs a) \<Longrightarrow> b \<in> reach succs A"
  unfolding reach_def by (auto elim!: ImageE intro: ImageI rtrancl_into_rtrancl)

lemma reach_induct [consumes 1, case_names base step]:
  assumes "a \<in> reach succs A" "\<And>a. a \<in> A \<Longrightarrow> P a"
    and "\<And>a b. a \<in> reach succs A \<Longrightarrow> P a \<Longrightarrow> b \<in> set (succs a) \<Longrightarrow> P b"
  shows "P a"
proof -
  from assms(1) obtain r where r: "r \<in> A" "(r, a) \<in> {(a, b). b \<in> set (succs a)}\<^sup>*"
    by (auto simp: reach_def)
  from r(2) have "P a \<and> a \<in> reach succs A"
  proof (induction rule: rtrancl_induct)
    case base
    then show ?case using r(1) assms(2) reach_base by metis
  next
    case (step y z)
    then show ?case using assms(3) reach_step by fastforce
  qed
  then show ?thesis by simp
qed

lemma reach_least:
  assumes "A \<subseteq> R" "\<And>a. a \<in> R \<Longrightarrow> set (succs a) \<subseteq> R"
  shows "reach succs A \<subseteq> R"
proof
  fix a assume "a \<in> reach succs A"
  then show "a \<in> R" by (induction rule: reach_induct) (use assms in auto)
qed

lemma reach_mono: "A \<subseteq> B \<Longrightarrow> reach succs A \<subseteq> reach succs B"
  by (intro reach_least) (auto intro: reach_base reach_step)

lemma last_butlast_set: "xs \<noteq> [] \<Longrightarrow> set xs = insert (last xs) (set (butlast xs))"
  by (metis append_butlast_last_id list.simps(15) rotate1.simps(2) set_rotate1)

lemma closure_loop_bounds:
  assumes "closure_loop succs fuel seen frontier = Some r" "distinct seen"
    and "\<forall>a \<in> set seen. set (succs a) \<subseteq> set seen \<union> set frontier"
    and "set seen \<union> set frontier \<subseteq> R" "\<And>a. a \<in> R \<Longrightarrow> set (succs a) \<subseteq> R"
  shows "distinct r \<and> set seen \<union> set frontier \<subseteq> set r \<and> set r \<subseteq> R \<and>
    (\<forall>a \<in> set r. set (succs a) \<subseteq> set r)"
  using assms(1-4)
proof (induction fuel arbitrary: seen frontier)
  case 0
  then show ?case by (simp split: if_splits)
next
  case (Suc fuel)
  show ?case
  proof (cases "frontier = []")
    case False
    note f = last_butlast_set [OF False]
    let ?c = "last frontier" and ?rest = "butlast frontier"
    have R: "?c \<in> R" "set ?rest \<subseteq> R" using Suc.prems(4) f by auto
    show ?thesis
    proof (cases "?c \<in> set seen")
      case True
      then have eq: "set seen \<union> set frontier = set seen \<union> set ?rest" using f by auto
      have "closure_loop succs fuel seen ?rest = Some r" using Suc.prems(1) False True by (simp add: Let_def)
      then show ?thesis using Suc.IH [of seen ?rest] Suc.prems(2-4) unfolding eq by blast
    next
      case new: False
      have "distinct r \<and> set (hs_insert ?c seen) \<union> set (?rest @ succs ?c) \<subseteq> set r \<and> set r \<subseteq> R \<and>
          (\<forall>a \<in> set r. set (succs a) \<subseteq> set r)"
      proof (rule Suc.IH)
        show "closure_loop succs fuel (hs_insert ?c seen) (?rest @ succs ?c) = Some r"
          using Suc.prems(1) False new by (simp add: Let_def)
        show "distinct (hs_insert ?c seen)" using Suc.prems(2) by simp
        show "\<forall>a \<in> set (hs_insert ?c seen). set (succs a) \<subseteq> set (hs_insert ?c seen) \<union> set (?rest @ succs ?c)"
          using Suc.prems(3) f by auto
        show "set (hs_insert ?c seen) \<union> set (?rest @ succs ?c) \<subseteq> R"
          using Suc.prems(4) assms(5) [OF R(1)] R by auto
      qed
      then show ?thesis using f by auto
    qed
  qed (use Suc.prems in simp)
qed

theorem closure_loop_correct:
  assumes "closure_loop succs fuel [] frontier = Some r"
  shows "set r = reach succs (set frontier)" "distinct r"
proof -
  have "distinct r \<and> set [] \<union> set frontier \<subseteq> set r \<and> set r \<subseteq> reach succs (set frontier) \<and>
      (\<forall>a \<in> set r. set (succs a) \<subseteq> set r)"
    by (rule closure_loop_bounds [OF assms]) (auto intro: reach_base reach_step)
  then show "set r = reach succs (set frontier)" "distinct r"
    using reach_least [of "set frontier" "set r" succs] by auto
qed

text \<open>Only nodes of a finite set have successors: the number of edges bounds the iterations.\<close>

locale link_graph =
  fixes succs :: "'c \<Rightarrow> 'c list" and V :: "'c set"
  assumes finite_nodes: "finite V"
    and no_edges_outside: "c \<notin> V \<Longrightarrow> succs c = []"
begin

lemma closure_loop_returns:
  "length frontier + (\<Sum>c \<in> V - set seen. length (succs c)) \<le> fuel \<Longrightarrow>
   \<exists>r. closure_loop succs fuel seen frontier = Some r"
proof (induction fuel arbitrary: seen frontier)
  case (Suc fuel)
  show ?case
  proof (cases "frontier = []")
    case False
    let ?c = "last frontier" and ?rest = "butlast frontier"
    have l: "length frontier = Suc (length ?rest)" using False by (simp add: Suc_leI)
    show ?thesis
    proof (cases "?c \<in> set seen")
      case True
      have "length ?rest + (\<Sum>c \<in> V - set seen. length (succs c)) \<le> fuel" using Suc.prems l by linarith
      from Suc.IH [OF this] True False show ?thesis by (simp add: Let_def)
    next
      case new: False
      have "length (succs ?c) + (\<Sum>c \<in> V - set (hs_insert ?c seen). length (succs c)) \<le>
          (\<Sum>c \<in> V - set seen. length (succs c))"
      proof (cases "?c \<in> V")
        case True
        have "V - set (hs_insert ?c seen) = (V - set seen) - {?c}" by auto
        with sum.remove [of "V - set seen" ?c "\<lambda>c. length (succs c)"] True new finite_nodes
        show ?thesis by auto
      next
        case False
        then have "V - set (hs_insert ?c seen) = V - set seen" by auto
        with False show ?thesis by (simp add: no_edges_outside)
      qed
      then have "length (?rest @ succs ?c) + (\<Sum>c \<in> V - set (hs_insert ?c seen). length (succs c)) \<le> fuel"
        unfolding length_append using Suc.prems l by linarith
      from Suc.IH [OF this] new False show ?thesis by (simp add: Let_def)
    qed
  qed simp
qed simp

end

text \<open>The traversal looks only at successors of nodes it reaches.\<close>

lemma closure_loop_cong:
  assumes "\<And>a. a \<in> R \<Longrightarrow> f a = g a" "\<And>a. a \<in> R \<Longrightarrow> set (f a) \<subseteq> R" "set frontier \<subseteq> R"
  shows "closure_loop f fuel seen frontier = closure_loop g fuel seen frontier"
  using assms(3)
proof (induction fuel arbitrary: seen frontier)
  case (Suc fuel)
  show ?case
  proof (cases "frontier = []")
    case False
    then have "last frontier \<in> R" "set (butlast frontier) \<subseteq> R"
      using Suc.prems last_butlast_set [OF False] by auto
    then show ?thesis
      using Suc.IH [of "butlast frontier @ f (last frontier)"] Suc.IH [of "butlast frontier"] assms(1,2)
      by (simp add: Let_def)
  qed simp
qed simp

lemma closure_loop_returns_closed:
  assumes "finite R" "\<And>a. a \<in> R \<Longrightarrow> set (succs a) \<subseteq> R" "set frontier \<subseteq> R"
    and "length frontier + (\<Sum>c \<in> R. length (succs c)) \<le> fuel"
  shows "\<exists>r. closure_loop succs fuel [] frontier = Some r"
proof -
  let ?g = "\<lambda>c. if c \<in> R then succs c else []"
  have "link_graph ?g R" using assms(1) by unfold_locales simp_all
  from link_graph.closure_loop_returns [OF this, of frontier "[]" fuel] assms(4)
  have "\<exists>r. closure_loop ?g fuel [] frontier = Some r" by simp
  moreover have "closure_loop succs fuel [] frontier = closure_loop ?g fuel [] frontier"
    by (rule closure_loop_cong [of R]) (use assms(2,3) in auto)
  ultimately show ?thesis by simp
qed

end
