(* ===== verification/Tiered_Store.thy ===== *)
theory Tiered_Store
  imports Knowledge_Node Worklist
begin

text \<open>
  The two-tier block store (\<open>ipfrs-knowledge/src/tiered.rs\<close>): a \<open>MemStore\<close> in front of a
  persistent backend, with the set of CIDs not persisted yet.

  The shared reference to the backend is the field \<open>ts_cold\<close>: nobody else uses the backend while
  \<open>flush\<close> or \<open>hydrate\<close> runs. \<open>hydrate\<close> is a worklist loop; the block links it follows form a
  \<open>link_graph\<close>, which bounds its fuel. Its vector is used as a stack, popped at the end.
\<close>

subsection \<open>The code\<close>

record ('k, 'c) TieredStore =
  ts_hot :: "'c MemStore"
  ts_dirty :: "'c list"
  ts_cold :: 'k

definition ts_new :: "'k \<Rightarrow> ('k, 'c) TieredStore" where
  "ts_new cold = \<lparr>ts_hot = ms_new, ts_dirty = [], ts_cold = cold\<rparr>"

definition dirty_len :: "('k, 'c) TieredStore \<Rightarrow> nat" where
  "dirty_len ts = length (ts_dirty ts)"

definition tiered_store :: "(('k, 'c) TieredStore, 'c) BlockStore" where
  "tiered_store =
     \<lparr>bs_put = (\<lambda>ts cid bytes. ts\<lparr>ts_dirty := hs_insert cid (ts_dirty ts),
                                   ts_hot := bs_put mem_store (ts_hot ts) cid bytes\<rparr>),
      bs_get = (\<lambda>ts cid. bs_get mem_store (ts_hot ts) cid),
      bs_len = (\<lambda>ts. bs_len mem_store (ts_hot ts))\<rparr>"

fun flush_loop ::
    "('k, 'c) BlockStoreTrait \<Rightarrow> ('k, 'c) TieredStore \<Rightarrow> 'c list \<Rightarrow> ('k, 'c) TieredStore \<times> (KError, unit) outcome" where
  "flush_loop K ts [] = (ts, Ok ())"
| "flush_loop K ts (cid # cids) =
     (case bs_get mem_store (ts_hot ts) cid of
        None \<Rightarrow> flush_loop K ts cids
      | Some bytes \<Rightarrow>
          let (cold, res) = ct_put K (ts_cold ts) (block_from_parts cid bytes) in
          sbind (ts\<lparr>ts_cold := cold\<rparr>, omap_err Core res) (\<lambda>ts _.
            flush_loop K (ts\<lparr>ts_dirty := hs_remove cid (ts_dirty ts)\<rparr>) cids))"

definition flush ::
    "('k, 'c) BlockStoreTrait \<Rightarrow> ('k, 'c) TieredStore \<Rightarrow> ('k, 'c) TieredStore \<times> (KError, unit) outcome" where
  "flush K ts = flush_loop K ts (ts_dirty ts)"

fun collect_links_filtered :: "'c Ipld \<Rightarrow> 'c list \<Rightarrow> bool \<Rightarrow> 'c list"
  and collect_links_filtered_list :: "'c Ipld list \<Rightarrow> 'c list \<Rightarrow> bool \<Rightarrow> 'c list"
  and collect_links_filtered_map :: "(string \<times> 'c Ipld) list \<Rightarrow> 'c list \<Rightarrow> bool \<Rightarrow> 'c list" where
  "collect_links_filtered (Link c) out skip_prev = out @ [c]"
| "collect_links_filtered (Map m) out skip_prev = collect_links_filtered_map m out skip_prev"
| "collect_links_filtered (List l) out skip_prev = collect_links_filtered_list l out skip_prev"
| "collect_links_filtered _ out skip_prev = out"
| "collect_links_filtered_list [] out skip_prev = out"
| "collect_links_filtered_list (i # is) out skip_prev =
     collect_links_filtered_list is (collect_links_filtered i out skip_prev) skip_prev"
| "collect_links_filtered_map [] out skip_prev = out"
| "collect_links_filtered_map ((k, v) # m) out skip_prev =
     (if skip_prev \<and> k = ''prev'' then collect_links_filtered_map m out skip_prev
      else collect_links_filtered_map m (collect_links_filtered v out skip_prev) skip_prev)"

definition collect_links_all :: "'c Ipld \<Rightarrow> 'c list \<Rightarrow> 'c list" where
  "collect_links_all ipld out = collect_links_filtered ipld out False"

text \<open>
  \<open>if let Ok(ipld) = Ipld::from_dag_cbor(bytes)\<close> with the links of the value pushed on the stack;
  a panic of the decoder is a panic here.
\<close>

definition push_links :: "'c cid_crate \<Rightarrow> bool \<Rightarrow> bytes \<Rightarrow> 'c list \<Rightarrow> (KError, 'c list) outcome" where
  "push_links E skip_prev bytes frontier =
     (case from_dag_cbor E bytes of
        Ok ipld \<Rightarrow> Ok (collect_links_filtered ipld frontier skip_prev)
      | Err _ \<Rightarrow> Ok frontier
      | Panic \<Rightarrow> Panic
      | Diverge \<Rightarrow> Diverge)"

fun hydrate_loop ::
    "'c cid_crate \<Rightarrow> ('k, 'c) BlockStoreTrait \<Rightarrow> nat \<Rightarrow> ('k, 'c) TieredStore \<Rightarrow> nat \<Rightarrow> 'c list \<Rightarrow> 'c list
       \<Rightarrow> ('k, 'c) TieredStore \<times> (KError, nat) outcome" where
  "hydrate_loop E K 0 ts fetched seen frontier = (ts, if frontier = [] then Ok fetched else Diverge)"
| "hydrate_loop E K (Suc fuel) ts fetched seen frontier =
     (if frontier = [] then (ts, Ok fetched)
      else let cid = last frontier; frontier = butlast frontier in
        if cid \<in> set seen \<or> bs_has mem_store (ts_hot ts) cid
        then hydrate_loop E K fuel ts fetched (hs_insert cid seen) frontier
        else sbind (ts, omap_err Core (ct_get K (ts_cold ts) cid)) (\<lambda>ts block.
          case block of
            None \<Rightarrow> hydrate_loop E K fuel ts fetched (hs_insert cid seen) frontier
          | Some b \<Rightarrow>
              sbind (ts, push_links E False (blk_data b) frontier) (\<lambda>ts frontier.
                hydrate_loop E K fuel
                  (ts\<lparr>ts_hot := bs_put mem_store (ts_hot ts) cid (blk_data b)\<rparr>) (fetched + 1)
                  (hs_insert cid seen) frontier)))"

definition hydrate ::
    "'c cid_crate \<Rightarrow> ('k, 'c) BlockStoreTrait \<Rightarrow> nat \<Rightarrow> ('k, 'c) TieredStore \<Rightarrow> 'c
       \<Rightarrow> ('k, 'c) TieredStore \<times> (KError, nat) outcome" where
  "hydrate E K fuel ts root = hydrate_loop E K fuel ts 0 [] [root]"

subsection \<open>The contract of a block store\<close>

definition ts_inv :: "('k, 'c) TieredStore \<Rightarrow> bool" where
  "ts_inv ts \<longleftrightarrow> ms_inv (ts_hot ts) \<and> distinct (ts_dirty ts) \<and> set (ts_dirty ts) \<subseteq> dom (bs_get mem_store (ts_hot ts))"

lemma tiered_get [simp]: "bs_get tiered_store ts c = bs_get mem_store (ts_hot ts) c"
  by (simp add: tiered_store_def)

interpretation tiered: block_store tiered_store ts_inv
  by unfold_locales
    (auto simp: tiered_store_def ts_inv_def mem.inv_put mem.get_put mem.len_put bs_has_def split: if_splits)

subsection \<open>Links of blocks\<close>

lemma collect_links_filtered_split:
  "\<And>a b. out = a @ b \<Longrightarrow> collect_links_filtered i out s = a @ collect_links_filtered i b s"
  "\<And>a b. out = a @ b \<Longrightarrow> collect_links_filtered_list l out s = a @ collect_links_filtered_list l b s"
  "\<And>a b. out = a @ b \<Longrightarrow> collect_links_filtered_map m out s = a @ collect_links_filtered_map m b s"
  by (induction i out s and l out s and m out s
      rule: collect_links_filtered_collect_links_filtered_list_collect_links_filtered_map.induct) simp_all

lemma collect_links_filtered_append:
  "collect_links_filtered i out s = out @ collect_links_filtered i [] s"
  by (rule collect_links_filtered_split) simp

definition block_links :: "'c cid_crate \<Rightarrow> bool \<Rightarrow> bytes \<Rightarrow> 'c list" where
  "block_links E skip_prev bs =
     (case from_dag_cbor E bs of Ok ipld \<Rightarrow> collect_links_filtered ipld [] skip_prev | _ \<Rightarrow> [])"

lemma push_links_eq_Ok:
  "push_links E skip bs frontier = Ok f \<Longrightarrow> f = frontier @ block_links E skip bs"
  by (auto simp: push_links_def block_links_def collect_links_filtered_append [of _ frontier]
      split: outcome.splits)

lemma push_links_Ok:
  "from_dag_cbor E bs \<noteq> Panic \<Longrightarrow> push_links E skip bs frontier = Ok (frontier @ block_links E skip bs)"
  using from_dag_cbor_not_Diverge [of E bs]
  by (auto simp: push_links_def block_links_def collect_links_filtered_append [of _ frontier]
      split: outcome.splits)

lemma push_links_not_Diverge [simp]: "push_links E skip bs frontier \<noteq> Diverge"
  using from_dag_cbor_not_Diverge [of E bs] by (auto simp: push_links_def split: outcome.splits)

definition store_links :: "'c cid_crate \<Rightarrow> bool \<Rightarrow> ('c \<rightharpoonup> bytes) \<Rightarrow> 'c \<Rightarrow> 'c list" where
  "store_links E skip_prev m c = (case m c of None \<Rightarrow> [] | Some bs \<Rightarrow> block_links E skip_prev bs)"

text \<open>A backend whose reads succeed and whose blocks do not make the decoder panic.\<close>

definition reads_ok :: "'c cid_crate \<Rightarrow> ('k, 'c) BlockStoreTrait \<Rightarrow> 'k \<Rightarrow> bool" where
  "reads_ok E K k \<longleftrightarrow>
     (\<forall>c. \<exists>ob. ct_get K k c = Ok ob \<and> (\<forall>b. ob = Some b \<longrightarrow> from_dag_cbor E (blk_data b) \<noteq> Panic))"

lemma link_graph_store: "finite (dom m) \<Longrightarrow> link_graph (store_links E skip m) (dom m)"
  by unfold_locales (auto simp: store_links_def split: option.splits)

text \<open>The links between the blocks of a memory backend, for any set of pins and either link filter.\<close>

interpretation mb_links: link_graph "store_links E skip (mb_content k)" "dom (mb_content k)" for E skip k
  by (rule link_graph_store) (simp add: mb_content_def [abs_def] dom_map_option_comp [unfolded comp_def] finite_dom_map_of)

subsection \<open>Flushing\<close>

text \<open>
  The invariant behind \<open>dirty\<close>: a block of the hot tier that is not marked dirty is in the backend.
\<close>

definition ts_synced :: "('k \<Rightarrow> 'c \<rightharpoonup> bytes) \<Rightarrow> ('k, 'c) TieredStore \<Rightarrow> bool" where
  "ts_synced content ts \<longleftrightarrow>
     (\<forall>c bs. bs_get mem_store (ts_hot ts) c = Some bs \<longrightarrow> c \<in> set (ts_dirty ts) \<or> content (ts_cold ts) c = Some bs)"

lemma ts_synced_put: "ts_inv ts \<Longrightarrow> ts_synced content ts \<Longrightarrow> ts_synced content (bs_put tiered_store ts c bs)"
  by (auto simp: ts_synced_def tiered_store_def mem.get_put ts_inv_def)

context cold_store
begin

lemma flush_loop_ok:
  assumes "kinv (ts_cold ts)" "ts_inv ts" "ts_synced content ts"
    and "flush_loop K ts cids = (ts', r)"
  shows "kinv (ts_cold ts')" "ts_inv ts'" "ts_synced content ts'" "ts_hot ts' = ts_hot ts"
    "set (ts_dirty ts') \<subseteq> set (ts_dirty ts)"
    "\<And>c. c \<notin> dom (bs_get mem_store (ts_hot ts)) \<Longrightarrow> content (ts_cold ts') c = content (ts_cold ts) c"
    "r = Ok () \<Longrightarrow> set (ts_dirty ts') = set (ts_dirty ts) - set cids"
proof -
  have "kinv (ts_cold ts') \<and> ts_inv ts' \<and> ts_synced content ts' \<and> ts_hot ts' = ts_hot ts \<and>
    set (ts_dirty ts') \<subseteq> set (ts_dirty ts) \<and>
    (\<forall>c. c \<notin> dom (bs_get mem_store (ts_hot ts)) \<longrightarrow> content (ts_cold ts') c = content (ts_cold ts) c) \<and>
    (r = Ok () \<longrightarrow> set (ts_dirty ts') = set (ts_dirty ts) - set cids)"
    using assms
  proof (induction cids arbitrary: ts)
    case (Cons cid cids)
    show ?case
    proof (cases "bs_get mem_store (ts_hot ts) cid")
      case None
      then have "cid \<notin> set (ts_dirty ts)" using Cons.prems(2) by (auto simp: ts_inv_def)
      with Cons.IH [OF Cons.prems(1-3)] Cons.prems(4) None show ?thesis by auto
    next
      case (Some bs)
      obtain k1 res where p: "ct_put K (ts_cold ts) (block_from_parts cid bs) = (k1, res)" by force
      have failed: ?thesis if "res \<noteq> Ok ()" "ts' = ts\<lparr>ts_cold := k1\<rparr>" "r \<noteq> Ok ()"
      proof -
        have "kinv k1" "content k1 = content (ts_cold ts)" using put_err [OF Cons.prems(1) p that(1)] by auto
        then show ?thesis using Cons.prems(2,3) that(2,3) unfolding ts_inv_def ts_synced_def by simp
      qed
      show ?thesis
      proof (cases res)
        case (Ok u)
        let ?t = "ts\<lparr>ts_cold := k1, ts_dirty := hs_remove cid (ts_dirty ts)\<rparr>"
        have k1: "kinv k1" "content k1 = (content (ts_cold ts))(cid \<mapsto> bs)"
          using put_ok [OF Cons.prems(1) p [unfolded Ok]] by (simp_all add: block_from_parts_def)
        have k: "kinv (ts_cold ?t)" using k1(1) by simp
        have i: "ts_inv ?t" using Cons.prems(2) by (auto simp: ts_inv_def)
        have s: "ts_synced content ?t"
          using Cons.prems(2,3) Some k1(2) by (auto simp: ts_synced_def ts_inv_def)
        have l: "flush_loop K ?t cids = (ts', r)" using Cons.prems(4) Some p Ok by simp
        have d: "set (ts_dirty ?t) = set (ts_dirty ts) - {cid}"
          using Cons.prems(2) by (simp add: ts_inv_def)
        have c: "content (ts_cold ?t) c = content (ts_cold ts) c"
          if "c \<notin> dom (bs_get mem_store (ts_hot ts))" for c
          using that k1(2) Some by auto
        have h: "ts_hot ?t = ts_hot ts" by simp
        show ?thesis using Cons.IH [OF k i s l] c unfolding d h by auto
      qed (rule failed; use Cons.prems(4) Some p in force)+
    qed
  qed auto
  then show "kinv (ts_cold ts')" "ts_inv ts'" "ts_synced content ts'" "ts_hot ts' = ts_hot ts"
    "set (ts_dirty ts') \<subseteq> set (ts_dirty ts)"
    "\<And>c. c \<notin> dom (bs_get mem_store (ts_hot ts)) \<Longrightarrow> content (ts_cold ts') c = content (ts_cold ts) c"
    "r = Ok () \<Longrightarrow> set (ts_dirty ts') = set (ts_dirty ts) - set cids" by blast+
qed

end

subsection \<open>Hydrating\<close>

text \<open>The links that \<open>hydrate\<close> follows: not those of blocks that were hot already.\<close>

definition hydrate_links :: "'c cid_crate \<Rightarrow> ('k \<Rightarrow> 'c \<rightharpoonup> bytes) \<Rightarrow> ('k, 'c) TieredStore \<Rightarrow> 'c \<Rightarrow> 'c list" where
  "hydrate_links E content ts c =
     (if bs_has mem_store (ts_hot ts) c then [] else store_links E False (content (ts_cold ts)) c)"

text \<open>
  \<open>hydrated content ts0 ts seen\<close>: the hot tier has gained the backend's blocks for the CIDs seen.
\<close>

definition hydrated :: "('k \<Rightarrow> 'c \<rightharpoonup> bytes) \<Rightarrow> ('k, 'c) TieredStore \<Rightarrow> ('k, 'c) TieredStore \<Rightarrow> 'c list \<Rightarrow> bool" where
  "hydrated content ts0 ts seen \<longleftrightarrow>
     ts_inv ts \<and> ts_cold ts = ts_cold ts0 \<and> ts_dirty ts = ts_dirty ts0 \<and>
     (\<forall>c. bs_get mem_store (ts_hot ts) c =
        (case bs_get mem_store (ts_hot ts0) c of
           Some bs \<Rightarrow> Some bs
         | None \<Rightarrow> if c \<in> set seen then content (ts_cold ts0) c else None))"

lemma hydrated_insert:
  assumes "hydrated content ts0 ts seen" "content (ts_cold ts0) c = None \<or> bs_has mem_store (ts_hot ts) c \<or> c \<in> set seen"
  shows "hydrated content ts0 ts (hs_insert c seen)"
proof -
  have "bs_get mem_store (ts_hot ts0) c = None \<Longrightarrow> c \<notin> set seen \<Longrightarrow> content (ts_cold ts0) c = None"
    using assms by (auto simp: hydrated_def bs_has_def)
  then show ?thesis using assms(1) by (auto simp: hydrated_def split: option.splits)
qed

lemma hydrated_put:
  assumes "hydrated content ts0 ts seen" "content (ts_cold ts0) c = Some bs" "\<not> bs_has mem_store (ts_hot ts) c"
  shows "hydrated content ts0 (ts\<lparr>ts_hot := bs_put mem_store (ts_hot ts) c bs\<rparr>) (hs_insert c seen)"
proof -
  have "bs_get mem_store (ts_hot ts0) c = None"
    using assms(1,3) by (cases "bs_get mem_store (ts_hot ts0) c") (auto simp: hydrated_def bs_has_def)
  then show ?thesis
    using assms by (auto simp: hydrated_def ts_inv_def mem.inv_put mem.get_put split: option.splits)
qed

context cold_store
begin

lemma hydrate_loop_follows:
  assumes "kinv (ts_cold ts0)" "hydrated content ts0 ts seen"
    and "hydrate_loop E K fuel ts n seen frontier = (ts', r)"
  shows "(\<forall>m. r = Ok m \<longrightarrow> (\<exists>seen'. closure_loop (hydrate_links E content ts0) fuel seen frontier = Some seen' \<and>
      hydrated content ts0 ts' seen')) \<and>
    (closure_loop (hydrate_links E content ts0) fuel seen frontier \<noteq> None \<longrightarrow> r \<noteq> Diverge) \<and>
    (\<exists>seen'. hydrated content ts0 ts' seen')"
  using assms(2,3)
proof (induction fuel arbitrary: ts n seen frontier)
  case 0
  then show ?case by (auto split: if_splits)
next
  case (Suc fuel)
  show ?case
  proof (cases "frontier = []")
    case True
    with Suc.prems show ?thesis by auto
  next
    case ne: False
    let ?c = "last frontier" and ?rest = "butlast frontier"
    let ?L = "hydrate_links E content ts0"
    have cold: "ts_cold ts = ts_cold ts0" using Suc.prems(1) by (simp add: hydrated_def)
    have skip: ?thesis if "hydrate_loop E K fuel ts n (hs_insert ?c seen) ?rest = (ts', r)"
      "content (ts_cold ts0) ?c = None \<or> bs_has mem_store (ts_hot ts) ?c \<or> ?c \<in> set seen"
    proof -
      have "?c \<notin> set seen \<Longrightarrow> ?L ?c = []"
        using that(2) Suc.prems(1)
        by (auto simp: hydrate_links_def store_links_def hydrated_def bs_has_def split: option.splits)
      moreover have "?c \<in> set seen \<Longrightarrow> hs_insert ?c seen = seen" by (simp add: hs_insert_def)
      ultimately have "closure_loop ?L (Suc fuel) seen frontier = closure_loop ?L fuel (hs_insert ?c seen) ?rest"
        using ne by (simp add: Let_def)
      then show ?thesis using Suc.IH [OF hydrated_insert [OF Suc.prems(1) that(2)] that(1)] by simp
    qed
    show ?thesis
    proof (cases "?c \<in> set seen \<or> bs_has mem_store (ts_hot ts) ?c")
      case True
      with Suc.prems(2) ne show ?thesis by (intro skip) (auto simp: Let_def)
    next
      case new: False
      show ?thesis
      proof (cases "ct_get K (ts_cold ts) ?c")
        case (Ok ob)
        then have ob: "ob = map_option (block_from_parts ?c) (content (ts_cold ts0) ?c)"
          using get_ok assms(1) cold by simp
        show ?thesis
        proof (cases "content (ts_cold ts0) ?c")
          case None
          with Ok ob Suc.prems(2) ne new show ?thesis by (intro skip) (auto simp: Let_def)
        next
          case (Some bs)
          let ?t = "ts\<lparr>ts_hot := bs_put mem_store (ts_hot ts) ?c bs\<rparr>"
          have h: "hydrated content ts0 ?t (hs_insert ?c seen)"
            using hydrated_put [OF Suc.prems(1) Some] new by simp
          have "\<not> bs_has mem_store (ts_hot ts0) ?c"
            using new Suc.prems(1) by (auto simp: hydrated_def bs_has_def split: option.splits)
          then have L: "?L ?c = block_links E False bs"
            using Some by (simp add: hydrate_links_def store_links_def)
          have loop: "(ts', r) = sbind (ts, push_links E False bs ?rest) (\<lambda>ts frontier.
              hydrate_loop E K fuel (ts\<lparr>ts_hot := bs_put mem_store (ts_hot ts) ?c bs\<rparr>) (n + 1)
                (hs_insert ?c seen) frontier)"
            using Suc.prems(2) ne new Ok ob Some by (simp add: Let_def block_from_parts_def)
          show ?thesis
          proof (cases "push_links E False bs ?rest")
            case (Ok f)
            then have "f = ?rest @ ?L ?c" using push_links_eq_Ok L by fastforce
            then have "hydrate_loop E K fuel ?t (n + 1) (hs_insert ?c seen) (?rest @ ?L ?c) = (ts', r)"
              using loop Ok by simp
            from Suc.IH [OF h this] new ne show ?thesis by (simp add: Let_def)
          qed (use loop Suc.prems(1) push_links_not_Diverge [of E False bs ?rest] in auto)
        qed
      qed (use Suc.prems ne new no_diverge(1) [of "ts_cold ts" ?c] in \<open>auto simp: Let_def\<close>)
    qed
  qed
qed

lemma hydrate_loop_no_error:
  assumes "reads_ok E K k" "ts_cold ts = k"
  shows "(\<exists>m. snd (hydrate_loop E K fuel ts n seen frontier) = Ok m) \<or>
    snd (hydrate_loop E K fuel ts n seen frontier) = Diverge"
  using assms(2)
proof (induction fuel arbitrary: ts n seen frontier)
  case (Suc fuel)
  from assms(1) obtain ob where ob: "ct_get K k (last frontier) = Ok ob"
    "\<And>b. ob = Some b \<Longrightarrow> from_dag_cbor E (blk_data b) \<noteq> Panic" by (auto simp: reads_ok_def)
  show ?case
    using Suc.IH Suc.prems ob
    by (cases ob) (simp_all add: Let_def push_links_Ok)
qed simp

lemma hydrate_correct:
  assumes "kinv (ts_cold ts)" "ts_inv ts" "reads_ok E K (ts_cold ts)"
    and "1 + (\<Sum>c \<in> dom (content (ts_cold ts)). length (hydrate_links E content ts c)) \<le> fuel"
  shows "\<exists>ts' n. hydrate E K fuel ts root = (ts', Ok n) \<and> ts_inv ts' \<and>
    ts_cold ts' = ts_cold ts \<and> ts_dirty ts' = ts_dirty ts \<and>
    (\<forall>c. bs_get mem_store (ts_hot ts') c =
       (case bs_get mem_store (ts_hot ts) c of
          Some bs \<Rightarrow> Some bs
        | None \<Rightarrow> if c \<in> reach (hydrate_links E content ts) {root} then content (ts_cold ts) c else None))"
proof -
  let ?L = "hydrate_links E content ts"
  obtain ts' r where run: "hydrate_loop E K fuel ts 0 [] [root] = (ts', r)" by force
  have h: "hydrated content ts ts []" using assms(2) by (simp add: hydrated_def split: option.split)
  note follow = hydrate_loop_follows [OF assms(1) h run]
  have "link_graph ?L (dom (content (ts_cold ts)))"
    using finite_content [OF assms(1)]
    by unfold_locales (auto simp: hydrate_links_def store_links_def split: option.splits)
  from link_graph.closure_loop_returns [OF this, of "[root]" "[]" fuel] assms(4) obtain seen where
    seen: "closure_loop ?L fuel [] [root] = Some seen" by auto
  with follow hydrate_loop_no_error [OF assms(3) refl, of fuel 0 "[]" "[root]"] run obtain m where
    m: "r = Ok m" by auto
  with follow seen have "hydrated content ts ts' seen" by auto
  moreover have "set seen = reach ?L {root}" using closure_loop_correct [OF seen] by simp
  ultimately show ?thesis
    using run m by (intro exI [of _ ts'] exI [of _ m]) (simp add: hydrate_def hydrated_def)
qed

lemma flush_correct:
  assumes "kinv (ts_cold ts)" "ts_inv ts" "ts_synced content ts" "flush K ts = (ts', r)"
  shows "ts_inv ts' \<and> kinv (ts_cold ts') \<and> ts_hot ts' = ts_hot ts \<and> ts_synced content ts' \<and>
    (r = Ok () \<longrightarrow> dirty_len ts' = 0 \<and>
       (\<forall>c. content (ts_cold ts') c =
          (case bs_get mem_store (ts_hot ts) c of Some bs \<Rightarrow> Some bs | None \<Rightarrow> content (ts_cold ts) c)))"
proof -
  note f = flush_loop_ok [OF assms(1-3) assms(4) [unfolded flush_def]]
  have c: "content (ts_cold ts') c =
      (case bs_get mem_store (ts_hot ts) c of Some bs \<Rightarrow> Some bs | None \<Rightarrow> content (ts_cold ts) c)"
    if "r = Ok ()" for c
  proof (cases "bs_get mem_store (ts_hot ts) c")
    case None
    then show ?thesis using f(6) [of c] by (auto simp: dom_def)
  next
    case (Some bs)
    then show ?thesis using f(3,4) f(7) [OF that] by (simp add: ts_synced_def)
  qed
  then show ?thesis using f by (auto simp: dirty_len_def)
qed

end

subsection \<open>Properties\<close>

text \<open>
  (C5) Flushing never loses a write. Whatever happens, an error of the backend half-way
  included, the hot tier is untouched and every block in it that is no longer marked dirty is in
  the backend. A flush that succeeds leaves nothing dirty and the backend holding every hot block.
\<close>

theorem flush_persists:
  assumes "cold_store K content kinv" "kinv (ts_cold ts)" "ts_inv ts" "ts_synced content ts"
    and "flush K ts = (ts', r)"
  shows "ts_inv ts' \<and> kinv (ts_cold ts') \<and> ts_hot ts' = ts_hot ts \<and> ts_synced content ts' \<and>
    (r = Ok () \<longrightarrow> dirty_len ts' = 0 \<and>
       (\<forall>c. content (ts_cold ts') c =
          (case bs_get mem_store (ts_hot ts) c of Some bs \<Rightarrow> Some bs | None \<Rightarrow> content (ts_cold ts) c)))"
  by (rule cold_store.flush_correct [OF assms])

text \<open>A tiered store over a memory backend with one dirty block.\<close>

definition ts_example :: "(nat MemoryBlockStore, nat) TieredStore" where
  "ts_example = bs_put tiered_store (ts_new mb_new) 5 [1, 2]"

lemma ts_example_ok:
  "mb_inv (ts_cold ts_example)" "ts_inv ts_example" "ts_synced mb_content ts_example"
  by (simp_all add: ts_example_def ts_new_def tiered_store_def mb_inv_def mb_new_def hm_ok_def
      ts_inv_def ms_new_def ms_inv_def mem_store_def ts_synced_def hs_insert_def hm_insert_def)

theorem flush_persists_witness:
  "\<exists>ts'. flush memory_block_store ts_example = (ts', Ok ()) \<and> dirty_len ts' = 0 \<and>
    mb_content (ts_cold ts') 5 = Some [1, 2]"
proof -
  obtain ts' where f: "flush memory_block_store ts_example = (ts', Ok ())"
    by (simp add: flush_def ts_example_def ts_new_def tiered_store_def mem_store_def ms_new_def
        hm_insert_def hs_insert_def memory_block_store_def mb_new_def)
  from flush_persists [OF mb.cold_store_axioms ts_example_ok f]
  have "dirty_len ts' = 0" "mb_content (ts_cold ts') 5 = Some [1, 2]"
    by (simp_all add: ts_example_def ts_new_def tiered_store_def mem_store_def ms_new_def hm_insert_def)
  with f show ?thesis by blast
qed

text \<open>
  (C7) Hydrating pulls exactly what is reachable. If reads succeed, \<open>hydrate\<close> returns, the hot
  tier keeps its blocks and gains precisely the backend's blocks that links lead to from the root
  without passing through a block that was hot before; backend and dirty set are unchanged.
\<close>

theorem hydrate_pulls_reachable:
  assumes "cold_store K content kinv" "kinv (ts_cold ts)" "ts_inv ts" "reads_ok E K (ts_cold ts)"
    and "1 + (\<Sum>c \<in> dom (content (ts_cold ts)). length (hydrate_links E content ts c)) \<le> fuel"
  shows "\<exists>ts' n. hydrate E K fuel ts root = (ts', Ok n) \<and> ts_inv ts' \<and>
    ts_cold ts' = ts_cold ts \<and> ts_dirty ts' = ts_dirty ts \<and>
    (\<forall>c. bs_get mem_store (ts_hot ts') c =
       (case bs_get mem_store (ts_hot ts) c of
          Some bs \<Rightarrow> Some bs
        | None \<Rightarrow> if c \<in> reach (hydrate_links E content ts) {root} then content (ts_cold ts) c else None))"
  by (rule cold_store.hydrate_correct [OF assms])

text \<open>A backend with two blocks, the first linking to the second.\<close>

definition mb_example :: "(u64 + u64 \<times> u64) MemoryBlockStore" where
  "mb_example =
     \<lparr>mb_blocks = [(Inl 1, block_from_parts (Inl 1) (encode_dag_cbor crate64 (List [Link (Inl 2)]))),
                   (Inl 2, block_from_parts (Inl 2) (encode_dag_cbor crate64 Null))]\<rparr>"

lemma mb_example_content:
  "mb_content mb_example c = (if c = Inl 1 then Some (encode_dag_cbor crate64 (List [Link (Inl 2)]))
     else if c = Inl 2 then Some (encode_dag_cbor crate64 Null) else None)"
  by (simp add: mb_content_def mb_example_def block_from_parts_def)

lemma mb_example_decodes:
  "from_dag_cbor crate64 (encode_dag_cbor crate64 (List [Link (Inl 2)])) = Ok (List [Link (Inl 2)])"
  "from_dag_cbor crate64 (encode_dag_cbor crate64 Null) = Ok Null"
proof -
  have "ipld_ok crate64 (List [Link (Inl 2)])"
    using ipld_ok_Link [OF cid_laws_crate64 cid_bytes_bounded_crate64, of "Inl 2"]
    by (simp add: crate64_def isize_max_def)
  from from_dag_cbor_encode [OF this, of "[]"]
  show "from_dag_cbor crate64 (encode_dag_cbor crate64 (List [Link (Inl 2)])) = Ok (List [Link (Inl 2)])"
    by simp
  show "from_dag_cbor crate64 (encode_dag_cbor crate64 Null) = Ok Null"
    using from_dag_cbor_encode [of crate64 Null "[]"] by simp
qed

lemma mb_example_ok:
  "mb_inv mb_example" "reads_ok crate64 memory_block_store mb_example"
  "block_links crate64 skip (encode_dag_cbor crate64 (List [Link (Inl 2)])) = [Inl 2]"
  "block_links crate64 skip (encode_dag_cbor crate64 Null) = []"
proof -
  show "mb_inv mb_example" by (simp add: mb_example_def mb_inv_def hm_ok_def block_from_parts_def)
  show "reads_ok crate64 memory_block_store mb_example"
    by (auto simp: reads_ok_def memory_block_store_def mb_example_def block_from_parts_def
        mb_example_decodes simp del: encode_dag_cbor.simps)
qed (simp_all only: block_links_def mb_example_decodes, simp_all)

theorem hydrate_pulls_reachable_witness:
  "\<exists>ts' n. hydrate crate64 memory_block_store 2 (ts_new mb_example) (Inl 1) = (ts', Ok n) \<and>
    bs_get mem_store (ts_hot ts') (Inl 2) = Some (encode_dag_cbor crate64 Null)"
proof -
  let ?t = "ts_new mb_example :: (_, u64 + u64 \<times> u64) TieredStore"
  let ?L = "hydrate_links crate64 mb_content ?t"
  have L: "?L (Inl 1) = [Inl 2]" "?L (Inl 2) = []"
    by (simp_all add: hydrate_links_def ts_new_def store_links_def mb_example_content mb_example_ok
        bs_has_def mem_store_def ms_new_def del: encode_dag_cbor.simps)
  have "dom (mb_content mb_example) = {Inl 1, Inl 2}"
    by (auto simp: dom_def mb_example_content simp del: encode_dag_cbor.simps split: if_splits)
  then have fuel: "1 + (\<Sum>c \<in> dom (mb_content (ts_cold ?t)). length (?L c)) \<le> 2"
    by (simp add: L [unfolded ts_new_def] ts_new_def)
  have cold: "mb_inv (ts_cold ?t)" "reads_ok crate64 memory_block_store (ts_cold ?t)"
    using mb_example_ok(1,2) by (simp_all add: ts_new_def)
  have hot: "bs_get mem_store (ts_hot ?t) c = None" for c
    by (simp add: ts_new_def mem_store_def ms_new_def)
  have "ts_inv ?t"
    by (simp add: ts_inv_def ts_new_def ms_inv_def ms_new_def hm_ok_def)
  then obtain ts' n where h: "hydrate crate64 memory_block_store 2 ?t (Inl 1) = (ts', Ok n)"
    and g0: "\<forall>c. bs_get mem_store (ts_hot ts') c =
      (case bs_get mem_store (ts_hot ?t) c of Some bs \<Rightarrow> Some bs
       | None \<Rightarrow> if c \<in> reach ?L {Inl 1} then mb_content (ts_cold ?t) c else None)"
    using hydrate_pulls_reachable [OF mb.cold_store_axioms cold(1) _ cold(2) fuel, of "Inl 1"] by blast
  have c: "ts_cold ?t = mb_example" by (simp add: ts_new_def)
  have g: "bs_get mem_store (ts_hot ts') (Inl 2) =
      (if Inl 2 \<in> reach ?L {Inl 1} then mb_content mb_example (Inl 2) else None)"
    using g0 [rule_format, of "Inl 2"] unfolding hot c by (simp only: option.case)
  have "Inl 2 \<in> reach ?L {Inl 1}" by (rule reach_step [OF reach_base [of "Inl 1"]]) (simp_all only: L, simp_all)
  with h g show ?thesis by (simp add: mb_example_content del: encode_dag_cbor.simps)
qed

end
