(* ===== verification/Knowledge_Graph.thy ===== *)
theory Knowledge_Graph
  imports Vector_Index Tiered_Store
begin

text \<open>
  The knowledge graph (\<open>ipfrs-knowledge/src/graph.rs\<close>) over an arbitrary block store: entities and
  relation lists in two tries, a vector index kept in step, and heads chained by \<open>prev\<close>; and
  \<open>index_graph\<close> of \<open>vector.rs\<close>.

  A method with \<open>&mut self\<close> takes the graph and returns it with the result, on errors too, so what a
  failing call has already done is visible. The bridge to the crate \<open>petgraph\<close> is not modelled.
\<close>

subsection \<open>The code\<close>

record EntitySpec =
  es_kind :: string
  es_name :: string
  es_aliases :: "string list"
  es_attrs :: "(string \<times> string) list"

record ('s, 'c) KnowledgeGraph =
  kg_store :: 's
  kg_index :: 'c
  kg_edges :: 'c
  kg_prev :: "'c option"
  kg_vindex :: "'c VectorIndex"

definition kg_new :: "'c cid_crate \<Rightarrow> ('s, 'c) BlockStore \<Rightarrow> 's \<Rightarrow> (KError, ('s, 'c) KnowledgeGraph) outcome" where
  "kg_new E S store =
     snd (sbind (hamt_empty E S store) (\<lambda>store index.
       sbind (hamt_empty E S store) (\<lambda>store edges.
         (store, Ok \<lparr>kg_store = store, kg_index = index, kg_edges = edges, kg_prev = None,
                     kg_vindex = vi_new DEFAULT_DIM\<rparr>))))"

definition head_link :: "'c ipld_map \<Rightarrow> string \<Rightarrow> (KError, 'c) outcome" where
  "head_link m k = ok_or (Decode (''head missing '' @ k)) (Option.bind (bt_get m k) as_link)"

definition kg_open ::
    "'c cid_crate \<Rightarrow> ('s, 'c) BlockStore \<Rightarrow> 's \<Rightarrow> 'c \<Rightarrow> (KError, ('s, 'c) KnowledgeGraph) outcome" where
  "kg_open E S store head =
     obind (ok_or (NotFound ''head'') (bs_get S store head)) (\<lambda>bytes.
       obind (omap_err Core (from_dag_cbor E bytes)) (\<lambda>ipld.
         case ipld of
           Map m \<Rightarrow>
             obind (head_link m ''index'') (\<lambda>index.
               obind (head_link m ''edges'') (\<lambda>edges.
                 obind (case Option.bind (bt_get m ''vindex'') as_link of
                          Some vc \<Rightarrow>
                            obind (ok_or (NotFound ''vindex'') (bs_get S store vc)) (vi_decode E)
                        | None \<Rightarrow> Ok (vi_new DEFAULT_DIM)) (\<lambda>vindex.
                   Ok \<lparr>kg_store = store, kg_index = index, kg_edges = edges, kg_prev = Some head,
                       kg_vindex = vindex\<rparr>)))
         | _ \<Rightarrow> Err (Decode ''head not a map'')))"

type_synonym ('s, 'c, 'a) kg_result = "('s, 'c) KnowledgeGraph \<times> (KError, 'a) outcome"

definition put_node ::
    "'c cid_crate \<Rightarrow> ('s, 'c) BlockStore \<Rightarrow> ('s, 'c) KnowledgeGraph \<Rightarrow> 'c KnowledgeNode \<Rightarrow> ('s, 'c, 'c) kg_result" where
  "put_node E S kg node =
     sbind (kg, node_encode E node) (\<lambda>kg (cid, bytes).
       (kg\<lparr>kg_store := bs_put S (kg_store kg) cid bytes\<rparr>, Ok cid))"

definition get_node ::
    "'c cid_crate \<Rightarrow> ('s, 'c) BlockStore \<Rightarrow> ('s, 'c) KnowledgeGraph \<Rightarrow> 'c \<Rightarrow> (KError, 'c KnowledgeNode) outcome" where
  "get_node E S kg cid =
     obind (ok_or (NotFound ''node'') (bs_get S (kg_store kg) cid)) (node_decode E)"

definition entity_cid ::
    "'c cid_crate \<Rightarrow> ('s, 'c) BlockStore \<Rightarrow> ('s, 'c) KnowledgeGraph \<Rightarrow> EntityId \<Rightarrow> (KError, 'c option) outcome" where
  "entity_cid E S kg i = hamt_get E S (kg_store kg) (kg_index kg) i"

definition get_entity ::
    "'c cid_crate \<Rightarrow> ('s, 'c) BlockStore \<Rightarrow> ('s, 'c) KnowledgeGraph \<Rightarrow> EntityId
       \<Rightarrow> (KError, 'c KnowledgeNode option) outcome" where
  "get_entity E S kg i =
     obind (entity_cid E S kg i) (\<lambda>oc.
       case oc of Some cid \<Rightarrow> obind (get_node E S kg cid) (\<lambda>n. Ok (Some n)) | None \<Rightarrow> Ok None)"

text \<open>The graph with the result of an operation on its store.\<close>

definition on_store :: "('s, 'c) KnowledgeGraph \<Rightarrow> 's \<times> (KError, 'a) outcome \<Rightarrow> ('s, 'c, 'a) kg_result" where
  "on_store kg x = (kg\<lparr>kg_store := fst x\<rparr>, snd x)"

definition upsert_text ::
    "digest_lib \<Rightarrow> f32_arith \<Rightarrow> ('s, 'c) KnowledgeGraph \<Rightarrow> 'c \<Rightarrow> string \<Rightarrow> ('s, 'c, unit) kg_result" where
  "upsert_text D A kg cid text =
     sbind (kg, embed D A text (vi_dim (kg_vindex kg))) (\<lambda>kg e.
       (kg\<lparr>kg_vindex := vi_upsert (kg_vindex kg) cid e\<rparr>, Ok ()))"

definition add_entity ::
    "'c cid_crate \<Rightarrow> digest_lib \<Rightarrow> f32_arith \<Rightarrow> ('s, 'c) BlockStore \<Rightarrow> ('s, 'c) KnowledgeGraph \<Rightarrow> EntitySpec
       \<Rightarrow> ('s, 'c, EntityId) kg_result" where
  "add_entity E D A S kg spec =
     (let i = EntityId_of D (es_kind spec) (es_name spec) in
      sbind (kg, entity_cid E S kg i) (\<lambda>kg previous.
        let node = Entity i (es_kind spec) (es_name spec) (es_aliases spec) (es_attrs spec) [] in
        sbind (put_node E S kg node) (\<lambda>kg cid.
          sbind (on_store kg (hamt_insert E S (kg_store kg) (kg_index kg) i cid)) (\<lambda>kg index.
            let kg = kg\<lparr>kg_index := index\<rparr>;
                kg = (case previous of Some old \<Rightarrow> kg\<lparr>kg_vindex := vi_remove (kg_vindex kg) old\<rparr> | None \<Rightarrow> kg)
            in sbind (case node_text node of Some text \<Rightarrow> upsert_text D A kg cid text | None \<Rightarrow> (kg, Ok ()))
                 (\<lambda>kg _. (kg, Ok i))))))"

definition relation_cids ::
    "'c cid_crate \<Rightarrow> ('s, 'c) BlockStore \<Rightarrow> ('s, 'c) KnowledgeGraph \<Rightarrow> EntityId \<Rightarrow> (KError, 'c list) outcome" where
  "relation_cids E S kg i =
     obind (hamt_get E S (kg_store kg) (kg_edges kg) i) (\<lambda>oc.
       case oc of
         None \<Rightarrow> Ok []
       | Some list_cid \<Rightarrow>
           obind (ok_or (NotFound ''rel list'') (bs_get S (kg_store kg) list_cid)) (\<lambda>bytes.
             obind (omap_err Core (from_dag_cbor E bytes)) (\<lambda>ipld.
               case ipld of List l \<Rightarrow> Ok (List.map_filter as_link l)
               | _ \<Rightarrow> Err (Decode ''rel list not a list''))))"

definition relations_of ::
    "'c cid_crate \<Rightarrow> ('s, 'c) BlockStore \<Rightarrow> ('s, 'c) KnowledgeGraph \<Rightarrow> EntityId
       \<Rightarrow> (KError, ('c \<times> 'c KnowledgeNode) list) outcome" where
  "relations_of E S kg i =
     obind (relation_cids E S kg i) (omap_list (\<lambda>c. obind (get_node E S kg c) (\<lambda>n. Ok (c, n))))"

text \<open>The text of an evidence's source block, if the CID names an evidence and there is any.\<close>

definition evidence_text ::
    "'c cid_crate \<Rightarrow> ('s, 'c) BlockStore \<Rightarrow> ('s, 'c) KnowledgeGraph \<Rightarrow> 'c \<Rightarrow> (KError, string option) outcome" where
  "evidence_text E S kg ev =
     (case get_node E S kg ev of
        Ok (Evidence source _ _ _) \<Rightarrow>
          (case bs_get S (kg_store kg) source of None \<Rightarrow> Ok None | Some bytes \<Rightarrow> block_text E bytes)
      | Panic \<Rightarrow> Panic | Diverge \<Rightarrow> Diverge
      | _ \<Rightarrow> Ok None)"

fun embed_evidence ::
    "'c cid_crate \<Rightarrow> digest_lib \<Rightarrow> f32_arith \<Rightarrow> ('s, 'c) BlockStore \<Rightarrow> ('s, 'c) KnowledgeGraph \<Rightarrow> 'c list
       \<Rightarrow> ('s, 'c, unit) kg_result" where
  "embed_evidence E D A S kg [] = (kg, Ok ())"
| "embed_evidence E D A S kg (ev # evs) =
     sbind (kg, evidence_text E S kg ev) (\<lambda>kg t.
       case t of
         None \<Rightarrow> embed_evidence E D A S kg evs
       | Some text \<Rightarrow> sbind (upsert_text D A kg ev text) (\<lambda>kg _. embed_evidence E D A S kg evs))"

definition put_rel_list ::
    "'c cid_crate \<Rightarrow> ('s, 'c) BlockStore \<Rightarrow> ('s, 'c) KnowledgeGraph \<Rightarrow> 'c list \<Rightarrow> ('s, 'c, 'c) kg_result" where
  "put_rel_list E S kg l =
     sbind (kg, omap_err Core (to_dag_cbor E (List (map link l)))) (\<lambda>kg bytes.
       sbind (kg, omap_err Core (cb_build_dag_cbor E cb_new bytes)) (\<lambda>kg cid.
         (kg\<lparr>kg_store := bs_put S (kg_store kg) cid bytes\<rparr>, Ok cid)))"

definition add_relation ::
    "'c cid_crate \<Rightarrow> digest_lib \<Rightarrow> f32_arith \<Rightarrow> ('s, 'c) BlockStore \<Rightarrow> ('s, 'c) KnowledgeGraph
       \<Rightarrow> EntityId \<Rightarrow> string \<Rightarrow> EntityId \<Rightarrow> u32 \<Rightarrow> 'c list \<Rightarrow> ('s, 'c, 'c) kg_result" where
  "add_relation E D A S kg subject predicate object weight evidence =
     sbind (kg, obind (entity_cid E S kg subject) (ok_or (Graph ''subject entity not found''))) (\<lambda>kg subj_cid.
       sbind (kg, obind (entity_cid E S kg object) (ok_or (Graph ''object entity not found''))) (\<lambda>kg obj_cid.
         sbind (embed_evidence E D A S kg evidence) (\<lambda>kg _.
           sbind (put_node E S kg (Relation subj_cid predicate obj_cid evidence weight)) (\<lambda>kg rel_cid.
             sbind (kg, relation_cids E S kg subject) (\<lambda>kg l.
               sbind (put_rel_list E S kg (l @ [rel_cid])) (\<lambda>kg list_cid.
                 sbind (on_store kg (hamt_insert E S (kg_store kg) (kg_edges kg) subject list_cid)) (\<lambda>kg edges.
                   (kg\<lparr>kg_edges := edges\<rparr>, Ok rel_cid))))))))"

definition kg_search ::
    "digest_lib \<Rightarrow> f32_arith \<Rightarrow> ('s, 'c) KnowledgeGraph \<Rightarrow> string \<Rightarrow> nat \<Rightarrow> (KError, ('c \<times> u32) list) outcome" where
  "kg_search D A kg query k = vi_search_text D A (kg_vindex kg) query k"

definition entity_ids ::
    "'c cid_crate \<Rightarrow> ('s, 'c) BlockStore \<Rightarrow> nat \<Rightarrow> ('s, 'c) KnowledgeGraph \<Rightarrow> (KError, EntityId list) outcome" where
  "entity_ids E S fuel kg =
     obind (hamt_entries E S (kg_store kg) fuel (kg_index kg)) (\<lambda>es. Ok (map fst es))"

definition head_ipld :: "('s, 'c) KnowledgeGraph \<Rightarrow> 'c \<Rightarrow> 'c Ipld" where
  "head_ipld kg vcid =
     Map (bt_collect
       ([(''@type'', String ''KnowledgeRoot''), (''version'', Integer 1), (''index'', link (kg_index kg)),
         (''edges'', link (kg_edges kg)), (''vindex'', link vcid)] @
        (case kg_prev kg of Some p \<Rightarrow> [(''prev'', link p)] | None \<Rightarrow> [])))"

definition commit ::
    "'c cid_crate \<Rightarrow> ('s, 'c) BlockStore \<Rightarrow> ('s, 'c) KnowledgeGraph \<Rightarrow> ('s, 'c, 'c) kg_result" where
  "commit E S kg =
     sbind (on_store kg (vi_store E S (kg_store kg) (kg_vindex kg))) (\<lambda>kg vcid.
       sbind (kg, omap_err Core (to_dag_cbor E (head_ipld kg vcid))) (\<lambda>kg bytes.
         sbind (kg, omap_err Core (cb_build_dag_cbor E cb_new bytes)) (\<lambda>kg cid.
           (kg\<lparr>kg_store := bs_put S (kg_store kg) cid bytes, kg_prev := Some cid\<rparr>, Ok cid))))"

text \<open>\<open>index_graph\<close>: the loops over entities, their relations and the evidence of each.\<close>

fun index_evidence ::
    "'c cid_crate \<Rightarrow> digest_lib \<Rightarrow> f32_arith \<Rightarrow> ('s, 'c) BlockStore \<Rightarrow> ('s, 'c) KnowledgeGraph \<Rightarrow> 'c list
       \<Rightarrow> 'c VectorIndex \<times> 'c list \<Rightarrow> (KError, 'c VectorIndex \<times> 'c list) outcome" where
  "index_evidence E D A S kg [] st = Ok st"
| "index_evidence E D A S kg (ev # evs) (ix, seen) =
     (if ev \<in> set seen then index_evidence E D A S kg evs (ix, seen)
      else obind (evidence_text E S kg ev) (\<lambda>t.
        obind (case t of None \<Rightarrow> Ok ix | Some text \<Rightarrow> vi_add_text D A ix ev text) (\<lambda>ix.
          index_evidence E D A S kg evs (ix, hs_insert ev seen))))"

fun index_relations ::
    "'c cid_crate \<Rightarrow> digest_lib \<Rightarrow> f32_arith \<Rightarrow> ('s, 'c) BlockStore \<Rightarrow> ('s, 'c) KnowledgeGraph
       \<Rightarrow> ('c \<times> 'c KnowledgeNode) list \<Rightarrow> 'c VectorIndex \<times> 'c list
       \<Rightarrow> (KError, 'c VectorIndex \<times> 'c list) outcome" where
  "index_relations E D A S kg [] st = Ok st"
| "index_relations E D A S kg (r # rs) st =
     obind (case snd r of Relation _ _ _ evidence _ \<Rightarrow> index_evidence E D A S kg evidence st | _ \<Rightarrow> Ok st)
       (index_relations E D A S kg rs)"

fun index_entities ::
    "'c cid_crate \<Rightarrow> digest_lib \<Rightarrow> f32_arith \<Rightarrow> ('s, 'c) BlockStore \<Rightarrow> ('s, 'c) KnowledgeGraph
       \<Rightarrow> EntityId list \<Rightarrow> 'c VectorIndex \<times> 'c list \<Rightarrow> (KError, 'c VectorIndex \<times> 'c list) outcome" where
  "index_entities E D A S kg [] st = Ok st"
| "index_entities E D A S kg (i # is) (ix, seen) =
     obind (get_entity E S kg i) (\<lambda>on.
       obind (case Option.bind on node_text of
                None \<Rightarrow> Ok ix
              | Some text \<Rightarrow>
                  obind (entity_cid E S kg i) (\<lambda>oc.
                    case oc of None \<Rightarrow> Panic | Some cid \<Rightarrow> vi_add_text D A ix cid text)) (\<lambda>ix.
         obind (relations_of E S kg i) (\<lambda>rels.
           obind (index_relations E D A S kg rels (ix, seen)) (index_entities E D A S kg is))))"

definition index_graph ::
    "'c cid_crate \<Rightarrow> digest_lib \<Rightarrow> f32_arith \<Rightarrow> ('s, 'c) BlockStore \<Rightarrow> nat \<Rightarrow> ('s, 'c) KnowledgeGraph \<Rightarrow> nat
       \<Rightarrow> (KError, 'c VectorIndex) outcome" where
  "index_graph E D A S fuel kg dim =
     obind (entity_ids E S fuel kg) (\<lambda>ids.
       obind (index_entities E D A S kg ids (vi_new dim, [])) (\<lambda>(ix, seen). Ok ix))"

subsection \<open>The abstract graph\<close>

text \<open>
  The blocks behind a graph: two tries, whose bindings are the entities and the CIDs of relation
  rels, and the blocks of these rels. \<open>rels\<close> is what the relation rels hold.
\<close>

abbreviation node_block :: "'c cid_crate \<Rightarrow> 'c KnowledgeNode \<Rightarrow> bytes" where
  "node_block E n \<equiv> encode_dag_cbor E (node_to_ipld n)"

abbreviation list_block :: "'c cid_crate \<Rightarrow> 'c list \<Rightarrow> bytes" where
  "list_block E cids \<equiv> encode_dag_cbor E (node_links cids)"

definition kg_rep ::
    "'c cid_crate \<Rightarrow> ('s, 'c) BlockStore \<Rightarrow> ('s \<Rightarrow> bool) \<Rightarrow> ('s, 'c) KnowledgeGraph
       \<Rightarrow> 'c tslot list \<Rightarrow> 'c tslot list \<Rightarrow> (EntityId \<Rightarrow> 'c list) \<Rightarrow> bytes set \<Rightarrow> bool" where
  "kg_rep E S sinv kg ti te rels B \<longleftrightarrow>
     sinv (kg_store kg) \<and> holds S E (kg_store kg) B \<and>
     twf [] ti \<and> twf [] te \<and> kg_index kg = tcid E ti \<and> kg_edges kg = tcid E te \<and>
     tblocks E ti \<union> tblocks E te \<subseteq> B \<and>
     1 \<le> vi_dim (kg_vindex kg) \<and> vi_dim (kg_vindex kg) \<le> 65536 \<and> vi_inv (kg_vindex kg) \<and>
     (\<forall>k. length k = 32 \<longrightarrow>
        tget te k 0 = (if rels k = [] then None else Some (dag_cbor_cid E (list_block E (rels k)))) \<and>
        seq_ok E (rels k) \<and> (rels k \<noteq> [] \<longrightarrow> list_block E (rels k) \<in> B))"

lemma list_block_decodes:
  assumes "cid_env E" "seq_ok E cids"
  shows "from_dag_cbor E (list_block E cids) = Ok (node_links cids)"
  using from_dag_cbor_encode [OF ipld_ok_links [OF assms], of "[]"] by simp

lemma map_filter_links: "List.map_filter as_link (map link cids) = cids"
  by (induction cids) (simp_all add: List.map_filter_simps as_link_def link_def)

lemma relation_cids_rep:
  assumes "cid_env E" "kg_rep E S sinv kg ti te rels B" "length k = 32"
  shows "relation_cids E S kg k = Ok (rels k)"
proof -
  have r: "holds S E (kg_store kg) B" "twf [] te" "kg_edges kg = tcid E te" "tblocks E te \<subseteq> B"
    "tget te k 0 = (if rels k = [] then None else Some (dag_cbor_cid E (list_block E (rels k))))"
    "seq_ok E (rels k)" "rels k \<noteq> [] \<Longrightarrow> list_block E (rels k) \<in> B"
    using assms(2,3) by (auto simp: kg_rep_def)
  have "hamt_get E S (kg_store kg) (kg_edges kg) k = Ok (tget te k 0)"
    unfolding r(3) by (rule get_refines [OF assms(1) r(1,2,4)])
  then show ?thesis
    using r(5) list_block_decodes [OF assms(1) r(6)] holdsD [OF r(1) r(7)]
    by (auto simp: relation_cids_def node_links_def map_filter_links simp del: encode_dag_cbor.simps)
qed

lemma entity_cid_rep:
  assumes "cid_env E" "kg_rep E S sinv kg ti te rels B"
  shows "entity_cid E S kg k = Ok (tget ti k 0)"
  using assms get_refines [of E S "kg_store kg" B ti k] by (auto simp: kg_rep_def entity_cid_def)

text \<open>What an operation on the vector index leaves as it is.\<close>

definition same_graph :: "('s, 'c) KnowledgeGraph \<Rightarrow> ('s, 'c) KnowledgeGraph \<Rightarrow> bool" where
  "same_graph kg kg' \<longleftrightarrow>
     kg_store kg' = kg_store kg \<and> kg_index kg' = kg_index kg \<and> kg_edges kg' = kg_edges kg \<and>
     kg_prev kg' = kg_prev kg \<and> vi_dim (kg_vindex kg') = vi_dim (kg_vindex kg) \<and>
     (vi_inv (kg_vindex kg) \<longrightarrow> vi_inv (kg_vindex kg'))"

lemma same_graph_refl [simp]: "same_graph kg kg"
  by (simp add: same_graph_def)

lemma same_graph_trans: "same_graph a b \<Longrightarrow> same_graph b c \<Longrightarrow> same_graph a c"
  by (simp add: same_graph_def)

lemma kg_rep_same: "same_graph kg kg' \<Longrightarrow> kg_rep E S sinv kg ti te rels B \<Longrightarrow> kg_rep E S sinv kg' ti te rels B"
  by (simp add: same_graph_def kg_rep_def)

lemma upsert_text_ok:
  assumes "1 \<le> vi_dim (kg_vindex kg)" "vi_dim (kg_vindex kg) \<le> 65536"
  shows "\<exists>kg'. upsert_text D A kg cid t = (kg', Ok ()) \<and> same_graph kg kg'"
proof -
  obtain e where "embed D A t (vi_dim (kg_vindex kg)) = Ok e"
    using embed_ok [OF assms(1), of D A t] assms(2) by (auto simp: isize_max_def)
  then show ?thesis
    using vi_upsert_spec [of "kg_vindex kg" cid e]
    by (auto simp: upsert_text_def same_graph_def vi_upsert_def vi_add_def vi_remove_def)
qed

lemma embed_evidence_same:
  assumes "1 \<le> vi_dim (kg_vindex kg)" "vi_dim (kg_vindex kg) \<le> 65536"
    and "embed_evidence E D A S kg evs = (kg', r)"
  shows "same_graph kg kg'"
  using assms
proof (induction evs arbitrary: kg)
  case (Cons ev evs)
  show ?case
  proof (cases "evidence_text E S kg ev")
    case (Ok t)
    show ?thesis
    proof (cases t)
      case None
      with Ok Cons show ?thesis by simp
    next
      case (Some u)
      obtain kg1 where kg1: "upsert_text D A kg ev u = (kg1, Ok ())" "same_graph kg kg1"
        using upsert_text_ok [OF Cons.prems(1,2)] by blast
      with Cons.IH [of kg1] Cons.prems Ok Some show ?thesis
        by (auto simp: same_graph_def)
    qed
  qed (use Cons.prems in auto)
qed simp

lemma kg_rep_mono:
  assumes "kg_rep E S sinv kg ti te rels B" "kg' = kg\<lparr>kg_store := s\<rparr>" "sinv s" "holds S E s B'" "B \<subseteq> B'"
  shows "kg_rep E S sinv kg' ti te rels B'"
  using assms unfolding kg_rep_def by auto

lemma head_ipld_ok:
  assumes "cid_env E"
  shows "ipld_ok E (head_ipld kg vc)"
  unfolding head_ipld_def
  by (rule ipld_ok_collect)
    (auto simp: text_ok_def valid_str_def of_char_def isize_max_def ipld_ok_link [OF assms]
      split: option.split)

text \<open>Opening a head, in any store that holds its block and that of the vector index.\<close>

lemma open_head:
  assumes "cid_env E" "vi_ok E (kg_vindex kg)"
    and "vb = encode_dag_cbor E (vi_to_ipld (kg_vindex kg))"
    and "hb = encode_dag_cbor E (head_ipld kg (dag_cbor_cid E vb))"
    and "bs_get S s (dag_cbor_cid E hb) = Some hb" "bs_get S s (dag_cbor_cid E vb) = Some vb"
  shows "kg_open E S s (dag_cbor_cid E hb) = Ok (kg\<lparr>kg_store := s, kg_prev := Some (dag_cbor_cid E hb)\<rparr>)"
proof -
  have h: "from_dag_cbor E hb = Ok (head_ipld kg (dag_cbor_cid E vb))"
    using from_dag_cbor_encode [OF head_ipld_ok [OF assms(1)], of _ _ "[]"] by (simp add: assms(4))
  have v: "vi_decode E vb = Ok (kg_vindex kg)"
    unfolding assms(3) by (rule vi_decode_encode [OF assms(1,2)])
  show ?thesis
    using assms(5,6) h v by (cases "kg_prev kg")
      (simp_all add: kg_open_def head_ipld_def head_link_def bt_get_collect as_link_def link_def)
qed

context block_store
begin

lemma put_node_rep:
  assumes "cid_env E" "kg_rep E S inv kg ti te rels B" "inj_on (dag_cbor_cid E) (insert (node_block E n) B)"
  shows "\<exists>kg'. put_node E S kg n = (kg', Ok (dag_cbor_cid E (node_block E n))) \<and>
    kg' = kg\<lparr>kg_store := kg_store kg'\<rparr> \<and> kg_rep E S inv kg' ti te rels (insert (node_block E n) B)"
proof -
  have r: "inv (kg_store kg)" "holds S E (kg_store kg) B" using assms(2) by (auto simp: kg_rep_def)
  let ?s = "bs_put S (kg_store kg) (dag_cbor_cid E (node_block E n)) (node_block E n)"
  have "kg_rep E S inv (kg\<lparr>kg_store := ?s\<rparr>) ti te rels (insert (node_block E n) B)"
    by (rule kg_rep_mono [OF assms(2) refl inv_put [OF r(1)] holds_put [OF r assms(3)]]) auto
  then show ?thesis by (simp add: put_node_def node_encode_eq [OF assms(1)])
qed

theorem add_entity_rep:
  assumes "cid_env E" "kg_rep E S inv kg ti te rels B"
    and "i = EntityId_of D (es_kind spec) (es_name spec)"
    and "n = Entity i (es_kind spec) (es_name spec) (es_aliases spec) (es_attrs spec) []"
    and "node_ok E n"
    and "inj_on (dag_cbor_cid E) (insert (node_block E n) B \<union> twrites E ti i (dag_cbor_cid E (node_block E n)) 0)"
  shows "\<exists>kg' ti' B'. add_entity E D A S kg spec = (kg', Ok i) \<and> kg_rep E S inv kg' ti' te rels B' \<and>
    insert (node_block E n) B \<subseteq> B' \<and>
    (\<forall>k. length k = 32 \<longrightarrow> tget ti' k 0 = (if k = i then Some (dag_cbor_cid E (node_block E n)) else tget ti k 0))"
proof -
  let ?c = "dag_cbor_cid E (node_block E n)" and ?B = "insert (node_block E n) B"
  have i: "length i = 32" using assms(4,5) by simp
  have "inj_on (dag_cbor_cid E) ?B" using assms(6) by (rule inj_on_subset) auto
  from put_node_rep [OF assms(1,2) this] obtain kg1 where
    kg1: "put_node E S kg n = (kg1, Ok ?c)" "kg_rep E S inv kg1 ti te rels ?B" by blast
  then have r: "inv (kg_store kg1)" "holds S E (kg_store kg1) ?B" "twf [] ti" "tblocks E ti \<subseteq> ?B"
    "kg_index kg1 = tcid E ti" by (auto simp: kg_rep_def)
  from hamt_insert_refines [OF assms(1) r(1,3) i r(2,4) assms(6)] obtain s2 ti' where
    s2: "hamt_insert E S (kg_store kg1) (kg_index kg1) i ?c = (s2, Ok (tcid E ti'))" "inv s2" "twf [] ti'"
      "holds S E s2 (?B \<union> tblocks E ti')"
      "\<forall>k. length k = 32 \<longrightarrow> tget ti' k 0 = (if k = i then Some ?c else tget ti k 0)"
    using r(5) by auto
  let ?prev = "tget ti i 0"
  let ?kg2 = "kg1\<lparr>kg_store := s2, kg_index := tcid E ti'\<rparr>"
  let ?kg3 = "case ?prev of Some old \<Rightarrow> ?kg2\<lparr>kg_vindex := vi_remove (kg_vindex ?kg2) old\<rparr> | None \<Rightarrow> ?kg2"
  have rep2: "kg_rep E S inv ?kg2 ti' te rels (?B \<union> tblocks E ti')"
    using kg1(2) s2(2-4) by (auto simp: kg_rep_def)
  have "same_graph ?kg2 ?kg3"
    using vi_remove_spec [of "kg_vindex kg1"] by (auto simp: same_graph_def vi_remove_def split: option.split)
  then have rep3: "kg_rep E S inv ?kg3 ti' te rels (?B \<union> tblocks E ti')" using rep2 by (rule kg_rep_same)
  obtain t where t: "node_text n = Some t" using assms(4) by (simp add: node_text_def)
  have v: "1 \<le> vi_dim (kg_vindex ?kg3)" "vi_dim (kg_vindex ?kg3) \<le> 65536" using rep3 unfolding kg_rep_def by blast+
  obtain kg4 where kg4: "upsert_text D A ?kg3 ?c t = (kg4, Ok ())" "same_graph ?kg3 kg4"
    using upsert_text_ok [OF v, of D A ?c t] by (elim exE conjE)
  have "add_entity E D A S kg spec = (kg4, Ok i)"
    unfolding add_entity_def Let_def assms(3) [symmetric] assms(4) [symmetric] entity_cid_rep [OF assms(1,2)]
    using kg1(1) s2(1) kg4(1) t by (simp add: on_store_def)
  moreover have "kg_rep E S inv kg4 ti' te rels (?B \<union> tblocks E ti')" by (rule kg_rep_same [OF kg4(2) rep3])
  ultimately show ?thesis using s2(5) by blast
qed

lemma get_entity_rep:
  assumes "cid_env E" "kg_rep E S inv kg ti te rels B" "node_ok E n" "node_block E n \<in> B"
    and "tget ti k 0 = Some (dag_cbor_cid E (node_block E n))"
  shows "get_entity E S kg k = Ok (Some n)"
proof -
  have "bs_get S (kg_store kg) (dag_cbor_cid E (node_block E n)) = Some (node_block E n)"
    using assms(2,4) by (auto simp: kg_rep_def dest: holdsD)
  then show ?thesis
    using node_decode_encode [OF assms(1,3)] assms(5)
    by (simp add: get_entity_def entity_cid_rep [OF assms(1,2)] get_node_def)
qed

lemma put_rel_list_eq:
  "cid_env E \<Longrightarrow> put_rel_list E S kg l =
   (kg\<lparr>kg_store := bs_put S (kg_store kg) (dag_cbor_cid E (list_block E l)) (list_block E l)\<rparr>,
    Ok (dag_cbor_cid E (list_block E l)))"
  by (simp add: put_rel_list_def to_dag_cbor_def build_dag_cbor_new cid_env_def node_links_def
      del: encode_dag_cbor.simps)

theorem add_relation_rep:
  assumes "cid_env E" "kg_rep E S inv kg ti te rels B" "length subj = 32" "length obj = 32"
    and "tget ti subj 0 = Some sc" "tget ti obj 0 = Some oc"
    and "snd (embed_evidence E D A S kg ev) = Ok ()"
    and "n = Relation sc pr oc ev w" "rc = dag_cbor_cid E (node_block E n)" "l = rels subj @ [rc]"
    and "seq_ok E l"
    and "inj_on (dag_cbor_cid E) (insert (list_block E l) (insert (node_block E n) B) \<union>
          twrites E te subj (dag_cbor_cid E (list_block E l)) 0)"
  shows "\<exists>kg' te' B'. add_relation E D A S kg subj pr obj w ev = (kg', Ok rc) \<and>
    kg_rep E S inv kg' ti te' (rels(subj := l)) B' \<and> insert (node_block E n) B \<subseteq> B'"
proof -
  let ?B1 = "insert (node_block E n) B" and ?B2 = "insert (list_block E l) (insert (node_block E n) B)"
  obtain kg1 where kg1: "embed_evidence E D A S kg ev = (kg1, Ok ())"
    using assms(7) by (cases "embed_evidence E D A S kg ev") auto
  have v: "1 \<le> vi_dim (kg_vindex kg)" "vi_dim (kg_vindex kg) \<le> 65536"
    using assms(2) by (auto simp: kg_rep_def)
  have rep1: "kg_rep E S inv kg1 ti te rels B"
    by (rule kg_rep_same [OF embed_evidence_same [OF v kg1] assms(2)])
  have "inj_on (dag_cbor_cid E) ?B1" using assms(12) by (rule inj_on_subset) auto
  from put_node_rep [OF assms(1) rep1 this] obtain kg2 where
    kg2: "put_node E S kg1 n = (kg2, Ok rc)" "kg_rep E S inv kg2 ti te rels ?B1" using assms(9) by blast
  let ?s3 = "bs_put S (kg_store kg2) (dag_cbor_cid E (list_block E l)) (list_block E l)"
  have r2: "inv (kg_store kg2)" "holds S E (kg_store kg2) ?B1" using kg2(2) by (auto simp: kg_rep_def)
  have inj2: "inj_on (dag_cbor_cid E) ?B2" using assms(12) by (rule inj_on_subset) auto
  have rep3: "kg_rep E S inv (kg2\<lparr>kg_store := ?s3\<rparr>) ti te rels ?B2"
    by (rule kg_rep_mono [OF kg2(2) refl inv_put [OF r2(1)] holds_put [OF r2 inj2]]) auto
  then have r3: "inv ?s3" "holds S E ?s3 ?B2" "twf [] te" "tblocks E te \<subseteq> ?B2" "kg_edges kg2 = tcid E te"
    by (auto simp: kg_rep_def)
  from hamt_insert_refines [OF assms(1) r3(1,3) assms(3) r3(2,4) assms(12)] obtain s4 te' where
    s4: "hamt_insert E S ?s3 (kg_edges kg2) subj (dag_cbor_cid E (list_block E l)) = (s4, Ok (tcid E te'))"
      "inv s4" "twf [] te'" "holds S E s4 (?B2 \<union> tblocks E te')"
      "\<forall>k. length k = 32 \<longrightarrow>
         tget te' k 0 = (if k = subj then Some (dag_cbor_cid E (list_block E l)) else tget te k 0)"
    using r3(5) by auto
  have "add_relation E D A S kg subj pr obj w ev = (kg2\<lparr>kg_store := s4, kg_edges := tcid E te'\<rparr>, Ok rc)"
    using kg1 kg2(1) s4(1) assms(5,6) relation_cids_rep [OF assms(1) kg2(2) assms(3)]
    by (simp add: add_relation_def entity_cid_rep [OF assms(1,2)] assms(8) [symmetric]
        assms(10) [symmetric] put_rel_list_eq [OF assms(1)] on_store_def del: encode_dag_cbor.simps)
  moreover have "kg_rep E S inv (kg2\<lparr>kg_store := s4, kg_edges := tcid E te'\<rparr>) ti te' (rels(subj := l)) (?B2 \<union> tblocks E te')"
    using rep3 s4(2-5) assms(10,11) by (auto simp: kg_rep_def)
  ultimately show ?thesis by blast
qed

lemma kg_new_rep:
  assumes "cid_env E" "inv s"
  shows "\<exists>kg. kg_new E S s = Ok kg \<and> kg_rep E S inv kg tempty tempty (\<lambda>_. []) {tbytes E tempty}"
proof -
  from hamt_empty_refines [OF assms] obtain s1 where
    s1: "hamt_empty E S s = (s1, Ok (tcid E tempty))" "inv s1" by blast
  from hamt_empty_refines [OF assms(1) s1(2)] obtain s2 where
    s2: "hamt_empty E S s1 = (s2, Ok (tcid E tempty))" "inv s2" "holds S E s2 {tbytes E tempty}" by blast
  show ?thesis using s1 s2
    by (auto simp: kg_new_def kg_rep_def twf_tempty tget_tempty tblocks_def vi_new_def DEFAULT_DIM_def
        vi_inv_def seq_ok_def)
qed

text \<open>The blocks that \<open>commit\<close> writes.\<close>

lemma commit_eq:
  assumes "cid_env E"
  shows "commit E S kg =
    (let vb = encode_dag_cbor E (vi_to_ipld (kg_vindex kg)); vc = dag_cbor_cid E vb;
         hb = encode_dag_cbor E (head_ipld kg vc); hc = dag_cbor_cid E hb
     in (kg\<lparr>kg_store := bs_put S (bs_put S (kg_store kg) vc vb) hc hb, kg_prev := Some hc\<rparr>, Ok hc))"
proof -
  have h: "head_ipld (kg\<lparr>kg_store := s\<rparr>) c = head_ipld kg c" for s c by (simp add: head_ipld_def)
  show ?thesis
    using assms by (simp add: commit_def vi_store_def vi_encode_eq on_store_def Let_def to_dag_cbor_def
        build_dag_cbor_new cid_env_def h del: encode_dag_cbor.simps)
qed

theorem commit_open:
  assumes "cid_env E" "inv (kg_store kg)" "vi_ok E (kg_vindex kg)"
    and "vb = encode_dag_cbor E (vi_to_ipld (kg_vindex kg))"
    and "hb = encode_dag_cbor E (head_ipld kg (dag_cbor_cid E vb))"
    and "dag_cbor_cid E hb \<noteq> dag_cbor_cid E vb"
  shows "\<exists>kg' head. commit E S kg = (kg', Ok head) \<and> kg_open E S (kg_store kg') head = Ok kg' \<and>
    kg_prev kg' = Some head \<and> kg_index kg' = kg_index kg \<and> kg_edges kg' = kg_edges kg \<and>
    kg_vindex kg' = kg_vindex kg \<and> inv (kg_store kg')"
proof -
  let ?vc = "dag_cbor_cid E vb" and ?hc = "dag_cbor_cid E hb"
  let ?s = "bs_put S (bs_put S (kg_store kg) ?vc vb) ?hc hb"
  have c: "commit E S kg = (kg\<lparr>kg_store := ?s, kg_prev := Some ?hc\<rparr>, Ok ?hc)"
    by (simp add: commit_eq [OF assms(1)] Let_def assms(4,5) del: encode_dag_cbor.simps)
  have g: "bs_get S ?s ?hc = Some hb" "bs_get S ?s ?vc = Some vb" "inv ?s"
    using assms(2,6) by (simp_all add: get_put inv_put)
  have "kg_open E S ?s ?hc = Ok (kg\<lparr>kg_store := ?s, kg_prev := Some ?hc\<rparr>)"
    by (rule open_head [OF assms(1,3-5) g(1,2)])
  with c g(3) show ?thesis by simp
qed

end

subsection \<open>Properties\<close>

text \<open>
  An entity that is added is found: \<open>add_entity\<close> succeeds, \<open>get_entity\<close> then returns the entity
  as it was given, and every other entity and every relation list is what it was.
\<close>

theorem add_entity_get:
  assumes "cid_env E" "kg_rep E mem_store ms_inv kg ti te rels B"
    and "i = EntityId_of D (es_kind spec) (es_name spec)"
    and "n = Entity i (es_kind spec) (es_name spec) (es_aliases spec) (es_attrs spec) []"
    and "node_ok E n"
    and "inj_on (dag_cbor_cid E) (insert (node_block E n) B \<union> twrites E ti i (dag_cbor_cid E (node_block E n)) 0)"
  shows "\<exists>kg' ti' B'. add_entity E D A mem_store kg spec = (kg', Ok i) \<and>
    kg_rep E mem_store ms_inv kg' ti' te rels B' \<and>
    get_entity E mem_store kg' i = Ok (Some n) \<and>
    (\<forall>k. length k = 32 \<longrightarrow> k \<noteq> i \<longrightarrow> entity_cid E mem_store kg' k = entity_cid E mem_store kg k) \<and>
    (\<forall>k. length k = 32 \<longrightarrow> relation_cids E mem_store kg' k = relation_cids E mem_store kg k)"
proof -
  from mem.add_entity_rep [OF assms] obtain kg' ti' B' where
    r: "add_entity E D A mem_store kg spec = (kg', Ok i)" "kg_rep E mem_store ms_inv kg' ti' te rels B'"
      "node_block E n \<in> B'"
      "\<forall>k. length k = 32 \<longrightarrow> tget ti' k 0 = (if k = i then Some (dag_cbor_cid E (node_block E n)) else tget ti k 0)"
    by blast
  have "length i = 32" using assms(4,5) by simp
  then have "get_entity E mem_store kg' i = Ok (Some n)"
    using r(4) by (intro mem.get_entity_rep [OF assms(1) r(2) assms(5) r(3)]) simp
  with r show ?thesis
    by (intro exI [of _ kg'] exI [of _ ti'] exI [of _ B'])
      (simp add: entity_cid_rep [OF assms(1) r(2)] entity_cid_rep [OF assms(1,2)]
        relation_cids_rep [OF assms(1) r(2)] relation_cids_rep [OF assms(1,2)])
qed

text \<open>
  A relation that is added is appended to its subject's list and can be read back, and no
  other entity or relation list changes.
\<close>

theorem add_relation_appends:
  assumes "cid_env E" "kg_rep E mem_store ms_inv kg ti te rels B" "length subj = 32" "length obj = 32"
    and "tget ti subj 0 = Some sc" "tget ti obj 0 = Some oc"
    and "snd (embed_evidence E D A mem_store kg ev) = Ok ()"
    and "n = Relation sc pr oc ev w" "rc = dag_cbor_cid E (node_block E n)" "l = rels subj @ [rc]"
    and "node_ok E n" "seq_ok E l"
    and "inj_on (dag_cbor_cid E) (insert (list_block E l) (insert (node_block E n) B) \<union>
          twrites E te subj (dag_cbor_cid E (list_block E l)) 0)"
  shows "\<exists>kg' te' B'. add_relation E D A mem_store kg subj pr obj w ev = (kg', Ok rc) \<and>
    kg_rep E mem_store ms_inv kg' ti te' (rels(subj := l)) B' \<and>
    relation_cids E mem_store kg' subj = Ok (rels subj @ [rc]) \<and>
    get_node E mem_store kg' rc = Ok n \<and>
    (\<forall>k. length k = 32 \<longrightarrow> k \<noteq> subj \<longrightarrow> relation_cids E mem_store kg' k = relation_cids E mem_store kg k) \<and>
    (\<forall>k. entity_cid E mem_store kg' k = entity_cid E mem_store kg k)"
proof -
  from mem.add_relation_rep [OF assms(1-10,12,13)] obtain kg' te' B' where
    r: "add_relation E D A mem_store kg subj pr obj w ev = (kg', Ok rc)"
      "kg_rep E mem_store ms_inv kg' ti te' (rels(subj := l)) B'" "node_block E n \<in> B'" by blast
  have "bs_get mem_store (kg_store kg') rc = Some (node_block E n)"
    using r(2,3) assms(9) by (auto simp: kg_rep_def dest: holdsD)
  then have "get_node E mem_store kg' rc = Ok n"
    using node_decode_encode [OF assms(1,11)] by (simp add: get_node_def)
  with r assms(3,10) show ?thesis
    by (intro exI [of _ kg'] exI [of _ te'] exI [of _ B'])
      (simp add: entity_cid_rep [OF assms(1) r(2)] entity_cid_rep [OF assms(1,2)]
        relation_cids_rep [OF assms(1) r(2)] relation_cids_rep [OF assms(1,2)])
qed

text \<open>
  A relation between unknown entities is refused and nothing changes: not the store, the
  tries or the vector index.
\<close>

theorem add_relation_unknown:
  assumes "entity_cid E S kg subj = Ok None \<or> entity_cid E S kg subj = Ok (Some c) \<and> entity_cid E S kg obj = Ok None"
  shows "\<exists>msg. add_relation E D A S kg subj pr obj w ev = (kg, Err (Graph msg))"
  using assms by (auto simp: add_relation_def)

text \<open>
  (C8) A committed head reopens to the same graph: same tries, same vector index bit for bit, and
  \<open>prev\<close> pointing at the head, so the next commit chains to it.
\<close>

theorem commit_then_open:
  assumes "cid_env E" "ms_inv (kg_store kg)" "vi_ok E (kg_vindex kg)"
    and "vb = encode_dag_cbor E (vi_to_ipld (kg_vindex kg))"
    and "hb = encode_dag_cbor E (head_ipld kg (dag_cbor_cid E vb))"
    and "dag_cbor_cid E hb \<noteq> dag_cbor_cid E vb"
  shows "\<exists>kg' head. commit E mem_store kg = (kg', Ok head) \<and>
    kg_open E mem_store (kg_store kg') head = Ok kg' \<and>
    kg_prev kg' = Some head \<and> kg_index kg' = kg_index kg \<and> kg_edges kg' = kg_edges kg \<and>
    kg_vindex kg' = kg_vindex kg \<and> ms_inv (kg_store kg')"
  by (rule mem.commit_open [OF assms])

subsection \<open>Witnesses\<close>

definition spec_example :: EntitySpec where
  "spec_example = \<lparr>es_kind = ''k'', es_name = ''n'', es_aliases = [], es_attrs = []\<rparr>"

definition id_example :: EntityId where
  "id_example = [0x6b, 0, 0x6e] @ replicate 29 0"

definition entity_example :: "(u64 + u64 \<times> u64) KnowledgeNode" where
  "entity_example = Entity id_example ''k'' ''n'' [] [] []"

lemma id_example_of: "id_example = EntityId_of digest0 (es_kind spec_example) (es_name spec_example)"
  by (simp add: id_example_def EntityId_of_def digest0_def spec_example_def str_bytes_def of_char_def
      numeral_eq_Suc)

lemma twrites_tempty: "twrites E tempty k c 0 = {tbytes E (tempty[nibble k 0 := TLeaf k c])}"
proof -
  have n: "nibble k 0 < 16" by (rule nibble_less)
  then have t: "tinsert tempty k c 0 = Some (tempty[nibble k 0 := TLeaf k c])"
    by (subst tinsert.simps) (simp add: MAX_DEPTH_def WIDTH_def)
  show ?thesis using n by (subst twrites.simps) (simp add: t [unfolded WIDTH_def] MAX_DEPTH_def WIDTH_def)
qed

lemma length_leaf_update:
  assumes "length k = 32"
  shows "length (tbytes crate_len (tempty[nibble k 0 := TLeaf k c])) = (case c of Inl _ \<Rightarrow> 86 | Inr _ \<Rightarrow> 94)"
proof -
  have l: "length (encode_dag_cbor crate_len (slot_to_ipld (Leaf k c))) = (case c of Inl _ \<Rightarrow> 52 | Inr _ \<Rightarrow> 60)"
    using assms by (simp add: encode_cbor_length_def encode_cbor_tag_def CID_TAG_def Let_def
        str_bytes_def crate_len_def crate64_def split: sum.split)
  have n: "nibble k 0 < 16" by (rule nibble_less)
  have "length (tbytes crate_len (tempty[nibble k 0 := TLeaf k c])) + 1 =
      length (tbytes crate_len tempty) + length (encode_dag_cbor crate_len (slot_to_ipld (Leaf k c)))"
    using length_concat_update [of "nibble k 0" "map (encode_dag_cbor crate_len \<circ> slot_to_ipld \<circ> conc crate_len) tempty"
        "encode_dag_cbor crate_len (slot_to_ipld (Leaf k c))"] n
    by (simp add: length_tbytes map_update WIDTH_def del: slot_to_ipld_simps(2))
  then show ?thesis unfolding l length_tbytes_tempty by (simp split: sum.splits)
qed

lemma entity_example_block: "length (node_block crate_len entity_example) = 95"
  by (simp add: node_to_ipld_def node_fields_def entity_example_def bt_collect_def node_type_name_def
      less_char_def node_links_def encode_cbor_length_def Let_def str_bytes_def id_example_def)

lemma entity_example_ok: "node_ok E entity_example"
  by (simp add: entity_example_def id_example_def text_ok_def valid_str_def of_char_def isize_max_def seq_ok_def)

theorem add_entity_get_witness:
  "\<exists>kg kg'. kg_new crate_len mem_store ms_new = Ok kg \<and>
    add_entity crate_len digest0 arith0 mem_store kg spec_example = (kg', Ok id_example) \<and>
    get_entity crate_len mem_store kg' id_example = Ok (Some entity_example)"
proof -
  from mem.kg_new_rep [OF cid_env_crate_len, of ms_new] obtain kg where
    kg: "kg_new crate_len mem_store ms_new = Ok kg"
      "kg_rep crate_len mem_store ms_inv kg tempty tempty (\<lambda>_. []) {tbytes crate_len tempty}"
    by (auto simp: ms_inv_def ms_new_def)
  have e: "entity_example = Entity id_example (es_kind spec_example) (es_name spec_example)
      (es_aliases spec_example) (es_attrs spec_example) []"
    by (simp add: entity_example_def spec_example_def)
  have k: "length id_example = 32" by (simp add: id_example_def)
  let ?c = "dag_cbor_cid crate_len (node_block crate_len entity_example)"
  have c: "?c = Inr (0x71, of_nat (from_be (be_bytes 8 95)))"
    by (simp only: dag_cbor_cid_crate_len entity_example_block)
  have l: "length (tbytes crate_len (tempty[nibble id_example 0 := TLeaf id_example ?c])) = 94"
    unfolding length_leaf_update [OF k] c by simp
  have "inj_on (dag_cbor_cid crate_len) (insert (node_block crate_len entity_example)
      {tbytes crate_len tempty} \<union> twrites crate_len tempty id_example ?c 0)"
    unfolding twrites_tempty
    by (rule inj_on_crate_len) (use l entity_example_block length_tbytes_tempty in \<open>auto simp: inj_on_def\<close>)
  from add_entity_get [OF cid_env_crate_len kg(2) id_example_of e entity_example_ok this] kg(1)
  show ?thesis by blast
qed

text \<open>A graph with one entity and no relation, the relation of the entity to itself, and the list of it.\<close>

definition ti_example :: "(u64 + u64 \<times> u64) tslot list" where
  "ti_example = tempty[nibble id_example 0 := TLeaf id_example (Inl 1)]"

definition kg_example :: "((u64 + u64 \<times> u64) MemStore, u64 + u64 \<times> u64) KnowledgeGraph" where
  "kg_example =
     \<lparr>kg_store = bs_put mem_store (bs_put mem_store ms_new (tcid crate_len tempty) (tbytes crate_len tempty))
         (tcid crate_len ti_example) (tbytes crate_len ti_example),
      kg_index = tcid crate_len ti_example, kg_edges = tcid crate_len tempty, kg_prev = None,
      kg_vindex = vi_new 256\<rparr>"

definition rel_example :: "(u64 + u64 \<times> u64) KnowledgeNode" where
  "rel_example = Relation (Inl 1) ''p'' (Inl 1) [] 0"

lemma ti_example: "length (tbytes crate_len ti_example) = 86" "tget ti_example id_example 0 = Some (Inl 1)"
  "twf [] ti_example" "tblocks crate_len ti_example = {tbytes crate_len ti_example}"
proof -
  have k: "length id_example = 32" by (simp add: id_example_def)
  have n: "nibble id_example 0 < 16" by (rule nibble_less)
  show "length (tbytes crate_len ti_example) = 86"
    unfolding ti_example_def length_leaf_update [OF k] by simp
  show "tget ti_example id_example 0 = Some (Inl 1)"
    using n by (subst tget.simps) (simp add: ti_example_def MAX_DEPTH_def WIDTH_def)
  show "twf [] ti_example" unfolding ti_example_def
    by (rule twf_update [OF twf_tempty n]) (simp_all add: k on_path_snoc [of "[]", simplified])
  show "tblocks crate_len ti_example = {tbytes crate_len ti_example}"
    using cblocks_update [of crate_len tempty "nibble id_example 0" "TLeaf id_example (Inl 1)"]
    by (simp add: tblocks_def ti_example_def)
qed

lemma kg_example_rep:
  "kg_rep crate_len mem_store ms_inv kg_example ti_example tempty (\<lambda>_. [])
     {tbytes crate_len ti_example, tbytes crate_len tempty}"
proof -
  have ne: "tcid crate_len ti_example \<noteq> tcid crate_len tempty" unfolding tcid_def
    by (rule dag_cbor_cid_neq) (simp_all add: ti_example(1) length_tbytes_tempty)
  have i: "ms_inv (ms_new :: (u64 + u64 \<times> u64) MemStore)" by (simp add: ms_inv_def ms_new_def)
  show ?thesis
    using ne i ti_example(3,4)
    by (auto simp: kg_rep_def kg_example_def mem.inv_put holds_def mem.get_put twf_tempty tget_tempty
        tblocks_def vi_new_def vi_inv_def seq_ok_def tcid_def [symmetric])
qed

lemma rel_example_block:
  "length (node_block crate_len rel_example) = 95"
  by (simp add: node_to_ipld_def node_fields_def rel_example_def bt_collect_def node_type_name_def
      less_char_def node_links_def encode_cbor_length_def Let_def str_bytes_def encode_cbor_tag_def CID_TAG_def
      link_def crate_len_def crate64_def)

theorem add_relation_appends_witness:
  "\<exists>kg' rc. add_relation crate_len digest0 arith0 mem_store kg_example id_example ''p'' id_example 0 [] = (kg', Ok rc) \<and>
    relation_cids crate_len mem_store kg' id_example = Ok [rc] \<and>
    get_node crate_len mem_store kg' rc = Ok rel_example"
proof -
  let ?rc = "dag_cbor_cid crate_len (node_block crate_len rel_example)"
  let ?lc = "dag_cbor_cid crate_len (list_block crate_len [?rc])"
  have k: "length id_example = 32" by (simp add: id_example_def)
  have c: "\<exists>x. dag_cbor_cid crate_len b = Inr x" for b by (simp add: dag_cbor_cid_crate_len)
  then obtain x y where xy: "?rc = Inr x" "?lc = Inr y" by blast
  have l: "length (list_block crate_len [?rc]) = 22"
    unfolding xy by (cases x) (simp add: node_links_def encode_cbor_length_def Let_def encode_cbor_tag_def
        CID_TAG_def link_def crate_len_def crate64_def)
  have t: "length (tbytes crate_len (tempty[nibble id_example 0 := TLeaf id_example ?lc])) = 94"
    unfolding length_leaf_update [OF k] by (simp only: xy(2) sum.case)
  have inj: "inj_on (dag_cbor_cid crate_len) (insert (list_block crate_len [?rc])
      (insert (node_block crate_len rel_example) {tbytes crate_len ti_example, tbytes crate_len tempty}) \<union>
      twrites crate_len tempty id_example ?lc 0)"
    unfolding twrites_tempty
    by (rule inj_on_crate_len)
      (use l t rel_example_block ti_example(1) length_tbytes_tempty in \<open>auto simp: inj_on_def\<close>)
  have ok: "node_ok crate_len rel_example" "seq_ok crate_len [?rc]"
    by (simp_all add: rel_example_def text_ok_def valid_str_def of_char_def isize_max_def seq_ok_def
        f32_is_nan_def crate_len_def crate64_def)
  from add_relation_appends [OF cid_env_crate_len kg_example_rep k k ti_example(2,2) _ _ refl _ ok inj,
      where D = digest0 and A = arith0 and ev = "[]" and pr = "''p''" and w = 0]
  show ?thesis by (auto simp: rel_example_def)
qed

theorem add_relation_unknown_witness:
  "\<exists>msg. add_relation crate_len digest0 arith0 mem_store kg_example (replicate 32 0) ''p'' id_example 0 [] =
     (kg_example, Err (Graph msg))"
proof (rule add_relation_unknown [where c = undefined])
  have "tget ti_example (replicate 32 0) 0 = None"
    using nibble_less [of id_example 0] by (subst tget.simps)
      (auto simp: ti_example_def MAX_DEPTH_def WIDTH_def nth_list_update id_example_def nibble_def)
  then show "entity_cid crate_len mem_store kg_example (replicate 32 0) = Ok None \<or>
      entity_cid crate_len mem_store kg_example (replicate 32 0) = Ok (Some undefined) \<and>
      entity_cid crate_len mem_store kg_example id_example = Ok None"
    by (simp add: entity_cid_rep [OF cid_env_crate_len kg_example_rep])
qed

theorem commit_then_open_witness:
  "\<exists>kg' head. commit crate_len mem_store kg_example = (kg', Ok head) \<and>
    kg_open crate_len mem_store (kg_store kg') head = Ok kg'"
proof -
  let ?vb = "encode_dag_cbor crate_len (vi_to_ipld (kg_vindex kg_example))"
  let ?hb = "encode_dag_cbor crate_len (head_ipld kg_example (dag_cbor_cid crate_len ?vb))"
  have c: "\<exists>x. dag_cbor_cid crate_len b = Inr x" for b by (simp add: dag_cbor_cid_crate_len)
  then obtain x y z where xyz: "dag_cbor_cid crate_len ?vb = Inr x" "kg_index kg_example = Inr y"
    "kg_edges kg_example = Inr z" by (simp add: kg_example_def tcid_def) blast
  have "length ?vb = 30"
    by (simp add: kg_example_def vi_new_def vi_to_ipld_def bt_collect_def less_char_def
        encode_cbor_length_def encode_cbor_integer_def Let_def str_bytes_def)
  moreover have "length ?hb = 112"
    unfolding xyz(1) using xyz(2,3)
    by (cases x; cases y; cases z) (simp add: head_ipld_def bt_collect_def less_char_def link_def
        encode_cbor_length_def encode_cbor_tag_def CID_TAG_def encode_cbor_integer_def Let_def str_bytes_def
        crate_len_def crate64_def kg_example_def)
  ultimately have ne: "dag_cbor_cid crate_len ?hb \<noteq> dag_cbor_cid crate_len ?vb"
    by (intro dag_cbor_cid_neq) simp_all
  have "ms_inv (kg_store kg_example)" using kg_example_rep by (simp add: kg_rep_def)
  moreover have "vi_ok crate_len (kg_vindex kg_example)"
    by (simp add: vi_ok_def kg_example_def vi_new_def seq_ok_def)
  ultimately show ?thesis
    using commit_then_open [OF cid_env_crate_len _ _ refl refl ne] by blast
qed

end
