(* ===== verification/Knowledge_Gc.thy ===== *)
theory Knowledge_Gc
  imports Tiered_Store
begin

text \<open>
  Mark-and-sweep garbage collection over the backend (\<open>ipfrs-knowledge/src/gc.rs\<close>).

  \<open>reachable\<close> is a worklist loop with fuel over the links of the stored blocks, with or without the
  \<open>prev\<close> links of superseded roots; \<open>collect\<close> deletes every stored CID outside its result.
\<close>

subsection \<open>The code\<close>

record 'c GcReport =
  kept :: nat
  deleted :: "'c list"

fun reachable_loop ::
    "'c cid_crate \<Rightarrow> ('k, 'c) BlockStoreTrait \<Rightarrow> 'k \<Rightarrow> bool \<Rightarrow> nat \<Rightarrow> 'c list \<Rightarrow> 'c list
       \<Rightarrow> (KError, 'c list) outcome" where
  "reachable_loop E K cold keep_history 0 seen frontier = (if frontier = [] then Ok seen else Diverge)"
| "reachable_loop E K cold keep_history (Suc fuel) seen frontier =
     (if frontier = [] then Ok seen
      else let cid = last frontier; frontier = butlast frontier in
        if cid \<in> set seen then reachable_loop E K cold keep_history fuel seen frontier
        else obind (omap_err Core (ct_get K cold cid)) (\<lambda>block.
          case block of
            None \<Rightarrow> reachable_loop E K cold keep_history fuel (hs_insert cid seen) frontier
          | Some b \<Rightarrow>
              obind (push_links E (\<not> keep_history) (blk_data b) frontier) (\<lambda>frontier.
                reachable_loop E K cold keep_history fuel (hs_insert cid seen) frontier)))"

definition reachable ::
    "'c cid_crate \<Rightarrow> ('k, 'c) BlockStoreTrait \<Rightarrow> nat \<Rightarrow> 'k \<Rightarrow> 'c list \<Rightarrow> bool \<Rightarrow> (KError, 'c list) outcome" where
  "reachable E K fuel cold pins keep_history = reachable_loop E K cold keep_history fuel [] pins"

fun sweep_loop ::
    "('k, 'c) BlockStoreTrait \<Rightarrow> 'k \<Rightarrow> 'c list \<Rightarrow> 'c list \<Rightarrow> 'c list \<Rightarrow> 'k \<times> (KError, 'c list) outcome" where
  "sweep_loop K cold live [] del = (cold, Ok del)"
| "sweep_loop K cold live (cid # cids) del =
     (if cid \<in> set live then sweep_loop K cold live cids del
      else let (cold, res) = ct_delete K cold cid in
        sbind (cold, omap_err Core res) (\<lambda>cold _. sweep_loop K cold live cids (del @ [cid])))"

definition collect ::
    "'c cid_crate \<Rightarrow> ('k, 'c) BlockStoreTrait \<Rightarrow> nat \<Rightarrow> 'k \<Rightarrow> 'c list \<Rightarrow> bool \<Rightarrow> 'k \<times> (KError, 'c GcReport) outcome" where
  "collect E K fuel cold pins keep_history =
     sbind (cold, reachable E K fuel cold pins keep_history) (\<lambda>cold live.
       sbind (cold, omap_err Core (ct_list_cids K cold)) (\<lambda>cold all.
         sbind (sweep_loop K cold live all []) (\<lambda>cold del.
           (cold, Ok \<lparr>kept = length live, deleted = del\<rparr>))))"

subsection \<open>Marking\<close>

context cold_store
begin

abbreviation gc_links where
  "gc_links E keep_history k \<equiv> store_links E (\<not> keep_history) (content k)"

lemma reachable_loop_follows:
  assumes "kinv k" "reachable_loop E K k kh fuel seen frontier = r"
  shows "(\<forall>live. r = Ok live \<longrightarrow> closure_loop (gc_links E kh k) fuel seen frontier = Some live) \<and>
    (closure_loop (gc_links E kh k) fuel seen frontier \<noteq> None \<longrightarrow> r \<noteq> Diverge)"
  using assms(2)
proof (induction fuel arbitrary: seen frontier)
  case (Suc fuel)
  show ?case
  proof (cases "frontier = []")
    case ne: False
    let ?c = "last frontier" and ?rest = "butlast frontier"
    show ?thesis
    proof (cases "?c \<in> set seen")
      case True
      with Suc ne show ?thesis by (simp add: Let_def)
    next
      case new: False
      show ?thesis
      proof (cases "ct_get K k ?c")
        case (Ok ob)
        then have ob: "ob = map_option (block_from_parts ?c) (content k ?c)" using get_ok assms(1) by simp
        show ?thesis
        proof (cases "content k ?c")
          case None
          with Suc ne new Ok ob show ?thesis by (simp add: Let_def store_links_def)
        next
          case (Some bs)
          have loop: "obind (push_links E (\<not> kh) bs ?rest)
              (\<lambda>f. reachable_loop E K k kh fuel (hs_insert ?c seen) f) = r"
            using Suc.prems ne new Ok ob Some by (simp add: Let_def block_from_parts_def)
          show ?thesis
          proof (cases "push_links E (\<not> kh) bs ?rest")
            case (Ok f)
            then have "f = ?rest @ gc_links E kh k ?c"
              using push_links_eq_Ok Some by (fastforce simp: store_links_def)
            then have "reachable_loop E K k kh fuel (hs_insert ?c seen) (?rest @ gc_links E kh k ?c) = r"
              using loop Ok by simp
            from Suc.IH [OF this] new ne show ?thesis by (simp add: Let_def)
          qed (use loop push_links_not_Diverge [of E "\<not> kh" bs ?rest] in auto)
        qed
      qed (use Suc.prems ne new no_diverge(1) [of k ?c] in \<open>auto simp: Let_def\<close>)
    qed
  qed (use Suc.prems in auto)
qed (auto split: if_splits)

lemma reachable_loop_no_error:
  assumes "reads_ok E K k"
  shows "(\<exists>live. reachable_loop E K k kh fuel seen frontier = Ok live) \<or>
    reachable_loop E K k kh fuel seen frontier = Diverge"
proof (induction fuel arbitrary: seen frontier)
  case (Suc fuel)
  from assms(1) obtain ob where ob: "ct_get K k (last frontier) = Ok ob"
    "\<And>b. ob = Some b \<Longrightarrow> from_dag_cbor E (blk_data b) \<noteq> Panic" by (auto simp: reads_ok_def)
  show ?case
    using Suc.IH ob by (cases ob) (simp_all add: Let_def push_links_Ok)
qed simp

lemma reachable_correct:
  assumes "kinv k" "reachable E K fuel k pins kh = Ok live"
  shows "set live = reach (gc_links E kh k) (set pins)" "distinct live"
proof -
  have "closure_loop (gc_links E kh k) fuel [] pins = Some live"
    using reachable_loop_follows [OF assms(1) assms(2) [unfolded reachable_def]] by simp
  from closure_loop_correct [OF this]
  show "set live = reach (gc_links E kh k) (set pins)" "distinct live" by auto
qed

lemma reachable_returns:
  assumes "kinv k" "reads_ok E K k"
    and "length pins + (\<Sum>c \<in> dom (content k). length (gc_links E kh k c)) \<le> fuel"
  shows "\<exists>live. reachable E K fuel k pins kh = Ok live"
proof -
  have "closure_loop (gc_links E kh k) fuel [] pins \<noteq> None"
    using link_graph.closure_loop_returns [OF link_graph_store [OF finite_content [OF assms(1)]], of pins E "\<not> kh" "[]" fuel]
      assms(3) by auto
  then show ?thesis
    using reachable_loop_follows [OF assms(1) refl] reachable_loop_no_error [OF assms(2)]
    unfolding reachable_def by blast
qed

subsection \<open>Sweeping\<close>

lemma sweep_loop_correct:
  assumes "kinv k" "sweep_loop K k live cids del = (k', r)"
  shows "kinv k' \<and> (\<forall>c. c \<in> set live \<or> c \<notin> set cids \<longrightarrow> content k' c = content k c) \<and>
    (\<forall>del'. r = Ok del' \<longrightarrow> content k' = content k |` (- (set cids - set live)) \<and>
       del' = del @ filter (\<lambda>c. c \<notin> set live) cids)"
  using assms
proof (induction cids arbitrary: k del)
  case (Cons cid cids)
  show ?case
  proof (cases "cid \<in> set live")
    case True
    then have eq: "set (cid # cids) - set live = set cids - set live" by auto
    have "sweep_loop K k live cids del = (k', r)" using Cons.prems(2) True by simp
    from Cons.IH [OF Cons.prems(1) this] True show ?thesis unfolding eq by auto
  next
    case False
    obtain k1 res where d: "ct_delete K k cid = (k1, res)" by force
    show ?thesis
    proof (cases "res = Ok ()")
      case True
      have k1: "kinv k1" "content k1 = (content k)(cid := None)"
        using delete_ok [OF Cons.prems(1) d [unfolded True]] by auto
      have "sweep_loop K k1 live cids (del @ [cid]) = (k', r)" using Cons.prems(2) False d True by simp
      from Cons.IH [OF k1(1) this] k1(2) False show ?thesis
        by (auto simp: restrict_map_def fun_eq_iff)
    next
      case bad: False
      then have "k' = k1" "\<forall>del'. r \<noteq> Ok del'" using Cons.prems(2) False d by (cases res; auto)+
      with delete_err [OF Cons.prems(1) d bad] show ?thesis by simp
    qed
  qed
qed (auto simp: restrict_map_def fun_eq_iff)

lemma collect_keeps_live:
  assumes "kinv k" "collect E K fuel k pins kh = (k', r)"
  shows "kinv k' \<and> (\<forall>c \<in> reach (gc_links E kh k) (set pins). content k' c = content k c)"
proof (cases "reachable E K fuel k pins kh")
  case (Ok live)
  note live = reachable_correct [OF assms(1) Ok]
  show ?thesis
  proof (cases "ct_list_cids K k")
    case all: (Ok all)
    obtain k1 r1 where "sweep_loop K k live all [] = (k1, r1)" by force
    with sweep_loop_correct [OF assms(1) this] assms(2) Ok all live show ?thesis
      by (cases r1) (auto simp: collect_def)
  qed (use assms Ok in \<open>auto simp: collect_def\<close>)
qed (use assms in \<open>auto simp: collect_def\<close>)

lemma collect_ok:
  assumes "kinv k" "collect E K fuel k pins kh = (k', Ok rep)"
  shows "kinv k'" "content k' = content k |` reach (gc_links E kh k) (set pins)"
    "distinct (deleted rep)" "set (deleted rep) = dom (content k) - reach (gc_links E kh k) (set pins)"
    "kept rep = card (reach (gc_links E kh k) (set pins))"
proof -
  from assms(2) obtain live all del where c: "reachable E K fuel k pins kh = Ok live"
    "ct_list_cids K k = Ok all" "sweep_loop K k live all [] = (k', Ok del)"
    "rep = \<lparr>kept = length live, deleted = del\<rparr>"
    by (auto simp: collect_def sbind_eq_Ok)
  note live = reachable_correct [OF assms(1) c(1)]
  note all = list_ok [OF assms(1) c(2)]
  note sw = sweep_loop_correct [OF assms(1) c(3)]
  show "kinv k'" using sw by blast
  show "content k' = content k |` reach (gc_links E kh k) (set pins)"
    using sw all live by (auto simp: restrict_map_def fun_eq_iff)
  show "distinct (deleted rep)" "set (deleted rep) = dom (content k) - reach (gc_links E kh k) (set pins)"
    using sw all live c(4) by auto
  show "kept rep = card (reach (gc_links E kh k) (set pins))"
    using live c(4) distinct_card [of live] by simp
qed

end

lemma reach_restrict:
  "reach (store_links E s (m |` reach (store_links E s m) A)) A = reach (store_links E s m) A"
  (is "?R' = ?R")
proof
  have eq: "store_links E s (m |` ?R) a = store_links E s m a" if "a \<in> ?R" for a
    using that by (simp add: store_links_def)
  show "?R' \<subseteq> ?R"
    by (rule reach_least) (auto simp: eq intro: reach_base reach_step)
  show "?R \<subseteq> ?R'"
  proof
    fix a assume "a \<in> ?R"
    then show "a \<in> ?R'"
    proof (induction rule: reach_induct)
      case (step a b)
      then have "b \<in> set (store_links E s (m |` ?R) a)" by (simp add: eq)
      with step.IH show ?case by (rule reach_step)
    qed (rule reach_base)
  qed
qed

subsection \<open>Properties\<close>

text \<open>
  (C4) Collection is safe: a block that links lead to from a pin survives with its bytes, whatever
  the outcome of the run, an error of the backend in the middle of the sweep included.
\<close>

theorem gc_safe:
  assumes "cold_store K content kinv" "kinv k" "collect E K fuel k pins keep_history = (k', r)"
    and "c \<in> reach (store_links E (\<not> keep_history) (content k)) (set pins)"
  shows "content k' c = content k c"
  using cold_store.collect_keeps_live [OF assms(1-3)] assms(4) by blast

text \<open>
  (C6) Collection is complete: a run that succeeds leaves exactly the blocks reachable from the
  pins, its report lists each deleted CID once, and \<open>kept\<close> is the number of CIDs reached (which may
  include CIDs of blocks that are not stored).
\<close>

theorem gc_exact:
  assumes "cold_store K content kinv" "kinv k"
    and "collect E K fuel k pins keep_history = (k', Ok rep)"
  shows "content k' = content k |` reach (store_links E (\<not> keep_history) (content k)) (set pins) \<and>
    distinct (deleted rep) \<and>
    set (deleted rep) = dom (content k) - reach (store_links E (\<not> keep_history) (content k)) (set pins) \<and>
    kept rep = card (reach (store_links E (\<not> keep_history) (content k)) (set pins))"
  using cold_store.collect_ok [OF assms] by simp

text \<open>
  Collecting again with the same pins finds nothing to delete.
\<close>

theorem gc_idempotent:
  assumes "cold_store K content kinv" "kinv k"
    and "collect E K fuel k pins keep_history = (k', Ok rep)"
    and "collect E K fuel' k' pins keep_history = (k'', Ok rep')"
  shows "deleted rep' = [] \<and> content k'' = content k'"
proof -
  let ?R = "reach (store_links E (\<not> keep_history) (content k)) (set pins)"
  note first = cold_store.collect_ok [OF assms(1-3)]
  note second = cold_store.collect_ok [OF assms(1) first(1) assms(4)]
  have R: "reach (store_links E (\<not> keep_history) (content k')) (set pins) = ?R"
    by (simp add: first(2) reach_restrict)
  have "set (deleted rep') = dom (content k') - ?R" "content k'' = content k' |` ?R"
    using second(2,4) R by simp_all
  then have "set (deleted rep') = {}" "content k'' = content k'" using first(2) by auto
  then show ?thesis by simp
qed

text \<open>A run on the example backend, whose first block is not pinned.\<close>

lemma mb_example_collect:
  "collect crate64 memory_block_store 2 mb_example [Inl 2] True =
   (\<lparr>mb_blocks = [(Inl 2, block_from_parts (Inl 2) (encode_dag_cbor crate64 Null))]\<rparr>,
    Ok \<lparr>kept = 1, deleted = [Inl 1]\<rparr>)"
  by (simp add: collect_def reachable_def memory_block_store_def mb_example_def block_from_parts_def
      push_links_def mb_example_decodes hm_remove_def hs_insert_def numeral_2_eq_2 Let_def
      del: encode_dag_cbor.simps)

text \<open>A second run on what the first left.\<close>

lemma mb_example_collect_again:
  "collect crate64 memory_block_store 2
     \<lparr>mb_blocks = [(Inl 2, block_from_parts (Inl 2) (encode_dag_cbor crate64 Null))]\<rparr> [Inl 2] True =
   (\<lparr>mb_blocks = [(Inl 2, block_from_parts (Inl 2) (encode_dag_cbor crate64 Null))]\<rparr>,
    Ok \<lparr>kept = 1, deleted = []\<rparr>)"
  by (simp add: collect_def reachable_def memory_block_store_def block_from_parts_def
      push_links_def mb_example_decodes hs_insert_def numeral_2_eq_2 Let_def
      del: encode_dag_cbor.simps)

theorem gc_safe_witness:
  "mb_content (fst (collect crate64 memory_block_store 2 mb_example [Inl 2] True)) (Inl 2) =
   mb_content mb_example (Inl 2)"
  using gc_safe [OF mb.cold_store_axioms mb_example_ok(1) mb_example_collect, of "Inl 2"]
  by (simp add: mb_example_collect reach_base)

theorem gc_exact_witness:
  "\<exists>k' rep. collect crate64 memory_block_store 2 mb_example [Inl 2] True = (k', Ok rep) \<and>
     set (deleted rep) = dom (mb_content mb_example) - reach (store_links crate64 False (mb_content mb_example)) {Inl 2}"
  using gc_exact [OF mb.cold_store_axioms mb_example_ok(1) mb_example_collect] mb_example_collect
  by (intro exI conjI) auto

theorem gc_idempotent_witness:
  "\<exists>k' rep k'' rep'. collect crate64 memory_block_store 2 mb_example [Inl 2] True = (k', Ok rep) \<and>
     collect crate64 memory_block_store 2 k' [Inl 2] True = (k'', Ok rep') \<and>
     deleted rep' = [] \<and> mb_content k'' = mb_content k'"
  using gc_idempotent [OF mb.cold_store_axioms mb_example_ok(1) mb_example_collect mb_example_collect_again]
    mb_example_collect mb_example_collect_again by blast

end
