(* ===== verification/Graph_Persistence.thy ===== *)
theory Graph_Persistence
  imports Knowledge_Graph Knowledge_Gc
begin

text \<open>
  The knowledge graph over the two-tier store, through the collector and back: everything that
  \<open>graph.rs\<close> writes for a graph hangs below the head that \<open>commit\<close> returns, so a backend collected
  with the head as its only pin (\<open>gc.rs\<close>) and a fresh store hydrated from the head (\<open>tiered.rs\<close>)
  hold the whole graph again.

  There is no code of its own here. The first part computes the links of the blocks of a trie, of a
  relation list and of a head; the second shows that what is reachable from a head contains a
  graph's blocks; the third composes the contracts of the components.
\<close>

subsection \<open>Links of the blocks of a graph\<close>

lemma collect_links_filtered_list_set:
  "set (collect_links_filtered_list l [] s) = (\<Union>i \<in> set l. set (collect_links_filtered i [] s))"
proof (induction l)
  case (Cons i l)
  have "collect_links_filtered_list l (collect_links_filtered i [] s) s =
      collect_links_filtered i [] s @ collect_links_filtered_list l [] s"
    by (rule collect_links_filtered_split) simp
  with Cons show ?case by simp
qed simp

lemma collect_links_filtered_map_set:
  "set (collect_links_filtered_map m [] s) =
   (\<Union>(k, v) \<in> set m. if s \<and> k = ''prev'' then {} else set (collect_links_filtered v [] s))"
proof (induction m)
  case (Cons e m)
  obtain k v where e: "e = (k, v)" by force
  have "collect_links_filtered_map m (collect_links_filtered v [] s) s =
      collect_links_filtered v [] s @ collect_links_filtered_map m [] s"
    by (rule collect_links_filtered_split) simp
  with Cons show ?case by (cases "s \<and> k = ''prev''") (auto simp: e)
qed simp

lemma collect_links_filtered_mono:
  "set (collect_links_filtered i [] s) \<subseteq> set (collect_links_filtered i [] False)"
proof (induction i)
  case (List l)
  then show ?case by (fastforce simp: collect_links_filtered_list_set)
next
  case (Map m)
  then show ?case by (fastforce simp: collect_links_filtered_map_set split: if_splits)
qed simp_all

lemma store_links_mono: "set (store_links E s m c) \<subseteq> set (store_links E False m c)"
proof (cases "m c")
  case (Some bs)
  then show ?thesis
    by (cases "from_dag_cbor E bs") (simp_all add: store_links_def block_links_def collect_links_filtered_mono)
qed (simp add: store_links_def)

lemma block_links_encode:
  assumes "ipld_ok E i"
  shows "block_links E s (encode_dag_cbor E i) = collect_links_filtered i [] s"
  using from_dag_cbor_encode [OF assms, of "[]"] by (simp add: block_links_def)

lemma trie_links:
  assumes "cid_env E" "twf p ts"
  shows "set (block_links E s (tbytes E ts)) =
    {v. \<exists>k. TLeaf k v \<in> set ts} \<union> {tcid E us | us. TBranch us \<in> set ts}"
proof -
  have "ipld_ok E (node_ipld (map (conc E) ts))"
    using assms conc_slot_ok [OF assms(2)] twf_length [OF assms(2)] by (intro node_ipld_ok) simp_all
  then have l: "set (block_links E s (tbytes E ts)) =
      (\<Union>t \<in> set ts. set (collect_links_filtered (slot_to_ipld (conc E t)) [] s))"
    by (simp add: tbytes_def node_bytes_def block_links_encode node_ipld_eq collect_links_filtered_list_set
        del: encode_dag_cbor.simps)
  have "set (collect_links_filtered (slot_to_ipld (conc E t)) [] s) =
      {v. \<exists>k. t = TLeaf k v} \<union> {tcid E us | us. t = TBranch us}" for t
    by (cases t) auto
  then show ?thesis unfolding l by auto
qed

lemma list_links:
  assumes "cid_env E" "seq_ok E cids"
  shows "set (block_links E s (list_block E cids)) = set cids"
proof -
  have "set (collect_links_filtered (node_links cids) [] s) = set cids"
    by (auto simp: node_links_def link_def collect_links_filtered_list_set)
  then show ?thesis by (simp only: block_links_encode [OF ipld_ok_links [OF assms]])
qed

lemma head_links:
  assumes "cid_env E"
  shows "{kg_index kg, kg_edges kg, vc} \<subseteq> set (block_links E s (encode_dag_cbor E (head_ipld kg vc)))"
proof -
  have "{kg_index kg, kg_edges kg, vc} \<subseteq> set (collect_links_filtered (head_ipld kg vc) [] s)"
    by (cases "kg_prev kg")
      (simp_all add: head_ipld_def bt_collect_def less_char_def link_def collect_links_filtered_map_set)
  then show ?thesis by (simp only: block_links_encode [OF head_ipld_ok [OF assms]])
qed

subsection \<open>What lies below a head\<close>

text \<open>
  A set of CIDs closed under the links of the stored blocks that contains the root of a stored trie
  contains the CIDs of all its nodes and all its values.
\<close>

definition stored :: "'c cid_crate \<Rightarrow> ('c \<rightharpoonup> bytes) \<Rightarrow> bytes set \<Rightarrow> bool" where
  "stored E m B \<longleftrightarrow> (\<forall>b \<in> B. m (dag_cbor_cid E b) = Some b)"

lemma storedD: "stored E m B \<Longrightarrow> b \<in> B \<Longrightarrow> store_links E s m (dag_cbor_cid E b) = block_links E s b"
  by (simp add: stored_def store_links_def)

lemma stored_mono: "stored E m B \<Longrightarrow> A \<subseteq> B \<Longrightarrow> stored E m A"
  by (auto simp: stored_def)

lemma trie_below:
  assumes "cid_env E" "\<And>c. c \<in> R \<Longrightarrow> set (store_links E s m c) \<subseteq> R"
    and "twf p ts" "stored E m (tblocks E ts)" "tcid E ts \<in> R"
  shows "dag_cbor_cid E ` tblocks E ts \<subseteq> R \<and> (\<forall>k v. tget ts k (length p) = Some v \<longrightarrow> v \<in> R)"
  using assms(3-5)
proof (induction ts rule: twf_swf.inducts(1) [where ?P2.0 = "\<lambda>q t. \<forall>us. t = TBranch us \<longrightarrow> stored E m (tblocks E us) \<longrightarrow>
      tcid E us \<in> R \<longrightarrow> dag_cbor_cid E ` tblocks E us \<subseteq> R \<and> (\<forall>k v. tget us k (length q) = Some v \<longrightarrow> v \<in> R)"])
  case (node ts p)
  have "twf p ts" using node by (auto intro: twf_swf.node)
  then have links: "{v. \<exists>k. TLeaf k v \<in> set ts} \<union> {tcid E us | us. TBranch us \<in> set ts} \<subseteq> R"
    using assms(2) [OF node.prems(2)] storedD [OF node.prems(1), of "tbytes E ts" s] trie_links [OF assms(1), of p ts s]
    by (simp add: tcid_def tblocks_def)
  have sub: "dag_cbor_cid E ` tblocks E us \<subseteq> R \<and> (\<forall>k v. tget us k (Suc (length p)) = Some v \<longrightarrow> v \<in> R)"
    if "i < 16" "ts ! i = TBranch us" for i us
  proof -
    have i: "i < length ts" using that(1) node.hyps(1) by simp
    have "tblocks E us \<subseteq> tblocks E ts"
      using cblocks_nth [OF i, of E] that(2) cblocks_le [of E ts] by auto
    then have "stored E m (tblocks E us)" using node.prems(1) by (rule stored_mono [rotated])
    moreover have "tcid E us \<in> R" using links nth_mem [OF i] that(2) by auto
    ultimately show ?thesis using node.hyps(4) [OF that(1)] that(2) by simp
  qed
  have "dag_cbor_cid E ` cblocks E ts \<subseteq> R"
  proof -
    have "dag_cbor_cid E ` sblocks E t \<subseteq> R" if "t \<in> set ts" for t
    proof -
      obtain i where "i < 16" "ts ! i = t" using \<open>t \<in> set ts\<close> node.hyps(1) by (auto simp: in_set_conv_nth)
      with sub show ?thesis by (cases t) auto
    qed
    then show ?thesis by (auto simp: cblocks_def)
  qed
  moreover have "v \<in> R" if "tget ts k (length p) = Some v" for k v
  proof -
    have n: "nibble k (length p) < 16" by (rule nibble_less)
    have t: "ts ! nibble k (length p) \<in> set ts" using n node.hyps(1) by simp
    show ?thesis
      using that links sub [OF n] t
      by (cases "ts ! nibble k (length p)") (auto simp: tget_slot [OF node.hyps(2)] split: if_splits)
  qed
  ultimately show ?case using node.prems(2) by (simp add: tblocks_def tcid_def)
qed auto

definition graph_blocks :: "'c cid_crate \<Rightarrow> 'c tslot list \<Rightarrow> 'c tslot list \<Rightarrow> (EntityId \<Rightarrow> 'c list) \<Rightarrow> bytes set" where
  "graph_blocks E ti te rels =
     tblocks E ti \<union> tblocks E te \<union> (\<lambda>k. list_block E (rels k)) ` {k. length k = 32 \<and> rels k \<noteq> []}"

lemma kg_rep_blocks:
  assumes "kg_rep E S sinv kg ti te rels B"
  shows "graph_blocks E ti te rels \<subseteq> B"
  using assms by (auto simp: kg_rep_def graph_blocks_def)

lemma kg_rep_graph_blocks:
  assumes "kg_rep E S sinv kg ti te rels B" "kg_index kg' = kg_index kg" "kg_edges kg' = kg_edges kg"
    and "kg_vindex kg' = kg_vindex kg" "sinv' (kg_store kg')"
    and "holds S' E (kg_store kg') (graph_blocks E ti te rels)"
  shows "kg_rep E S' sinv' kg' ti te rels (graph_blocks E ti te rels)"
  using assms unfolding kg_rep_def graph_blocks_def by auto

lemma graph_below:
  assumes "cid_env E" "\<And>c. c \<in> R \<Longrightarrow> set (store_links E s m c) \<subseteq> R"
    and "kg_rep E S sinv kg ti te rels B" "stored E m (graph_blocks E ti te rels)"
    and "kg_index kg \<in> R" "kg_edges kg \<in> R"
  shows "dag_cbor_cid E ` graph_blocks E ti te rels \<subseteq> R"
    "tget ti k 0 = Some v \<Longrightarrow> v \<in> R" "length k = 32 \<Longrightarrow> set (rels k) \<subseteq> R"
proof -
  have r: "twf [] ti" "twf [] te" "tcid E ti \<in> R" "tcid E te \<in> R"
    "stored E m (tblocks E ti)" "stored E m (tblocks E te)"
    using assms(3-6) by (auto simp: kg_rep_def graph_blocks_def stored_def)
  note ti = trie_below [OF assms(1,2) r(1,5,3)] and te = trie_below [OF assms(1,2) r(2,6,4)]
  have l: "dag_cbor_cid E (list_block E (rels k)) \<in> R" "set (rels k) \<subseteq> R" if "length k = 32" "rels k \<noteq> []" for k
  proof -
    have k: "tget te k 0 = Some (dag_cbor_cid E (list_block E (rels k)))" "seq_ok E (rels k)"
      using assms(3) that by (auto simp: kg_rep_def)
    show c: "dag_cbor_cid E (list_block E (rels k)) \<in> R" using te k(1) by auto
    have "list_block E (rels k) \<in> graph_blocks E ti te rels" using that by (auto simp: graph_blocks_def)
    from storedD [OF assms(4) this] assms(2) [OF c] list_links [OF assms(1) k(2)]
    show "set (rels k) \<subseteq> R" by metis
  qed
  show "dag_cbor_cid E ` graph_blocks E ti te rels \<subseteq> R" using ti te l by (auto simp: graph_blocks_def)
  show "tget ti k 0 = Some v \<Longrightarrow> v \<in> R" using ti by simp
  show "length k = 32 \<Longrightarrow> set (rels k) \<subseteq> R" using l by (cases "rels k = []") auto
qed

subsection \<open>Collecting and reading back\<close>

context cold_store
begin

text \<open>A collection adds nothing.\<close>

lemma sweep_loop_le: "kinv k \<Longrightarrow> sweep_loop K k live cids del = (k', r) \<Longrightarrow> content k' \<subseteq>\<^sub>m content k"
proof (induction cids arbitrary: k del)
  case (Cons cid cids)
  obtain k1 res where d: "ct_delete K k cid = (k1, res)" by force
  have k1: "kinv k1" "content k1 \<subseteq>\<^sub>m content k"
    using delete_ok [OF Cons.prems(1), of cid k1] delete_err [OF Cons.prems(1) d] d
    by (cases "res = Ok ()"; auto simp: map_le_def)+
  show ?case
    using Cons.IH [OF Cons.prems(1)] Cons.IH [OF k1(1)] Cons.prems(2) d k1(2)
    by (cases res) (auto split: if_splits intro: map_le_trans)
qed simp

lemma collect_le:
  assumes "kinv k" "collect E K fuel k pins kh = (k', r)"
  shows "content k' \<subseteq>\<^sub>m content k"
proof (cases "reachable E K fuel k pins kh")
  case live: (Ok live)
  show ?thesis
  proof (cases "ct_list_cids K k")
    case (Ok all)
    obtain k1 r1 where sw: "sweep_loop K k live all [] = (k1, r1)" by force
    then have "k' = k1" using assms(2) live Ok by (cases r1) (auto simp: collect_def)
    with sweep_loop_le [OF assms(1) sw] show ?thesis by simp
  qed (use assms(2) live in \<open>auto simp: collect_def\<close>)
qed (use assms(2) in \<open>auto simp: collect_def\<close>)

text \<open>Whatever is below a root survives a collection that pins it, and a fresh store hydrates it.\<close>

lemma collect_then_hydrate:
  assumes "kinv k" "collect E K fuel k [head] kh = (k2, r)" "reads_ok E K k2"
    and "(\<Sum>c \<in> dom (content k2). length (store_links E False (content k2) c)) < fuel'"
  shows "\<exists>ts n. hydrate E K fuel' (ts_new k2) head = (ts, Ok n) \<and> ts_inv ts \<and>
    (\<forall>c \<in> reach (gc_links E kh k) {head}. bs_get mem_store (ts_hot ts) c = content k c)"
proof -
  let ?R = "reach (gc_links E kh k) {head}" and ?t = "ts_new k2 :: ('k, 'c) TieredStore"
  from collect_keeps_live [OF assms(1,2)] have k2: "kinv k2" "\<And>c. c \<in> ?R \<Longrightarrow> content k2 c = content k c"
    by auto
  have hot: "bs_get mem_store (ts_hot ?t) c = None" and cold: "ts_cold ?t = k2" for c
    by (simp_all add: ts_new_def mem_store_def ms_new_def)
  then have L: "hydrate_links E content ?t = store_links E False (content k2)"
    by (simp add: fun_eq_iff hydrate_links_def bs_has_def)
  have "?R \<subseteq> reach (hydrate_links E content ?t) {head}"
  proof
    fix c assume "c \<in> ?R"
    then show "c \<in> reach (hydrate_links E content ?t) {head}"
    proof (induction rule: reach_induct)
      case (step a b)
      then have "b \<in> set (store_links E (\<not> kh) (content k2) a)" by (simp add: store_links_def k2(2))
      then have "b \<in> set (hydrate_links E content ?t a)" unfolding L using store_links_mono by fastforce
      with step.IH show ?case by (rule reach_step)
    qed (rule reach_base)
  qed
  moreover have "ts_inv ?t" by (simp add: ts_inv_def ts_new_def ms_inv_def ms_new_def hm_ok_def)
  moreover have "1 + (\<Sum>c \<in> dom (content (ts_cold ?t)). length (hydrate_links E content ?t c)) \<le> fuel'"
    using assms(4) by (simp add: L cold)
  ultimately show ?thesis
    using hydrate_correct [of ?t E fuel' head] assms(3) k2 hot unfolding cold by fastforce
qed

end

subsection \<open>Restarting\<close>

lemma get_node_keeps:
  assumes "\<And>bs. bs_get S (kg_store kg) c = Some bs \<Longrightarrow> bs_get S (kg_store kg') c = Some bs"
    and "get_node E S kg c = Ok n"
  shows "get_node E S kg' c = Ok n"
  using assms by (cases "bs_get S (kg_store kg) c") (simp_all add: get_node_def)

lemma get_entity_keeps:
  assumes "entity_cid E S kg' i = entity_cid E S kg i" "get_entity E S kg i = Ok on"
    and "\<And>c n. entity_cid E S kg i = Ok (Some c) \<Longrightarrow> get_node E S kg c = Ok n \<Longrightarrow> get_node E S kg' c = Ok n"
  shows "get_entity E S kg' i = Ok on"
proof (cases "entity_cid E S kg i")
  case (Ok oc)
  with assms show ?thesis by (cases oc) (auto simp: get_entity_def obind_eq_Ok)
qed (use assms(2) in \<open>auto simp: get_entity_def\<close>)

lemma relations_of_keeps:
  assumes "relation_cids E S kg' i = relation_cids E S kg i" "relations_of E S kg i = Ok rs"
    and "\<And>c cs n. relation_cids E S kg i = Ok cs \<Longrightarrow> c \<in> set cs \<Longrightarrow> get_node E S kg c = Ok n \<Longrightarrow> get_node E S kg' c = Ok n"
  shows "relations_of E S kg' i = Ok rs"
proof -
  from assms(2) obtain cs where cs: "relation_cids E S kg i = Ok cs"
    "omap_list (\<lambda>c. obind (get_node E S kg c) (\<lambda>n. Ok (c, n))) cs = Ok rs"
    by (auto simp: relations_of_def obind_eq_Ok)
  have "omap_list (\<lambda>c. obind (get_node E S kg' c) (\<lambda>n. Ok (c, n))) ds = Ok r"
    if "omap_list (\<lambda>c. obind (get_node E S kg c) (\<lambda>n. Ok (c, n))) ds = Ok r" "set ds \<subseteq> set cs" for ds r
    using that assms(3) [OF cs(1)]
    by (induction ds arbitrary: r) (fastforce simp: obind_eq_Ok)+
  with cs assms(1) show ?thesis by (simp add: relations_of_def)
qed

lemma commit_reads:
  assumes "cid_env E" "ts_inv (kg_store kg)" "vb = encode_dag_cbor E (vi_to_ipld (kg_vindex kg))"
    and "hb = encode_dag_cbor E (head_ipld kg (dag_cbor_cid E vb))" "commit E tiered_store kg = (kg1, Ok head)"
  shows "bs_get tiered_store (kg_store kg1) c =
    (if c = dag_cbor_cid E hb then Some hb else if c = dag_cbor_cid E vb then Some vb
     else bs_get tiered_store (kg_store kg) c)"
proof -
  let ?vc = "dag_cbor_cid E vb" and ?hc = "dag_cbor_cid E hb"
  have kg1: "kg_store kg1 = bs_put tiered_store (bs_put tiered_store (kg_store kg) ?vc vb) ?hc hb"
    using assms(5) unfolding tiered.commit_eq [OF assms(1)] Let_def assms(3,4) [symmetric] by auto
  show ?thesis
    unfolding kg1 tiered.get_put [OF tiered.inv_put [OF assms(2)]] tiered.get_put [OF assms(2)] by simp
qed

text \<open>The store after a commit, when the two new blocks do not clash with a stored one.\<close>

lemma commit_tiered:
  assumes "cid_env E" "ts_inv (kg_store kg)" "ts_synced content (kg_store kg)"
    and "vb = encode_dag_cbor E (vi_to_ipld (kg_vindex kg))"
    and "hb = encode_dag_cbor E (head_ipld kg (dag_cbor_cid E vb))"
    and "dag_cbor_cid E hb \<noteq> dag_cbor_cid E vb"
    and "\<forall>b \<in> {hb, vb}. bs_get tiered_store (kg_store kg) (dag_cbor_cid E b) \<in> {None, Some b}"
    and "commit E tiered_store kg = (kg1, Ok head)"
  shows "head = dag_cbor_cid E hb" "ts_inv (kg_store kg1)" "ts_synced content (kg_store kg1)"
    "ts_cold (kg_store kg1) = ts_cold (kg_store kg)"
    "bs_get tiered_store (kg_store kg1) (dag_cbor_cid E hb) = Some hb"
    "bs_get tiered_store (kg_store kg1) (dag_cbor_cid E vb) = Some vb"
    "bs_get tiered_store (kg_store kg) c = Some bs \<Longrightarrow> bs_get tiered_store (kg_store kg1) c = Some bs"
proof -
  let ?vc = "dag_cbor_cid E vb" and ?hc = "dag_cbor_cid E hb"
  let ?s1 = "bs_put tiered_store (kg_store kg) ?vc vb"
  have kg1: "kg_store kg1 = bs_put tiered_store ?s1 ?hc hb" and "head = ?hc"
    using assms(8) unfolding tiered.commit_eq [OF assms(1)] Let_def assms(4,5) [symmetric] by auto
  then show "head = ?hc" by simp
  have i: "ts_inv ?s1" "ts_synced content ?s1"
    using tiered.inv_put [OF assms(2)] ts_synced_put [OF assms(2,3)] by auto
  show "ts_inv (kg_store kg1)" "ts_synced content (kg_store kg1)"
    unfolding kg1 using tiered.inv_put [OF i(1)] ts_synced_put [OF i] by auto
  show "ts_cold (kg_store kg1) = ts_cold (kg_store kg)" unfolding kg1 by (simp add: tiered_store_def)
  note g = commit_reads [OF assms(1,2,4,5,8)]
  show "bs_get tiered_store (kg_store kg1) ?hc = Some hb" "bs_get tiered_store (kg_store kg1) ?vc = Some vb"
    using assms(6) unfolding g by simp_all
  have "bs_get tiered_store (kg_store kg) ?hc = Some bs \<Longrightarrow> bs = hb"
    "bs_get tiered_store (kg_store kg) ?vc = Some bs \<Longrightarrow> bs = vb" using assms(7) by fastforce+
  then show "bs_get tiered_store (kg_store kg) c = Some bs \<Longrightarrow> bs_get tiered_store (kg_store kg1) c = Some bs"
    unfolding g by metis
qed

lemma head_below:
  assumes "cid_env E" "kg_rep E S sinv kg ti te rels B" "hb = encode_dag_cbor E (head_ipld kg vc)"
    and "m (dag_cbor_cid E hb) = Some hb" "\<forall>c bs. bs_get S (kg_store kg) c = Some bs \<longrightarrow> m c = Some bs"
    and "R = reach (store_links E s m) {dag_cbor_cid E hb}"
  shows "dag_cbor_cid E hb \<in> R" "vc \<in> R" "dag_cbor_cid E ` graph_blocks E ti te rels \<subseteq> R"
    "\<forall>k v. tget ti k 0 = Some v \<longrightarrow> v \<in> R" "\<forall>k. length k = 32 \<longrightarrow> set (rels k) \<subseteq> R"
proof -
  have closed: "set (store_links E s m c) \<subseteq> R" if "c \<in> R" for c
    using that unfolding assms(6) by (auto intro: reach_step)
  have G: "stored E m (graph_blocks E ti te rels)"
    using assms(2,5) kg_rep_blocks [OF assms(2)] unfolding stored_def kg_rep_def holds_def by blast
  show h: "dag_cbor_cid E hb \<in> R" by (simp add: reach_base assms(6))
  have "store_links E s m (dag_cbor_cid E hb) = block_links E s hb" using assms(4) by (simp add: store_links_def)
  then have l: "{kg_index kg, kg_edges kg, vc} \<subseteq> R"
    using closed [OF h] head_links [OF assms(1), of kg vc s, folded assms(3)] by auto
  then show "vc \<in> R" by simp
  have "kg_index kg \<in> R" "kg_edges kg \<in> R" using l by auto
  from graph_below [OF assms(1) closed assms(2) G this]
  show "dag_cbor_cid E ` graph_blocks E ti te rels \<subseteq> R"
    "\<forall>k v. tget ti k 0 = Some v \<longrightarrow> v \<in> R" "\<forall>k. length k = 32 \<longrightarrow> set (rels k) \<subseteq> R" by blast+
qed

text \<open>
  A graph on another store that has every block of the first one within \<open>R\<close> answers as it did.
\<close>

lemma graph_reads_back:
  assumes "cid_env E" "kg_rep E S sinv kg ti te rels B" "kg2 = kg\<lparr>kg_store := s2, kg_prev := p\<rparr>" "sinv s2"
    and "\<forall>c \<in> R. \<forall>bs. bs_get S (kg_store kg) c = Some bs \<longrightarrow> bs_get S s2 c = Some bs"
    and "dag_cbor_cid E ` graph_blocks E ti te rels \<subseteq> R" "\<forall>k v. tget ti k 0 = Some v \<longrightarrow> v \<in> R"
    and "\<forall>k. length k = 32 \<longrightarrow> set (rels k) \<subseteq> R"
  shows "kg_rep E S sinv kg2 ti te rels (graph_blocks E ti te rels)"
    "entity_cid E S kg2 i = entity_cid E S kg i"
    "get_entity E S kg i = Ok e \<Longrightarrow> get_entity E S kg2 i = Ok e"
    "length i = 32 \<Longrightarrow> relations_of E S kg i = Ok rs \<Longrightarrow> relations_of E S kg2 i = Ok rs"
proof -
  have "holds S E s2 (graph_blocks E ti te rels)"
    using assms(2,5,6) kg_rep_blocks [OF assms(2)] unfolding holds_def kg_rep_def by blast
  then show rep2: "kg_rep E S sinv kg2 ti te rels (graph_blocks E ti te rels)"
    by (intro kg_rep_graph_blocks [OF assms(2)]) (simp_all add: assms(3,4))
  note cids = entity_cid_rep [OF assms(1,2)] entity_cid_rep [OF assms(1) rep2]
  note rcids = relation_cids_rep [OF assms(1,2)] relation_cids_rep [OF assms(1) rep2]
  have nodes: "get_node E S kg2 c = Ok n" if "get_node E S kg c = Ok n" "c \<in> R" for c n
    by (rule get_node_keeps [OF _ that(1)]) (use assms(5) that(2) in \<open>auto simp: assms(3)\<close>)
  show "entity_cid E S kg2 i = entity_cid E S kg i" by (simp add: cids)
  show "get_entity E S kg2 i = Ok e" if "get_entity E S kg i = Ok e"
    by (rule get_entity_keeps [OF _ that]) (use assms(7) in \<open>auto simp: cids intro: nodes\<close>)
  show "relations_of E S kg2 i = Ok rs" if "length i = 32" "relations_of E S kg i = Ok rs"
    by (rule relations_of_keeps [OF _ that(2)]) (use assms(8) [rule_format, OF that(1)] in \<open>auto simp: rcids that(1) intro: nodes\<close>)
qed

subsection \<open>An empty graph\<close>

text \<open>
  The empty graph on an empty memory backend: its head, the block of the empty trie and the block of
  the empty vector index.
\<close>

lemma flush_loop_memory: "snd (flush_loop memory_block_store ts cids) = Ok ()"
  by (induction cids arbitrary: ts) (simp_all add: memory_block_store_def split: option.split)

lemma reads_ok_memory:
  assumes "mb_inv k" "\<And>c bs. mb_content k c = Some bs \<Longrightarrow> from_dag_cbor E bs \<noteq> Panic"
  shows "reads_ok E memory_block_store k"
  using assms(2) unfolding reads_ok_def memory_block_store_def mb_content_def by fastforce

definition kg_fresh :: "((u64 + u64 \<times> u64) MemoryBlockStore, u64 + u64 \<times> u64) TieredStore \<Rightarrow>
    ((((u64 + u64 \<times> u64) MemoryBlockStore, u64 + u64 \<times> u64) TieredStore), u64 + u64 \<times> u64) KnowledgeGraph" where
  "kg_fresh s =
     \<lparr>kg_store = bs_put tiered_store (bs_put tiered_store s (tcid crate_len tempty) (tbytes crate_len tempty))
         (tcid crate_len tempty) (tbytes crate_len tempty),
      kg_index = tcid crate_len tempty, kg_edges = tcid crate_len tempty, kg_prev = None, kg_vindex = vi_new DEFAULT_DIM\<rparr>"

lemma kg_new_fresh: "kg_new crate_len tiered_store s = Ok (kg_fresh s)"
  by (simp add: kg_new_def hamt_empty_def node_to_cid_eq [OF cid_env_crate_len] kg_fresh_def
      tcid_def tbytes_def)

lemma ts_new_ok:
  "ts_inv (ts_new mb_new :: ('c MemoryBlockStore, 'c) TieredStore)"
  "ts_synced mb_content (ts_new mb_new :: ('c MemoryBlockStore, 'c) TieredStore)"
  by (simp_all add: ts_inv_def ts_synced_def ts_new_def ms_inv_def ms_new_def hm_ok_def mem_store_def)

lemma kg_fresh_ok:
  "ts_inv (kg_store (kg_fresh (ts_new mb_new)))" "ts_synced mb_content (kg_store (kg_fresh (ts_new mb_new)))"
  "ts_cold (kg_store (kg_fresh (ts_new mb_new))) = mb_new"
  "bs_get tiered_store (kg_store (kg_fresh (ts_new mb_new))) c =
     (if c = tcid crate_len tempty then Some (tbytes crate_len tempty) else None)"
proof -
  let ?e = "ts_new mb_new :: ((u64 + u64 \<times> u64) MemoryBlockStore, u64 + u64 \<times> u64) TieredStore"
  let ?s = "bs_put tiered_store ?e (tcid crate_len tempty) (tbytes crate_len tempty)"
  have i: "ts_inv ?s" "ts_synced mb_content ?s"
    by (rule tiered.inv_put [OF ts_new_ok(1)], rule ts_synced_put [OF ts_new_ok])
  show "ts_inv (kg_store (kg_fresh (ts_new mb_new)))" "ts_synced mb_content (kg_store (kg_fresh (ts_new mb_new)))"
    using tiered.inv_put [OF i(1)] ts_synced_put [OF i] by (auto simp: kg_fresh_def)
  show "ts_cold (kg_store (kg_fresh (ts_new mb_new))) = mb_new"
    by (simp add: kg_fresh_def tiered_store_def ts_new_def)
  have "bs_get tiered_store ?e c = None" by (simp add: ts_new_def mem_store_def ms_new_def)
  then show "bs_get tiered_store (kg_store (kg_fresh (ts_new mb_new))) c =
     (if c = tcid crate_len tempty then Some (tbytes crate_len tempty) else None)"
    by (simp add: kg_fresh_def tiered.get_put [OF i(1)] tiered.get_put [OF ts_new_ok(1)] del: tiered_get)
qed

lemma kg_fresh_blocks:
  assumes "vb = encode_dag_cbor crate_len (vi_to_ipld (kg_vindex (kg_fresh s)))"
    and "hb = encode_dag_cbor crate_len (head_ipld (kg_fresh s) (dag_cbor_cid crate_len vb))"
  shows "length vb = 30" "length hb = 112"
    "from_dag_cbor crate_len vb \<noteq> Panic" "from_dag_cbor crate_len hb \<noteq> Panic"
    "from_dag_cbor crate_len (tbytes crate_len tempty) \<noteq> Panic" "vi_ok crate_len (kg_vindex (kg_fresh s))"
proof -
  have "\<exists>x. dag_cbor_cid crate_len b = Inr x" for b by (simp add: dag_cbor_cid_crate_len)
  then obtain x y where xy: "dag_cbor_cid crate_len vb = Inr x" "tcid crate_len tempty = Inr y"
    unfolding tcid_def by blast
  show "length vb = 30"
    by (simp add: assms(1) kg_fresh_def vi_new_def DEFAULT_DIM_def vi_to_ipld_def bt_collect_def less_char_def
        encode_cbor_length_def encode_cbor_integer_def Let_def str_bytes_def)
  show "length hb = 112"
    unfolding assms(2) xy(1) using xy(2)
    by (cases x; cases y) (simp add: head_ipld_def bt_collect_def less_char_def link_def
        encode_cbor_length_def encode_cbor_tag_def CID_TAG_def encode_cbor_integer_def Let_def str_bytes_def
        crate_len_def crate64_def kg_fresh_def)
  show v: "vi_ok crate_len (kg_vindex (kg_fresh s))"
    by (simp add: vi_ok_def kg_fresh_def vi_new_def seq_ok_def DEFAULT_DIM_def)
  have d: "from_dag_cbor crate_len (encode_dag_cbor crate_len i) \<noteq> Panic" if "ipld_ok crate_len i" for i
    using from_dag_cbor_encode [OF that, of "[]"] by simp
  show "from_dag_cbor crate_len vb \<noteq> Panic" "from_dag_cbor crate_len hb \<noteq> Panic"
    using d [OF vi_to_ipld_ok [OF cid_env_crate_len v]] d [OF head_ipld_ok [OF cid_env_crate_len]]
    unfolding assms by blast+
  show "from_dag_cbor crate_len (tbytes crate_len tempty) \<noteq> Panic"
    unfolding tbytes_def node_bytes_def
    by (intro d node_ipld_ok cid_env_crate_len) (simp_all add: WIDTH_def)
qed

end
