(* ===== verification/Pinning.thy ===== *)
theory Pinning
  imports Cid_Core Worklist
begin

text \<open>
  Pins (\<open>ipfrs-storage/src/pinning.rs\<close>): reference-counted entries per CID, with statistics.

  The concurrent map is an association list under the CID's bytes, and the operations run one after
  the other. \<open>clock key\<close> is the time read when the entry of \<open>key\<close> is created. Reference counts are
  32-bit and the statistics 64-bit words, whose additions wrap as in a release build. The link
  resolver is a function that may fail, and the two recursive operations take fuel; the lemmas
  \<open>pin_recursive_effect\<close> and \<open>unpin_recursive_effect\<close> say how much is enough. The methods that always
  return \<open>Ok(())\<close> return the manager only. Reading and writing the file is left out of \<open>save\<close> and
  \<open>load\<close>, and the serialisation of the crate \<open>oxicode\<close> is a parameter.
\<close>

subsection \<open>The code\<close>

datatype PinType = Direct | Recursive | Indirect

record PinInfo =
  pin_type :: PinType
  ref_count :: u32
  created_at :: u64
  pin_name :: "string option"
  pinned_by :: "bytes option"

definition pi_new :: "u64 \<Rightarrow> PinType \<Rightarrow> PinInfo" where
  "pi_new now ty = \<lparr>pin_type = ty, ref_count = 1, created_at = now, pin_name = None, pinned_by = None\<rparr>"

definition with_name :: "PinInfo \<Rightarrow> string \<Rightarrow> PinInfo" where
  "with_name info name = info\<lparr>pin_name := Some name\<rparr>"

definition with_parent :: "'c cid_crate \<Rightarrow> PinInfo \<Rightarrow> 'c \<Rightarrow> PinInfo" where
  "with_parent E info parent = info\<lparr>pinned_by := Some (cid_to_bytes E parent)\<rparr>"

record PinStats =
  total_pins :: u64
  direct_pins :: u64
  recursive_pins :: u64
  indirect_pins :: u64

definition stats_increment :: "PinStats \<Rightarrow> PinType \<Rightarrow> PinStats" where
  "stats_increment st ty =
     (let st = st\<lparr>total_pins := total_pins st + 1\<rparr> in
      case ty of Direct \<Rightarrow> st\<lparr>direct_pins := direct_pins st + 1\<rparr>
      | Recursive \<Rightarrow> st\<lparr>recursive_pins := recursive_pins st + 1\<rparr>
      | Indirect \<Rightarrow> st\<lparr>indirect_pins := indirect_pins st + 1\<rparr>)"

definition stats_decrement :: "PinStats \<Rightarrow> PinType \<Rightarrow> PinStats" where
  "stats_decrement st ty =
     (let st = st\<lparr>total_pins := total_pins st - 1\<rparr> in
      case ty of Direct \<Rightarrow> st\<lparr>direct_pins := direct_pins st - 1\<rparr>
      | Recursive \<Rightarrow> st\<lparr>recursive_pins := recursive_pins st - 1\<rparr>
      | Indirect \<Rightarrow> st\<lparr>indirect_pins := indirect_pins st - 1\<rparr>)"

definition stats_default :: PinStats where
  "stats_default = \<lparr>total_pins = 0, direct_pins = 0, recursive_pins = 0, indirect_pins = 0\<rparr>"

record PinManager =
  pm_pins :: "(bytes \<times> PinInfo) list"
  pm_stats :: PinStats

definition pm_new :: PinManager where
  "pm_new = \<lparr>pm_pins = [], pm_stats = stats_default\<rparr>"

definition pin_with_type ::
    "'c cid_crate \<Rightarrow> (bytes \<Rightarrow> u64) \<Rightarrow> PinManager \<Rightarrow> 'c \<Rightarrow> PinType \<Rightarrow> string option \<Rightarrow> PinManager" where
  "pin_with_type E clock pm cid ty name =
     (let key = cid_to_bytes E cid in
      case map_of (pm_pins pm) key of
        Some info \<Rightarrow>
          let info = info\<lparr>ref_count := ref_count info + 1\<rparr> in
          if ty = Recursive \<and> pin_type info = Direct
          then \<lparr>pm_pins = hm_insert key (info\<lparr>pin_type := Recursive\<rparr>) (pm_pins pm),
                pm_stats = stats_increment (stats_decrement (pm_stats pm) Direct) Recursive\<rparr>
          else pm\<lparr>pm_pins := hm_insert key info (pm_pins pm)\<rparr>
      | None \<Rightarrow>
          let info = pi_new (clock key) ty;
              info = (case name of Some n \<Rightarrow> with_name info n | None \<Rightarrow> info)
          in \<lparr>pm_pins = hm_insert key info (pm_pins pm), pm_stats = stats_increment (pm_stats pm) ty\<rparr>)"

definition pin :: "'c cid_crate \<Rightarrow> (bytes \<Rightarrow> u64) \<Rightarrow> PinManager \<Rightarrow> 'c \<Rightarrow> PinManager" where
  "pin E clock pm cid = pin_with_type E clock pm cid Direct None"

definition pin_named :: "'c cid_crate \<Rightarrow> (bytes \<Rightarrow> u64) \<Rightarrow> PinManager \<Rightarrow> 'c \<Rightarrow> string \<Rightarrow> PinManager" where
  "pin_named E clock pm cid name = pin_with_type E clock pm cid Direct (Some name)"

definition pin_indirect :: "'c cid_crate \<Rightarrow> (bytes \<Rightarrow> u64) \<Rightarrow> PinManager \<Rightarrow> 'c \<Rightarrow> 'c \<Rightarrow> PinManager" where
  "pin_indirect E clock pm cid parent =
     (let key = cid_to_bytes E cid in
      case map_of (pm_pins pm) key of
        Some info \<Rightarrow> pm\<lparr>pm_pins := hm_insert key (info\<lparr>ref_count := ref_count info + 1\<rparr>) (pm_pins pm)\<rparr>
      | None \<Rightarrow>
          \<lparr>pm_pins = hm_insert key (with_parent E (pi_new (clock key) Indirect) parent) (pm_pins pm),
           pm_stats = stats_increment (pm_stats pm) Indirect\<rparr>)"

text \<open>The loops of \<open>pin_recursive\<close>; their variables are \<open>pinned_count\<close>, \<open>to_process\<close> and \<open>seen\<close>.\<close>

fun pin_links ::
    "'c cid_crate \<Rightarrow> (bytes \<Rightarrow> u64) \<Rightarrow> 'c \<Rightarrow> 'c list \<Rightarrow> PinManager \<times> nat \<times> 'c list \<times> 'c list
       \<Rightarrow> PinManager \<times> nat \<times> 'c list \<times> 'c list" where
  "pin_links E clock root [] st = st"
| "pin_links E clock root (l # ls) (pm, count, to_process, seen) =
     (if l \<in> set seen then pin_links E clock root ls (pm, count, to_process, seen)
      else pin_links E clock root ls
        (pin_indirect E clock pm l root, count + 1, to_process @ [l], hs_insert l seen))"

fun pin_loop ::
    "'c cid_crate \<Rightarrow> (bytes \<Rightarrow> u64) \<Rightarrow> ('c \<Rightarrow> (core_error, 'c list) outcome) \<Rightarrow> 'c \<Rightarrow> nat
       \<Rightarrow> PinManager \<times> nat \<times> 'c list \<times> 'c list \<Rightarrow> PinManager \<times> (core_error, nat) outcome" where
  "pin_loop E clock link_resolver root 0 (pm, count, to_process, seen) =
     (pm, if to_process = [] then Ok count else Diverge)"
| "pin_loop E clock link_resolver root (Suc fuel) (pm, count, to_process, seen) =
     (if to_process = [] then (pm, Ok count)
      else sbind (pm, link_resolver (last to_process)) (\<lambda>pm links.
        pin_loop E clock link_resolver root fuel
          (pin_links E clock root links (pm, count, butlast to_process, seen))))"

definition pin_recursive ::
    "'c cid_crate \<Rightarrow> (bytes \<Rightarrow> u64) \<Rightarrow> nat \<Rightarrow> PinManager \<Rightarrow> 'c \<Rightarrow> ('c \<Rightarrow> (core_error, 'c list) outcome)
       \<Rightarrow> PinManager \<times> (core_error, nat) outcome" where
  "pin_recursive E clock fuel pm cid link_resolver =
     pin_loop E clock link_resolver cid fuel
       (pin_with_type E clock pm cid Recursive None, 1, [cid], hs_insert cid [])"

definition unpin :: "'c cid_crate \<Rightarrow> PinManager \<Rightarrow> 'c \<Rightarrow> PinManager \<times> bool" where
  "unpin E pm cid =
     (let key = cid_to_bytes E cid in
      case map_of (pm_pins pm) key of
        None \<Rightarrow> (pm, False)
      | Some info \<Rightarrow>
          if ref_count info \<le> 1
          then (\<lparr>pm_pins = hm_remove key (pm_pins pm), pm_stats = stats_decrement (pm_stats pm) (pin_type info)\<rparr>, True)
          else (pm\<lparr>pm_pins := hm_insert key (info\<lparr>ref_count := ref_count info - 1\<rparr>) (pm_pins pm)\<rparr>, False))"

fun unpin_loop ::
    "'c cid_crate \<Rightarrow> ('c \<Rightarrow> (core_error, 'c list) outcome) \<Rightarrow> nat \<Rightarrow> PinManager \<Rightarrow> nat \<Rightarrow> 'c list \<Rightarrow> 'c list
       \<Rightarrow> PinManager \<times> (core_error, nat) outcome" where
  "unpin_loop E link_resolver 0 pm count to_process seen =
     (pm, if to_process = [] then Ok count else Diverge)"
| "unpin_loop E link_resolver (Suc fuel) pm count to_process seen =
     (if to_process = [] then (pm, Ok count)
      else let current = last to_process; to_process = butlast to_process in
        if current \<in> set seen then unpin_loop E link_resolver fuel pm count to_process seen
        else let (pm, removed) = unpin E pm current;
                 count = (if removed then count + 1 else count);
                 seen = hs_insert current seen
          in case link_resolver current of
               Ok links \<Rightarrow> unpin_loop E link_resolver fuel pm count (to_process @ links) seen
             | Err _ \<Rightarrow> unpin_loop E link_resolver fuel pm count to_process seen
             | Panic \<Rightarrow> (pm, Panic)
             | Diverge \<Rightarrow> (pm, Diverge))"

definition unpin_recursive ::
    "'c cid_crate \<Rightarrow> nat \<Rightarrow> PinManager \<Rightarrow> 'c \<Rightarrow> ('c \<Rightarrow> (core_error, 'c list) outcome)
       \<Rightarrow> PinManager \<times> (core_error, nat) outcome" where
  "unpin_recursive E fuel pm cid link_resolver = unpin_loop E link_resolver fuel pm 0 [cid] []"

definition get_pin_info :: "'c cid_crate \<Rightarrow> PinManager \<Rightarrow> 'c \<Rightarrow> PinInfo option" where
  "get_pin_info E pm cid = map_of (pm_pins pm) (cid_to_bytes E cid)"

definition is_pinned :: "'c cid_crate \<Rightarrow> PinManager \<Rightarrow> 'c \<Rightarrow> bool" where
  "is_pinned E pm cid \<longleftrightarrow> map_of (pm_pins pm) (cid_to_bytes E cid) \<noteq> None"

definition key_cid :: "'c cid_crate \<Rightarrow> bytes \<Rightarrow> (core_error, 'c) outcome" where
  "key_cid E key = ok_or (Error_Cid ''Invalid CID'') (cid_try_from E key)"

definition list_pins :: "'c cid_crate \<Rightarrow> PinManager \<Rightarrow> (core_error, ('c \<times> PinInfo) list) outcome" where
  "list_pins E pm = omap_list (\<lambda>(key, info). obind (key_cid E key) (\<lambda>cid. Ok (cid, info))) (pm_pins pm)"

definition list_pins_by_type :: "'c cid_crate \<Rightarrow> PinManager \<Rightarrow> PinType \<Rightarrow> (core_error, 'c list) outcome" where
  "list_pins_by_type E pm ty =
     omap_list (\<lambda>(key, info). key_cid E key) (filter (\<lambda>(key, info). pin_type info = ty) (pm_pins pm))"

record pin_codec =
  pc_encode :: "(bytes \<times> PinInfo) list \<Rightarrow> bytes option"
  pc_decode :: "bytes \<Rightarrow> (bytes \<times> PinInfo) list option"

definition pm_save :: "pin_codec \<Rightarrow> PinManager \<Rightarrow> (core_error, bytes) outcome" where
  "pm_save C pm = ok_or (Serialization ''Failed to serialize pins'') (pc_encode C (pm_pins pm))"

definition pm_load :: "pin_codec \<Rightarrow> bytes \<Rightarrow> (core_error, PinManager) outcome" where
  "pm_load C data =
     obind (ok_or (Deserialization ''Failed to deserialize pins'') (pc_decode C data)) (\<lambda>pins.
       Ok (foldl (\<lambda>pm (key, info). \<lparr>pm_pins = hm_insert key info (pm_pins pm),
                                    pm_stats = stats_increment (pm_stats pm) (pin_type info)\<rparr>) pm_new pins))"

definition pm_clear :: "PinManager \<Rightarrow> PinManager" where
  "pm_clear pm = \<lparr>pm_pins = [], pm_stats = stats_default\<rparr>"

record PinSet =
  set_name :: string
  set_description :: "string option"
  set_cids :: "bytes list"
  set_created_at :: u64

definition ps_new :: "u64 \<Rightarrow> string \<Rightarrow> PinSet" where
  "ps_new now name = \<lparr>set_name = name, set_description = None, set_cids = [], set_created_at = now\<rparr>"

definition ps_add :: "'c cid_crate \<Rightarrow> PinSet \<Rightarrow> 'c \<Rightarrow> PinSet" where
  "ps_add E ps cid =
     (let bytes = cid_to_bytes E cid in
      if bytes \<in> set (set_cids ps) then ps else ps\<lparr>set_cids := set_cids ps @ [bytes]\<rparr>)"

definition ps_remove :: "'c cid_crate \<Rightarrow> PinSet \<Rightarrow> 'c \<Rightarrow> PinSet" where
  "ps_remove E ps cid = ps\<lparr>set_cids := filter (\<lambda>c. c \<noteq> cid_to_bytes E cid) (set_cids ps)\<rparr>"

definition ps_contains :: "'c cid_crate \<Rightarrow> PinSet \<Rightarrow> 'c \<Rightarrow> bool" where
  "ps_contains E ps cid \<longleftrightarrow> cid_to_bytes E cid \<in> set (set_cids ps)"

definition ps_list_cids :: "'c cid_crate \<Rightarrow> PinSet \<Rightarrow> (core_error, 'c list) outcome" where
  "ps_list_cids E ps = omap_list (key_cid E) (set_cids ps)"

definition ps_len :: "PinSet \<Rightarrow> nat" where
  "ps_len ps = length (set_cids ps)"

definition ps_is_empty :: "PinSet \<Rightarrow> bool" where
  "ps_is_empty ps \<longleftrightarrow> set_cids ps = []"

subsection \<open>Statistics\<close>

definition wcount :: "(bytes \<times> PinInfo) list \<Rightarrow> PinType \<Rightarrow> u64" where
  "wcount pins ty = of_nat (length (filter (\<lambda>e. pin_type (snd e) = ty) pins))"

text \<open>Each counter is the number of entries it counts, modulo 2^64.\<close>

definition pm_inv :: "PinManager \<Rightarrow> bool" where
  "pm_inv pm \<longleftrightarrow>
     hm_ok (pm_pins pm) \<and>
     total_pins (pm_stats pm) = of_nat (length (pm_pins pm)) \<and>
     direct_pins (pm_stats pm) = wcount (pm_pins pm) Direct \<and>
     recursive_pins (pm_stats pm) = wcount (pm_pins pm) Recursive \<and>
     indirect_pins (pm_stats pm) = wcount (pm_pins pm) Indirect"

lemma wcount_insert:
  "hm_ok pins \<Longrightarrow> wcount (hm_insert k i pins) ty =
     wcount pins ty - (case map_of pins k of Some j \<Rightarrow> if pin_type j = ty then 1 else 0 | None \<Rightarrow> 0) +
     (if pin_type i = ty then 1 else 0)"
  by (induction pins) (auto simp: wcount_def hm_insert_def hm_ok_def split: option.split)

lemma wcount_remove:
  "hm_ok pins \<Longrightarrow> map_of pins k = Some j \<Longrightarrow>
   wcount (hm_remove k pins) ty = wcount pins ty - (if pin_type j = ty then 1 else 0)"
proof (induction pins)
  case (Cons e pins)
  have "hm_remove k pins = pins" if "k \<notin> set (map fst pins)"
    using that by (simp add: hm_remove_def AList.delete_eq filter_id_conv image_iff) force
  then show ?case using Cons
    by (auto simp: wcount_def hm_remove_def hm_ok_def split: if_splits)
qed simp

lemma length_hm_remove:
  "hm_ok pins \<Longrightarrow> map_of pins k = Some j \<Longrightarrow> Suc (length (hm_remove k pins)) = length pins"
proof (induction pins)
  case (Cons e pins)
  have "hm_remove k pins = pins" if "k \<notin> set (map fst pins)"
    using that by (simp add: hm_remove_def AList.delete_eq filter_id_conv image_iff) force
  then show ?case using Cons by (auto simp: hm_remove_def hm_ok_def split: if_splits)
qed simp

lemma stats_simps [simp]:
  "total_pins (stats_increment st ty) = total_pins st + 1"
  "direct_pins (stats_increment st ty) = direct_pins st + (if ty = Direct then 1 else 0)"
  "recursive_pins (stats_increment st ty) = recursive_pins st + (if ty = Recursive then 1 else 0)"
  "indirect_pins (stats_increment st ty) = indirect_pins st + (if ty = Indirect then 1 else 0)"
  "total_pins (stats_decrement st ty) = total_pins st - 1"
  "direct_pins (stats_decrement st ty) = direct_pins st - (if ty = Direct then 1 else 0)"
  "recursive_pins (stats_decrement st ty) = recursive_pins st - (if ty = Recursive then 1 else 0)"
  "indirect_pins (stats_decrement st ty) = indirect_pins st - (if ty = Indirect then 1 else 0)"
  by (cases ty; simp add: stats_increment_def stats_decrement_def)+

lemma wcount_simps:
  "wcount [] ty = 0" "wcount (e # pins) ty = (if pin_type (snd e) = ty then 1 else 0) + wcount pins ty"
  by (simp_all add: wcount_def)

lemma pm_inv_pin_with_type: "pm_inv pm \<Longrightarrow> pm_inv (pin_with_type E clock pm cid ty name)"
  by (cases "map_of (pm_pins pm) (cid_to_bytes E cid)"; cases name)
    (simp_all add: pm_inv_def pin_with_type_def Let_def wcount_insert length_hm_insert pi_new_def with_name_def)

lemma pm_inv_pin_indirect: "pm_inv pm \<Longrightarrow> pm_inv (pin_indirect E clock pm cid parent)"
  by (cases "map_of (pm_pins pm) (cid_to_bytes E cid)")
    (simp_all add: pm_inv_def pin_indirect_def Let_def wcount_insert length_hm_insert pi_new_def with_parent_def)

lemma pm_inv_unpin: "pm_inv pm \<Longrightarrow> pm_inv (fst (unpin E pm cid))"
proof -
  assume p: "pm_inv pm"
  let ?k = "cid_to_bytes E cid"
  show ?thesis
  proof (cases "map_of (pm_pins pm) ?k")
    case (Some info)
    have ok: "hm_ok (pm_pins pm)" using p by (simp add: pm_inv_def)
    have "of_nat (length (hm_remove ?k (pm_pins pm))) = (of_nat (length (pm_pins pm)) - 1 :: u64)"
      unfolding length_hm_remove [OF ok Some, symmetric] by simp
    then show ?thesis using p Some wcount_remove [OF ok Some] wcount_insert [OF ok]
      by (simp add: pm_inv_def unpin_def Let_def length_hm_insert)
  qed (use p in \<open>simp add: unpin_def Let_def\<close>)
qed

text \<open>What single steps keep, the loops keep.\<close>

lemma pin_loop_preserves:
  assumes "\<And>pm c p. P pm \<Longrightarrow> P (pin_indirect E clock pm c p)" "P pm"
  shows "P (fst (pin_loop E clock F root fuel (pm, count, to_process, seen)))"
proof -
  have links: "P (fst (pin_links E clock root ls (pm, count, to_process, seen)))" if "P pm" for ls pm count to_process seen
    using that by (induction ls arbitrary: pm count to_process seen) (simp_all add: assms(1))
  show ?thesis
    using assms(2)
  proof (induction fuel arbitrary: pm count to_process seen)
    case (Suc fuel)
    show ?case
    proof (cases "F (last to_process)")
      case (Ok ls)
      obtain pm' c' t' s' where l: "pin_links E clock root ls (pm, count, butlast to_process, seen) = (pm', c', t', s')"
        using prod_cases4 by blast
      then have "P pm'" using links [OF Suc.prems, of ls count "butlast to_process" seen] by simp
      with Ok l Suc show ?thesis by simp
    qed (use Suc.prems in simp_all)
  qed simp
qed

lemma unpin_loop_preserves:
  assumes "\<And>pm c. P pm \<Longrightarrow> P (fst (unpin E pm c))" "P pm"
  shows "P (fst (unpin_loop E F fuel pm count to_process seen))"
  using assms(2)
proof (induction fuel arbitrary: pm count to_process seen)
  case (Suc fuel)
  obtain pm' b where u: "unpin E pm (last to_process) = (pm', b)" by force
  have "P pm'" using assms(1) [OF Suc.prems, of "last to_process"] u by simp
  then show ?case using Suc u by (auto simp: Let_def split: outcome.split)
qed simp

subsection \<open>Recursive pinning\<close>

text \<open>What a pin does to the entry of one CID.\<close>

definition bump :: "'c cid_crate \<Rightarrow> (bytes \<Rightarrow> u64) \<Rightarrow> 'c \<Rightarrow> 'c \<Rightarrow> PinInfo option \<Rightarrow> PinInfo" where
  "bump E clock root c oi =
     (case oi of
        Some i \<Rightarrow>
          let i = i\<lparr>ref_count := ref_count i + 1\<rparr>
          in if c = root \<and> pin_type i = Direct then i\<lparr>pin_type := Recursive\<rparr> else i
      | None \<Rightarrow>
          if c = root then pi_new (clock (cid_to_bytes E c)) Recursive
          else with_parent E (pi_new (clock (cid_to_bytes E c)) Indirect) root)"

definition links_of :: "('c \<Rightarrow> (core_error, 'c list) outcome) \<Rightarrow> 'c \<Rightarrow> 'c list" where
  "links_of F c = (case F c of Ok ls \<Rightarrow> ls | _ \<Rightarrow> [])"

lemma cid_to_bytes_inject: "cid_laws E \<Longrightarrow> cid_to_bytes E a = cid_to_bytes E b \<longleftrightarrow> a = b"
  by (metis cid_try_from_to_bytes option.inject)

lemma get_pin_indirect:
  "cid_laws E \<Longrightarrow> c \<noteq> root \<Longrightarrow> get_pin_info E (pin_indirect E clock pm c root) d =
   (if d = c then Some (bump E clock root c (get_pin_info E pm c)) else get_pin_info E pm d)"
  by (cases "map_of (pm_pins pm) (cid_to_bytes E c)")
    (auto simp: get_pin_info_def pin_indirect_def bump_def Let_def cid_to_bytes_inject)

lemma get_pin_root:
  "cid_laws E \<Longrightarrow> get_pin_info E (pin_with_type E clock pm root Recursive None) d =
   (if d = root then Some (bump E clock root root (get_pin_info E pm root)) else get_pin_info E pm d)"
  by (cases "map_of (pm_pins pm) (cid_to_bytes E root)")
    (auto simp: get_pin_info_def pin_with_type_def bump_def Let_def cid_to_bytes_inject)

text \<open>The invariant of the loop: the CIDs seen have been pinned once, the others not.\<close>

definition pinned_once ::
    "'c cid_crate \<Rightarrow> (bytes \<Rightarrow> u64) \<Rightarrow> 'c \<Rightarrow> PinManager \<Rightarrow> PinManager \<Rightarrow> 'c set \<Rightarrow> bool" where
  "pinned_once E clock root pm0 pm A \<longleftrightarrow>
     (\<forall>d. get_pin_info E pm d =
        (if d \<in> A then Some (bump E clock root d (get_pin_info E pm0 d)) else get_pin_info E pm0 d))"

lemma pin_links_effect:
  assumes "cid_laws E" "root \<in> set seen" "pinned_once E clock root pm0 pm (set seen)"
    and "distinct seen" "count = length seen"
    and "pin_links E clock root ls (pm, count, to_process, seen) = (pm', count', to_process', seen')"
  shows "set seen' = set seen \<union> set ls \<and> set to_process' = set to_process \<union> (set ls - set seen) \<and>
    length to_process' + length seen = length to_process + length seen' \<and>
    distinct seen' \<and> count' = length seen' \<and> pinned_once E clock root pm0 pm' (set seen')"
  using assms(2-)
proof (induction ls arbitrary: pm count to_process seen)
  case (Cons l ls)
  show ?case
  proof (cases "l \<in> set seen")
    case True
    then have eq: "set seen \<union> set (l # ls) = set seen \<union> set ls" "set (l # ls) - set seen = set ls - set seen" by auto
    have "pin_links E clock root ls (pm, count, to_process, seen) = (pm', count', to_process', seen')"
      using Cons.prems(5) True by simp
    from Cons.IH [OF Cons.prems(1-4) this] show ?thesis unfolding eq .
  next
    case False
    let ?pm = "pin_indirect E clock pm l root" and ?seen = "hs_insert l seen"
    have "l \<noteq> root" using False Cons.prems(1) by auto
    then have p: "pinned_once E clock root pm0 ?pm (set ?seen)"
      using Cons.prems(2) False by (auto simp: pinned_once_def get_pin_indirect [OF assms(1)])
    have len: "length ?seen = Suc (length seen)" using False by (simp add: hs_insert_def)
    have run: "pin_links E clock root ls (?pm, count + 1, to_process @ [l], ?seen) =
        (pm', count', to_process', seen')" using Cons.prems(5) False by simp
    have "set seen' = set ?seen \<union> set ls \<and>
        set to_process' = set (to_process @ [l]) \<union> (set ls - set ?seen) \<and>
        length to_process' + length ?seen = length (to_process @ [l]) + length seen' \<and>
        distinct seen' \<and> count' = length seen' \<and> pinned_once E clock root pm0 pm' (set seen')"
      by (rule Cons.IH [OF _ p _ _ run]) (use Cons.prems(1,3,4) len in simp_all)
    then show ?thesis using len False by auto
  qed
qed auto

lemma pin_loop_effect:
  assumes "cid_laws E" "R = reach (links_of F) {root}" "finite R" "\<forall>c \<in> R. \<exists>ls. F c = Ok ls"
    and "root \<in> set seen" "pinned_once E clock root pm0 pm (set seen)" "distinct seen"
    and "count = length seen" "set seen \<subseteq> R" "set to_process \<subseteq> set seen"
    and "\<forall>a \<in> set seen - set to_process. set (links_of F a) \<subseteq> set seen"
    and "length to_process + card (R - set seen) \<le> fuel"
  shows "\<exists>pm'. pin_loop E clock F root fuel (pm, count, to_process, seen) = (pm', Ok (card R)) \<and>
    pinned_once E clock root pm0 pm' R"
  using assms(5-)
proof (induction fuel arbitrary: pm count to_process seen)
  case 0
  then have "to_process = []" by simp
  have "R \<subseteq> set seen" unfolding assms(2)
    by (rule reach_least) (use 0 \<open>to_process = []\<close> in auto)
  then have "R = set seen" using "0.prems"(5) by auto
  then show ?case using "0.prems" \<open>to_process = []\<close> by (simp add: distinct_card)
next
  case (Suc fuel)
  show ?case
  proof (cases "to_process = []")
    case True
    have "R \<subseteq> set seen" unfolding assms(2)
      by (rule reach_least) (use Suc.prems True in auto)
    then have "R = set seen" using Suc.prems(5) by auto
    then show ?thesis using Suc.prems True by (simp add: distinct_card)
  next
    case False
    let ?c = "last to_process" and ?rest = "butlast to_process"
    note tp = last_butlast_set [OF False]
    have c: "?c \<in> R" "?c \<in> set seen" using Suc.prems(5,6) False by (auto dest: last_in_set)
    then obtain ls where ls: "F ?c = Ok ls" using assms(4) by blast
    then have L: "links_of F ?c = ls" by (simp add: links_of_def)
    then have lsR: "set ls \<subseteq> R" using c(1) reach_step [of ?c "links_of F" "{root}"] assms(2) by auto
    obtain pm' count' to' seen' where
      run: "pin_links E clock root ls (pm, count, ?rest, seen) = (pm', count', to', seen')"
      using prod_cases4 by blast
    note e = pin_links_effect [OF assms(1) Suc.prems(1,2,3,4) run]
    have lt: "length to_process = Suc (length ?rest)"
      by (metis False append_butlast_last_id length_append_singleton)
    have card: "card (R - set seen') + length seen' = card (R - set seen) + length seen"
    proof -
      have "card (R - A) + card A = card R" if "A \<subseteq> R" for A
        using that assms(3) by (metis add.commute card_mono card_Diff_subset finite_subset le_add_diff_inverse)
      moreover have "set seen' \<subseteq> R" using e lsR Suc.prems(5) by auto
      ultimately show ?thesis using Suc.prems(3,5) e by (metis distinct_card)
    qed
    have "\<exists>pm''. pin_loop E clock F root fuel (pm', count', to', seen') = (pm'', Ok (card R)) \<and>
        pinned_once E clock root pm0 pm'' R"
    proof (rule Suc.IH)
      show "root \<in> set seen'" using e Suc.prems(1) by auto
      show "pinned_once E clock root pm0 pm' (set seen')" "distinct seen'" "count' = length seen'" using e by auto
      show "set seen' \<subseteq> R" using e lsR Suc.prems(5) by auto
      show "set to' \<subseteq> set seen'" using e Suc.prems(6) tp by auto
      show "\<forall>a \<in> set seen' - set to'. set (links_of F a) \<subseteq> set seen'"
      proof
        fix a assume a: "a \<in> set seen' - set to'"
        show "set (links_of F a) \<subseteq> set seen'"
        proof (cases "a = ?c")
          case True
          then show ?thesis using e L by auto
        next
          case ne: False
          then have "a \<in> set seen - set to_process" using a e tp by auto
          then show ?thesis using Suc.prems(7) e by auto
        qed
      qed
      show "length to' + card (R - set seen') \<le> fuel" using e card lt Suc.prems(8) by linarith
    qed
    then show ?thesis using False ls run by simp
  qed
qed

lemma pin_recursive_effect:
  assumes "cid_laws E" "R = reach (links_of F) {root}" "finite R" "\<forall>c \<in> R. \<exists>ls. F c = Ok ls" "card R \<le> fuel"
  shows "\<exists>pm'. pin_recursive E clock fuel pm root F = (pm', Ok (card R)) \<and> pinned_once E clock root pm pm' R"
proof -
  have root: "root \<in> R" using assms(2) by (simp add: reach_base)
  then have "1 + card (R - {root}) = card R" using assms(3) by (metis card.remove plus_1_eq_Suc)
  then have "length [root] + card (R - set (hs_insert root [])) \<le> fuel" using assms(5) by simp
  moreover have "pinned_once E clock root pm (pin_with_type E clock pm root Recursive None) (set (hs_insert root []))"
    by (simp add: pinned_once_def get_pin_root [OF assms(1)])
  ultimately show ?thesis
    unfolding pin_recursive_def using root
    by (intro pin_loop_effect [OF assms(1-4)]) (simp_all add: hs_insert_def)
qed

subsection \<open>Recursive unpinning\<close>

definition unbump :: "PinInfo option \<Rightarrow> PinInfo option" where
  "unbump oi = (case oi of None \<Rightarrow> None
     | Some i \<Rightarrow> if ref_count i \<le> 1 then None else Some (i\<lparr>ref_count := ref_count i - 1\<rparr>))"

definition removed_by :: "PinInfo option \<Rightarrow> bool" where
  "removed_by oi \<longleftrightarrow> oi \<noteq> None \<and> unbump oi = None"

lemma get_unpin:
  assumes "cid_laws E" "hm_ok (pm_pins pm)"
  shows "get_pin_info E (fst (unpin E pm c)) d = (if d = c then unbump (get_pin_info E pm c) else get_pin_info E pm d)"
    and "snd (unpin E pm c) = removed_by (get_pin_info E pm c)"
  using assms
  by (auto simp: get_pin_info_def unpin_def unbump_def removed_by_def Let_def cid_to_bytes_inject split: option.split)

definition unpinned_once :: "'c cid_crate \<Rightarrow> PinManager \<Rightarrow> PinManager \<Rightarrow> 'c set \<Rightarrow> bool" where
  "unpinned_once E pm0 pm A \<longleftrightarrow>
     (\<forall>d. get_pin_info E pm d = (if d \<in> A then unbump (get_pin_info E pm0 d) else get_pin_info E pm0 d))"

lemma hm_ok_unpin: "hm_ok (pm_pins pm) \<Longrightarrow> hm_ok (pm_pins (fst (unpin E pm c)))"
  by (auto simp: unpin_def Let_def split: option.split)

text \<open>The loop follows the plain traversal and unpins each CID once.\<close>

lemma unpin_loop_effect:
  assumes "cid_laws E" "\<And>c. F c \<noteq> Panic" "\<And>c. F c \<noteq> Diverge"
    and "closure_loop (links_of F) fuel seen to_process = Some r"
    and "hm_ok (pm_pins pm)" "unpinned_once E pm0 pm (set seen)"
    and "count = card {c \<in> set seen. removed_by (get_pin_info E pm0 c)}"
  shows "\<exists>pm'. unpin_loop E F fuel pm count to_process seen =
      (pm', Ok (card {c \<in> set r. removed_by (get_pin_info E pm0 c)})) \<and>
    unpinned_once E pm0 pm' (set r)"
  using assms(4-)
proof (induction fuel arbitrary: pm count to_process seen)
  case 0
  then show ?case by (auto split: if_splits)
next
  case (Suc fuel)
  show ?case
  proof (cases "to_process = []")
    case False
    let ?c = "last to_process" and ?rest = "butlast to_process"
    show ?thesis
    proof (cases "?c \<in> set seen")
      case True
      with Suc.prems(1) False have "closure_loop (links_of F) fuel seen ?rest = Some r" by (simp add: Let_def)
      from Suc.IH [OF this Suc.prems(2-)] True False show ?thesis by (simp add: Let_def)
    next
      case new: False
      let ?count = "if snd (unpin E pm ?c) then count + 1 else count"
      let ?seen = "hs_insert ?c seen"
      have "get_pin_info E pm ?c = get_pin_info E pm0 ?c" using Suc.prems(3) new by (simp add: unpinned_once_def)
      note g = get_unpin [OF assms(1) Suc.prems(2), of ?c, unfolded this]
      have run: "closure_loop (links_of F) fuel ?seen (?rest @ links_of F ?c) = Some r"
        using Suc.prems(1) False new by (simp add: Let_def)
      have "{c \<in> set ?seen. removed_by (get_pin_info E pm0 c)} =
          (if removed_by (get_pin_info E pm0 ?c) then {?c} else {}) \<union> {c \<in> set seen. removed_by (get_pin_info E pm0 c)}"
        by auto
      then have cnt: "?count = card {c \<in> set ?seen. removed_by (get_pin_info E pm0 c)}"
        using Suc.prems(4) new g(2) by simp
      have "unpinned_once E pm0 (fst (unpin E pm ?c)) (set ?seen)"
        using Suc.prems(3) g(1) by (auto simp: unpinned_once_def)
      from Suc.IH [OF run hm_ok_unpin [OF Suc.prems(2)] this cnt]
      have "\<exists>pm'. unpin_loop E F fuel (fst (unpin E pm ?c)) ?count (?rest @ links_of F ?c) ?seen =
          (pm', Ok (card {c \<in> set r. removed_by (get_pin_info E pm0 c)})) \<and> unpinned_once E pm0 pm' (set r)" .
      then show ?thesis using False new assms(2,3) [of ?c]
        by (cases "F ?c") (simp_all add: Let_def links_of_def split_beta)
    qed
  qed (use Suc.prems in simp)
qed

lemma unpin_recursive_effect:
  assumes "cid_laws E" "\<And>c. F c \<noteq> Panic" "\<And>c. F c \<noteq> Diverge"
    and "R = reach (links_of F) {root}" "finite R" "hm_ok (pm_pins pm)"
    and "1 + (\<Sum>c \<in> R. length (links_of F c)) \<le> fuel"
  shows "\<exists>pm'. unpin_recursive E fuel pm root F = (pm', Ok (card {c \<in> R. removed_by (get_pin_info E pm c)})) \<and>
    unpinned_once E pm pm' R"
proof -
  obtain r where r: "closure_loop (links_of F) fuel [] [root] = Some r"
    using closure_loop_returns_closed [OF assms(5), of "links_of F" "[root]" fuel] assms(4,7)
    by (auto intro: reach_base reach_step)
  note c = closure_loop_correct [OF r]
  from unpin_loop_effect [OF assms(1-3) r assms(6), of pm 0] c(1) assms(4)
  show ?thesis unfolding unpin_recursive_def by (simp add: unpinned_once_def)
qed

subsection \<open>The life of a manager\<close>

text \<open>Entries of a map whose keys are the bytes of CIDs.\<close>

definition keys_ok :: "'c cid_crate \<Rightarrow> (bytes \<times> PinInfo) list \<Rightarrow> bool" where
  "keys_ok E pins \<longleftrightarrow> fst ` set pins \<subseteq> range (cid_to_bytes E)"

definition pm_ok :: "'c cid_crate \<Rightarrow> PinManager \<Rightarrow> bool" where
  "pm_ok E pm \<longleftrightarrow> pm_inv pm \<and> keys_ok E (pm_pins pm)"

text \<open>
  What a client can do with a manager, failing operations included. A file that is loaded holds a
  \<open>HashMap\<close> (so its keys are distinct) and keys that are CIDs.
\<close>

inductive pm_step :: "'c cid_crate \<Rightarrow> (bytes \<Rightarrow> u64) \<Rightarrow> PinManager \<Rightarrow> PinManager \<Rightarrow> bool" for E clock where
  step_pin: "pm_step E clock pm (pin E clock pm c)"
| step_pin_named: "pm_step E clock pm (pin_named E clock pm c name)"
| step_pin_recursive: "pin_recursive E clock fuel pm c F = (pm', r) \<Longrightarrow> pm_step E clock pm pm'"
| step_unpin: "unpin E pm c = (pm', b) \<Longrightarrow> pm_step E clock pm pm'"
| step_unpin_recursive: "unpin_recursive E fuel pm c F = (pm', r) \<Longrightarrow> pm_step E clock pm pm'"
| step_load: "pc_decode C data = Some pins \<Longrightarrow> hm_ok pins \<Longrightarrow> keys_ok E pins \<Longrightarrow> pm_load C data = Ok pm' \<Longrightarrow> pm_step E clock pm pm'"
| step_clear: "pm_step E clock pm (pm_clear pm)"

lemma pm_inv_new: "pm_inv pm_new"
  by (simp add: pm_inv_def pm_new_def stats_default_def wcount_simps hm_ok_def)

lemma pm_ok_new: "pm_ok E pm_new"
  by (simp add: pm_ok_def keys_ok_def pm_inv_new) (simp add: pm_new_def)

lemma keys_ok_dom: "keys_ok E pins \<longleftrightarrow> dom (map_of pins) \<subseteq> range (cid_to_bytes E)"
  by (simp add: keys_ok_def dom_map_of_conv_image_fst)

lemma keys_ok_steps:
  "keys_ok E pins \<Longrightarrow> keys_ok E (hm_insert (cid_to_bytes E c) i pins)"
  "keys_ok E pins \<Longrightarrow> keys_ok E (hm_remove k pins)"
  by (auto simp: keys_ok_dom)

lemma pm_ok_pin_with_type: "pm_ok E pm \<Longrightarrow> pm_ok E (pin_with_type E clock pm cid ty name)"
  by (simp add: pm_ok_def pm_inv_pin_with_type) (simp add: pin_with_type_def Let_def keys_ok_steps split: option.split)

lemma pm_ok_pin_indirect: "pm_ok E pm \<Longrightarrow> pm_ok E (pin_indirect E clock pm cid parent)"
  by (simp add: pm_ok_def pm_inv_pin_indirect) (simp add: pin_indirect_def Let_def keys_ok_steps split: option.split)

lemma pm_ok_unpin: "pm_ok E pm \<Longrightarrow> pm_ok E (fst (unpin E pm cid))"
  by (simp add: pm_ok_def pm_inv_unpin) (simp add: unpin_def Let_def keys_ok_steps split: option.split)

lemma pm_inv_pin_recursive: "pm_inv pm \<Longrightarrow> pm_inv (fst (pin_recursive E clock fuel pm c F))"
  unfolding pin_recursive_def by (rule pin_loop_preserves) (simp_all add: pm_inv_pin_with_type pm_inv_pin_indirect)

lemma pm_ok_pin_recursive: "pm_ok E pm \<Longrightarrow> pm_ok E (fst (pin_recursive E clock fuel pm c F))"
  unfolding pin_recursive_def by (rule pin_loop_preserves) (simp_all add: pm_ok_pin_with_type pm_ok_pin_indirect)

lemma pm_ok_unpin_recursive: "pm_ok E pm \<Longrightarrow> pm_ok E (fst (unpin_recursive E fuel pm c F))"
  unfolding unpin_recursive_def by (rule unpin_loop_preserves) (simp_all add: pm_ok_unpin)

text \<open>
  \<open>load_from_file\<close> counts each entry of the decoded map, whose keys are distinct because it is a map.
\<close>

definition load_all :: "PinManager \<Rightarrow> (bytes \<times> PinInfo) list \<Rightarrow> PinManager" where
  "load_all = foldl (\<lambda>pm (key, info). \<lparr>pm_pins = hm_insert key info (pm_pins pm),
                                       pm_stats = stats_increment (pm_stats pm) (pin_type info)\<rparr>)"

lemma load_all_simps:
  "load_all pm [] = pm"
  "load_all pm ((key, info) # pins) =
     load_all \<lparr>pm_pins = hm_insert key info (pm_pins pm), pm_stats = stats_increment (pm_stats pm) (pin_type info)\<rparr> pins"
  by (simp_all add: load_all_def)

lemma load_all_spec:
  "pm_inv pm \<Longrightarrow> hm_ok pins \<Longrightarrow> fst ` set pins \<inter> fst ` set (pm_pins pm) = {} \<Longrightarrow>
   pm_inv (load_all pm pins) \<and> map_of (pm_pins (load_all pm pins)) = map_of (pm_pins pm) ++ map_of pins"
proof (induction pins arbitrary: pm)
  case (Cons e pins)
  obtain key info where e: "e = (key, info)" by force
  let ?pm = "\<lparr>pm_pins = hm_insert key info (pm_pins pm), pm_stats = stats_increment (pm_stats pm) (pin_type info)\<rparr>"
  have new: "map_of (pm_pins pm) key = None" using Cons.prems(3) e by (simp add: map_of_eq_None_iff)
  have "pm_inv ?pm" using Cons.prems(1) new by (simp add: pm_inv_def wcount_insert length_hm_insert)
  moreover have "hm_ok pins" "key \<notin> fst ` set pins" using Cons.prems(2) e by (simp_all add: hm_ok_def)
  moreover have "fst ` set pins \<inter> fst ` set (pm_pins ?pm) = {}"
    using Cons.prems(3) calculation(3) e by (auto simp: hm_insert_def dom_update)
  ultimately have "pm_inv (load_all ?pm pins) \<and>
      map_of (pm_pins (load_all ?pm pins)) = map_of (pm_pins ?pm) ++ map_of pins"
    by (intro Cons.IH)
  moreover have "map_of (pm_pins ?pm) ++ map_of pins = map_of (pm_pins pm) ++ map_of (e # pins)"
    using \<open>key \<notin> fst ` set pins\<close> new e by (auto simp: fun_eq_iff map_add_def map_of_eq_None_iff [symmetric] split: option.split)
  ultimately show ?case unfolding e load_all_simps by metis
qed (simp add: load_all_simps)


lemma pm_load_eq: "pm_load C data = (case pc_decode C data of
    Some pins \<Rightarrow> Ok (load_all pm_new pins) | None \<Rightarrow> Err (Deserialization ''Failed to deserialize pins''))"
  by (simp add: pm_load_def load_all_def ok_or_def split: option.split)

lemma pm_load_spec:
  assumes "hm_ok pins" "pc_decode C data = Some pins"
  shows "\<exists>pm. pm_load C data = Ok pm \<and> pm_inv pm \<and> map_of (pm_pins pm) = map_of pins"
proof -
  have "pm_inv (load_all pm_new pins) \<and> map_of (pm_pins (load_all pm_new pins)) = map_of (pm_pins pm_new) ++ map_of pins"
    using assms by (intro load_all_spec pm_inv_new) (simp_all add: pm_new_def)
  then show ?thesis using assms(2) by (simp add: pm_load_eq pm_new_def)
qed

lemma pm_step_ok: "pm_step E clock pm pm' \<Longrightarrow> pm_ok E pm \<Longrightarrow> pm_ok E pm'"
proof (induction rule: pm_step.induct)
  case (step_pin_recursive fuel pm c F pm' r)
  then show ?case using pm_ok_pin_recursive [of E pm clock fuel c F] by simp
next
  case (step_unpin pm c pm' b)
  then show ?case using pm_ok_unpin [of E pm c] by simp
next
  case (step_unpin_recursive fuel pm c F pm' r)
  then show ?case using pm_ok_unpin_recursive [of E pm fuel c F] by simp
next
  case (step_load C data pins pm' pm)
  with pm_load_spec [OF step_load(2,1)] have "pm_inv pm'" "map_of (pm_pins pm') = map_of pins" by auto
  then show ?case using step_load(3) by (simp add: pm_ok_def keys_ok_dom)
next
  case (step_clear pm)
  then show ?case using pm_ok_new [of E] by (simp add: pm_clear_def pm_new_def)
qed (simp_all add: pin_def pin_named_def pm_ok_pin_with_type)

lemma pm_steps_ok: "(pm_step E clock)\<^sup>*\<^sup>* pm_new pm \<Longrightarrow> pm_ok E pm"
  by (induction rule: rtranclp_induct) (simp_all add: pm_ok_new pm_step_ok)

lemma key_cid_to_bytes: "cid_laws E \<Longrightarrow> key_cid E (cid_to_bytes E c) = Ok c"
  by (simp add: key_cid_def ok_or_def cid_laws_def)

lemma keys_ok_cids: "keys_ok E pins \<Longrightarrow> \<exists>l. pins = map (\<lambda>(c, i). (cid_to_bytes E c, i)) l"
proof (induction pins)
  case (Cons e pins)
  then obtain l c i where "pins = map (\<lambda>(c, i). (cid_to_bytes E c, i)) l" "e = (cid_to_bytes E c, i)"
    by (cases e) (auto simp: keys_ok_def)
  then have "e # pins = map (\<lambda>(c, i). (cid_to_bytes E c, i)) ((c, i) # l)" by simp
  then show ?case by (rule exI)
qed simp

lemma list_pins_keys:
  assumes "cid_laws E" "pm_pins pm = map (\<lambda>(c, i). (cid_to_bytes E c, i)) l"
  shows "list_pins E pm = Ok l"
    and "list_pins_by_type E pm ty = Ok (map fst (filter (\<lambda>e. pin_type (snd e) = ty) l))"
proof -
  show "list_pins E pm = Ok l" unfolding list_pins_def assms(2)
    by (subst omap_list_Ok_map [where h = id]) (auto simp: key_cid_to_bytes [OF assms(1)])
  show "list_pins_by_type E pm ty = Ok (map fst (filter (\<lambda>e. pin_type (snd e) = ty) l))"
    unfolding list_pins_by_type_def assms(2) filter_map
    by (subst omap_list_Ok_map [where h = fst]) (auto simp: key_cid_to_bytes [OF assms(1)] split_beta o_def)
qed

definition stat_of :: "PinStats \<Rightarrow> PinType \<Rightarrow> u64" where
  "stat_of st ty = (case ty of Direct \<Rightarrow> direct_pins st | Recursive \<Rightarrow> recursive_pins st | Indirect \<Rightarrow> indirect_pins st)"

text \<open>
  The statistics are right. Whatever sequence of operations a manager went through, failed and
  interrupted ones included, \<open>list_pins\<close> succeeds and lists each pinned CID once with its entry, and
  the counters are, modulo 2^64, the number of pins and of pins of each type.
\<close>

theorem pin_stats_count:
  assumes "cid_laws E" "(pm_step E clock)\<^sup>*\<^sup>* pm_new pm"
  shows "\<exists>l. list_pins E pm = Ok l \<and> distinct (map fst l) \<and> total_pins (pm_stats pm) = of_nat (length l) \<and>
    (\<forall>c. get_pin_info E pm c = map_of l c) \<and>
    (\<forall>ty. \<exists>lt. list_pins_by_type E pm ty = Ok lt \<and> stat_of (pm_stats pm) ty = of_nat (length lt))"
proof -
  have inv: "pm_inv pm" "keys_ok E (pm_pins pm)" using pm_steps_ok [OF assms(2)] by (simp_all add: pm_ok_def)
  then obtain l where l: "pm_pins pm = map (\<lambda>(c, i). (cid_to_bytes E c, i)) l" using keys_ok_cids by blast
  note keys = list_pins_keys [OF assms(1) l]
  have "map fst (pm_pins pm) = map (cid_to_bytes E) (map fst l)" using l by (simp add: split_beta)
  then have "distinct (map fst l)" using inv(1) by (metis distinct_map hm_ok_def pm_inv_def)
  moreover have "get_pin_info E pm c = map_of l c" for c
    unfolding get_pin_info_def l by (induction l) (auto simp: cid_to_bytes_inject [OF assms(1)])
  moreover have "\<exists>lt. list_pins_by_type E pm ty = Ok lt \<and> stat_of (pm_stats pm) ty = of_nat (length lt)" for ty
    using keys(2) [of ty] inv(1) l
    by (cases ty) (simp_all add: pm_inv_def wcount_def stat_of_def filter_map o_def split_beta)
  moreover have "total_pins (pm_stats pm) = of_nat (length l)" using inv(1) l by (simp add: pm_inv_def)
  ultimately show ?thesis using keys(1) by blast
qed

subsection \<open>Properties\<close>

definition pin_count :: "'c cid_crate \<Rightarrow> PinManager \<Rightarrow> 'c \<Rightarrow> u32" where
  "pin_count E pm c = (case get_pin_info E pm c of Some i \<Rightarrow> ref_count i | None \<Rightarrow> 0)"

lemma is_pinned_info: "is_pinned E pm c \<longleftrightarrow> get_pin_info E pm c \<noteq> None"
  by (simp add: is_pinned_def get_pin_info_def)

lemma ref_count_bump: "ref_count (bump E clock root c oi) = (case oi of Some i \<Rightarrow> ref_count i + 1 | None \<Rightarrow> 1)"
  by (auto simp: bump_def Let_def pi_new_def with_parent_def split: option.split)

lemma pinned_onceD:
  assumes "pinned_once E clock root pm pm' R"
  shows "is_pinned E pm' c \<longleftrightarrow> c \<in> R \<or> is_pinned E pm c"
    and "pin_count E pm' c = (if c \<in> R then pin_count E pm c + 1 else pin_count E pm c)"
  using assms by (auto simp: pinned_once_def is_pinned_info pin_count_def ref_count_bump split: option.split)

lemma u32_le_1: "x \<le> 1 \<longleftrightarrow> x = 0 \<or> x = 1" for x :: u32
  by (simp add: word_le_nat_alt word_unat_eq_iff le_Suc_eq)

text \<open>
  Recursive pinning pins the graph below the root: if the resolver answers on the CIDs reached
  from the root and these are finitely many, \<open>pin_recursive\<close> returns their number, each has its
  reference count increased by one, once however many paths lead to it, and no other CID changes.
\<close>

theorem pin_recursive_pins:
  assumes "cid_laws E" "R = reach (links_of F) {root}" "finite R" "\<forall>c \<in> R. \<exists>ls. F c = Ok ls" "card R \<le> fuel"
  shows "\<exists>pm'. pin_recursive E clock fuel pm root F = (pm', Ok (card R)) \<and>
    (\<forall>c. (is_pinned E pm' c \<longleftrightarrow> c \<in> R \<or> is_pinned E pm c) \<and>
         pin_count E pm' c = (if c \<in> R then pin_count E pm c + 1 else pin_count E pm c))"
proof -
  obtain pm' where "pin_recursive E clock fuel pm root F = (pm', Ok (card R))" "pinned_once E clock root pm pm' R"
    using pin_recursive_effect [OF assms] by blast
  then show ?thesis using pinned_onceD [of E clock root pm pm' R] by simp
qed

definition links_example :: "u64 + u64 \<times> u64 \<Rightarrow> (core_error, (u64 + u64 \<times> u64) list) outcome" where
  "links_example c = Ok (if c = Inl 1 then [Inl 2, Inl 2] else [])"

lemma reach_links_example: "reach (links_of links_example) {Inl 1} = {Inl 1, Inl 2}"
proof
  show "reach (links_of links_example) {Inl 1} \<subseteq> {Inl 1, Inl 2}"
    by (rule reach_least) (auto simp: links_of_def links_example_def)
  show "{Inl 1, Inl 2} \<subseteq> reach (links_of links_example) {Inl 1}"
    using reach_step [of "Inl 1" "links_of links_example" "{Inl 1}" "Inl 2"]
    by (auto simp: reach_base links_of_def links_example_def)
qed

theorem pin_recursive_pins_witness:
  "\<exists>pm'. pin_recursive crate64 (\<lambda>_. 0) 2 pm_new (Inl 1) links_example = (pm', Ok 2) \<and>
     is_pinned crate64 pm' (Inl 2) \<and> pin_count crate64 pm' (Inl 2) = 1"
proof -
  have "\<exists>pm'. pin_recursive crate64 (\<lambda>_. 0) 2 pm_new (Inl 1) links_example =
        (pm', Ok (card {Inl 1, Inl 2 :: u64 + u64 \<times> u64})) \<and>
      (\<forall>c. (is_pinned crate64 pm' c \<longleftrightarrow> c \<in> {Inl 1, Inl 2} \<or> is_pinned crate64 pm_new c) \<and>
        pin_count crate64 pm' c = (if c \<in> {Inl 1, Inl 2} then pin_count crate64 pm_new c + 1 else pin_count crate64 pm_new c))"
    by (rule pin_recursive_pins) (auto simp: cid_laws_crate64 reach_links_example links_example_def)
  then show ?thesis by (auto simp: pin_count_def get_pin_info_def pm_new_def)
qed

text \<open>
  (C36) Recursive unpinning undoes recursive pinning: with the same resolver, every CID has the
  reference count it had, is pinned exactly if it was, and the number returned is that of the CIDs
  that are no longer pinned. Counts must not be at the ends of their 32-bit range.
\<close>

theorem unpin_recursive_undoes:
  assumes "cid_laws E" "pm_inv pm" "R = reach (links_of F) {root}" "finite R" "\<forall>c. \<exists>ls. F c = Ok ls"
    and "\<forall>c \<in> R. is_pinned E pm c \<longrightarrow> pin_count E pm c \<noteq> 0 \<and> pin_count E pm c \<noteq> - 1"
    and "card R \<le> fuel" "1 + (\<Sum>c \<in> R. length (links_of F c)) \<le> fuel'"
    and "pin_recursive E clock fuel pm root F = (pm', r)"
  shows "\<exists>pm''. unpin_recursive E fuel' pm' root F = (pm'', Ok (card {c \<in> R. \<not> is_pinned E pm c})) \<and>
    (\<forall>c. (is_pinned E pm'' c \<longleftrightarrow> is_pinned E pm c) \<and> pin_count E pm'' c = pin_count E pm c)"
proof -
  have once: "pinned_once E clock root pm pm' R"
    using pin_recursive_effect [OF assms(1,3,4) _ assms(7), of clock pm] assms(5,9) by auto
  have "hm_ok (pm_pins pm')" using pm_inv_pin_recursive [OF assms(2), of E clock fuel root F] assms(9)
    by (simp add: pm_inv_def)
  then obtain pm'' where u: "unpin_recursive E fuel' pm' root F = (pm'', Ok (card {c \<in> R. removed_by (get_pin_info E pm' c)}))"
      "unpinned_once E pm' pm'' R"
    using unpin_recursive_effect [OF assms(1) _ _ assms(3,4) _ assms(8), of pm'] assms(5)
    by (metis outcome.distinct(3) outcome.distinct(5))
  have one: "\<not> i + 1 \<le> 1" if "i \<noteq> 0" "i \<noteq> - 1" for i :: u32
    using that u32_le_1 [of "i + 1"] by (auto simp: eq_neg_iff_add_eq_0)
  have undo: "unbump (Some (bump E clock root c (get_pin_info E pm c))) =
      map_option (\<lambda>i. (bump E clock root c (Some i))\<lparr>ref_count := ref_count i\<rparr>) (get_pin_info E pm c)"
    if "c \<in> R" for c
    using assms(6) that one by (auto simp: unbump_def ref_count_bump is_pinned_info pin_count_def split: option.split)
  have info: "get_pin_info E pm'' c = (if c \<in> R
      then map_option (\<lambda>i. (bump E clock root c (Some i))\<lparr>ref_count := ref_count i\<rparr>) (get_pin_info E pm c)
      else get_pin_info E pm c)" for c
    using u(2) once undo [of c] by (simp add: unpinned_once_def pinned_once_def)
  have "removed_by (get_pin_info E pm' c) \<longleftrightarrow> \<not> is_pinned E pm c" if "c \<in> R" for c
    using once undo [OF that] that by (auto simp: removed_by_def pinned_once_def is_pinned_info)
  then have "{c \<in> R. removed_by (get_pin_info E pm' c)} = {c \<in> R. \<not> is_pinned E pm c}" by auto
  then show ?thesis using u(1) info by (auto simp: is_pinned_info pin_count_def split: option.split)
qed

lemma not_pinned_new: "\<not> is_pinned E pm_new c"
  by (simp add: is_pinned_def pm_new_def)

theorem unpin_recursive_undoes_witness:
  "\<exists>pm''. unpin_recursive crate64 3 (fst (pin_recursive crate64 (\<lambda>_. 0) 2 pm_new (Inl 1) links_example)) (Inl 1)
      links_example = (pm'', Ok 2) \<and> \<not> is_pinned crate64 pm'' (Inl 2)"
proof -
  have "\<exists>pm''. unpin_recursive crate64 3 (fst (pin_recursive crate64 (\<lambda>_. 0) 2 pm_new (Inl 1) links_example)) (Inl 1)
        links_example = (pm'', Ok (card {c \<in> {Inl 1, Inl 2}. \<not> is_pinned crate64 pm_new c})) \<and>
      (\<forall>c. (is_pinned crate64 pm'' c \<longleftrightarrow> is_pinned crate64 pm_new c) \<and>
        pin_count crate64 pm'' c = pin_count crate64 pm_new c)"
    by (rule unpin_recursive_undoes [where fuel = 2 and clock = "\<lambda>_. 0" and
          r = "snd (pin_recursive crate64 (\<lambda>_. 0) 2 pm_new (Inl 1) links_example)"])
      (simp_all add: cid_laws_crate64 pm_inv_new reach_links_example links_example_def links_of_def not_pinned_new)
  moreover have "{c \<in> {Inl 1, Inl 2}. \<not> is_pinned crate64 pm_new c} = {Inl 1, Inl 2}"
    by (auto simp: not_pinned_new)
  ultimately show ?thesis by (auto simp: not_pinned_new)
qed

definition keeps_pins :: "'c cid_crate \<Rightarrow> PinManager \<Rightarrow> PinManager \<Rightarrow> bool" where
  "keeps_pins E pm pm' \<longleftrightarrow>
     (\<forall>c i. get_pin_info E pm c = Some i \<longrightarrow>
        (\<exists>i'. get_pin_info E pm' c = Some i' \<and> pin_name i' = pin_name i \<and> created_at i' = created_at i))"

lemma keeps_pins_step:
  "keeps_pins E pm (pin_indirect E clock pm c p)"
  "keeps_pins E pm (pin_with_type E clock pm c Recursive None)"
  by (auto simp: keeps_pins_def get_pin_info_def pin_indirect_def pin_with_type_def Let_def split: option.split)

lemma keeps_pins_refl: "keeps_pins E pm pm"
  by (simp add: keeps_pins_def)

lemma keeps_pins_trans: "keeps_pins E a b \<Longrightarrow> keeps_pins E b c \<Longrightarrow> keeps_pins E a c"
  by (force simp: keeps_pins_def)

text \<open>
  Pinning recursively never loses a pin, whatever the resolver does: if it fails or the run is
  cut short, the root is pinned, what was pinned is still pinned and with its name and creation time.
\<close>

theorem pin_recursive_keeps:
  "case pin_recursive E clock fuel pm root F of (pm', r) \<Rightarrow> is_pinned E pm' root \<and> keeps_pins E pm pm'"
proof -
  let ?pm = "pin_with_type E clock pm root Recursive None"
  have k: "keeps_pins E ?pm (fst (pin_recursive E clock fuel pm root F))"
    unfolding pin_recursive_def
    by (rule pin_loop_preserves) (blast intro: keeps_pins_trans keeps_pins_step keeps_pins_refl)+
  moreover have "is_pinned E ?pm root"
    by (simp add: is_pinned_def pin_with_type_def Let_def split: option.split)
  ultimately have "is_pinned E (fst (pin_recursive E clock fuel pm root F)) root"
    unfolding is_pinned_info keeps_pins_def by fastforce
  with k keeps_pins_trans [OF keeps_pins_step(2)] show ?thesis by (auto simp: split_beta)
qed

lemma wcount_map_of:
  assumes "hm_ok pins" "hm_ok pins'" "map_of pins = map_of pins'"
  shows "wcount pins = wcount pins'" "length pins = length pins'"
proof -
  have d: "distinct pins" "distinct pins'" using assms(1,2) by (simp_all add: hm_ok_def distinct_map)
  have "set pins = set pins'" using assms by (metis hm_ok_def map_of_inject_set)
  then have len: "length (filter Q pins) = length (filter Q pins')" for Q
    using d by (simp flip: distinct_card)
  show "wcount pins = wcount pins'" unfolding wcount_def len ..
  show "length pins = length pins'" using len [of "\<lambda>_. True"] by simp
qed

text \<open>
  Saving and loading: the manager read from a file answers as the one saved, and its
  statistics, recounted entry by entry, are the same. The serialisation crate must give back the
  entries of the map it wrote, in any order.
\<close>

theorem pm_save_load:
  assumes "\<And>pins data. pc_encode C pins = Some data \<Longrightarrow>
      \<exists>pins'. pc_decode C data = Some pins' \<and> hm_ok pins' \<and> map_of pins' = map_of pins"
    and "pm_inv pm" "pm_save C pm = Ok data"
  shows "\<exists>pm'. pm_load C data = Ok pm' \<and> pm_stats pm' = pm_stats pm \<and>
    (\<forall>c. get_pin_info E pm' c = get_pin_info E pm c)"
proof -
  obtain pins where p: "pc_decode C data = Some pins" "hm_ok pins" "map_of pins = map_of (pm_pins pm)"
    using assms(1) [of "pm_pins pm" data] assms(3) by (auto simp: pm_save_def ok_or_def split: option.splits)
  obtain pm' where l: "pm_load C data = Ok pm'" "pm_inv pm'" "map_of (pm_pins pm') = map_of (pm_pins pm)"
    using pm_load_spec [OF p(2,1)] p(3) by auto
  have "pm_stats pm' = pm_stats pm"
    using l(2,3) assms(2) wcount_map_of [of "pm_pins pm'" "pm_pins pm"]
    by (intro PinStats.equality) (simp_all add: pm_inv_def)
  then show ?thesis using l by (auto simp: get_pin_info_def)
qed

definition codec_example :: pin_codec where
  "codec_example = \<lparr>pc_encode = (\<lambda>pins. if pins = [([1], pi_new 5 Direct)] then Some [7] else None),
                    pc_decode = (\<lambda>data. if data = [7] then Some [([1], pi_new 5 Direct)] else None)\<rparr>"

theorem pm_save_load_witness:
  "\<exists>pm'. pm_load codec_example [7] = Ok pm' \<and> total_pins (pm_stats pm') = 1"
proof -
  let ?pm = "\<lparr>pm_pins = [([1], pi_new 5 Direct)],
              pm_stats = \<lparr>total_pins = 1, direct_pins = 1, recursive_pins = 0, indirect_pins = 0\<rparr>\<rparr>"
  have "\<exists>pm'. pm_load codec_example [7] = Ok pm' \<and> pm_stats pm' = pm_stats ?pm \<and>
      (\<forall>c. get_pin_info crate64 pm' c = get_pin_info crate64 ?pm c)"
    by (rule pm_save_load)
      (auto simp: codec_example_def hm_ok_def pm_inv_def wcount_simps pi_new_def pm_save_def ok_or_def split: if_splits)
  then show ?thesis by auto
qed

theorem pin_stats_count_witness:
  "\<exists>l. list_pins crate64 (pin crate64 (\<lambda>_. 0) pm_new (Inl 1)) = Ok l \<and> distinct (map fst l) \<and>
     total_pins (pm_stats (pin crate64 (\<lambda>_. 0) pm_new (Inl 1))) = of_nat (length l)"
proof -
  have "(pm_step crate64 (\<lambda>_. 0))\<^sup>*\<^sup>* pm_new (pin crate64 (\<lambda>_. 0) pm_new (Inl 1))"
    by (intro r_into_rtranclp pm_step.step_pin)
  from pin_stats_count [OF cid_laws_crate64 this] show ?thesis by blast
qed

end
