(* ===== verification/Want_List.thy ===== *)
theory Want_List
  imports Rust_Prelude "HOL-Library.Multiset" "HOL-Library.Signed_Division"
begin

text \<open>
  The want list (\<open>ipfrs-transport/src/want_list.rs\<close>): block requests in a priority queue with lazy
  deletion, next to a map from CIDs to requests.

  \<^item> Instants and durations are natural numbers of nanoseconds. An operation that reads the clock
    takes the reading as an argument: \<open>now\<close>, or \<open>clock c\<close> for the reading made for the entry of \<open>c\<close>.
  \<^item> \<open>i32\<close> priorities are only compared, and are integers; versions and retry counts are words, whose
    additions wrap as in a release build.
  \<^item> \<open>BinaryHeap\<close> is a record of operations with the laws of the locale \<open>max_heap\<close>: \<open>pop\<close> gives some
    greatest element. The theory interprets the locale on lists.
  \<^item> The map is an association list, whose order stands for the iteration order of \<open>HashMap\<close>.
\<close>

subsection \<open>The code\<close>

record WantListConfig =
  max_wants :: nat
  default_timeout :: duration
  max_retries :: u32
  base_retry_delay :: duration
  max_retry_delay :: duration

definition wlc_default :: WantListConfig where
  "wlc_default = \<lparr>max_wants = 1024, default_timeout = from_secs 30, max_retries = 3,
                  base_retry_delay = from_millis 100, max_retry_delay = from_secs 10\<rparr>"

datatype Priority = Low | Normal | High | Urgent | Critical

fun priority_i32 :: "Priority \<Rightarrow> int" where
  "priority_i32 Low = 0"
| "priority_i32 Normal = 50"
| "priority_i32 High = 100"
| "priority_i32 Urgent = 200"
| "priority_i32 Critical = 300"

definition priority_from :: "int \<Rightarrow> Priority" where
  "priority_from v =
     (if v \<ge> 300 then Critical else if v \<ge> 200 then Urgent else if v \<ge> 100 then High
      else if v \<ge> 50 then Normal else Low)"

record 'c WantEntry =
  we_cid :: 'c
  we_priority :: int
  we_created_at :: instant
  we_expires_at :: instant
  we_retry_count :: u32
  we_last_attempt :: "instant option"
  we_send_dont_have :: bool
  we_deadline :: "instant option"
  we_tag :: "string option"

definition we_new :: "instant \<Rightarrow> 'c \<Rightarrow> int \<Rightarrow> duration \<Rightarrow> 'c WantEntry" where
  "we_new now cid priority timeout =
     \<lparr>we_cid = cid, we_priority = priority, we_created_at = now, we_expires_at = now + timeout,
      we_retry_count = 0, we_last_attempt = None, we_send_dont_have = False, we_deadline = None, we_tag = None\<rparr>"

definition with_deadline :: "'c WantEntry \<Rightarrow> instant \<Rightarrow> 'c WantEntry" where
  "with_deadline e deadline = e\<lparr>we_deadline := Some deadline\<rparr>"

definition with_tag :: "'c WantEntry \<Rightarrow> string \<Rightarrow> 'c WantEntry" where
  "with_tag e tag = e\<lparr>we_tag := Some tag\<rparr>"

definition with_dont_have :: "'c WantEntry \<Rightarrow> 'c WantEntry" where
  "with_dont_have e = e\<lparr>we_send_dont_have := True\<rparr>"

definition is_expired :: "instant \<Rightarrow> 'c WantEntry \<Rightarrow> bool" where
  "is_expired now e \<longleftrightarrow> now \<ge> we_expires_at e"

definition can_retry :: "'c WantEntry \<Rightarrow> u32 \<Rightarrow> bool" where
  "can_retry e max_count \<longleftrightarrow> we_retry_count e < max_count"

definition effective_priority :: "instant \<Rightarrow> 'c WantEntry \<Rightarrow> int" where
  "effective_priority now e =
     (case we_deadline e of
        None \<Rightarrow> we_priority e
      | Some deadline \<Rightarrow>
          if now \<ge> deadline then max (we_priority e) (priority_i32 Critical)
          else let time_left = deadline - now in
            if time_left < from_secs 1 then max (we_priority e) (priority_i32 Urgent)
            else if time_left < from_secs 5 then max (we_priority e) (priority_i32 High)
            else we_priority e)"

record 'c HeapEntry =
  he_cid :: 'c
  he_priority :: int
  he_created_at :: instant
  he_version :: u64

text \<open>\<open>Ord for HeapEntry\<close>: higher priority first, then earlier creation. \<open>he_le a b\<close> is \<open>a <= b\<close>.\<close>

definition he_le :: "'c HeapEntry \<Rightarrow> 'c HeapEntry \<Rightarrow> bool" where
  "he_le a b \<longleftrightarrow> he_priority a < he_priority b \<or>
     he_priority a = he_priority b \<and> he_created_at b \<le> he_created_at a"

record ('h, 'e) heap_ops =
  hp_new :: 'h
  hp_push :: "'h \<Rightarrow> 'e \<Rightarrow> 'h"
  hp_pop :: "'h \<Rightarrow> ('e \<times> 'h) option"
  hp_len :: "'h \<Rightarrow> nat"

record ('h, 'c) WantList =
  wl_heap :: 'h
  wl_entries :: "('c \<times> 'c WantEntry \<times> u64) list"
  wl_version_counter :: u64
  wl_config :: WantListConfig

type_synonym ('h, 'c) wl_heap_ops = "('h, 'c HeapEntry) heap_ops"

definition wl_new :: "('h, 'c) wl_heap_ops \<Rightarrow> WantListConfig \<Rightarrow> ('h, 'c) WantList" where
  "wl_new H config = \<lparr>wl_heap = hp_new H, wl_entries = [], wl_version_counter = 0, wl_config = config\<rparr>"

definition wl_with_defaults :: "('h, 'c) wl_heap_ops \<Rightarrow> ('h, 'c) WantList" where
  "wl_with_defaults H = wl_new H wlc_default"

definition wl_add :: "('h, 'c) wl_heap_ops \<Rightarrow> instant \<Rightarrow> ('h, 'c) WantList \<Rightarrow> 'c WantEntry
    \<Rightarrow> ('h, 'c) WantList \<times> bool" where
  "wl_add H now wl entry =
     (if map_of (wl_entries wl) (we_cid entry) \<noteq> None then (wl, False)
      else if length (wl_entries wl) \<ge> max_wants (wl_config wl) then (wl, False)
      else let cid = we_cid entry;
               priority = effective_priority now entry;
               version = wl_version_counter wl + 1
        in (wl\<lparr>wl_version_counter := version,
               wl_entries := hm_insert cid (entry, version) (wl_entries wl),
               wl_heap := hp_push H (wl_heap wl)
                 \<lparr>he_cid = cid, he_priority = priority, he_created_at = we_created_at entry, he_version = version\<rparr>\<rparr>,
            True))"

definition wl_add_simple :: "('h, 'c) wl_heap_ops \<Rightarrow> instant \<Rightarrow> ('h, 'c) WantList \<Rightarrow> 'c \<Rightarrow> int
    \<Rightarrow> ('h, 'c) WantList \<times> bool" where
  "wl_add_simple H now wl cid priority =
     wl_add H now wl (we_new now cid priority (default_timeout (wl_config wl)))"

definition wl_remove :: "('h, 'c) WantList \<Rightarrow> 'c \<Rightarrow> ('h, 'c) WantList \<times> 'c WantEntry option" where
  "wl_remove wl cid =
     (wl\<lparr>wl_entries := hm_remove cid (wl_entries wl)\<rparr>, map_option fst (map_of (wl_entries wl) cid))"

definition wl_update_priority :: "('h, 'c) wl_heap_ops \<Rightarrow> ('h, 'c) WantList \<Rightarrow> 'c \<Rightarrow> int
    \<Rightarrow> ('h, 'c) WantList \<times> bool" where
  "wl_update_priority H wl cid new_priority =
     (case map_of (wl_entries wl) cid of
        None \<Rightarrow> (wl, False)
      | Some (entry, old_version) \<Rightarrow>
          let entry = entry\<lparr>we_priority := new_priority\<rparr>;
              version = wl_version_counter wl + 1
          in (wl\<lparr>wl_version_counter := version,
                 wl_entries := hm_insert cid (entry, version) (wl_entries wl),
                 wl_heap := hp_push H (wl_heap wl)
                   \<lparr>he_cid = cid, he_priority = new_priority, he_created_at = we_created_at entry, he_version = version\<rparr>\<rparr>,
              True))"

text \<open>\<open>boost_deadline_priorities\<close> collects updates, then performs them.\<close>

fun boost_entry :: "instant \<Rightarrow> ('c \<Rightarrow> instant) \<Rightarrow> 'c \<times> 'c WantEntry \<times> u64 \<Rightarrow> ('c \<times> int) list" where
  "boost_entry now clock (cid, entry, version) =
     (case we_deadline entry of
        None \<Rightarrow> []
      | Some deadline \<Rightarrow>
          (let effective = effective_priority (clock cid) entry in
           (if effective > we_priority entry then [(cid, effective)] else []) @
           (if now \<ge> deadline \<and> we_priority entry < priority_i32 Critical
            then [(cid, priority_i32 Critical)] else [])))"

definition boost_updates :: "instant \<Rightarrow> ('c \<Rightarrow> instant) \<Rightarrow> ('c \<times> 'c WantEntry \<times> u64) list \<Rightarrow> ('c \<times> int) list" where
  "boost_updates now clock es = concat (map (boost_entry now clock) es)"

fun wl_updates :: "('h, 'c) wl_heap_ops \<Rightarrow> ('h, 'c) WantList \<Rightarrow> ('c \<times> int) list \<Rightarrow> ('h, 'c) WantList \<times> nat" where
  "wl_updates H wl [] = (wl, 0)"
| "wl_updates H wl ((cid, priority) # us) =
     (let (wl, ok) = wl_update_priority H wl cid priority; (wl, updated) = wl_updates H wl us
      in (wl, if ok then updated + 1 else updated))"

definition wl_boost_deadline_priorities ::
    "('h, 'c) wl_heap_ops \<Rightarrow> instant \<Rightarrow> ('c \<Rightarrow> instant) \<Rightarrow> ('h, 'c) WantList \<Rightarrow> ('h, 'c) WantList" where
  "wl_boost_deadline_priorities H now clock wl = fst (wl_updates H wl (boost_updates now clock (wl_entries wl)))"

text \<open>The loop of \<open>pop\<close>; every iteration takes an element off the heap, which bounds them.\<close>

fun wl_pop_loop :: "('h, 'c) wl_heap_ops \<Rightarrow> nat \<Rightarrow> ('h, 'c) WantList \<Rightarrow> ('h, 'c) WantList \<times> 'c WantEntry option option" where
  "wl_pop_loop H 0 wl = (wl, None)"
| "wl_pop_loop H (Suc fuel) wl =
     (case hp_pop H (wl_heap wl) of
        None \<Rightarrow> (wl, Some None)
      | Some (heap_entry, heap) \<Rightarrow>
          let wl = wl\<lparr>wl_heap := heap\<rparr> in
          case map_of (wl_entries wl) (he_cid heap_entry) of
            Some (entry, version) \<Rightarrow>
              if version = he_version heap_entry
              then (let (wl, e) = wl_remove wl (he_cid heap_entry) in (wl, Some e))
              else wl_pop_loop H fuel wl
          | None \<Rightarrow> wl_pop_loop H fuel wl)"

definition wl_pop :: "('h, 'c) wl_heap_ops \<Rightarrow> ('h, 'c) WantList \<Rightarrow> ('h, 'c) WantList \<times> 'c WantEntry option option" where
  "wl_pop H wl = wl_pop_loop H (Suc (hp_len H (wl_heap wl))) wl"

text \<open>\<open>max_by_key\<close> gives the last of the greatest elements, and \<open>None\<close> for an empty iterator.\<close>

definition max_by_key :: "('a \<Rightarrow> int) \<Rightarrow> 'a list \<Rightarrow> 'a option" where
  "max_by_key k xs =
     foldl (\<lambda>acc x. case acc of None \<Rightarrow> Some x | Some m \<Rightarrow> if k m \<le> k x then Some x else Some m) None xs"

definition wl_peek :: "('c \<Rightarrow> instant) \<Rightarrow> ('h, 'c) WantList \<Rightarrow> 'c WantEntry option" where
  "wl_peek clock wl =
     map_option (\<lambda>(_, e, _). e)
       (max_by_key (\<lambda>(cid, e, _). effective_priority (clock cid) e) (wl_entries wl))"

definition wl_contains :: "('h, 'c) WantList \<Rightarrow> 'c \<Rightarrow> bool" where
  "wl_contains wl cid \<longleftrightarrow> map_of (wl_entries wl) cid \<noteq> None"

definition wl_get :: "('h, 'c) WantList \<Rightarrow> 'c \<Rightarrow> 'c WantEntry option" where
  "wl_get wl cid = map_option fst (map_of (wl_entries wl) cid)"

text \<open>\<open>get_mut\<close> hands out a reference; \<open>f\<close> is what the caller does with it.\<close>

definition wl_get_mut :: "('c WantEntry \<Rightarrow> 'c WantEntry) \<Rightarrow> ('h, 'c) WantList \<Rightarrow> 'c \<Rightarrow> ('h, 'c) WantList" where
  "wl_get_mut f wl cid =
     (case map_of (wl_entries wl) cid of
        None \<Rightarrow> wl
      | Some (entry, version) \<Rightarrow> wl\<lparr>wl_entries := hm_insert cid (f entry, version) (wl_entries wl)\<rparr>)"

definition wl_len :: "('h, 'c) WantList \<Rightarrow> nat" where
  "wl_len wl = length (wl_entries wl)"

definition wl_is_empty :: "('h, 'c) WantList \<Rightarrow> bool" where
  "wl_is_empty wl \<longleftrightarrow> wl_entries wl = []"

fun wl_remove_batch :: "('h, 'c) WantList \<Rightarrow> 'c list \<Rightarrow> ('h, 'c) WantList \<times> 'c WantEntry list" where
  "wl_remove_batch wl [] = (wl, [])"
| "wl_remove_batch wl (cid # cids) =
     (let (wl, e) = wl_remove wl cid; (wl, removed) = wl_remove_batch wl cids
      in (wl, case e of Some entry \<Rightarrow> entry # removed | None \<Rightarrow> removed))"

definition wl_cleanup_expired :: "('c \<Rightarrow> instant) \<Rightarrow> ('h, 'c) WantList \<Rightarrow> ('h, 'c) WantList \<times> 'c WantEntry list" where
  "wl_cleanup_expired clock wl =
     wl_remove_batch wl (map fst (filter (\<lambda>(cid, entry, _). is_expired (clock cid) entry) (wl_entries wl)))"

definition wl_get_retry_candidates :: "('h, 'c) WantList \<Rightarrow> 'c list" where
  "wl_get_retry_candidates wl =
     map fst (filter (\<lambda>(_, entry, _). can_retry entry (max_retries (wl_config wl)) \<and> we_last_attempt entry \<noteq> None)
       (wl_entries wl))"

definition wl_mark_attempted :: "instant \<Rightarrow> ('h, 'c) WantList \<Rightarrow> 'c \<Rightarrow> ('h, 'c) WantList" where
  "wl_mark_attempted now wl cid =
     (case map_of (wl_entries wl) cid of
        None \<Rightarrow> wl
      | Some (entry, version) \<Rightarrow>
          wl\<lparr>wl_entries := hm_insert cid
               (entry\<lparr>we_retry_count := we_retry_count entry + 1, we_last_attempt := Some now\<rparr>, version) (wl_entries wl)\<rparr>)"

text \<open>
  \<open>retry_delay\<close>: \<open>nanos\<close> is \<open>as_nanos() as i64\<close> of the time since the epoch. Casts to \<open>i64\<close> are
  \<open>sint\<close>, and the last addition wraps.
\<close>

definition saturating_mul :: "u64 \<Rightarrow> u64 \<Rightarrow> u64" where
  "saturating_mul a b = (if unat a * unat b < 2 ^ 64 then a * b else - 1)"

definition wl_retry_delay :: "u64 \<Rightarrow> ('h, 'c) WantList \<Rightarrow> u32 \<Rightarrow> duration" where
  "wl_retry_delay nanos wl retry_count =
     (let base = of_nat (as_millis (base_retry_delay (wl_config wl))) :: u64;
          max' = of_nat (as_millis (max_retry_delay (wl_config wl))) :: u64;
          delay_ms = min (saturating_mul base (push_bit (unat (min retry_count 10)) 1)) max';
          jitter = sint (delay_ms div 10);
          jitter_offset = (if jitter > 0 then sint nanos smod (jitter * 2) - jitter else 0);
          total = sint (of_int (sint delay_ms + jitter_offset) :: u64)
      in from_millis (nat (max total 0)))"

definition wl_cids :: "('h, 'c) WantList \<Rightarrow> 'c list" where
  "wl_cids wl = map fst (wl_entries wl)"

definition wl_entries_by_priority :: "('c \<Rightarrow> instant) \<Rightarrow> ('h, 'c) WantList \<Rightarrow> 'c WantEntry list" where
  "wl_entries_by_priority clock wl =
     map (\<lambda>(_, e, _). e) (sort_key (\<lambda>(cid, e, _). - effective_priority (clock cid) e) (wl_entries wl))"

definition wl_entries_with_tag :: "('h, 'c) WantList \<Rightarrow> string \<Rightarrow> 'c WantEntry list" where
  "wl_entries_with_tag wl tag = filter (\<lambda>e. we_tag e = Some tag) (map (\<lambda>(_, e, _). e) (wl_entries wl))"

definition wl_clear :: "('h, 'c) wl_heap_ops \<Rightarrow> ('h, 'c) WantList \<Rightarrow> ('h, 'c) WantList" where
  "wl_clear H wl = wl\<lparr>wl_heap := hp_new H, wl_entries := []\<rparr>"

text \<open>\<open>clock\<close> gives the time of each call of \<open>add_simple\<close> in a batch.\<close>

fun wl_add_batch :: "('h, 'c) wl_heap_ops \<Rightarrow> ('c \<Rightarrow> instant) \<Rightarrow> ('h, 'c) WantList \<Rightarrow> ('c \<times> int) list
    \<Rightarrow> ('h, 'c) WantList \<times> nat" where
  "wl_add_batch H clock wl [] = (wl, 0)"
| "wl_add_batch H clock wl ((cid, priority) # es) =
     (let (wl, ok) = wl_add_simple H (clock cid) wl cid priority; (wl, added) = wl_add_batch H clock wl es
      in (wl, if ok then added + 1 else added))"

definition wl_add_batch_same_priority :: "('h, 'c) wl_heap_ops \<Rightarrow> ('c \<Rightarrow> instant) \<Rightarrow> ('h, 'c) WantList \<Rightarrow> 'c list \<Rightarrow> int
    \<Rightarrow> ('h, 'c) WantList \<times> nat" where
  "wl_add_batch_same_priority H clock wl cids priority = wl_add_batch H clock wl (map (\<lambda>cid. (cid, priority)) cids)"

definition wl_update_priorities_batch ::
    "('h, 'c) wl_heap_ops \<Rightarrow> ('h, 'c) WantList \<Rightarrow> ('c \<times> int) list \<Rightarrow> ('h, 'c) WantList \<times> nat" where
  "wl_update_priorities_batch H wl updates = wl_updates H wl updates"

definition wl_contains_any :: "('h, 'c) WantList \<Rightarrow> 'c list \<Rightarrow> bool" where
  "wl_contains_any wl cids \<longleftrightarrow> list_ex (wl_contains wl) cids"

definition wl_contains_all :: "('h, 'c) WantList \<Rightarrow> 'c list \<Rightarrow> bool" where
  "wl_contains_all wl cids \<longleftrightarrow> list_all (wl_contains wl) cids"

definition wl_get_batch :: "('h, 'c) WantList \<Rightarrow> 'c list \<Rightarrow> 'c WantEntry list" where
  "wl_get_batch wl cids = List.map_filter (wl_get wl) cids"

text \<open>
  \<open>ConcurrentWantList\<close>: every method takes the lock, poisoned or not, for the whole of its call, so the
  calls of concurrent threads act one after the other on the list inside.
\<close>

record ('h, 'c) ConcurrentWantList =
  cw_inner :: "('h, 'c) WantList"

definition cw_write :: "(('h, 'c) WantList \<Rightarrow> ('h, 'c) WantList \<times> 'r) \<Rightarrow> ('h, 'c) ConcurrentWantList
    \<Rightarrow> ('h, 'c) ConcurrentWantList \<times> 'r" where
  "cw_write f cw = (let (wl, r) = f (cw_inner cw) in (\<lparr>cw_inner = wl\<rparr>, r))"

definition cw_new :: "('h, 'c) wl_heap_ops \<Rightarrow> WantListConfig \<Rightarrow> ('h, 'c) ConcurrentWantList" where
  "cw_new H config = \<lparr>cw_inner = wl_new H config\<rparr>"

definition cw_with_defaults :: "('h, 'c) wl_heap_ops \<Rightarrow> ('h, 'c) ConcurrentWantList" where
  "cw_with_defaults H = cw_new H wlc_default"

definition cw_add ::
    "('h, 'c) wl_heap_ops \<Rightarrow> instant \<Rightarrow> ('h, 'c) ConcurrentWantList \<Rightarrow> 'c WantEntry
      \<Rightarrow> ('h, 'c) ConcurrentWantList \<times> bool" where
  "cw_add H now cw entry = cw_write (\<lambda>wl. wl_add H now wl entry) cw"

definition cw_add_simple ::
    "('h, 'c) wl_heap_ops \<Rightarrow> instant \<Rightarrow> ('h, 'c) ConcurrentWantList \<Rightarrow> 'c \<Rightarrow> int
      \<Rightarrow> ('h, 'c) ConcurrentWantList \<times> bool" where
  "cw_add_simple H now cw cid priority = cw_write (\<lambda>wl. wl_add_simple H now wl cid priority) cw"

definition cw_remove ::
    "('h, 'c) ConcurrentWantList \<Rightarrow> 'c
      \<Rightarrow> ('h, 'c) ConcurrentWantList \<times> 'c WantEntry option" where
  "cw_remove cw cid = cw_write (\<lambda>wl. wl_remove wl cid) cw"

definition cw_update_priority ::
    "('h, 'c) wl_heap_ops \<Rightarrow> ('h, 'c) ConcurrentWantList \<Rightarrow> 'c \<Rightarrow> int
      \<Rightarrow> ('h, 'c) ConcurrentWantList \<times> bool" where
  "cw_update_priority H cw cid p = cw_write (\<lambda>wl. wl_update_priority H wl cid p) cw"

definition cw_pop ::
    "('h, 'c) wl_heap_ops \<Rightarrow> ('h, 'c) ConcurrentWantList
      \<Rightarrow> ('h, 'c) ConcurrentWantList \<times> 'c WantEntry option option" where
  "cw_pop H cw = cw_write (wl_pop H) cw"

definition cw_contains ::
    "('h, 'c) ConcurrentWantList \<Rightarrow> 'c \<Rightarrow> bool" where
  "cw_contains cw cid = wl_contains (cw_inner cw) cid"

definition cw_len ::
    "('h, 'c) ConcurrentWantList \<Rightarrow> nat" where
  "cw_len cw = wl_len (cw_inner cw)"

definition cw_is_empty ::
    "('h, 'c) ConcurrentWantList \<Rightarrow> bool" where
  "cw_is_empty cw = wl_is_empty (cw_inner cw)"

definition cw_cleanup_expired ::
    "('c \<Rightarrow> instant) \<Rightarrow> ('h, 'c) ConcurrentWantList
      \<Rightarrow> ('h, 'c) ConcurrentWantList \<times> 'c WantEntry list" where
  "cw_cleanup_expired clock cw = cw_write (wl_cleanup_expired clock) cw"

definition cw_boost_deadline_priorities ::
    "('h, 'c) wl_heap_ops \<Rightarrow> instant \<Rightarrow> ('c \<Rightarrow> instant) \<Rightarrow> ('h, 'c) ConcurrentWantList
      \<Rightarrow> ('h, 'c) ConcurrentWantList" where
  "cw_boost_deadline_priorities H now clock cw =
     fst (cw_write (\<lambda>wl. (wl_boost_deadline_priorities H now clock wl, ())) cw)"

definition cw_cids ::
    "('h, 'c) ConcurrentWantList \<Rightarrow> 'c list" where
  "cw_cids cw = wl_cids (cw_inner cw)"

definition cw_mark_attempted ::
    "instant \<Rightarrow> ('h, 'c) ConcurrentWantList \<Rightarrow> 'c
      \<Rightarrow> ('h, 'c) ConcurrentWantList" where
  "cw_mark_attempted now cw cid = fst (cw_write (\<lambda>wl. (wl_mark_attempted now wl cid, ())) cw)"

definition cw_retry_delay ::
    "u64 \<Rightarrow> ('h, 'c) ConcurrentWantList \<Rightarrow> u32 \<Rightarrow> duration" where
  "cw_retry_delay nanos cw retry_count = wl_retry_delay nanos (cw_inner cw) retry_count"

definition cw_add_batch ::
    "('h, 'c) wl_heap_ops \<Rightarrow> ('c \<Rightarrow> instant) \<Rightarrow> ('h, 'c) ConcurrentWantList \<Rightarrow> ('c \<times> int) list
      \<Rightarrow> ('h, 'c) ConcurrentWantList \<times> nat" where
  "cw_add_batch H clock cw es = cw_write (\<lambda>wl. wl_add_batch H clock wl es) cw"

definition cw_add_batch_same_priority ::
    "('h, 'c) wl_heap_ops \<Rightarrow> ('c \<Rightarrow> instant) \<Rightarrow> ('h, 'c) ConcurrentWantList \<Rightarrow> 'c list \<Rightarrow> int
      \<Rightarrow> ('h, 'c) ConcurrentWantList \<times> nat" where
  "cw_add_batch_same_priority H clock cw cids p = cw_write (\<lambda>wl. wl_add_batch_same_priority H clock wl cids p) cw"

definition cw_remove_batch ::
    "('h, 'c) ConcurrentWantList \<Rightarrow> 'c list
      \<Rightarrow> ('h, 'c) ConcurrentWantList \<times> 'c WantEntry list" where
  "cw_remove_batch cw cids = cw_write (\<lambda>wl. wl_remove_batch wl cids) cw"

definition cw_update_priorities_batch ::
    "('h, 'c) wl_heap_ops \<Rightarrow> ('h, 'c) ConcurrentWantList \<Rightarrow> ('c \<times> int) list
      \<Rightarrow> ('h, 'c) ConcurrentWantList \<times> nat" where
  "cw_update_priorities_batch H cw us = cw_write (\<lambda>wl. wl_update_priorities_batch H wl us) cw"

definition cw_contains_any ::
    "('h, 'c) ConcurrentWantList \<Rightarrow> 'c list \<Rightarrow> bool" where
  "cw_contains_any cw cids = wl_contains_any (cw_inner cw) cids"

definition cw_contains_all ::
    "('h, 'c) ConcurrentWantList \<Rightarrow> 'c list \<Rightarrow> bool" where
  "cw_contains_all cw cids = wl_contains_all (cw_inner cw) cids"

definition cw_get_batch ::
    "('h, 'c) ConcurrentWantList \<Rightarrow> 'c list \<Rightarrow> 'c WantEntry list" where
  "cw_get_batch cw cids = wl_get_batch (cw_inner cw) cids"

subsection \<open>The heap\<close>

text \<open>What the want list relies on of \<open>BinaryHeap\<close>: a bag from which \<open>pop\<close> takes some greatest element.\<close>

locale max_heap =
  fixes H :: "('h, 'e) heap_ops" and le :: "'e \<Rightarrow> 'e \<Rightarrow> bool" and bag :: "'h \<Rightarrow> 'e multiset" and hinv :: "'h \<Rightarrow> bool"
  assumes heap_new: "hinv (hp_new H)" "bag (hp_new H) = {#}"
    and heap_push: "hinv h \<Longrightarrow> hinv (hp_push H h e)" "hinv h \<Longrightarrow> bag (hp_push H h e) = add_mset e (bag h)"
    and heap_pop_None: "hinv h \<Longrightarrow> hp_pop H h = None \<longleftrightarrow> bag h = {#}"
    and heap_pop_Some: "hinv h \<Longrightarrow> hp_pop H h = Some (e, h') \<Longrightarrow>
          hinv h' \<and> bag h = add_mset e (bag h') \<and> (\<forall>x \<in># bag h. le x e)"
    and heap_len: "hinv h \<Longrightarrow> hp_len H h = size (bag h)"

fun pick_max :: "'c HeapEntry list \<Rightarrow> 'c HeapEntry option" where
  "pick_max [] = None"
| "pick_max (x # xs) = (case pick_max xs of None \<Rightarrow> Some x | Some y \<Rightarrow> if he_le y x then Some x else Some y)"

definition list_heap :: "('c HeapEntry list, 'c HeapEntry) heap_ops" where
  "list_heap = \<lparr>hp_new = [], hp_push = (\<lambda>h e. h @ [e]),
     hp_pop = (\<lambda>h. map_option (\<lambda>e. (e, remove1 e h)) (pick_max h)), hp_len = length\<rparr>"

lemma he_le_trans: "he_le a b \<Longrightarrow> he_le b c \<Longrightarrow> he_le a c"
  by (auto simp: he_le_def)

lemma he_le_total: "he_le a b \<or> he_le b a"
  by (auto simp: he_le_def)

lemma he_le_refl [simp]: "he_le a a"
  by (simp add: he_le_def)

lemma pick_max_None: "pick_max xs = None \<longleftrightarrow> xs = []"
  by (cases xs) (auto split: option.splits)

lemma pick_max_Some: "pick_max xs = Some e \<Longrightarrow> e \<in> set xs \<and> (\<forall>x \<in> set xs. he_le x e)"
proof (induction xs arbitrary: e)
  case (Cons x xs)
  show ?case
  proof (cases "pick_max xs")
    case None
    then show ?thesis using Cons.prems by (simp add: pick_max_None)
  next
    case (Some y)
    from Cons.IH [OF this] Cons.prems Some show ?thesis
      by (auto split: if_splits intro: he_le_trans dest: he_le_total [of x y, THEN disjE])
         (metis he_le_total he_le_trans)+
  qed
qed simp

interpretation list_heap: max_heap list_heap he_le mset "\<lambda>_. True"
proof unfold_locales
  fix h :: "'c HeapEntry list" and e h'
  show "hp_pop list_heap h = None \<longleftrightarrow> mset h = {#}" by (simp add: list_heap_def pick_max_None)
  show "True \<and> mset h = add_mset e (mset h') \<and> (\<forall>x \<in># mset h. he_le x e)" if "hp_pop list_heap h = Some (e, h')"
    using that pick_max_Some [of h e] by (auto simp: list_heap_def)
qed (simp_all add: list_heap_def)

subsection \<open>The invariant\<close>

text \<open>
  A heap element is live if it carries the version of its CID's entry. In a well-formed list every
  entry has exactly one live element, and versions are at most the counter.
\<close>

definition wl_live :: "('c \<times> 'c WantEntry \<times> u64) list \<Rightarrow> 'c HeapEntry \<Rightarrow> bool" where
  "wl_live es e \<longleftrightarrow> (\<exists>w. map_of es (he_cid e) = Some (w, he_version e))"

definition wl_queue :: "('h \<Rightarrow> 'c HeapEntry multiset) \<Rightarrow> ('h, 'c) WantList \<Rightarrow> 'c HeapEntry multiset" where
  "wl_queue bag wl = filter_mset (wl_live (wl_entries wl)) (bag (wl_heap wl))"

definition wl_inv :: "('h \<Rightarrow> 'c HeapEntry multiset) \<Rightarrow> ('h \<Rightarrow> bool) \<Rightarrow> ('h, 'c) WantList \<Rightarrow> bool" where
  "wl_inv bag hinv wl \<longleftrightarrow>
     hinv (wl_heap wl) \<and> hm_ok (wl_entries wl) \<and> wl_len wl \<le> max_wants (wl_config wl) \<and>
     (\<forall>e \<in># bag (wl_heap wl). he_version e \<le> wl_version_counter wl) \<and>
     (\<forall>(w, v) \<in> ran (map_of (wl_entries wl)). v \<le> wl_version_counter wl) \<and>
     image_mset he_cid (wl_queue bag wl) = mset_set (dom (map_of (wl_entries wl)))"

lemma finite_entries [simp]: "finite (dom (map_of es))"
  by (simp add: finite_dom_map_of)

lemma image_filter_he_cid:
  "image_mset he_cid (filter_mset (\<lambda>e. he_cid e \<noteq> c) M) = filter_mset (\<lambda>d. d \<noteq> c) (image_mset he_cid M)"
  by (simp add: filter_mset_image_mset)

lemma word_less_inc: "v \<noteq> - 1 \<Longrightarrow> v < v + 1" for v :: u64
  using unatSuc [of v] by (simp add: word_less_nat_alt add.commute eq_neg_iff_add_eq_0)

text \<open>The step that \<open>add\<close> and \<open>update_priority\<close> share: a new version of an entry.\<close>

definition wl_schedule :: "('h, 'c) wl_heap_ops \<Rightarrow> ('h, 'c) WantList \<Rightarrow> 'c \<Rightarrow> 'c WantEntry \<Rightarrow> int \<Rightarrow> ('h, 'c) WantList" where
  "wl_schedule H wl c w p =
     wl\<lparr>wl_version_counter := wl_version_counter wl + 1,
        wl_entries := hm_insert c (w, wl_version_counter wl + 1) (wl_entries wl),
        wl_heap := hp_push H (wl_heap wl)
          \<lparr>he_cid = c, he_priority = p, he_created_at = we_created_at w, he_version = wl_version_counter wl + 1\<rparr>\<rparr>"

lemma wl_add_schedule:
  "wl_add H now wl w =
     (if wl_contains wl (we_cid w) \<or> max_wants (wl_config wl) \<le> wl_len wl then (wl, False)
      else (wl_schedule H wl (we_cid w) w (effective_priority now w), True))"
  by (simp add: wl_add_def wl_schedule_def wl_contains_def wl_len_def Let_def)

lemma wl_update_schedule:
  "wl_update_priority H wl c p =
     (case wl_get wl c of None \<Rightarrow> (wl, False)
      | Some w \<Rightarrow> (wl_schedule H wl c (w\<lparr>we_priority := p\<rparr>) p, True))"
  by (simp add: wl_update_priority_def wl_schedule_def wl_get_def Let_def split: option.split)

locale want_queue = max_heap H he_le bag hinv
  for H :: "('h, 'c HeapEntry) heap_ops" and bag hinv
begin

lemma inv_new: "wl_inv bag hinv (wl_new H config)"
  by (simp add: wl_inv_def wl_new_def wl_queue_def wl_len_def hm_ok_def heap_new)

lemma queue_schedule:
  assumes "wl_inv bag hinv wl" "wl_version_counter wl \<noteq> - 1"
  shows "wl_queue bag (wl_schedule H wl c w p) =
    add_mset \<lparr>he_cid = c, he_priority = p, he_created_at = we_created_at w, he_version = wl_version_counter wl + 1\<rparr>
      (filter_mset (\<lambda>e. he_cid e \<noteq> c) (wl_queue bag wl))"
proof -
  have old: "he_version e \<noteq> wl_version_counter wl + 1" if "e \<in># bag (wl_heap wl)" for e
    using that assms(1) word_less_inc [OF assms(2)] unfolding wl_inv_def by (metis leD)
  have "filter_mset (wl_live (wl_entries (wl_schedule H wl c w p))) (bag (wl_heap wl)) =
      filter_mset (\<lambda>e. he_cid e \<noteq> c \<and> wl_live (wl_entries wl) e) (bag (wl_heap wl))"
    by (rule filter_mset_cong) (auto simp: wl_schedule_def wl_live_def old dest: old)
  moreover have "bag (wl_heap (wl_schedule H wl c w p)) =
      add_mset \<lparr>he_cid = c, he_priority = p, he_created_at = we_created_at w, he_version = wl_version_counter wl + 1\<rparr>
        (bag (wl_heap wl))"
    using assms(1) by (simp add: wl_schedule_def wl_inv_def heap_push)
  ultimately show ?thesis
    unfolding wl_queue_def by (simp add: wl_live_def filter_filter_mset conj_commute) (simp add: wl_schedule_def)
qed

lemma inv_schedule:
  assumes "wl_inv bag hinv wl" "wl_version_counter wl \<noteq> - 1"
    and "wl_contains wl c \<or> wl_len wl < max_wants (wl_config wl)"
  shows "wl_inv bag hinv (wl_schedule H wl c w p)"
proof -
  let ?wl = "wl_schedule H wl c w p"
  have le: "v \<le> wl_version_counter wl + 1" if "v \<le> wl_version_counter wl" for v
    using that word_less_inc [OF assms(2)] by simp
  have "image_mset he_cid (wl_queue bag ?wl) = add_mset c (filter_mset (\<lambda>d. d \<noteq> c) (image_mset he_cid (wl_queue bag wl)))"
    unfolding queue_schedule [OF assms(1,2)] by (simp add: image_filter_he_cid)
  also have "\<dots> = mset_set (insert c (dom (map_of (wl_entries wl))))"
    using assms(1) by (auto simp: wl_inv_def filter_mset_mset_set mset_set.insert_remove
        intro!: arg_cong [where f = mset_set])
  finally have "image_mset he_cid (wl_queue bag ?wl) = mset_set (dom (map_of (wl_entries ?wl)))"
    by (simp add: wl_schedule_def)
  moreover have "ran (map_of (wl_entries ?wl)) \<subseteq> insert (w, wl_version_counter wl + 1) (ran (map_of (wl_entries wl)))"
    by (auto simp: wl_schedule_def ran_def split: if_splits)
  then have "\<forall>(w, v) \<in> ran (map_of (wl_entries ?wl)). v \<le> wl_version_counter wl + 1"
    using assms(1) le unfolding wl_inv_def by fast
  moreover have "wl_len ?wl \<le> max_wants (wl_config ?wl)"
    using assms(1,3) by (auto simp: wl_schedule_def wl_len_def wl_inv_def wl_contains_def length_hm_insert)
  ultimately show ?thesis using assms(1) le
    by (auto simp: wl_inv_def wl_schedule_def heap_push)
qed

end

text \<open>Removing an entry leaves its elements in the heap, no longer live.\<close>

lemma queue_remove:
  "wl_queue bag (wl\<lparr>wl_entries := hm_remove c (wl_entries wl)\<rparr>) =
   filter_mset (\<lambda>e. he_cid e \<noteq> c) (wl_queue bag wl)"
  unfolding wl_queue_def
  by (simp add: filter_filter_mset) (rule filter_mset_cong, auto simp: wl_live_def)

lemma ran_remove: "ran (map_of (hm_remove c es)) \<subseteq> ran (map_of es)"
  by (auto simp: ran_def split: if_splits)

lemma length_remove_le: "length (hm_remove c es) \<le> length es"
  by (simp add: hm_remove_def AList.length_delete_le)

lemma mset_set_dom_remove:
  "filter_mset (\<lambda>d. d \<noteq> c) (mset_set (dom (map_of es))) = mset_set (dom (map_of (hm_remove c es)))"
  by (auto simp: filter_mset_mset_set intro!: arg_cong [where f = mset_set])

lemma inv_remove: "wl_inv bag hinv wl \<Longrightarrow> wl_inv bag hinv (fst (wl_remove wl c))"
  using ran_remove [of c "wl_entries wl"] length_remove_le [of c "wl_entries wl"]
  unfolding wl_inv_def wl_remove_def fst_conv queue_remove image_filter_he_cid
  by (auto simp: wl_len_def mset_set_dom_remove)

text \<open>Changing an entry in place leaves the queue alone.\<close>

definition wl_modify :: "('h, 'c) WantList \<Rightarrow> 'c \<Rightarrow> ('c WantEntry \<Rightarrow> 'c WantEntry) \<Rightarrow> ('h, 'c) WantList" where
  "wl_modify wl c f =
     (case map_of (wl_entries wl) c of
        None \<Rightarrow> wl
      | Some (w, v) \<Rightarrow> wl\<lparr>wl_entries := hm_insert c (f w, v) (wl_entries wl)\<rparr>)"

lemma wl_modify_eqs:
  "wl_get_mut f wl c = wl_modify wl c f"
  "wl_mark_attempted now wl c =
     wl_modify wl c (\<lambda>w. w\<lparr>we_retry_count := we_retry_count w + 1, we_last_attempt := Some now\<rparr>)"
  by (simp_all add: wl_get_mut_def wl_mark_attempted_def wl_modify_def)

lemma queue_modify: "wl_queue bag (wl_modify wl c f) = wl_queue bag wl"
  unfolding wl_queue_def wl_modify_def
  by (cases "map_of (wl_entries wl) c") (auto simp: wl_live_def split: if_splits intro!: filter_mset_cong)

lemma inv_modify: "wl_inv bag hinv wl \<Longrightarrow> wl_inv bag hinv (wl_modify wl c f)"
proof (cases "map_of (wl_entries wl) c")
  case (Some wv)
  obtain w v where wv: "wv = (w, v)" by force
  assume inv: "wl_inv bag hinv wl"
  have v: "v \<le> wl_version_counter wl" using inv Some wv by (auto simp: wl_inv_def dest: ranI)
  have "ran (map_of (wl_entries (wl_modify wl c f))) \<subseteq> insert (f w, v) (ran (map_of (wl_entries wl)))"
    using Some wv by (auto simp: wl_modify_def ran_def split: if_splits)
  then have "\<forall>(w, v) \<in> ran (map_of (wl_entries (wl_modify wl c f))). v \<le> wl_version_counter wl"
    using inv v unfolding wl_inv_def by fast
  moreover have "dom (map_of (wl_entries (wl_modify wl c f))) = dom (map_of (wl_entries wl))"
    using Some wv by (auto simp: wl_modify_def)
  moreover have "length (hm_insert c (f w, v) (wl_entries wl)) = length (wl_entries wl)"
    using Some by (simp add: length_hm_insert)
  ultimately show ?thesis using inv Some wv queue_modify [of bag wl c f] unfolding wl_inv_def
    by (simp add: wl_modify_def wl_len_def)
qed (simp add: wl_modify_def)

text \<open>
  The specification of \<open>pop\<close> over the queue of live elements: a greatest one is taken, its entry
  returned and removed.
\<close>

definition pops :: "('h \<Rightarrow> 'c HeapEntry multiset) \<Rightarrow> ('h \<Rightarrow> bool) \<Rightarrow> ('h, 'c) WantList \<Rightarrow> ('h, 'c) WantList
    \<Rightarrow> 'c WantEntry option \<Rightarrow> bool" where
  "pops bag hinv wl wl' r \<longleftrightarrow>
     wl_inv bag hinv wl' \<and> wl_version_counter wl' = wl_version_counter wl \<and> wl_config wl' = wl_config wl \<and>
     (case r of
        None \<Rightarrow> wl_queue bag wl = {#} \<and> wl_entries wl' = wl_entries wl \<and> wl_entries wl = []
      | Some w \<Rightarrow> \<exists>e. wl_queue bag wl = add_mset e (wl_queue bag wl') \<and> (\<forall>x \<in># wl_queue bag wl. he_le x e) \<and>
          map_of (wl_entries wl) (he_cid e) = Some (w, he_version e) \<and>
          wl_entries wl' = hm_remove (he_cid e) (wl_entries wl))"

context want_queue
begin

lemma pop_element:
  assumes "wl_inv bag hinv wl" "hp_pop H (wl_heap wl) = Some (e, h)"
  shows "hinv h" "bag (wl_heap wl) = add_mset e (bag h)" "\<forall>x \<in># bag (wl_heap wl). he_le x e"
  using heap_pop_Some [of "wl_heap wl" e h] assms by (auto simp: wl_inv_def)

lemma pop_stale:
  assumes "wl_inv bag hinv wl" "hp_pop H (wl_heap wl) = Some (e, h)" "\<not> wl_live (wl_entries wl) e"
  shows "wl_inv bag hinv (wl\<lparr>wl_heap := h\<rparr>)" "wl_queue bag (wl\<lparr>wl_heap := h\<rparr>) = wl_queue bag wl"
proof -
  note p = pop_element [OF assms(1,2)]
  show q: "wl_queue bag (wl\<lparr>wl_heap := h\<rparr>) = wl_queue bag wl"
    using assms(3) by (simp add: wl_queue_def p(2))
  show "wl_inv bag hinv (wl\<lparr>wl_heap := h\<rparr>)"
    using assms(1) p unfolding wl_inv_def q by (simp add: wl_len_def)
qed

lemma pop_live:
  assumes "wl_inv bag hinv wl" "hp_pop H (wl_heap wl) = Some (e, h)"
    and "map_of (wl_entries wl) (he_cid e) = Some (w, he_version e)"
  shows "pops bag hinv wl (wl\<lparr>wl_heap := h, wl_entries := hm_remove (he_cid e) (wl_entries wl)\<rparr>) (Some w)"
proof -
  let ?wl = "wl\<lparr>wl_heap := h, wl_entries := hm_remove (he_cid e) (wl_entries wl)\<rparr>"
  note p = pop_element [OF assms(1,2)]
  have live: "wl_live (wl_entries wl) e" using assms(3) by (simp add: wl_live_def)
  then have q: "wl_queue bag wl = add_mset e (wl_queue bag (wl\<lparr>wl_heap := h\<rparr>))"
    by (simp add: wl_queue_def p(2))
  have img: "image_mset he_cid (wl_queue bag wl) = mset_set (dom (map_of (wl_entries wl)))"
    using assms(1) by (simp add: wl_inv_def)
  have "he_cid x \<noteq> he_cid e" if "x \<in># wl_queue bag (wl\<lparr>wl_heap := h\<rparr>)" for x
  proof
    assume "he_cid x = he_cid e"
    then have "2 \<le> Multiset.count (image_mset he_cid (wl_queue bag wl)) (he_cid e)"
      using that unfolding q by (metis Suc_le_eq Suc_le_mono count_add_mset image_eqI image_mset_add_mset
          count_greater_zero_iff numeral_2_eq_2 set_image_mset)
    then show False unfolding img by (simp add: count_mset_set' split: if_splits)
  qed
  then have q': "wl_queue bag ?wl = wl_queue bag (wl\<lparr>wl_heap := h\<rparr>)"
    using queue_remove [where wl = "wl\<lparr>wl_heap := h\<rparr>" and c = "he_cid e" and bag = bag]
    by (simp add: filter_mset_eq_conv)
  have "image_mset he_cid (wl_queue bag ?wl) = mset_set (dom (map_of (wl_entries ?wl)))"
  proof -
    have "mset_set (dom (map_of (wl_entries wl))) = add_mset (he_cid e) (mset_set (dom (map_of (wl_entries ?wl))))"
      using mset_set.remove [of "dom (map_of (wl_entries wl))" "he_cid e"] assms(3) by (simp add: domI)
    then show ?thesis using img unfolding q q' by simp
  qed
  then have "wl_inv bag hinv ?wl"
    using assms(1) p ran_remove [of "he_cid e" "wl_entries wl"] length_remove_le [of "he_cid e" "wl_entries wl"]
    unfolding wl_inv_def by (auto simp: wl_len_def)
  then show ?thesis
    using p(2,3) q q' assms(3) by (auto simp: pops_def wl_queue_def)
qed

lemma pop_loop:
  assumes "wl_inv bag hinv wl" "size (bag (wl_heap wl)) < fuel"
  shows "\<exists>wl' r. wl_pop_loop H fuel wl = (wl', Some r) \<and> pops bag hinv wl wl' r"
  using assms
proof (induction fuel arbitrary: wl)
  case (Suc fuel)
  have h: "hinv (wl_heap wl)" using Suc.prems(1) by (simp add: wl_inv_def)
  show ?case
  proof (cases "hp_pop H (wl_heap wl)")
    case None
    then have "bag (wl_heap wl) = {#}" using heap_pop_None [OF h] by simp
    then have "wl_queue bag wl = {#}" by (simp add: wl_queue_def)
    moreover from this have "wl_entries wl = []" using Suc.prems(1)
      by (auto simp: wl_inv_def mset_set_empty_iff)
    ultimately show ?thesis using None Suc.prems(1) by (simp add: pops_def)
  next
    case (Some eh)
    obtain e h' where eh: "hp_pop H (wl_heap wl) = Some (e, h')" using Some by (cases eh) auto
    show ?thesis
    proof (cases "wl_live (wl_entries wl) e")
      case True
      then obtain w where w: "map_of (wl_entries wl) (he_cid e) = Some (w, he_version e)" by (auto simp: wl_live_def)
      have "wl_pop_loop H (Suc fuel) wl =
          (wl\<lparr>wl_heap := h', wl_entries := hm_remove (he_cid e) (wl_entries wl)\<rparr>, Some (Some w))"
        using eh w by (simp add: wl_remove_def Let_def)
      then show ?thesis using pop_live [OF Suc.prems(1) eh w] by blast
    next
      case False
      note s = pop_stale [OF Suc.prems(1) eh False]
      have "size (bag h') < fuel" using Suc.prems(2) pop_element(2) [OF Suc.prems(1) eh] by simp
      then obtain wl' r where r: "wl_pop_loop H fuel (wl\<lparr>wl_heap := h'\<rparr>) = (wl', Some r)"
          "pops bag hinv (wl\<lparr>wl_heap := h'\<rparr>) wl' r"
        using Suc.IH [OF s(1)] by auto
      have "wl_pop_loop H (Suc fuel) wl = wl_pop_loop H fuel (wl\<lparr>wl_heap := h'\<rparr>)"
        using eh False by (auto simp: wl_live_def Let_def split: option.split)
      moreover have "pops bag hinv wl wl' r" using r(2) s(2) by (cases r) (simp_all add: pops_def)
      ultimately show ?thesis using r(1) by (metis (no_types))
    qed
  qed
qed simp

lemma pop_spec:
  assumes "wl_inv bag hinv wl"
  shows "\<exists>wl' r. wl_pop H wl = (wl', Some r) \<and> pops bag hinv wl wl' r"
  unfolding wl_pop_def
  by (rule pop_loop [OF assms]) (use assms heap_len in \<open>simp add: wl_inv_def\<close>)

end

text \<open>Popping until the list is empty.\<close>

fun wl_drain :: "('h, 'c) wl_heap_ops \<Rightarrow> nat \<Rightarrow> ('h, 'c) WantList \<Rightarrow> ('h, 'c) WantList \<times> 'c WantEntry list" where
  "wl_drain H 0 wl = (wl, [])"
| "wl_drain H (Suc n) wl =
     (case wl_pop H wl of
        (wl, Some (Some w)) \<Rightarrow> let (wl, ws) = wl_drain H n wl in (wl, w # ws)
      | (wl, _) \<Rightarrow> (wl, []))"

lemma size_queue: "wl_inv bag hinv wl \<Longrightarrow> size (wl_queue bag wl) = wl_len wl"
proof -
  assume inv: "wl_inv bag hinv wl"
  have "size (wl_queue bag wl) = size (image_mset he_cid (wl_queue bag wl))" by simp
  also have "\<dots> = card (fst ` set (wl_entries wl))"
    using inv by (simp add: wl_inv_def dom_map_of_conv_image_fst)
  also have "\<dots> = length (map fst (wl_entries wl))"
    using inv by (metis distinct_card hm_ok_def list.set_map wl_inv_def)
  finally show ?thesis by (simp add: wl_len_def)
qed

lemma queue_get: "e \<in># wl_queue bag wl \<Longrightarrow> \<exists>w. map_of (wl_entries wl) (he_cid e) = Some (w, he_version e)"
  by (simp add: wl_queue_def wl_live_def)

text \<open>The effect of a batch of updates: for each CID the last one counts.\<close>

definition updated_as :: "('h \<Rightarrow> 'c HeapEntry multiset) \<Rightarrow> ('h \<Rightarrow> bool) \<Rightarrow> ('h, 'c) WantList \<Rightarrow> ('c \<times> int) list
    \<Rightarrow> ('h, 'c) WantList \<Rightarrow> bool" where
  "updated_as bag hinv wl us wl' \<longleftrightarrow>
     wl_inv bag hinv wl' \<and>
     unat (wl_version_counter wl') \<le> unat (wl_version_counter wl) + length us \<and>
     (\<forall>c. wl_get wl' c =
       map_option (\<lambda>w. case map_of (rev us) c of None \<Rightarrow> w | Some p \<Rightarrow> w\<lparr>we_priority := p\<rparr>) (wl_get wl c)) \<and>
     (\<forall>e \<in># wl_queue bag wl'.
       case map_of (rev us) (he_cid e) of None \<Rightarrow> e \<in># wl_queue bag wl | Some p \<Rightarrow> he_priority e = p)"

lemma no_wrap: "Suc (unat v) < 2 ^ 64 \<Longrightarrow> v \<noteq> - 1" for v :: u64
  by (auto simp: unsigned_minus_1_eq_mask mask_eq_exp_minus_1)

lemma unat_inc: "v \<noteq> - 1 \<Longrightarrow> unat (v + 1) = Suc (unat v)" for v :: u64
  using unatSuc [of v] by (simp add: add.commute eq_neg_iff_add_eq_0)

context want_queue
begin

lemma drain_spec:
  assumes "wl_inv bag hinv wl" "wl_len wl = n"
  shows "\<exists>wl' es. wl_drain H n wl = (wl', map (\<lambda>e. the (wl_get wl (he_cid e))) es) \<and> wl_entries wl' = [] \<and>
    mset es = wl_queue bag wl \<and> sorted_wrt (\<lambda>a b. he_le b a) es"
  using assms
proof (induction n arbitrary: wl)
  case 0
  then have "wl_queue bag wl = {#}" using size_queue [OF "0.prems"(1)] by simp
  then show ?case using 0 by (intro exI [of _ wl] exI [of _ "[]"]) (simp add: wl_len_def)
next
  case (Suc n)
  obtain wl' r where p: "wl_pop H wl = (wl', Some r)" "pops bag hinv wl wl' r"
    using pop_spec [OF Suc.prems(1)] by blast
  have "wl_queue bag wl \<noteq> {#}" using size_queue [OF Suc.prems(1)] Suc.prems(2) by auto
  then obtain w e where e: "r = Some w" "wl_queue bag wl = add_mset e (wl_queue bag wl')"
      "\<forall>x \<in># wl_queue bag wl. he_le x e" "map_of (wl_entries wl) (he_cid e) = Some (w, he_version e)"
      "wl_entries wl' = hm_remove (he_cid e) (wl_entries wl)" "wl_inv bag hinv wl'"
    using p(2) by (cases r) (auto simp: pops_def)
  have "wl_len wl' = n" using size_queue [OF Suc.prems(1)] size_queue [OF e(6)] e(2) Suc.prems(2) by simp
  then obtain wl'' es where d: "wl_drain H n wl' = (wl'', map (\<lambda>e. the (wl_get wl' (he_cid e))) es)"
      "wl_entries wl'' = []" "mset es = wl_queue bag wl'" "sorted_wrt (\<lambda>a b. he_le b a) es"
    using Suc.IH [OF e(6)] by blast
  have "wl_get wl' (he_cid x) = wl_get wl (he_cid x)" if "x \<in> set es" for x
    using that queue_get [of x bag wl'] e(5) d(3) by (auto simp: wl_get_def simp flip: set_mset_mset split: if_splits)
  then have "wl_drain H (Suc n) wl = (wl'', map (\<lambda>e. the (wl_get wl (he_cid e))) (e # es))"
    using p(1) e(1,4) d(1) by (simp add: wl_get_def)
  moreover have "sorted_wrt (\<lambda>a b. he_le b a) (e # es)"
    using d(3,4) e(2,3) by (auto simp flip: set_mset_mset)
  moreover have "mset (e # es) = wl_queue bag wl" using d(3) e(2) by simp
  ultimately show ?case using d(2) by blast
qed

lemma updates_spec:
  assumes "wl_inv bag hinv wl" "unat (wl_version_counter wl) + length us < 2 ^ 64"
  shows "updated_as bag hinv wl us (fst (wl_updates H wl us))"
  using assms
proof (induction us arbitrary: wl)
  case (Cons u us)
  obtain c p where u: "u = (c, p)" by force
  show ?case
  proof (cases "wl_get wl c")
    case None
    let ?wl = "fst (wl_updates H wl us)"
    have step: "fst (wl_updates H wl (u # us)) = ?wl" using u None by (simp add: wl_update_schedule split_beta)
    have IH: "updated_as bag hinv wl us ?wl" by (rule Cons.IH [OF Cons.prems(1)]) (use Cons.prems(2) in simp)
    have "he_cid e \<noteq> c" if "e \<in># wl_queue bag ?wl" for e
    proof
      assume "he_cid e = c"
      then have "wl_get ?wl (he_cid e) = None" using IH None by (simp add: updated_as_def)
      with queue_get [OF that] show False by (auto simp: wl_get_def)
    qed
    with IH show ?thesis unfolding step using None u by (auto simp: updated_as_def map_add_def split: option.splits)
  next
    case (Some w)
    let ?wl = "wl_schedule H wl c (w\<lparr>we_priority := p\<rparr>) p"
    have step: "fst (wl_updates H wl (u # us)) = fst (wl_updates H ?wl us)"
      using u Some by (simp add: wl_update_schedule split_beta)
    have nw: "wl_version_counter wl \<noteq> - 1" using Cons.prems(2) no_wrap by simp
    then have v: "unat (wl_version_counter ?wl) = unat (wl_version_counter wl) + 1"
      by (simp add: wl_schedule_def unat_inc)
    have "wl_inv bag hinv ?wl"
      by (rule inv_schedule [OF Cons.prems(1) nw]) (use Some in \<open>auto simp: wl_contains_def wl_get_def\<close>)
    from Cons.IH [OF this] v Cons.prems(2) have IH: "updated_as bag hinv ?wl us (fst (wl_updates H ?wl us))" by simp
    have g: "wl_get ?wl d = (if d = c then Some (w\<lparr>we_priority := p\<rparr>) else wl_get wl d)" for d
      by (simp add: wl_get_def wl_schedule_def)
    have "case map_of (rev (u # us)) (he_cid e) of None \<Rightarrow> e \<in># wl_queue bag wl | Some p \<Rightarrow> he_priority e = p"
      if e: "e \<in># wl_queue bag (fst (wl_updates H ?wl us))" for e
    proof (cases "map_of (rev us) (he_cid e)")
      case None
      then have "e \<in># wl_queue bag ?wl" using IH e by (force simp: updated_as_def)
      then have "he_cid e = c \<and> he_priority e = p \<or> he_cid e \<noteq> c \<and> e \<in># wl_queue bag wl"
        unfolding queue_schedule [OF Cons.prems(1) nw] by auto
      then show ?thesis using None u by (auto simp: map_add_def)
    next
      case (Some q)
      then have "he_priority e = q" using IH e by (force simp: updated_as_def)
      then show ?thesis using Some by (simp add: map_add_def)
    qed
    moreover have "wl_get (fst (wl_updates H ?wl us)) d =
        map_option (\<lambda>w. case map_of (rev (u # us)) d of None \<Rightarrow> w | Some p \<Rightarrow> w\<lparr>we_priority := p\<rparr>) (wl_get wl d)" for d
      using IH g [of d] u Some by (auto simp: updated_as_def map_add_def split: option.split)
    ultimately show ?thesis unfolding step using IH v by (simp add: updated_as_def)
  qed
qed (simp add: updated_as_def option.map_ident)

end

subsection \<open>The life of a want list\<close>

text \<open>
  \<open>wl_run H k wl\<close>: the list is reached from a new one by operations that schedule at most \<open>k\<close> times.
  The batch operations, \<open>cleanup_expired\<close> and \<open>boost_deadline_priorities\<close> are sequences of these.
\<close>

inductive wl_run :: "('h, 'c) wl_heap_ops \<Rightarrow> nat \<Rightarrow> ('h, 'c) WantList \<Rightarrow> bool" for H where
  run_new: "wl_run H 0 (wl_new H config)"
| run_add: "wl_run H k wl \<Longrightarrow> wl_add H now wl w = (wl', b) \<Longrightarrow> wl_run H (Suc k) wl'"
| run_update: "wl_run H k wl \<Longrightarrow> wl_update_priority H wl c p = (wl', b) \<Longrightarrow> wl_run H (Suc k) wl'"
| run_remove: "wl_run H k wl \<Longrightarrow> wl_remove wl c = (wl', r) \<Longrightarrow> wl_run H k wl'"
| run_pop: "wl_run H k wl \<Longrightarrow> wl_pop H wl = (wl', r) \<Longrightarrow> wl_run H k wl'"
| run_get_mut: "wl_run H k wl \<Longrightarrow> wl_run H k (wl_get_mut f wl c)"
| run_mark: "wl_run H k wl \<Longrightarrow> wl_run H k (wl_mark_attempted now wl c)"
| run_clear: "wl_run H k wl \<Longrightarrow> wl_run H k (wl_clear H wl)"

lemma run_updates: "wl_run H k wl \<Longrightarrow> wl_run H (k + length us) (fst (wl_updates H wl us))"
proof (induction us arbitrary: k wl)
  case (Cons u us)
  obtain c p wl' b where u: "u = (c, p)" "wl_update_priority H wl c p = (wl', b)" by (metis surj_pair)
  from Cons.IH [OF run_update [OF Cons.prems u(2)]] u show ?case by (simp add: split_beta)
qed simp

lemma run_add_batch: "wl_run H k wl \<Longrightarrow> wl_run H (k + length es) (fst (wl_add_batch H clock wl es))"
proof (induction es arbitrary: k wl)
  case (Cons e es)
  obtain c p wl' b where e: "e = (c, p)" "wl_add_simple H (clock c) wl c p = (wl', b)" by (metis surj_pair)
  from Cons.IH [OF run_add [OF Cons.prems e(2) [unfolded wl_add_simple_def]]] e show ?case by (simp add: split_beta)
qed simp

lemma run_remove_batch: "wl_run H k wl \<Longrightarrow> wl_run H k (fst (wl_remove_batch wl cs))"
proof (induction cs arbitrary: wl)
  case (Cons c cs)
  obtain wl' r where r: "wl_remove wl c = (wl', r)" by force
  from Cons.IH [OF run_remove [OF Cons.prems r]] r show ?case by (simp add: split_beta)
qed simp

lemma length_boost_updates: "length (boost_updates now clock es) \<le> 2 * length es"
  by (induction es) (auto simp: boost_updates_def Let_def split: option.split)

context want_queue
begin

lemma counter_schedule:
  "unat (wl_version_counter wl) \<le> k \<Longrightarrow> Suc k < 2 ^ 64 \<Longrightarrow>
   wl_version_counter wl \<noteq> - 1 \<and> unat (wl_version_counter (wl_schedule H wl c w p)) \<le> Suc k"
  using no_wrap [of "wl_version_counter wl"] unat_inc [of "wl_version_counter wl"] by (simp add: wl_schedule_def)

lemma run_inv: "wl_run H k wl \<Longrightarrow> k < 2 ^ 64 \<Longrightarrow> wl_inv bag hinv wl \<and> unat (wl_version_counter wl) \<le> k"
proof (induction rule: wl_run.induct)
  case (run_new config)
  then show ?case using inv_new [of config] by (simp add: wl_new_def)
next
  case (run_add k wl now w wl' b)
  then have IH: "wl_inv bag hinv wl" "unat (wl_version_counter wl) \<le> k" by auto
  show ?case
    using run_add.hyps(2) run_add.prems IH counter_schedule [OF IH(2), of "we_cid w" w] inv_schedule [OF IH(1), of "we_cid w" w]
    by (auto simp: wl_add_schedule split: if_splits)
next
  case (run_update k wl c p wl' b)
  then have IH: "wl_inv bag hinv wl" "unat (wl_version_counter wl) \<le> k" by auto
  show ?case
  proof (cases "wl_get wl c")
    case (Some w)
    then have "wl_contains wl c" by (auto simp: wl_contains_def wl_get_def)
    then show ?thesis
      using run_update.hyps(2) run_update.prems IH counter_schedule [OF IH(2)] inv_schedule [OF IH(1), of c] Some
      by (auto simp: wl_update_schedule)
  qed (use run_update IH in \<open>simp add: wl_update_schedule\<close>)
next
  case (run_remove k wl c wl' r)
  then show ?case using inv_remove [of bag hinv wl c] by (auto simp: wl_remove_def)
next
  case (run_pop k wl wl' r)
  then show ?case using pop_spec [of wl] by (auto simp: pops_def)
next
  case (run_clear k wl)
  then show ?case by (simp add: wl_inv_def wl_clear_def wl_queue_def wl_len_def hm_ok_def heap_new)
qed (simp_all add: wl_modify_eqs inv_modify, simp_all add: wl_modify_def split: option.split)

end

subsection \<open>The priorities wants were scheduled with\<close>

text \<open>
  A ledger beside the run: for each CID the priority and the time of creation with which it was scheduled last. A
  want is scheduled when \<open>add\<close> accepts it, with its effective priority at that moment, and when \<open>update_priority\<close>
  finds it, with the priority given.
\<close>

type_synonym 'c ledger = "'c \<rightharpoonup> int \<times> instant"

inductive wl_history :: "('h, 'c) wl_heap_ops \<Rightarrow> nat \<Rightarrow> ('h, 'c) WantList \<Rightarrow> 'c ledger \<Rightarrow> bool" for H where
  hist_new: "wl_history H 0 (wl_new H config) (\<lambda>_. None)"
| hist_add: "wl_history H k wl led \<Longrightarrow> wl_add H now wl w = (wl', True) \<Longrightarrow>
    wl_history H (Suc k) wl' (led(we_cid w \<mapsto> (effective_priority now w, we_created_at w)))"
| hist_add_refused: "wl_history H k wl led \<Longrightarrow> wl_add H now wl w = (wl', False) \<Longrightarrow> wl_history H (Suc k) wl' led"
| hist_update: "wl_history H k wl led \<Longrightarrow> wl_get wl c = Some w \<Longrightarrow> wl_update_priority H wl c p = (wl', b) \<Longrightarrow>
    wl_history H (Suc k) wl' (led(c \<mapsto> (p, we_created_at w)))"
| hist_update_missing: "wl_history H k wl led \<Longrightarrow> wl_get wl c = None \<Longrightarrow> wl_update_priority H wl c p = (wl', b) \<Longrightarrow>
    wl_history H (Suc k) wl' led"
| hist_remove: "wl_history H k wl led \<Longrightarrow> wl_remove wl c = (wl', r) \<Longrightarrow> wl_history H k wl' led"
| hist_pop: "wl_history H k wl led \<Longrightarrow> wl_pop H wl = (wl', r) \<Longrightarrow> wl_history H k wl' led"
| hist_get_mut: "wl_history H k wl led \<Longrightarrow> wl_history H k (wl_get_mut f wl c) led"
| hist_mark: "wl_history H k wl led \<Longrightarrow> wl_history H k (wl_mark_attempted now wl c) led"
| hist_clear: "wl_history H k wl led \<Longrightarrow> wl_history H k (wl_clear H wl) led"

lemma history_run: "wl_history H k wl led \<Longrightarrow> wl_run H k wl"
  by (induction rule: wl_history.induct)
    (rule run_new, rule run_add, assumption+, rule run_add, assumption+, rule run_update, assumption+, rule run_update, assumption+,
      rule run_remove, assumption+, rule run_pop, assumption+, (rule run_get_mut run_mark run_clear, assumption)+)

lemma run_history: "wl_run H k wl \<Longrightarrow> \<exists>led. wl_history H k wl led"
proof (induction rule: wl_run.induct)
  case (run_add k wl now w wl' b)
  then obtain led where "wl_history H k wl led" by blast
  from hist_add [OF this] hist_add_refused [OF this] run_add.hyps(2) show ?case by (cases b) metis+
next
  case (run_update k wl c p wl' b)
  then obtain led where "wl_history H k wl led" by blast
  from hist_update [OF this] hist_update_missing [OF this] run_update.hyps(2) show ?case by (cases "wl_get wl c") metis+
qed (metis wl_history.intros(1,6-10))+

definition led_by :: "'c ledger \<Rightarrow> 'c HeapEntry multiset \<Rightarrow> bool" where
  "led_by led Q \<longleftrightarrow> (\<forall>e \<in># Q. led (he_cid e) = Some (he_priority e, he_created_at e))"

lemma led_by_mono: "led_by led Q \<Longrightarrow> set_mset Q' \<subseteq> set_mset Q \<Longrightarrow> led_by led Q'"
  by (auto simp: led_by_def)

context want_queue
begin

lemma led_by_schedule:
  assumes "wl_inv bag hinv wl" "wl_version_counter wl \<noteq> - 1" "led_by led (wl_queue bag wl)"
  shows "led_by (led(c \<mapsto> (p, we_created_at w))) (wl_queue bag (wl_schedule H wl c w p))"
  unfolding queue_schedule [OF assms(1,2)] using assms(3) by (auto simp: led_by_def)

lemma history_ledger:
  "wl_history H k wl led \<Longrightarrow> k < 2 ^ 64 \<Longrightarrow> led_by led (wl_queue bag wl)"
proof (induction rule: wl_history.induct)
  case (hist_new config)
  then show ?case by (simp add: led_by_def wl_queue_def wl_new_def heap_new)
next
  case (hist_add k wl led now w wl')
  have inv: "wl_inv bag hinv wl" "unat (wl_version_counter wl) \<le> k"
    using run_inv [OF history_run [OF hist_add.hyps(1)]] hist_add.prems by simp_all
  have "wl_version_counter wl \<noteq> - 1" using counter_schedule [OF inv(2) hist_add.prems] by blast
  from led_by_schedule [OF inv(1) this, of led "we_cid w" "effective_priority now w" w] show ?case
    using hist_add by (auto simp: wl_add_schedule simp del: fun_upd_apply split: if_splits)
next
  case (hist_update k wl led c w p wl' b)
  have inv: "wl_inv bag hinv wl" "unat (wl_version_counter wl) \<le> k"
    using run_inv [OF history_run [OF hist_update.hyps(1)]] hist_update.prems by simp_all
  have "wl_version_counter wl \<noteq> - 1" using counter_schedule [OF inv(2) hist_update.prems] by blast
  from led_by_schedule [OF inv(1) this, of led c p "w\<lparr>we_priority := p\<rparr>"] show ?case
    using hist_update by (auto simp: wl_update_schedule simp del: fun_upd_apply)
next
  case (hist_remove k wl led c wl' r)
  then show ?case by (auto simp: wl_remove_def queue_remove intro: led_by_mono)
next
  case (hist_pop k wl led wl' r)
  have "wl_inv bag hinv wl" using run_inv [OF history_run [OF hist_pop.hyps(1)] hist_pop.prems] by simp
  from pop_spec [OF this] hist_pop.hyps(2) obtain q where q: "pops bag hinv wl wl' q" by auto
  have "set_mset (wl_queue bag wl') \<subseteq> set_mset (wl_queue bag wl)" using q
  proof (cases q)
    case None
    then have "wl_inv bag hinv wl'" "wl_entries wl' = []" using q by (simp_all add: pops_def)
    then show ?thesis by (simp add: wl_queue_def wl_live_def)
  qed (use q in \<open>auto simp: pops_def\<close>)
  with hist_pop show ?case by (auto intro: led_by_mono)
next
  case (hist_clear k wl led)
  then show ?case by (simp add: led_by_def wl_queue_def wl_clear_def heap_new)
qed (auto simp: wl_add_schedule wl_update_schedule wl_modify_eqs queue_modify split: if_splits)

end

subsection \<open>Deadlines and expiry\<close>

lemma effective_ge: "we_priority w \<le> effective_priority t w"
  by (simp add: effective_priority_def Let_def split: option.split)

lemma set_boost_entry:
  "(c, p) \<in> set (boost_entry now clock (c', w, v)) \<longleftrightarrow>
     c = c' \<and> (\<exists>d. we_deadline w = Some d \<and>
       (effective_priority (clock c) w > we_priority w \<and> p = effective_priority (clock c) w \<or>
        now \<ge> d \<and> we_priority w < priority_i32 Critical \<and> p = priority_i32 Critical))"
  by (cases "we_deadline w") (auto simp: Let_def)

lemma set_boost_updates:
  "(c, p) \<in> set (boost_updates now clock es) \<longleftrightarrow> (\<exists>w v. (c, w, v) \<in> set es \<and> (c, p) \<in> set (boost_entry now clock (c, w, v)))"
proof -
  have "(c, p) \<in> set (boost_updates now clock es) \<longleftrightarrow> (\<exists>x \<in> set es. (c, p) \<in> set (boost_entry now clock x))"
    by (auto simp: boost_updates_def)
  also have "\<dots> \<longleftrightarrow> (\<exists>w v. (c, w, v) \<in> set es \<and> (c, p) \<in> set (boost_entry now clock (c, w, v)))"
    by (metis prod_cases3 set_boost_entry)
  finally show ?thesis .
qed

lemma boost_updates_value:
  assumes "(c, p) \<in> set (boost_updates now clock es)" "now \<le> clock c"
  shows "\<exists>w v. (c, w, v) \<in> set es \<and> p = effective_priority (clock c) w"
proof -
  from assms(1) obtain w v where w: "(c, w, v) \<in> set es" "(c, p) \<in> set (boost_entry now clock (c, w, v))"
    unfolding set_boost_updates by blast
  then have "p = effective_priority (clock c) w" using assms(2) unfolding set_boost_entry
    by (auto simp: effective_priority_def)
  then show ?thesis using w(1) by blast
qed

lemma boost_updates_complete:
  assumes "(c, w, v) \<in> set es" "effective_priority (clock c) w \<noteq> we_priority w"
  shows "(c, effective_priority (clock c) w) \<in> set (boost_updates now clock es)"
proof -
  have "\<exists>d. we_deadline w = Some d" using assms(2) by (cases "we_deadline w") (auto simp: effective_priority_def)
  moreover have "we_priority w < effective_priority (clock c) w"
    using effective_ge [of w "clock c"] assms(2) by simp
  ultimately show ?thesis using assms(1) unfolding set_boost_updates set_boost_entry by blast
qed

lemma boost_updates_map:
  assumes "hm_ok es" "map_of es c = Some (w, v)" "now \<le> clock c"
  shows "case map_of (rev (boost_updates now clock es)) c of
      None \<Rightarrow> effective_priority (clock c) w = we_priority w
    | Some p \<Rightarrow> p = effective_priority (clock c) w"
proof (cases "map_of (rev (boost_updates now clock es)) c")
  case None
  then have "(c, p) \<notin> set (boost_updates now clock es)" for p by (force simp: map_of_eq_None_iff)
  then show ?thesis using None boost_updates_complete [of c w v es clock now] map_of_SomeD [OF assms(2)] by auto
next
  case (Some p)
  then have "(c, p) \<in> set (boost_updates now clock es)" by (metis map_of_SomeD set_rev)
  from boost_updates_value [OF this assms(3)] obtain w' v' where
    "(c, w', v') \<in> set es" "p = effective_priority (clock c) w'" by blast
  then show ?thesis using Some assms(1,2) by (auto simp: hm_ok_def dest: map_of_is_SomeI)
qed

lemma wl_remove_batch_spec:
  assumes "distinct cs" "hm_ok (wl_entries wl)"
  shows "wl_remove_batch wl cs =
    (wl\<lparr>wl_entries := filter (\<lambda>e. fst e \<notin> set cs) (wl_entries wl)\<rparr>, List.map_filter (wl_get wl) cs)"
  using assms
proof (induction cs arbitrary: wl)
  case (Cons c cs)
  let ?wl = "wl\<lparr>wl_entries := hm_remove c (wl_entries wl)\<rparr>"
  have "List.map_filter (wl_get ?wl) cs = List.map_filter (wl_get wl) cs"
    using Cons.prems(1) by (induction cs) (auto simp: List.map_filter_simps wl_get_def split: option.split)
  moreover have "filter (\<lambda>e. fst e \<notin> set cs) (hm_remove c (wl_entries wl)) = filter (\<lambda>e. fst e \<notin> set (c # cs)) (wl_entries wl)"
    by (auto simp: hm_remove_def AList.delete_eq intro: filter_cong)
  ultimately show ?case using Cons.IH [of ?wl] Cons.prems
    by (simp add: wl_remove_def List.map_filter_simps wl_get_def [of wl c] split: option.split)
qed (simp add: List.map_filter_simps)

subsection \<open>Properties\<close>

lemma want_queueI: "max_heap H he_le bag hinv \<Longrightarrow> want_queue H bag hinv"
  by (rule want_queue.intro)

lemma want_list_consistent:
  assumes "max_heap H he_le bag hinv" "wl_run H k wl" "k < 2 ^ 64"
  shows "distinct (wl_cids wl) \<and> wl_len wl \<le> max_wants (wl_config wl) \<and>
    image_mset he_cid (wl_queue bag wl) = mset (wl_cids wl)"
proof -
  from want_queue.run_inv [OF want_queueI [OF assms(1)] assms(2,3)] have inv: "wl_inv bag hinv wl" by simp
  then have "distinct (wl_cids wl)" by (simp add: wl_inv_def wl_cids_def hm_ok_def)
  moreover from this have "mset_set (dom (map_of (wl_entries wl))) = mset (wl_cids wl)"
    by (metis dom_map_of_conv_image_fst list.set_map mset_set_set wl_cids_def)
  ultimately show ?thesis using inv by (simp add: wl_inv_def)
qed

lemma want_list_len: "max_heap H he_le bag hinv \<Longrightarrow> wl_run H k wl \<Longrightarrow> k < 2 ^ 64 \<Longrightarrow>
    wl_len wl \<le> max_wants (wl_config wl)"
  using want_list_consistent by blast

text \<open>
  (C38) The want list and its heap stay consistent. After any sequence of operations in which
  fewer than \<open>2 ^ 64\<close> versions are handed out, the list holds each CID at most once and at most
  \<open>max_wants\<close> of them, and exactly one heap element carries the current version of each entry, however
  many stale ones lazy deletion has left behind.
\<close>

theorem want_list_invariant:
  assumes "max_heap H he_le bag hinv" "wl_run H k wl" "k < 2 ^ 64"
  shows "distinct (wl_cids wl) \<and> wl_len wl \<le> max_wants (wl_config wl) \<and>
    image_mset he_cid (wl_queue bag wl) = mset (wl_cids wl)"
  by (rule want_list_consistent [OF assms])

text \<open>
  (C37) Popping serves every want once, best first. On a list reached by any operations that hand out fewer than
  \<open>2 ^ 64\<close> versions, \<open>pop\<close> repeated \<open>len\<close> times empties it and returns the entry of every CID exactly once, ordered by
  the priorities with which the wants were scheduled last, higher ones first, and among equal priorities by their
  times of creation, earlier ones first.
\<close>

theorem want_list_drain:
  assumes "max_heap H he_le bag hinv" "wl_history H k wl led" "k < 2 ^ 64"
  shows "\<exists>wl' cs. wl_drain H (wl_len wl) wl = (wl', map (\<lambda>c. the (wl_get wl c)) cs) \<and>
    wl_is_empty wl' \<and> mset cs = mset (wl_cids wl) \<and> set cs \<subseteq> dom led \<and>
    sorted_wrt (\<lambda>c d. case (the (led c), the (led d)) of ((p, t), (q, u)) \<Rightarrow> q < p \<or> q = p \<and> t \<le> u) cs"
proof -
  note wq = want_queueI [OF assms(1)]
  have inv: "wl_inv bag hinv wl" using want_queue.run_inv [OF wq history_run [OF assms(2)] assms(3)] by simp
  from want_queue.drain_spec [OF wq inv refl] obtain wl' es where
    d: "wl_drain H (wl_len wl) wl = (wl', map (\<lambda>e. the (wl_get wl (he_cid e))) es)" "wl_entries wl' = []"
      "mset es = wl_queue bag wl" "sorted_wrt (\<lambda>a b. he_le b a) es" by blast
  have led: "led (he_cid e) = Some (he_priority e, he_created_at e)" if "e \<in> set es" for e
    using want_queue.history_ledger [OF wq assms(2,3)] d(3) that by (auto simp: led_by_def simp flip: set_mset_mset)
  have "sorted_wrt (\<lambda>a b. case (the (led (he_cid a)), the (led (he_cid b))) of ((p, t), (q, u)) \<Rightarrow> q < p \<or> q = p \<and> t \<le> u) es"
    by (rule sorted_wrt_mono_rel [OF _ d(4)]) (simp add: led he_le_def)
  moreover have "distinct (wl_cids wl)" using inv by (simp add: wl_inv_def wl_cids_def hm_ok_def)
  then have "mset_set (dom (map_of (wl_entries wl))) = mset (wl_cids wl)"
    by (metis dom_map_of_conv_image_fst list.set_map mset_set_set wl_cids_def)
  then have "mset (map he_cid es) = mset (wl_cids wl)" using d(3) inv by (simp add: wl_inv_def)
  ultimately show ?thesis
    using d(1,2) led by (intro exI [of _ wl'] exI [of _ "map he_cid es"]) (auto simp: wl_is_empty_def sorted_wrt_map)
qed

text \<open>
  Deadlines raise priorities: \<open>boost_deadline_priorities\<close> gives every entry its effective
  priority, leaves the rest of it alone, and an entry whose priority changed is scheduled with the new
  one. The clock must not run backwards during the call.
\<close>

theorem boost_sets_effective:
  assumes "max_heap H he_le bag hinv" "wl_inv bag hinv wl" "\<forall>c. now \<le> clock c"
    and "unat (wl_version_counter wl) + 2 * wl_len wl < 2 ^ 64"
    and "wl' = wl_boost_deadline_priorities H now clock wl"
  shows "wl_inv bag hinv wl' \<and>
    (\<forall>c. wl_get wl' c = map_option (\<lambda>w. w\<lparr>we_priority := effective_priority (clock c) w\<rparr>) (wl_get wl c)) \<and>
    (\<forall>e w. e \<in># wl_queue bag wl' \<longrightarrow> wl_get wl (he_cid e) = Some w \<longrightarrow>
       effective_priority (clock (he_cid e)) w \<noteq> we_priority w \<longrightarrow>
       he_priority e = effective_priority (clock (he_cid e)) w)"
proof -
  let ?us = "boost_updates now clock (wl_entries wl)"
  have "unat (wl_version_counter wl) + length ?us < 2 ^ 64"
    using assms(4) length_boost_updates [of now clock "wl_entries wl"] by (simp add: wl_len_def)
  from want_queue.updates_spec [OF want_queueI [OF assms(1)] assms(2) this]
  have u: "updated_as bag hinv wl ?us wl'" by (simp add: assms(5) wl_boost_deadline_priorities_def)
  have m: "case map_of (rev ?us) c of None \<Rightarrow> effective_priority (clock c) w = we_priority w
      | Some p \<Rightarrow> p = effective_priority (clock c) w" if "wl_get wl c = Some w" for c w
  proof -
    from that obtain v where "map_of (wl_entries wl) c = Some (w, v)" by (auto simp: wl_get_def)
    then show ?thesis using boost_updates_map [of "wl_entries wl" c w v now clock] assms(2,3) by (simp add: wl_inv_def)
  qed
  have "wl_get wl' c = map_option (\<lambda>w. w\<lparr>we_priority := effective_priority (clock c) w\<rparr>) (wl_get wl c)" for c
    using u m [of c] by (cases "wl_get wl c") (auto simp: updated_as_def split: option.splits)
  moreover have "he_priority e = effective_priority (clock (he_cid e)) w"
    if "e \<in># wl_queue bag wl'" "wl_get wl (he_cid e) = Some w"
      "effective_priority (clock (he_cid e)) w \<noteq> we_priority w" for e w
    using m [OF that(2)] that u by (force simp: updated_as_def split: option.splits)
  ultimately show ?thesis using u by (auto simp: updated_as_def)
qed

text \<open>
  Clean-up removes exactly the expired entries and returns them, in the order of the map.
\<close>

theorem cleanup_removes_expired:
  assumes "wl_inv bag hinv wl"
  shows "wl_cleanup_expired clock wl =
    (wl\<lparr>wl_entries := filter (\<lambda>(c, w, v). \<not> is_expired (clock c) w) (wl_entries wl)\<rparr>,
     map (\<lambda>(c, w, v). w) (filter (\<lambda>(c, w, v). is_expired (clock c) w) (wl_entries wl)))"
proof -
  let ?es = "wl_entries wl" and ?P = "\<lambda>(c, w, v). is_expired (clock c) w"
  have ok: "hm_ok ?es" using assms by (simp add: wl_inv_def)
  then have d: "distinct (map fst (filter ?P ?es))" by (simp add: hm_ok_def distinct_map_filter)
  have "fst e \<in> fst ` set (filter ?P ?es) \<longleftrightarrow> ?P e" if "e \<in> set ?es" for e
    using that ok by (force simp: hm_ok_def dest: eq_key_imp_eq_value)
  then have "filter (\<lambda>e. fst e \<notin> set (map fst (filter ?P ?es))) ?es = filter (\<lambda>(c, w, v). \<not> is_expired (clock c) w) ?es"
    by (intro filter_cong) auto
  moreover have "List.map_filter (wl_get wl) (map fst (filter ?P ?es)) = map (\<lambda>(c, w, v). w) (filter ?P ?es)"
  proof -
    have "wl_get wl (fst e) = Some (fst (snd e))" if "e \<in> set (filter ?P ?es)" for e
    proof -
      have "(fst e, snd e) \<in> set ?es" using that by simp
      then have "map_of ?es (fst e) = Some (snd e)" using ok unfolding hm_ok_def by (intro map_of_is_SomeI)
      then show ?thesis unfolding wl_get_def by simp
    qed
    then have "List.map_filter (wl_get wl) (map fst xs) = map (\<lambda>(c, w, v). w) xs" if "set xs \<subseteq> set (filter ?P ?es)" for xs
      using that by (induction xs) (auto simp: List.map_filter_simps split_beta)
    then show ?thesis by simp
  qed
  ultimately show ?thesis unfolding wl_cleanup_expired_def by (simp add: wl_remove_batch_spec [OF d ok])
qed

lemma unat_min: "unat (min a b) = min (unat a) (unat b)"
  by (simp add: min_def word_le_nat_alt)

lemma shift_one: "push_bit (unat (min rc 10)) 1 = (2 :: u64) ^ min (unat rc) 10" for rc :: u32
proof -
  have "unat (min rc 10) = min (unat rc) 10" by (simp add: unat_min)
  then show ?thesis by (simp add: push_bit_eq_mult)
qed

lemma unat_saturating_mul: "unat (saturating_mul a b) = min (unat a * unat b) (2 ^ 64 - 1)"
proof (cases "unat a * unat b < 2 ^ 64")
  case True
  then show ?thesis unfolding saturating_mul_def
    by (simp add: unat_mult_lem [symmetric] min_def)
next
  case False
  then show ?thesis by (simp add: saturating_mul_def unsigned_minus_1_eq_mask mask_eq_exp_minus_1)
qed

lemma u64_of_nat: "n < 2 ^ 64 \<Longrightarrow> unat (of_nat n :: u64) = n"
  by (simp add: unsigned_of_nat take_bit_nat_eq_self)

lemma sint_small: "unat x < 2 ^ 63 \<Longrightarrow> sint x = int (unat x)" for x :: u64
proof -
  assume "unat x < 2 ^ 63"
  then have "uint x < 2 ^ 63" unfolding uint_nat by (metis of_nat_less_iff of_nat_numeral of_nat_power)
  then have "signed_take_bit 63 (uint x) = uint x"
    by (intro signed_take_bit_int_eq_self) (auto intro: order_trans [of _ 0])
  moreover have "sint x = signed_take_bit 63 (uint x)" by (simp add: sint_uint)
  ultimately show ?thesis by simp
qed

lemma sint_of_int: "0 \<le> k \<Longrightarrow> k < 2 ^ 63 \<Longrightarrow> sint (of_int k :: u64) = k"
  using sint_small [of "of_nat (nat k)"] u64_of_nat [of "nat k"] by (simp add: unsigned_of_int take_bit_int_eq_self)

text \<open>
  The retry delay is the exponential backoff, capped, with at most ten percent of jitter: it
  doubles with each of the first ten retries, never exceeds the configured maximum by more than a
  tenth, and the jitter never makes it negative. The maximum must fit in 62 bits of milliseconds.
\<close>

theorem retry_delay_bounds:
  assumes "0 \<le> sint nanos" "as_millis (base_retry_delay (wl_config wl)) < 2 ^ 64"
    and "as_millis (max_retry_delay (wl_config wl)) < 2 ^ 62"
    and "d = min (as_millis (base_retry_delay (wl_config wl)) * 2 ^ min (unat retry_count) 10)
               (as_millis (max_retry_delay (wl_config wl)))"
  shows "\<exists>m. wl_retry_delay nanos wl retry_count = from_millis m \<and> d - d div 10 \<le> m \<and> m \<le> d + d div 10"
proof -
  let ?B = "as_millis (base_retry_delay (wl_config wl))" and ?M = "as_millis (max_retry_delay (wl_config wl))"
  let ?w = "min (saturating_mul (of_nat ?B) (push_bit (unat (min retry_count 10)) 1)) (of_nat ?M) :: u64"
  have B: "unat (of_nat ?B :: u64) = ?B" and M: "unat (of_nat ?M :: u64) = ?M"
    using assms(2,3) by (simp_all add: unsigned_of_nat take_bit_nat_eq_self)
  have p: "unat ((2 :: u64) ^ min (unat retry_count) 10) = 2 ^ min (unat retry_count) 10"
    using u64_of_nat [of "2 ^ min (unat retry_count) 10"] power_increasing [of "min (unat retry_count) 10" 10 "2 :: nat"] by simp
  have "unat ?w = min (min (?B * 2 ^ min (unat retry_count) 10) (2 ^ 64 - 1)) ?M"
    unfolding shift_one unat_min [of "saturating_mul _ _"] unat_saturating_mul B M p ..
  moreover have "min (2 ^ 64 - 1) ?M = ?M" using assms(3) by simp
  ultimately have w: "unat ?w = d" unfolding assms(4) min.assoc by simp
  have d: "d < 2 ^ 62" using assms(3,4) by simp
  have d10: "unat (?w div 10) = d div 10" using w by (simp add: unat_div)
  let ?j = "int (d div 10)"
  have j: "sint (?w div 10) = ?j" "sint ?w = int d" using d w d10 sint_small [of "?w div 10"] sint_small [of ?w] by auto
  let ?off = "if ?j > 0 then sint nanos smod (?j * 2) - ?j else 0"
  have off: "- ?j \<le> ?off" "?off \<le> ?j"
    using smod_int_compares(1,2) [OF assms(1), of "?j * 2"] by auto
  then have t: "0 \<le> int d + ?off" "int d + ?off < 2 ^ 63" using d by auto
  then have "sint (of_int (int d + ?off) :: u64) = int d + ?off"
    by (rule sint_of_int)
  then have "wl_retry_delay nanos wl retry_count = from_millis (nat (int d + ?off))"
    unfolding wl_retry_delay_def Let_def j using t by simp
  moreover have "d - d div 10 \<le> nat (int d + ?off)" "nat (int d + ?off) \<le> d + d div 10" using off t(1) by linarith+
  ultimately show ?thesis by blast
qed

interpretation list_queue: want_queue list_heap mset "\<lambda>_. True"
  by (rule want_queue.intro) (rule list_heap.max_heap_axioms)

definition wl_example :: "(nat HeapEntry list, nat) WantList" where
  "wl_example = fst (wl_add_batch list_heap (\<lambda>_. 7) (wl_new list_heap wlc_default) [(1, 50), (2, 100), (1, 300)])"

lemma wl_example_run: "wl_run list_heap 3 wl_example"
proof -
  have "wl_run list_heap (0 + length [(1 :: nat, 50 :: int), (2, 100), (1, 300)]) wl_example"
    unfolding wl_example_def by (rule run_add_batch [OF run_new])
  then show ?thesis by (simp add: numeral_3_eq_3)
qed

lemma wl_example_entries:
  "wl_example = \<lparr>
     wl_heap = [\<lparr>he_cid = 1, he_priority = 50, he_created_at = 7, he_version = 1\<rparr>,
                \<lparr>he_cid = 2, he_priority = 100, he_created_at = 7, he_version = 2\<rparr>],
     wl_entries = [(1, we_new 7 1 50 30000000000, 1), (2, we_new 7 2 100 30000000000, 2)],
     wl_version_counter = 2, wl_config = wlc_default\<rparr>"
  by (simp add: wl_example_def wl_add_simple_def wl_add_def wl_new_def we_new_def Let_def effective_priority_def
      list_heap_def hm_insert_def wlc_default_def from_secs_def)

theorem want_list_invariant_witness:
  "distinct (wl_cids wl_example) \<and> wl_len wl_example \<le> 1024 \<and>
   image_mset he_cid (wl_queue mset wl_example) = {#1, 2#}"
  using want_list_invariant [OF list_heap.max_heap_axioms wl_example_run]
  by (simp add: wl_example_entries wl_cids_def wlc_default_def)

lemma wl_example_history: "wl_history list_heap 2 wl_example ([1 \<mapsto> (50, 7), 2 \<mapsto> (100, 7)])"
proof -
  let ?w = "\<lambda>c p. we_new 7 c p (default_timeout wlc_default)" and ?wl0 = "wl_new list_heap wlc_default :: (nat HeapEntry list, nat) WantList"
  obtain wl1 where wl1: "wl_add list_heap 7 ?wl0 (?w 1 50) = (wl1, True)"
    by (simp add: wl_add_def wl_new_def we_new_def wlc_default_def)
  have "wl_add list_heap 7 wl1 (?w 2 100) = (wl_example, True)"
    using wl1 by (auto simp: wl_example_def wl_add_simple_def wl_add_def wl_new_def we_new_def Let_def wlc_default_def hm_insert_def)
  from hist_add [OF hist_add [OF hist_new wl1] this] show ?thesis
    by (simp add: effective_priority_def we_new_def numeral_2_eq_2)
qed

theorem want_list_drain_witness:
  "\<exists>wl'. wl_drain list_heap 2 wl_example = (wl', [we_new 7 2 100 30000000000, we_new 7 1 50 30000000000]) \<and> wl_is_empty wl'"
proof -
  let ?led = "[1 \<mapsto> (50, 7), 2 \<mapsto> (100, 7)] :: nat ledger"
  have len: "wl_len wl_example = 2" "mset (wl_cids wl_example) = {#1, 2#}"
    by (simp_all add: wl_example_entries wl_len_def wl_cids_def)
  obtain wl' cs where d: "wl_drain list_heap 2 wl_example = (wl', map (\<lambda>c. the (wl_get wl_example c)) cs)" "wl_is_empty wl'"
    and cs: "mset cs = {#1, 2#}"
      "sorted_wrt (\<lambda>c d. case (the (?led c), the (?led d)) of ((p, t), (q, u)) \<Rightarrow> q < p \<or> q = p \<and> t \<le> u) cs"
    using want_list_drain [OF list_heap.max_heap_axioms wl_example_history] len by auto
  have "length cs = 2" using arg_cong [OF cs(1), of size] by simp
  then obtain a b where ab: "cs = [a, b]" by (auto simp: numeral_2_eq_2 length_Suc_conv)
  have "{a, b} = {1, 2}" using arg_cong [OF cs(1), of set_mset] ab by simp
  then have "cs = [2, 1]" using cs(2) ab by (auto simp: doubleton_eq_iff)
  with d show ?thesis by (auto simp: wl_example_entries wl_get_def)
qed

definition wl_deadline :: "(nat HeapEntry list, nat) WantList" where
  "wl_deadline = fst (wl_add list_heap 5 (wl_new list_heap wlc_default) (with_deadline (we_new 5 1 50 10) 8000000000))"

theorem boost_sets_effective_witness:
  "\<exists>w. wl_get (wl_boost_deadline_priorities list_heap 9000000000 (\<lambda>_. 9000000000) wl_deadline) 1 = Some w \<and>
     we_priority w = 300"
proof -
  have run: "wl_run list_heap 1 wl_deadline"
    unfolding wl_deadline_def using run_add [OF run_new, of list_heap] by (metis One_nat_def prod.collapse)
  have inv: "wl_inv mset (\<lambda>_. True) wl_deadline" using list_queue.run_inv [OF run] by simp
  have wl: "wl_get wl_deadline 1 = Some (with_deadline (we_new 5 1 50 10) 8000000000)"
      "unat (wl_version_counter wl_deadline) + 2 * wl_len wl_deadline < 2 ^ 64"
    by (simp_all add: wl_deadline_def wl_add_def wl_new_def we_new_def with_deadline_def Let_def wl_get_def wl_len_def
        wlc_default_def hm_insert_def)
  have "wl_get (wl_boost_deadline_priorities list_heap 9000000000 (\<lambda>_. 9000000000) wl_deadline) 1 =
      map_option (\<lambda>w. w\<lparr>we_priority := effective_priority 9000000000 w\<rparr>) (wl_get wl_deadline 1)"
    using boost_sets_effective [OF list_heap.max_heap_axioms inv, of 9000000000 "\<lambda>_. 9000000000"] wl(2) by simp
  then show ?thesis unfolding wl(1) by (simp add: effective_priority_def with_deadline_def we_new_def)
qed

theorem cleanup_removes_expired_witness:
  "snd (wl_cleanup_expired (\<lambda>_. 30000000007) wl_example) = [we_new 7 1 50 30000000000, we_new 7 2 100 30000000000]"
proof -
  have "wl_inv mset (\<lambda>_. True) wl_example" using list_queue.run_inv [OF wl_example_run] by simp
  from cleanup_removes_expired [OF this] show ?thesis
    by (simp add: wl_example_entries is_expired_def we_new_def)
qed

theorem retry_delay_bounds_witness:
  "\<exists>m. wl_retry_delay 12345 wl_example 2 = from_millis m \<and> 360 \<le> m \<and> m \<le> 440"
proof -
  have "\<exists>m. wl_retry_delay 12345 wl_example 2 = from_millis m \<and> 400 - (400 :: nat) div 10 \<le> m \<and> m \<le> 400 + 400 div 10"
    by (rule retry_delay_bounds) (simp_all add: wl_example_entries wlc_default_def as_millis_def from_millis_def from_secs_def)
  then show ?thesis by simp
qed

subsection \<open>Concurrent calls\<close>

datatype 'c cw_call =
    Call_add instant "'c WantEntry"
  | Call_add_simple instant 'c int
  | Call_remove 'c
  | Call_update_priority 'c int
  | Call_pop
  | Call_cleanup_expired "'c \<Rightarrow> instant"
  | Call_boost instant "'c \<Rightarrow> instant"
  | Call_mark_attempted instant 'c
  | Call_add_batch "'c \<Rightarrow> instant" "('c \<times> int) list"
  | Call_add_batch_same_priority "'c \<Rightarrow> instant" "'c list" int
  | Call_remove_batch "'c list"
  | Call_update_priorities_batch "('c \<times> int) list"

fun cw_exec :: "('h, 'c) wl_heap_ops \<Rightarrow> ('h, 'c) ConcurrentWantList \<Rightarrow> 'c cw_call \<Rightarrow> ('h, 'c) ConcurrentWantList" where
  "cw_exec H cw (Call_add now entry) = fst (cw_add H now cw entry)"
| "cw_exec H cw (Call_add_simple now c p) = fst (cw_add_simple H now cw c p)"
| "cw_exec H cw (Call_remove c) = fst (cw_remove cw c)"
| "cw_exec H cw (Call_update_priority c p) = fst (cw_update_priority H cw c p)"
| "cw_exec H cw Call_pop = fst (cw_pop H cw)"
| "cw_exec H cw (Call_cleanup_expired clock) = fst (cw_cleanup_expired clock cw)"
| "cw_exec H cw (Call_boost now clock) = cw_boost_deadline_priorities H now clock cw"
| "cw_exec H cw (Call_mark_attempted now c) = cw_mark_attempted now cw c"
| "cw_exec H cw (Call_add_batch clock es) = fst (cw_add_batch H clock cw es)"
| "cw_exec H cw (Call_add_batch_same_priority clock cs p) = fst (cw_add_batch_same_priority H clock cw cs p)"
| "cw_exec H cw (Call_remove_batch cs) = fst (cw_remove_batch cw cs)"
| "cw_exec H cw (Call_update_priorities_batch us) = fst (cw_update_priorities_batch H cw us)"

text \<open>How many versions a call may hand out, on a list of at most \<open>n\<close> wants.\<close>

fun call_cost :: "nat \<Rightarrow> 'c cw_call \<Rightarrow> nat" where
  "call_cost n (Call_add _ _) = 1"
| "call_cost n (Call_add_simple _ _ _) = 1"
| "call_cost n (Call_update_priority _ _) = 1"
| "call_cost n (Call_boost _ _) = 2 * n"
| "call_cost n (Call_add_batch _ es) = length es"
| "call_cost n (Call_add_batch_same_priority _ cs _) = length cs"
| "call_cost n (Call_update_priorities_batch us) = length us"
| "call_cost n _ = 0"

lemma fst_cw_write [simp]: "cw_inner (fst (cw_write f cw)) = fst (f (cw_inner cw))"
  by (simp add: cw_write_def split_beta)

lemmas cw_defs = cw_add_def cw_add_simple_def cw_remove_def cw_update_priority_def cw_pop_def cw_cleanup_expired_def
  cw_boost_deadline_priorities_def cw_mark_attempted_def cw_add_batch_def cw_add_batch_same_priority_def
  cw_remove_batch_def cw_update_priorities_batch_def

lemma config_schedule [simp]: "wl_config (wl_schedule H wl c w p) = wl_config wl"
  by (simp add: wl_schedule_def)

lemma config_ops [simp]:
  "wl_config (fst (wl_add H now wl w)) = wl_config wl"
  "wl_config (fst (wl_update_priority H wl c p)) = wl_config wl"
  "wl_config (fst (wl_remove wl c)) = wl_config wl"
  "wl_config (wl_modify wl c f) = wl_config wl"
  by (simp_all add: wl_add_schedule wl_update_schedule wl_remove_def wl_modify_def split: option.split)

lemma config_pop [simp]: "wl_config (fst (wl_pop_loop H fuel wl)) = wl_config wl"
  by (induction fuel arbitrary: wl) (simp_all add: Let_def split_beta split: option.split)

lemma config_wl_pop [simp]: "wl_config (fst (wl_pop H wl)) = wl_config wl"
  unfolding wl_pop_def by (rule config_pop)

lemma config_updates [simp]: "wl_config (fst (wl_updates H wl us)) = wl_config wl"
  by (induction us arbitrary: wl) (auto simp: split_beta)

lemma config_add_batch [simp]: "wl_config (fst (wl_add_batch H clock wl es)) = wl_config wl"
  by (induction es arbitrary: wl) (auto simp: split_beta wl_add_simple_def)

lemma config_remove_batch [simp]: "wl_config (fst (wl_remove_batch wl cs)) = wl_config wl"
  by (induction cs arbitrary: wl) (auto simp: split_beta)

lemma config_exec: "wl_config (cw_inner (cw_exec H cw call)) = wl_config (cw_inner cw)"
  by (cases call) (simp_all add: cw_defs wl_add_simple_def wl_cleanup_expired_def wl_boost_deadline_priorities_def
      wl_modify_eqs wl_add_batch_same_priority_def wl_update_priorities_batch_def)

lemma exec_run:
  assumes "wl_run H k (cw_inner cw)" "wl_len (cw_inner cw) \<le> n"
  shows "\<exists>k' \<le> k + call_cost n call. wl_run H k' (cw_inner (cw_exec H cw call))"
proof -
  let ?wl = "cw_inner cw"
  note run = assms(1)
  show ?thesis
  proof (cases call)
    case (Call_boost now clock)
    have "k + length (boost_updates now clock (wl_entries ?wl)) \<le> k + 2 * n"
      using length_boost_updates [of now clock "wl_entries ?wl"] assms(2) by (simp add: wl_len_def)
    then show ?thesis using Call_boost
      by (intro exI [of _ "k + length (boost_updates now clock (wl_entries ?wl))"])
        (simp add: cw_defs wl_boost_deadline_priorities_def run_updates [OF run])
  next
    case (Call_add now w)
    then show ?thesis using run_add [OF run prod.collapse [symmetric]] by (force simp: cw_defs)
  next
    case (Call_add_simple now c p)
    then show ?thesis using run_add [OF run prod.collapse [symmetric]] by (force simp: cw_defs wl_add_simple_def)
  next
    case (Call_update_priority c p)
    then show ?thesis using run_update [OF run prod.collapse [symmetric]] by (force simp: cw_defs)
  next
    case (Call_remove c)
    then show ?thesis using run_remove [OF run prod.collapse [symmetric]] by (force simp: cw_defs)
  next
    case Call_pop
    then show ?thesis using run_pop [OF run prod.collapse [symmetric]] by (force simp: cw_defs)
  qed (auto simp: cw_defs wl_cleanup_expired_def wl_add_batch_same_priority_def wl_update_priorities_batch_def
      intro: run run_mark run_remove_batch run_updates run_add_batch [where es = "map _ _", simplified] run_add_batch)
qed

lemma exec_all_run:
  assumes "max_heap H he_le bag hinv" "wl_run H k (cw_inner cw)" "n = max_wants (wl_config (cw_inner cw))"
    and "k + sum_list (map (call_cost n) calls) < 2 ^ 64"
  shows "\<exists>k' < 2 ^ 64. wl_run H k' (cw_inner (foldl (cw_exec H) cw calls))"
  using assms(2-)
proof (induction calls arbitrary: k cw)
  case (Cons call calls)
  have "wl_len (cw_inner cw) \<le> n"
    using want_list_len [OF assms(1) Cons.prems(1)] Cons.prems(2,3) by simp
  from exec_run [OF Cons.prems(1) this, of call] obtain k' where
    k': "k' \<le> k + call_cost n call" "wl_run H k' (cw_inner (cw_exec H cw call))" by blast
  have "\<exists>k'' < 2 ^ 64. wl_run H k'' (cw_inner (foldl (cw_exec H) (cw_exec H cw call) calls))"
    by (rule Cons.IH [OF k'(2)]) (use k'(1) Cons.prems(2,3) in \<open>simp_all add: config_exec\<close>)
  then show ?case by simp
qed auto

text \<open>
  Threads that share a want list keep it consistent: whatever calls they make and in whatever
  order the lock lets them through, the list satisfies what a single thread's list satisfies.
\<close>

theorem concurrent_want_list:
  assumes "max_heap H he_le bag hinv"
    and "sum_list (map (call_cost (max_wants config)) calls) < 2 ^ 64"
    and "cw = foldl (cw_exec H) (cw_new H config) calls"
  shows "distinct (cw_cids cw) \<and> cw_len cw \<le> max_wants config \<and>
    image_mset he_cid (wl_queue bag (cw_inner cw)) = mset (cw_cids cw)"
proof -
  have "wl_run H 0 (cw_inner (cw_new H config))" by (simp add: cw_new_def run_new)
  from exec_all_run [OF assms(1) this, of "max_wants config" calls] assms(2,3)
  obtain k where k: "k < 2 ^ 64" "wl_run H k (cw_inner cw)" by (auto simp: cw_new_def wl_new_def)
  have "wl_config (cw_inner cw) = config"
    unfolding assms(3) by (induction calls rule: rev_induct) (simp_all add: config_exec, simp add: cw_new_def wl_new_def)
  then show ?thesis using want_list_consistent [OF assms(1) k(2,1)] by (simp add: cw_cids_def cw_len_def)
qed

theorem concurrent_want_list_witness:
  "distinct (cw_cids (foldl (cw_exec list_heap) (cw_new list_heap wlc_default)
     [Call_add_simple 7 (1 :: nat) 50, Call_boost 8 (\<lambda>_. 9), Call_add_simple 9 2 100, Call_pop]))"
  using concurrent_want_list [OF list_heap.max_heap_axioms, of wlc_default
      "[Call_add_simple 7 (1 :: nat) 50, Call_boost 8 (\<lambda>_. 9), Call_add_simple 9 2 100, Call_pop]", OF _ refl]
  by (simp add: wlc_default_def)

end
