(* ===== verification/Merkle_Batch.thy ===== *)
theory Merkle_Batch
  imports Rust_Prelude
begin

text \<open>
  Merkle batch inclusion proofs (\<open>ipfrs-core/src/merkle_batch.rs\<close>).

  Hashes are 64-bit FNV-1a, computed on words. Indices and lengths (\<open>usize\<close>) are natural numbers: a
  vector never has more than \<open>isize::MAX\<close> elements, so doubling its length cannot overflow. \<open>BTreeSet\<close>
  is a sorted list, \<open>HashMap\<close> an association list. An access that would be out of bounds is a panic;
  \<open>merkle_root\<close> and \<open>build_tree\<close> are shown never to reach one.
\<close>

unbundle bit_operations_syntax

subsection \<open>The code\<close>

datatype MerkleError =
    EmptyTree
  | LeafIndexOutOfBounds nat nat
  | InvalidProof string
  | DuplicateLeaf nat

datatype MerkleNode =
    MLeaf nat u64
  | MInternal u64 u64 u64

fun mnode_hash :: "MerkleNode \<Rightarrow> u64" where
  "mnode_hash (MLeaf index hash) = hash"
| "mnode_hash (MInternal left right hash) = hash"

record BatchProof =
  leaf_indices :: "nat list"
  sibling_hashes :: "(nat \<times> u64) list"
  bp_root :: u64

definition proof_size :: "BatchProof \<Rightarrow> nat" where
  "proof_size p = length (sibling_hashes p)"

definition FNV_OFFSET :: u64 where "FNV_OFFSET = 14695981039346656037"
definition FNV_PRIME :: u64 where "FNV_PRIME = 1099511628211"

definition fnv1a :: "bytes \<Rightarrow> u64" where
  "fnv1a data = foldl (\<lambda>hash byte. (hash XOR ucast byte) * FNV_PRIME) FNV_OFFSET data"

definition leaf_hash :: "bytes \<Rightarrow> u64" where
  "leaf_hash data = fnv1a data"

definition combine :: "u64 \<Rightarrow> u64 \<Rightarrow> u64" where
  "combine left right = fnv1a (le_bytes 8 (unat left) @ le_bytes 8 (unat right))"

record MerkleBatchProver =
  mb_leaves :: "u64 list"

definition mbp_new :: "bytes list \<Rightarrow> (MerkleError, MerkleBatchProver) outcome" where
  "mbp_new data = (if data = [] then Err EmptyTree else Ok \<lparr>mb_leaves = map leaf_hash data\<rparr>)"

text \<open>The loop of \<open>next_power_of_two\<close>; \<open>p\<close> is \<open>2 ^ k\<close>.\<close>

function npot_loop :: "nat \<Rightarrow> nat \<Rightarrow> nat" where
  "npot_loop n k = (if 2 ^ k < n then npot_loop n (Suc k) else 2 ^ k)"
  by pat_completeness auto
termination
  by (relation "measure (\<lambda>(n, k). n - 2 ^ k)") (auto intro: diff_less_mono2)

declare npot_loop.simps [simp del]

definition next_power_of_two :: "nat \<Rightarrow> nat" where
  "next_power_of_two n = (if n \<le> 1 then 1 else npot_loop n 0)"

definition tree_size :: "MerkleBatchProver \<Rightarrow> nat" where
  "tree_size P = next_power_of_two (length (mb_leaves P))"

text \<open>\<open>level.chunks(2).map(|pair| combine(pair[0], pair[1]))\<close>: a last chunk of one element panics.\<close>

fun combine_pairs :: "u64 list \<Rightarrow> (MerkleError, u64 list) outcome" where
  "combine_pairs [] = Ok []"
| "combine_pairs [x] = Panic"
| "combine_pairs (x # y # zs) = obind (combine_pairs zs) (\<lambda>ps. Ok (combine x y # ps))"

lemma combine_pairs_length: "combine_pairs l = Ok ps \<Longrightarrow> length l = 2 * length ps"
  by (induction l arbitrary: ps rule: combine_pairs.induct) (auto simp: obind_eq_Ok)

lemma combine_pairs_less: "combine_pairs l = Ok ps \<Longrightarrow> Suc 0 < length l \<Longrightarrow> length ps < length l"
  by (drule combine_pairs_length) auto

definition padded :: "u64 list \<Rightarrow> nat \<Rightarrow> u64 list" where
  "padded leaves n = map (\<lambda>i. if i < length leaves then leaves ! i else 0) [0 ..< n]"

function root_loop :: "u64 list \<Rightarrow> (MerkleError, u64) outcome" where
  "root_loop level =
     (if length level > 1 then obind (combine_pairs level) root_loop
      else if level = [] then Panic else Ok (level ! 0))"
  by pat_completeness auto
termination
  by (relation "measure length") (auto intro: combine_pairs_less)

declare root_loop.simps [simp del]

definition merkle_root :: "MerkleBatchProver \<Rightarrow> (MerkleError, u64) outcome" where
  "merkle_root P = root_loop (padded (mb_leaves P) (tree_size P))"

function build_levels :: "u64 list \<Rightarrow> (MerkleError, u64 list list) outcome" where
  "build_levels level =
     (if length level > 1
      then obind (combine_pairs level) (\<lambda>next_level. obind (build_levels next_level) (\<lambda>tree. Ok (level # tree)))
      else Ok [level])"
  by pat_completeness auto
termination
  by (relation "measure length") (auto intro: combine_pairs_less)

declare build_levels.simps [simp del]

definition build_tree :: "u64 list \<Rightarrow> nat \<Rightarrow> (MerkleError, u64 list list) outcome" where
  "build_tree leaves n = build_levels (padded leaves n)"

definition sibling_of :: "nat \<Rightarrow> nat" where
  "sibling_of pos = (if pos mod 2 = 0 then pos + 1 else pos - 1)"

text \<open>The two loops of \<open>prove_batch\<close>: over the covered positions of a level, and over the levels.\<close>

fun prove_level :: "nat \<Rightarrow> u64 list \<Rightarrow> nat list \<Rightarrow> nat list \<Rightarrow> (nat \<times> u64) list \<times> nat list
    \<Rightarrow> (nat \<times> u64) list \<times> nat list" where
  "prove_level level nodes covered [] st = st"
| "prove_level level nodes covered (pos # ps) (sibs, next_covered) =
     (let sibling = sibling_of pos;
          next_covered = insort_insert (pos div 2) next_covered;
          sibs = (if sibling \<in> set covered then sibs
                  else let entry = (level, if sibling < length nodes then nodes ! sibling else 0)
                       in if entry \<in> set sibs then sibs else sibs @ [entry])
      in prove_level level nodes covered ps (sibs, next_covered))"

fun prove_levels :: "nat \<Rightarrow> u64 list list \<Rightarrow> (nat \<times> u64) list \<times> nat list \<Rightarrow> (nat \<times> u64) list \<times> nat list" where
  "prove_levels level [] st = st"
| "prove_levels level (nodes # tree) (sibs, covered) =
     prove_levels (level + 1) tree (prove_level level nodes covered covered (sibs, []))"

definition first_duplicate :: "nat list \<Rightarrow> nat option" where
  "first_duplicate sorted_ixs =
     map_option fst (find (\<lambda>(a, b). a = b) (zip sorted_ixs (tl sorted_ixs)))"

definition prove_batch :: "MerkleBatchProver \<Rightarrow> nat list \<Rightarrow> (MerkleError, BatchProof) outcome" where
  "prove_batch P indices =
     (let n = length (mb_leaves P); sorted_ixs = sort indices in
      case find (\<lambda>idx. idx \<ge> n) sorted_ixs of
        Some idx \<Rightarrow> Err (LeafIndexOutOfBounds idx n)
      | None \<Rightarrow>
          case first_duplicate sorted_ixs of
            Some idx \<Rightarrow> Err (DuplicateLeaf idx)
          | None \<Rightarrow>
              obind (build_tree (mb_leaves P) (tree_size P)) (\<lambda>tree.
                let height = length tree - 1;
                    (sibs, covered) = prove_levels 0 (take height tree) ([], remdups sorted_ixs)
                in obind (merkle_root P) (\<lambda>root.
                     Ok \<lparr>leaf_indices = sorted_ixs, sibling_hashes = sibs, bp_root = root\<rparr>)))"

text \<open>\<open>usize::trailing_zeros\<close> of a positive number.\<close>

function trailing_zeros :: "nat \<Rightarrow> nat" where
  "trailing_zeros n = (if n = 0 then 64 else if even n then Suc (trailing_zeros (n div 2)) else 0)"
  by pat_completeness auto
termination
  by (relation "measure id") auto

declare trailing_zeros.simps [simp del]

type_synonym known_map = "((nat \<times> nat) \<times> u64) list"

fun place_siblings :: "nat \<Rightarrow> nat list \<Rightarrow> nat list \<Rightarrow> known_map \<Rightarrow> (nat \<times> u64) list \<Rightarrow> nat list
    \<Rightarrow> (MerkleError, known_map \<times> (nat \<times> u64) list \<times> nat list) outcome" where
  "place_siblings level covered [] known iter next_covered = Ok (known, iter, next_covered)"
| "place_siblings level covered (pos # ps) known iter next_covered =
     (let sibling = sibling_of pos; next_covered = insort_insert (pos div 2) next_covered in
      if sibling \<in> set covered then place_siblings level covered ps known iter next_covered
      else case iter of
             [] \<Rightarrow> Err (InvalidProof ''not enough sibling hashes in proof'')
           | (lv, sib_hash) # iter \<Rightarrow>
               place_siblings level covered ps (hm_insert (level, sibling) sib_hash known) iter next_covered)"

fun place_levels :: "nat list \<Rightarrow> known_map \<Rightarrow> (nat \<times> u64) list \<Rightarrow> nat list \<Rightarrow> (MerkleError, known_map) outcome" where
  "place_levels [] known iter covered = Ok known"
| "place_levels (level # levels) known iter covered =
     obind (place_siblings level covered covered known iter []) (\<lambda>(known, iter, covered).
       place_levels levels known iter covered)"

definition level_known :: "nat \<Rightarrow> known_map \<Rightarrow> (nat \<times> u64) list \<Rightarrow> (nat \<times> u64) list" where
  "level_known level known current =
     foldl (\<lambda>cur ((lvl, pos), hash). if lvl = level then hm_insert pos hash cur else cur) current known"

fun compute_parents :: "(nat \<times> u64) list \<Rightarrow> nat list \<Rightarrow> (nat \<times> u64) list \<Rightarrow> nat list \<Rightarrow> (nat \<times> u64) list" where
  "compute_parents current [] next_level processed = next_level"
| "compute_parents current (pos # ps) next_level processed =
     (let parent = pos div 2 in
      if parent \<in> set processed then compute_parents current ps next_level processed
      else case (map_of current (parent * 2), map_of current (parent * 2 + 1)) of
             (Some left_h, Some right_h) \<Rightarrow>
               compute_parents current ps (hm_insert parent (combine left_h right_h) next_level) (hs_insert parent processed)
           | _ \<Rightarrow> compute_parents current ps next_level processed)"

fun propagate :: "known_map \<Rightarrow> nat list \<Rightarrow> (nat \<times> u64) list \<Rightarrow> (nat \<times> u64) list" where
  "propagate known [] current = current"
| "propagate known (level # levels) current =
     (let current = level_known level known current;
          positions = remdups (sort (map fst current))
      in propagate known levels (compute_parents current positions [] []))"

text \<open>The hashes of the leaves and siblings, as \<open>verify_batch\<close> places them in a tree of height \<open>height\<close>.\<close>

definition verify_known :: "nat \<Rightarrow> BatchProof \<Rightarrow> bytes list \<Rightarrow> (MerkleError, known_map) outcome" where
  "verify_known height p data_items =
     (let known = foldl (\<lambda>known (idx, data). hm_insert (0, idx) (leaf_hash data) known) []
                    (zip (leaf_indices p) data_items)
      in place_levels [0 ..< height] known (sibling_hashes p) (remdups (sort (leaf_indices p))))"

definition verify_batch :: "MerkleBatchProver \<Rightarrow> BatchProof \<Rightarrow> bytes list \<Rightarrow> (MerkleError, bool) outcome" where
  "verify_batch P p data_items =
     (if length data_items \<noteq> length (leaf_indices p)
      then Err (InvalidProof ''data_items length does not match leaf_indices length'')
      else let height = trailing_zeros (tree_size P)
        in obind (verify_known height p data_items) (\<lambda>known.
             let current = propagate known [0 ..< height] (level_known 0 known []) in
             case map_of current 0 of
               Some reconstructed_root \<Rightarrow> Ok (reconstructed_root = bp_root p)
             | None \<Rightarrow> Err (InvalidProof ''could not reconstruct root from proof'')))"

subsection \<open>The shape of the tree\<close>

lemma npot_loop_spec: "\<exists>j \<ge> k. npot_loop n k = 2 ^ j \<and> n \<le> 2 ^ j"
proof (induction n k rule: npot_loop.induct)
  case (1 n k)
  show ?case
  proof (cases "2 ^ k < n")
    case True
    from 1 [OF True] obtain j where "Suc k \<le> j" "npot_loop n (Suc k) = 2 ^ j \<and> n \<le> 2 ^ j" by blast
    then show ?thesis using True by (intro exI [of _ j]) (simp add: npot_loop.simps [of n k])
  qed (auto simp: npot_loop.simps [of n k])
qed

lemma tree_size_power: "\<exists>h. tree_size P = 2 ^ h \<and> length (mb_leaves P) \<le> 2 ^ h"
proof (cases "length (mb_leaves P) \<le> 1")
  case True
  then show ?thesis by (intro exI [of _ 0]) (simp add: tree_size_def next_power_of_two_def)
next
  case False
  then show ?thesis using npot_loop_spec [of 0 "length (mb_leaves P)"]
    by (auto simp: tree_size_def next_power_of_two_def)
qed

lemma trailing_zeros_power: "trailing_zeros (2 ^ h) = h"
  by (induction h) (simp_all add: trailing_zeros.simps)

definition level_up :: "u64 list \<Rightarrow> u64 list" where
  "level_up l = map (\<lambda>i. combine (l ! (2 * i)) (l ! (2 * i + 1))) [0 ..< length l div 2]"

lemma length_level_up [simp]: "length (level_up l) = length l div 2"
  by (simp add: level_up_def)

lemma combine_pairs_even: "even (length l) \<Longrightarrow> combine_pairs l = Ok (level_up l)"
proof (induction l rule: combine_pairs.induct)
  case (3 x y zs)
  have "[0 ..< length (x # y # zs) div 2] = 0 # map Suc [0 ..< length zs div 2]"
    by (simp add: upt_conv_Cons map_Suc_upt del: upt_Suc)
  then have "level_up (x # y # zs) = combine x y # level_up zs" by (simp add: level_up_def del: upt_Suc)
  then show ?case using 3 by simp
qed (simp_all add: level_up_def)

abbreviation level_at :: "u64 list \<Rightarrow> nat \<Rightarrow> u64 list" where
  "level_at l j \<equiv> (level_up ^^ j) l"

lemma length_level_at: "length l = 2 ^ h \<Longrightarrow> j \<le> h \<Longrightarrow> length (level_at l j) = 2 ^ (h - j)"
proof (induction j)
  case (Suc j)
  have "h - j = Suc (h - Suc j)" using Suc.prems(2) by simp
  then show ?case using Suc by simp
qed simp

lemma level_at_Suc_nth: "i < length (level_at l j) div 2 \<Longrightarrow>
    level_at l (Suc j) ! i = combine (level_at l j ! (2 * i)) (level_at l j ! (2 * i + 1))"
  by (simp add: level_up_def)

lemma root_loop_power: "length l = 2 ^ h \<Longrightarrow> root_loop l = Ok (level_at l h ! 0)"
proof (induction h arbitrary: l)
  case 0
  then show ?case by (auto simp: root_loop.simps [of l])
next
  case (Suc h)
  have "root_loop (level_up l) = Ok (level_at (level_up l) h ! 0)" using Suc by simp
  moreover have "combine_pairs l = Ok (level_up l)" using Suc.prems by (simp add: combine_pairs_even)
  moreover have "length l > 1" unfolding Suc.prems by (rule one_less_power) simp_all
  ultimately show ?case by (simp add: root_loop.simps [of l] funpow_swap1)
qed

lemma build_levels_power: "length l = 2 ^ h \<Longrightarrow> build_levels l = Ok (map (level_at l) [0 ..< Suc h])"
proof (induction h arbitrary: l)
  case 0
  then show ?case by (simp add: build_levels.simps [of l])
next
  case (Suc h)
  have "build_levels (level_up l) = Ok (map (level_at (level_up l)) [0 ..< Suc h])" using Suc by simp
  moreover have "combine_pairs l = Ok (level_up l)" using Suc.prems by (simp add: combine_pairs_even)
  moreover have "length l > 1" unfolding Suc.prems by (rule one_less_power) simp_all
  moreover have "map (level_at l) [0 ..< Suc (Suc h)] = l # map (level_at (level_up l)) [0 ..< Suc h]"
    by (simp add: upt_conv_Cons map_Suc_upt [symmetric] funpow_swap1 o_def del: upt_Suc)
  ultimately show ?case by (simp add: build_levels.simps [of l] del: upt_Suc)
qed

lemma length_padded [simp]: "length (padded leaves n) = n"
  by (simp add: padded_def)

lemma nth_padded: "i < length leaves \<Longrightarrow> i < n \<Longrightarrow> padded leaves n ! i = leaves ! i"
  by (simp add: padded_def)

subsection \<open>Positions\<close>

definition pos_list :: "nat set \<Rightarrow> nat list" where
  "pos_list A = sorted_list_of_set A"

lemma pos_list [simp]: "pos_list {} = []" "finite A \<Longrightarrow> set (pos_list A) = A" "sorted (pos_list A)" "distinct (pos_list A)"
  by (simp_all add: pos_list_def)

lemma pos_list_unique: "sorted xs \<Longrightarrow> distinct xs \<Longrightarrow> set xs = A \<Longrightarrow> xs = pos_list A"
  by (auto intro: sorted_distinct_set_unique)

lemma insort_insert_pos: "finite A \<Longrightarrow> insort_insert x (pos_list A) = pos_list (insert x A)"
  by (rule pos_list_unique) (simp_all add: sorted_insort_insert distinct_insort_insert set_insort_insert)

lemma sort_pos: "remdups (sort xs) = pos_list (set xs)"
  by (rule pos_list_unique) simp_all

lemma sort_distinct_pos: "distinct xs \<Longrightarrow> sort xs = pos_list (set xs)"
  by (rule pos_list_unique) simp_all

definition needed :: "nat set \<Rightarrow> nat list \<Rightarrow> nat list" where
  "needed C ps = filter (\<lambda>s. s \<notin> C) (map sibling_of ps)"

lemma needed_simps [simp]:
  "needed C [] = []"
  "needed C (p # ps) = (if sibling_of p \<in> C then needed C ps else sibling_of p # needed C ps)"
  by (simp_all add: needed_def)

lemma sibling_cases: "p = 2 * (p div 2) \<and> sibling_of p = 2 * (p div 2) + 1 \<or> p = 2 * (p div 2) + 1 \<and> sibling_of p = 2 * (p div 2)"
  by (cases "even p") (auto simp: sibling_of_def)

lemma prove_level_spec:
  assumes "finite A" "set (needed (set covered) ps) \<subseteq> {..<length nodes}"
    and "distinct (map (\<lambda>s. nodes ! s) (needed (set covered) ps))"
    and "\<forall>s \<in> set (needed (set covered) ps). (level, nodes ! s) \<notin> set sibs"
  shows "prove_level level nodes covered ps (sibs, pos_list A) =
    (sibs @ map (\<lambda>s. (level, nodes ! s)) (needed (set covered) ps), pos_list (A \<union> (\<lambda>p. p div 2) ` set ps))"
  using assms
proof (induction ps arbitrary: sibs A)
  case (Cons p ps)
  show ?case
  proof (cases "sibling_of p \<in> set covered")
    case True
    then show ?thesis using Cons.IH [of "insert (p div 2) A" sibs] Cons.prems
      by (simp add: insort_insert_pos Let_def)
  next
    case False
    then have "prove_level level nodes covered ps (sibs @ [(level, nodes ! sibling_of p)], pos_list (insert (p div 2) A)) =
        ((sibs @ [(level, nodes ! sibling_of p)]) @ map (\<lambda>s. (level, nodes ! s)) (needed (set covered) ps),
         pos_list (insert (p div 2) A \<union> (\<lambda>p. p div 2) ` set ps))"
      using Cons.prems by (intro Cons.IH) (auto simp: image_iff)
    then show ?thesis using False Cons.prems by (simp add: insort_insert_pos Let_def)
  qed
qed simp

lemma place_siblings_spec:
  assumes "finite A"
  shows "place_siblings level covered ps known (map (\<lambda>s. (lv s, f s)) (needed (set covered) ps) @ rest) (pos_list A) =
    Ok (foldl (\<lambda>k s. hm_insert (level, s) (f s) k) known (needed (set covered) ps), rest,
        pos_list (A \<union> (\<lambda>p. p div 2) ` set ps))"
  using assms
  by (induction ps arbitrary: known A) (simp_all add: insort_insert_pos Let_def)

subsection \<open>Reconstruction\<close>

lemma fold_insert_siblings:
  "map_of (foldl (\<lambda>k s. hm_insert (level, s) (f s) k) known ss) (l, p) =
     (if l = level \<and> p \<in> set ss then Some (f p) else map_of known (l, p))"
  "hm_ok known \<Longrightarrow> hm_ok (foldl (\<lambda>k s. hm_insert (level, s) (f s) k) known ss)"
  by (induction ss arbitrary: known) auto

lemma fold_insert_leaves:
  "length xs = length ys \<Longrightarrow> distinct xs \<Longrightarrow>
   map_of (foldl (\<lambda>known (idx, data). hm_insert (0, idx) (g data) known) known (zip xs ys)) (l, p) =
     (if l = 0 \<and> p \<in> set xs then map_option g (map_of (zip xs ys) p) else map_of known (l, p))"
  by (induction xs ys arbitrary: known rule: list_induct2) (auto simp: map_of_zip_is_None)

lemma hm_ok_fold_leaves:
  "hm_ok known \<Longrightarrow> hm_ok (foldl (\<lambda>known (idx, data). hm_insert (0, idx) (g data) known) known xys)"
  by (induction xys arbitrary: known) auto

lemma map_of_level_known:
  "hm_ok known \<Longrightarrow> map_of (level_known level known current) p =
     (case map_of known (level, p) of Some h \<Rightarrow> Some h | None \<Rightarrow> map_of current p)"
proof (induction known arbitrary: current)
  case (Cons e known)
  obtain l q h where e: "e = ((l, q), h)" by (metis prod.collapse)
  have new: "map_of known (l, q) = None" using Cons.prems e by (auto simp: hm_ok_def map_of_eq_None_iff)
  have "map_of (level_known level (e # known) current) p =
      (case map_of known (level, p) of Some h \<Rightarrow> Some h
       | None \<Rightarrow> map_of (if l = level then hm_insert q h current else current) p)"
    using Cons e by (simp add: level_known_def hm_ok_def)
  then show ?case using e new by (auto split: option.split)
qed (simp add: level_known_def)

definition parent_hash :: "(nat \<times> u64) list \<Rightarrow> nat \<Rightarrow> u64 option" where
  "parent_hash current q =
     (case (map_of current (q * 2), map_of current (q * 2 + 1)) of
        (Some l, Some r) \<Rightarrow> Some (combine l r) | _ \<Rightarrow> None)"

lemma map_of_compute_parents:
  assumes "set processed = dom (map_of next_level)"
  shows "map_of (compute_parents current ps next_level processed) q =
    (case map_of next_level q of Some h \<Rightarrow> Some h
     | None \<Rightarrow> if q \<in> (\<lambda>p. p div 2) ` set ps then parent_hash current q else None)"
  using assms
proof (induction ps arbitrary: next_level processed)
  case (Cons p ps)
  let ?q = "p div 2"
  show ?case
  proof (cases "?q \<in> set processed")
    case True
    then obtain h where "map_of next_level ?q = Some h" using Cons.prems by blast
    then show ?thesis using True Cons.IH [OF Cons.prems] by (auto simp: Let_def split: option.split)
  next
    case False
    then have none: "map_of next_level ?q = None" using Cons.prems by blast
    show ?thesis
    proof (cases "parent_hash current ?q")
      case None
      then have "compute_parents current (p # ps) next_level processed = compute_parents current ps next_level processed"
        using False by (simp add: Let_def parent_hash_def split: option.splits)
      then show ?thesis using None none Cons.IH [OF Cons.prems] by (auto split: option.split)
    next
      case (Some h)
      then have step: "compute_parents current (p # ps) next_level processed =
          compute_parents current ps (hm_insert ?q h next_level) (hs_insert ?q processed)"
        using False by (simp add: Let_def parent_hash_def split: option.splits)
      have "set (hs_insert ?q processed) = dom (map_of (hm_insert ?q h next_level))" using Cons.prems by auto
      from Cons.IH [OF this] show ?thesis unfolding step using Some none by (auto split: option.split)
    qed
  qed
qed (simp split: option.split)

lemma map_of_parents:
  "map_of (compute_parents current (remdups (sort (map fst current))) [] []) q = parent_hash current q"
proof (cases "map_of current (q * 2)")
  case None
  then show ?thesis by (simp add: map_of_compute_parents parent_hash_def)
next
  case (Some h)
  then have "q \<in> (\<lambda>p. p div 2) ` set (map fst current)" by (force simp: image_iff dest: map_of_SomeD)
  then show ?thesis by (simp add: map_of_compute_parents)
qed

text \<open>
  The positions covered at each level, and the siblings a proof for them needs.
\<close>

primrec covered_at :: "nat set \<Rightarrow> nat \<Rightarrow> nat set" where
  "covered_at C 0 = C"
| "covered_at C (Suc j) = (\<lambda>p. p div 2) ` covered_at C j"

definition siblings_at :: "nat set \<Rightarrow> nat \<Rightarrow> nat list" where
  "siblings_at C j = needed (covered_at C j) (pos_list (covered_at C j))"

lemma finite_covered_at [simp]: "finite C \<Longrightarrow> finite (covered_at C j)"
  by (induction j) simp_all

lemma covered_at_less: "C \<subseteq> {..<2 ^ h} \<Longrightarrow> j \<le> h \<Longrightarrow> covered_at C j \<subseteq> {..<2 ^ (h - j)}"
proof (induction j)
  case (Suc j)
  have "h - j = Suc (h - Suc j)" using Suc.prems(2) by simp
  then show ?case using Suc by (auto simp: less_mult_imp_div_less mult.commute)
qed simp

lemma siblings_at_less:
  assumes "C \<subseteq> {..<2 ^ h}" "finite C" "j < h"
  shows "set (siblings_at C j) \<subseteq> {..<2 ^ (h - j)}"
proof
  fix s assume "s \<in> set (siblings_at C j)"
  then obtain p where p: "p \<in> covered_at C j" "s = sibling_of p" using assms(2) by (auto simp: siblings_at_def needed_def)
  obtain k where k: "h - j = Suc k" using assms(3) by (metis Suc_diff_Suc)
  have "p < 2 ^ k * 2" using p(1) covered_at_less [OF assms(1), of j] assms(3) k by auto
  then have "p div 2 < 2 ^ k" by (rule less_mult_imp_div_less)
  then show "s \<in> {..<2 ^ (h - j)}" using sibling_cases [of p] p(2) k by auto
qed

lemma prove_levels_spec:
  assumes "finite C" "C \<subseteq> {..<2 ^ h}" "length l = 2 ^ h" "j \<le> h"
    and "\<forall>i < h. distinct (map (\<lambda>s. level_at l i ! s) (siblings_at C i))"
    and "\<forall>(i, x) \<in> set sibs. i < j"
  shows "\<exists>cov. prove_levels j (map (level_at l) [j ..< h]) (sibs, pos_list (covered_at C j)) =
    (sibs @ concat (map (\<lambda>i. map (\<lambda>s. (i, level_at l i ! s)) (siblings_at C i)) [j ..< h]), cov)"
  using assms(4-)
proof (induction "h - j" arbitrary: j sibs)
  case (Suc d)
  then have j: "j < h" by simp
  have "prove_level j (level_at l j) (pos_list (covered_at C j)) (pos_list (covered_at C j)) (sibs, pos_list {}) =
      (sibs @ map (\<lambda>s. (j, level_at l j ! s)) (needed (set (pos_list (covered_at C j))) (pos_list (covered_at C j))),
       pos_list ({} \<union> (\<lambda>p. p div 2) ` set (pos_list (covered_at C j))))"
    using siblings_at_less [OF assms(2,1) j] Suc.prems(2,3) j assms(1)
    by (intro prove_level_spec) (auto simp: siblings_at_def length_level_at [OF assms(3)])
  moreover have "\<exists>cov. prove_levels (Suc j) (map (level_at l) [Suc j ..< h])
      (sibs @ map (\<lambda>s. (j, level_at l j ! s)) (siblings_at C j), pos_list (covered_at C (Suc j))) =
    ((sibs @ map (\<lambda>s. (j, level_at l j ! s)) (siblings_at C j)) @
      concat (map (\<lambda>i. map (\<lambda>s. (i, level_at l i ! s)) (siblings_at C i)) [Suc j ..< h]), cov)"
    using Suc.hyps(2) Suc.prems j by (intro Suc.hyps(1)) (auto simp: less_Suc_eq)
  ultimately show ?case using assms(1) j by (simp add: upt_conv_Cons siblings_at_def)
qed simp

lemma place_levels_spec:
  assumes "finite C"
  shows "\<exists>known'. place_levels [j ..< h] known
      (concat (map (\<lambda>i. map (\<lambda>s. (i, f i s)) (siblings_at C i)) [j ..< h])) (pos_list (covered_at C j)) = Ok known' \<and>
    (hm_ok known \<longrightarrow> hm_ok known') \<and>
    (\<forall>i p. map_of known' (i, p) = (if j \<le> i \<and> i < h \<and> p \<in> set (siblings_at C i) then Some (f i p) else map_of known (i, p)))"
proof (induction "h - j" arbitrary: j known)
  case (Suc d)
  then have j: "j < h" by simp
  let ?known = "foldl (\<lambda>k s. hm_insert (j, s) (f j s) k) known (siblings_at C j)"
  let ?rest = "concat (map (\<lambda>i. map (\<lambda>s. (i, f i s)) (siblings_at C i)) [Suc j ..< h])"
  have "place_siblings j (pos_list (covered_at C j)) (pos_list (covered_at C j)) known
      (map (\<lambda>s. (j, f j s)) (needed (set (pos_list (covered_at C j))) (pos_list (covered_at C j))) @ ?rest) (pos_list {}) =
    Ok (foldl (\<lambda>k s. hm_insert (j, s) (f j s) k) known (needed (set (pos_list (covered_at C j))) (pos_list (covered_at C j))), ?rest,
      pos_list ({} \<union> (\<lambda>p. p div 2) ` set (pos_list (covered_at C j))))"
    by (rule place_siblings_spec) simp
  then have step: "place_siblings j (pos_list (covered_at C j)) (pos_list (covered_at C j)) known
      (map (\<lambda>s. (j, f j s)) (siblings_at C j) @ ?rest) [] = Ok (?known, ?rest, pos_list (covered_at C (Suc j)))"
    using assms by (simp add: siblings_at_def)
  have "d = h - Suc j" using Suc.hyps(2) by simp
  from Suc.hyps(1) [OF this, of ?known] obtain known' where
    k: "place_levels [Suc j ..< h] ?known ?rest (pos_list (covered_at C (Suc j))) = Ok known'"
      "hm_ok ?known \<longrightarrow> hm_ok known'"
      "\<forall>i p. map_of known' (i, p) = (if Suc j \<le> i \<and> i < h \<and> p \<in> set (siblings_at C i) then Some (f i p) else map_of ?known (i, p))"
    by blast
  have "place_levels [j ..< h] known (concat (map (\<lambda>i. map (\<lambda>s. (i, f i s)) (siblings_at C i)) [j ..< h]))
      (pos_list (covered_at C j)) = Ok known'"
    using step k(1) j by (simp add: upt_conv_Cons del: covered_at.simps)
  moreover have "\<forall>i p. map_of known' (i, p) =
      (if j \<le> i \<and> i < h \<and> p \<in> set (siblings_at C i) then Some (f i p) else map_of known (i, p))"
  proof (intro allI)
    fix i p
    show "map_of known' (i, p) =
        (if j \<le> i \<and> i < h \<and> p \<in> set (siblings_at C i) then Some (f i p) else map_of known (i, p))"
      using k(3) j by (cases "i = j") (simp_all add: fold_insert_siblings(1) Suc_le_eq order_less_le)
  qed
  moreover have "hm_ok known \<longrightarrow> hm_ok known'" using k(2) fold_insert_siblings(2) [of known j "f j" "siblings_at C j"] by simp
  ultimately show ?case by blast
qed auto

text \<open>If what is known is right and complete for the covered positions, the root is reconstructed.\<close>

lemma propagate_spec:
  assumes "finite C" "C \<subseteq> {..<2 ^ h}" "length l = 2 ^ h" "hm_ok known" "j \<le> h"
    and "\<forall>i p x. map_of known (i, p) = Some x \<longrightarrow> i < h \<longrightarrow> x = level_at l i ! p \<and> p < 2 ^ (h - i)"
    and "\<forall>i p. i < h \<longrightarrow> p \<in> set (siblings_at C i) \<longrightarrow> map_of known (i, p) \<noteq> None"
    and "\<forall>p x. map_of current p = Some x \<longrightarrow> x = level_at l j ! p \<and> p < 2 ^ (h - j)"
    and "covered_at C j \<subseteq> dom (map_of current)"
  shows "covered_at C h \<subseteq> dom (map_of (propagate known [j ..< h] current)) \<and>
    (\<forall>p x. map_of (propagate known [j ..< h] current) p = Some x \<longrightarrow> x = level_at l h ! p)"
  using assms(5,8,9)
proof (induction "h - j" arbitrary: j current)
  case 0
  then show ?case by simp
next
  case (Suc d)
  then have j: "j < h" by simp
  then obtain k where k: "h - j = Suc k" by (metis Suc_diff_Suc)
  let ?cur = "level_known j known current"
  let ?next = "compute_parents ?cur (remdups (sort (map fst ?cur))) [] []"
  note cur = map_of_level_known [OF assms(4), of j current]
  have right: "x = level_at l j ! p \<and> p < 2 ^ (h - j)" if "map_of ?cur p = Some x" for p x
    using that assms(6) Suc.prems(2) j by (auto simp: cur split: option.splits)
  have up: "x = level_at l (Suc j) ! q \<and> q < 2 ^ (h - Suc j)" if "map_of ?next q = Some x" for q x
  proof -
    from that obtain a b where ab: "map_of ?cur (q * 2) = Some a" "map_of ?cur (q * 2 + 1) = Some b" "x = combine a b"
      unfolding map_of_parents by (auto simp: parent_hash_def split: option.splits)
    from right [OF ab(1)] right [OF ab(2)] have q: "q * 2 + 1 < 2 ^ (h - j)" "a = level_at l j ! (2 * q)" "b = level_at l j ! (2 * q + 1)"
      by (simp_all add: mult.commute)
    then have "q < length (level_at l j) div 2" using length_level_at [OF assms(3), of j] j k by simp
    moreover have "h - Suc j = k" using k by simp
    ultimately show ?thesis using level_at_Suc_nth q ab(3) k by simp
  qed
  have "q \<in> dom (map_of ?next)" if q: "q \<in> covered_at C (Suc j)" for q
  proof -
    from q obtain p where p: "p \<in> covered_at C j" "q = p div 2" by auto
    have "p \<in> dom (map_of ?cur)" using p(1) Suc.prems(3) by (auto simp: cur split: option.split)
    moreover have "sibling_of p \<in> dom (map_of ?cur)"
    proof (cases "sibling_of p \<in> covered_at C j")
      case True
      then show ?thesis using Suc.prems(3) by (auto simp: cur split: option.split)
    next
      case False
      then have "sibling_of p \<in> set (siblings_at C j)" using p(1) assms(1) by (auto simp: siblings_at_def needed_def)
      then have "map_of known (j, sibling_of p) \<noteq> None" using assms(7) j by blast
      then show ?thesis by (auto simp: cur)
    qed
    ultimately have "q * 2 \<in> dom (map_of ?cur)" "q * 2 + 1 \<in> dom (map_of ?cur)"
      using sibling_cases [of p] p(2) by (auto simp: mult.commute)
    then show ?thesis unfolding dom_def map_of_parents by (auto simp: parent_hash_def)
  qed
  then have "covered_at C h \<subseteq> dom (map_of (propagate known [Suc j ..< h] ?next)) \<and>
      (\<forall>p x. map_of (propagate known [Suc j ..< h] ?next) p = Some x \<longrightarrow> x = level_at l h ! p)"
    using Suc.hyps(2) j up by (intro Suc.hyps(1)) auto
  then show ?case using j by (simp add: upt_conv_Cons Let_def)
qed

lemma covered_at_root: "C \<noteq> {} \<Longrightarrow> C \<subseteq> {..<2 ^ h} \<Longrightarrow> 0 \<in> covered_at C h"
proof -
  assume C: "C \<noteq> {}" "C \<subseteq> {..<2 ^ h}"
  have "covered_at C j \<noteq> {}" for j using C(1) by (induction j) auto
  then show ?thesis using covered_at_less [OF C(2), of h] by fastforce
qed

subsection \<open>Properties\<close>

lemma merkle_root_eq: "tree_size P = 2 ^ h \<Longrightarrow> merkle_root P = Ok (level_at (padded (mb_leaves P) (2 ^ h)) h ! 0)"
  by (simp add: merkle_root_def root_loop_power)

lemma find_None: "\<forall>x \<in> set xs. x < n \<Longrightarrow> find (\<lambda>i. n \<le> i) xs = None" for n :: nat
  by (auto simp: find_None_iff)

lemma no_duplicate: "distinct xs \<Longrightarrow> first_duplicate xs = None"
proof -
  have "find (\<lambda>(a, b). a = b) (zip xs (tl xs)) = None" if "distinct xs" for xs :: "nat list"
    using that by (auto simp: find_None_iff in_set_zip nth_tl distinct_conv_nth)
  then show "distinct xs \<Longrightarrow> first_duplicate xs = None" by (simp add: first_duplicate_def)
qed

text \<open>No two siblings that a proof needs at the same level have the same hash.\<close>

definition siblings_differ :: "u64 list \<Rightarrow> nat \<Rightarrow> nat set \<Rightarrow> bool" where
  "siblings_differ l h C \<longleftrightarrow> (\<forall>i < h. distinct (map (\<lambda>s. level_at l i ! s) (siblings_at C i)))"

definition proof_siblings :: "u64 list \<Rightarrow> nat \<Rightarrow> nat set \<Rightarrow> (nat \<times> u64) list" where
  "proof_siblings l h C = concat (map (\<lambda>i. map (\<lambda>s. (i, level_at l i ! s)) (siblings_at C i)) [0 ..< h])"

lemma prove_batch_ok:
  assumes "tree_size P = 2 ^ h" "l = padded (mb_leaves P) (2 ^ h)" "distinct ixs" "\<forall>i \<in> set ixs. i < length (mb_leaves P)"
    and "siblings_differ l h (set ixs)"
  shows "prove_batch P ixs = Ok \<lparr>leaf_indices = sort ixs, sibling_hashes = proof_siblings l h (set ixs), bp_root = level_at l h ! 0\<rparr>"
proof -
  have C: "set ixs \<subseteq> {..<2 ^ h}" using assms(1,4) tree_size_power [of P] by fastforce
  obtain cov where "prove_levels 0 (map (level_at l) [0 ..< h]) ([], pos_list (covered_at (set ixs) 0)) =
      ([] @ concat (map (\<lambda>i. map (\<lambda>s. (i, level_at l i ! s)) (siblings_at (set ixs) i)) [0 ..< h]), cov)"
    using prove_levels_spec [OF _ C, of l 0 "[]"] assms(2,5) by (auto simp: siblings_differ_def)
  moreover have "take h (map (level_at l) [0 ..< Suc h]) = map (level_at l) [0 ..< h]" by (simp add: take_map)
  ultimately show ?thesis
    using assms(1-4) build_levels_power [of l h] merkle_root_eq [OF assms(1)]
    by (simp add: prove_batch_def Let_def find_None no_duplicate sort_pos build_tree_def proof_siblings_def del: upt_Suc)
qed

lemma map_of_zip_sorted:
  "distinct ixs \<Longrightarrow> map_of (zip (sort ixs) (map g (sort ixs))) p = (if p \<in> set ixs then Some (g p) else None)"
  by (simp add: map_of_zip_map)

text \<open>
  (C40) Completeness of batch proofs: for distinct indices in range, a proof is generated and
  verification accepts it for the data at the indices in ascending order, whatever tree of the same
  size it is verified with, as long as no two sibling hashes that the proof needs at the same level
  are equal.
\<close>

theorem merkle_batch_complete:
  assumes "mbp_new data = Ok P" "tree_size P = 2 ^ h" "ixs \<noteq> []" "distinct ixs" "\<forall>i \<in> set ixs. i < length data"
    and "siblings_differ (padded (mb_leaves P) (2 ^ h)) h (set ixs)"
    and "tree_size Q = tree_size P"
  shows "\<exists>p. prove_batch P ixs = Ok p \<and> merkle_root P = Ok (bp_root p) \<and>
    verify_batch Q p (map (\<lambda>i. data ! i) (sort ixs)) = Ok True"
proof -
  let ?l = "padded (mb_leaves P) (2 ^ h)" and ?C = "set ixs"
  let ?p = "\<lparr>leaf_indices = sort ixs, sibling_hashes = proof_siblings ?l h ?C, bp_root = level_at ?l h ! 0\<rparr>"
  have leaves: "mb_leaves P = map leaf_hash data" using assms(1) by (auto simp: mbp_new_def split: if_splits)
  have C: "?C \<subseteq> {..<2 ^ h}" using assms(2,5) tree_size_power [of P] leaves by fastforce
  have ok: "prove_batch P ixs = Ok ?p"
    by (rule prove_batch_ok) (use assms leaves in auto)
  let ?items = "map (\<lambda>i. data ! i) (sort ixs)"
  let ?known = "foldl (\<lambda>known (idx, data). hm_insert (0 :: nat, idx) (leaf_hash data) known) [] (zip (sort ixs) ?items)"
  have known: "map_of ?known (i, p) = (if i = 0 \<and> p \<in> ?C then Some (leaf_hash (data ! p)) else None)" for i p
    using assms(4) by (simp add: fold_insert_leaves map_of_zip_sorted)
  have kok: "hm_ok ?known" by (rule hm_ok_fold_leaves) (simp add: hm_ok_def)
  obtain known' where k: "place_levels [0 ..< h] ?known (proof_siblings ?l h ?C) (pos_list (covered_at ?C 0)) = Ok known'"
      "hm_ok known'"
      "\<And>i p. map_of known' (i, p) = (if i < h \<and> p \<in> set (siblings_at ?C i) then Some (level_at ?l i ! p) else map_of ?known (i, p))"
    using place_levels_spec [of ?C 0 h ?known "\<lambda>i s. level_at ?l i ! s"] kok by (auto simp: proof_siblings_def)
  have leaf: "leaf_hash (data ! p) = ?l ! p" if "p \<in> ?C" for p
    using that assms(5) C leaves by (subst nth_padded) auto
  have right: "x = level_at ?l i ! p \<and> p < 2 ^ (h - i)" if "map_of known' (i, p) = Some x" "i < h \<or> i = 0" for i p x
    using that k(3) [of i p] known [of i p] leaf [of p] C siblings_at_less [OF C, of i] by (auto split: if_splits)
  have "covered_at ?C h \<subseteq> dom (map_of (propagate known' [0 ..< h] (level_known 0 known' []))) \<and>
      (\<forall>p x. map_of (propagate known' [0 ..< h] (level_known 0 known' [])) p = Some x \<longrightarrow> x = level_at ?l h ! p)"
  proof (rule propagate_spec [OF _ C _ k(2)])
    have cur: "map_of (level_known 0 known' []) p = map_of known' (0, p)" for p
      unfolding map_of_level_known [OF k(2)] by (simp split: option.split)
    show "\<forall>p x. map_of (level_known 0 known' []) p = Some x \<longrightarrow> x = level_at ?l 0 ! p \<and> p < 2 ^ (h - 0)"
      unfolding cur using right by blast
    show "covered_at ?C 0 \<subseteq> dom (map_of (level_known 0 known' []))"
      unfolding dom_def cur k(3) known by auto
    show "\<forall>i p x. map_of known' (i, p) = Some x \<longrightarrow> i < h \<longrightarrow> x = level_at ?l i ! p \<and> p < 2 ^ (h - i)"
      using right by blast
    show "\<forall>i p. i < h \<longrightarrow> p \<in> set (siblings_at ?C i) \<longrightarrow> map_of known' (i, p) \<noteq> None" using k(3) by simp
  qed simp_all
  then have "map_of (propagate known' [0 ..< h] (level_known 0 known' [])) 0 = Some (level_at ?l h ! 0)"
    using covered_at_root [OF _ C] assms(3) by auto
  then have "verify_batch Q ?p ?items = Ok True"
    using k(1) assms(2,7) by (simp add: verify_batch_def verify_known_def Let_def trailing_zeros_power sort_pos)
  then show ?thesis using ok merkle_root_eq [OF assms(2)] by auto
qed

text \<open>What verification computes: the hashes known at a level, once those of the proof are added.\<close>

fun recon :: "known_map \<Rightarrow> nat \<Rightarrow> (nat \<times> u64) list" where
  "recon known 0 = level_known 0 known (level_known 0 known [])"
| "recon known (Suc j) = level_known (Suc j) known
     (compute_parents (recon known j) (remdups (sort (map fst (recon known j)))) [] [])"

definition recon_root :: "known_map \<Rightarrow> nat \<Rightarrow> (nat \<times> u64) list" where
  "recon_root known h = (case h of 0 \<Rightarrow> level_known 0 known []
     | Suc j \<Rightarrow> compute_parents (recon known j) (remdups (sort (map fst (recon known j)))) [] [])"

lemma propagate_recon: "propagate known [0 ..< h] (level_known 0 known []) = recon_root known h"
proof -
  have snoc: "propagate known (ls @ [l]) cur = propagate known [l] (propagate known ls cur)" for ls l cur
    by (induction ls arbitrary: cur) (simp_all add: Let_def)
  show ?thesis
  proof (induction h)
    case (Suc h)
    have "recon known h = level_known h known (recon_root known h)"
      by (cases h) (simp_all add: recon_root_def)
    then show ?case using Suc snoc [of "[0 ..< h]" h] by (simp add: recon_root_def Let_def)
  qed (simp add: recon_root_def)
qed

text \<open>The pairs that are hashed, in the tree and during verification.\<close>

definition tree_pairs :: "u64 list \<Rightarrow> nat \<Rightarrow> (u64 \<times> u64) set" where
  "tree_pairs l h = {(level_at l j ! (2 * q), level_at l j ! (2 * q + 1)) | j q. j < h \<and> q < 2 ^ (h - Suc j)}"

definition recon_pairs :: "known_map \<Rightarrow> nat \<Rightarrow> (u64 \<times> u64) set" where
  "recon_pairs known h = {(a, b) | a b j q. j < h \<and>
     map_of (recon known j) (2 * q) = Some a \<and> map_of (recon known j) (2 * q + 1) = Some b}"

lemma map_of_recon:
  assumes "hm_ok known"
  shows "map_of (recon known 0) p = map_of known (0, p)"
    and "map_of (recon known (Suc j)) q =
      (case map_of known (Suc j, q) of Some h \<Rightarrow> Some h | None \<Rightarrow> parent_hash (recon known j) q)"
  using assms by (simp_all add: map_of_level_known map_of_parents split: option.split)

text \<open>Exactly the covered positions and their siblings are known, and siblings are not recomputed.\<close>

lemma covered_disjoint: "finite C \<Longrightarrow> set (siblings_at C j) \<inter> covered_at C j = {}"
  by (auto simp: siblings_at_def needed_def)

lemma dom_recon:
  assumes "finite C" "hm_ok known"
    and "\<And>i p. map_of known (i, p) \<noteq> None \<longleftrightarrow> (i < h \<and> p \<in> set (siblings_at C i) \<or> i = 0 \<and> p \<in> C)"
    and "j < h"
  shows "dom (map_of (recon known j)) = covered_at C j \<union> set (siblings_at C j)"
  using assms(4)
proof (induction j)
  case 0
  then show ?case unfolding dom_def map_of_recon(1) [OF assms(2)] using assms(3) [of 0] by auto
next
  case (Suc j)
  have IH: "dom (map_of (recon known j)) = covered_at C j \<union> set (siblings_at C j)" using Suc by simp
  have sib: "sibling_of p \<in> dom (map_of (recon known j))" if "p \<in> covered_at C j" for p
    using that assms(1) unfolding IH by (auto simp: siblings_at_def needed_def)
  have "parent_hash (recon known j) q \<noteq> None \<longleftrightarrow> q \<in> covered_at C (Suc j)" for q
  proof
    assume "parent_hash (recon known j) q \<noteq> None"
    then have "q * 2 \<in> dom (map_of (recon known j))" by (auto simp: parent_hash_def split: option.splits)
    then consider "q * 2 \<in> covered_at C j" | p where "p \<in> covered_at C j" "q * 2 = sibling_of p"
      using assms(1) unfolding IH by (auto simp: siblings_at_def needed_def)
    then show "q \<in> covered_at C (Suc j)"
    proof cases
      case 1
      then show ?thesis by (auto intro!: image_eqI [of _ _ "q * 2"])
    next
      case 2
      then have "q = p div 2" using sibling_cases [of p] by linarith
      then show ?thesis using 2 by auto
    qed
  next
    assume "q \<in> covered_at C (Suc j)"
    then obtain p where p: "p \<in> covered_at C j" "q = p div 2" by auto
    then have "p \<in> dom (map_of (recon known j))" "sibling_of p \<in> dom (map_of (recon known j))" using IH sib by auto
    then have "q * 2 \<in> dom (map_of (recon known j))" "q * 2 + 1 \<in> dom (map_of (recon known j))"
      using sibling_cases [of p] p(2) by (auto simp: mult.commute)
    then show "parent_hash (recon known j) q \<noteq> None" by (auto simp: parent_hash_def)
  qed
  moreover have "map_of (recon known (Suc j)) q \<noteq> None \<longleftrightarrow>
      map_of known (Suc j, q) \<noteq> None \<or> parent_hash (recon known j) q \<noteq> None" for q
    unfolding map_of_recon(2) [OF assms(2)] by (simp split: option.split)
  ultimately show ?case using assms(3) [of "Suc j"] Suc.prems unfolding dom_def by auto
qed

text \<open>Where a proof, honest or not, is placed in the tree.\<close>

lemma place_siblings_Ok:
  assumes "place_siblings level cov ps known iter (pos_list A) = Ok (known', iter', next')" "finite A"
  shows "next' = pos_list (A \<union> (\<lambda>p. p div 2) ` set ps) \<and> (hm_ok known \<longrightarrow> hm_ok known') \<and>
    (\<forall>i p. (map_of known' (i, p) \<noteq> None) = (map_of known (i, p) \<noteq> None \<or> i = level \<and> p \<in> set (needed (set cov) ps))) \<and>
    (\<forall>i p. \<not> (i = level \<and> p \<in> set (needed (set cov) ps)) \<longrightarrow> map_of known' (i, p) = map_of known (i, p))"
  using assms
proof (induction ps arbitrary: known iter A)
  case (Cons p ps)
  show ?case
  proof (cases "sibling_of p \<in> set cov")
    case True
    then show ?thesis using Cons.IH [of known iter "insert (p div 2) A"] Cons.prems
      by (simp add: insort_insert_pos Let_def)
  next
    case False
    then obtain lv x iter2 where it: "iter = (lv, x) # iter2"
      using Cons.prems(1) by (cases iter) (auto simp: Let_def)
    let ?known = "hm_insert (level, sibling_of p) x known"
    have "place_siblings level cov ps ?known iter2 (pos_list (insert (p div 2) A)) = Ok (known', iter', next')"
      using Cons.prems False it by (simp add: insort_insert_pos Let_def)
    from Cons.IH [OF this] Cons.prems(2) show ?thesis using False by auto
  qed
qed simp

lemma place_levels_Ok:
  assumes "place_levels [j ..< h] known iter (pos_list (covered_at C j)) = Ok known'" "finite C"
  shows "(hm_ok known \<longrightarrow> hm_ok known') \<and>
    (\<forall>i p. (map_of known' (i, p) \<noteq> None) = (map_of known (i, p) \<noteq> None \<or> j \<le> i \<and> i < h \<and> p \<in> set (siblings_at C i))) \<and>
    (\<forall>i p. \<not> (j \<le> i \<and> i < h \<and> p \<in> set (siblings_at C i)) \<longrightarrow> map_of known' (i, p) = map_of known (i, p))"
  using assms(1)
proof (induction "h - j" arbitrary: j known iter)
  case (Suc d)
  then have j: "j < h" by simp
  let ?cov = "pos_list (covered_at C j)"
  from Suc.prems j obtain known2 iter2 cov2 where
    p: "place_siblings j ?cov ?cov known iter (pos_list {}) = Ok (known2, iter2, cov2)"
      "place_levels [Suc j ..< h] known2 iter2 cov2 = Ok known'"
    by (auto simp: upt_conv_Cons obind_eq_Ok)
  from place_siblings_Ok [OF p(1)] assms(2) have s: "cov2 = pos_list (covered_at C (Suc j))" "hm_ok known \<longrightarrow> hm_ok known2"
      "\<And>i p. (map_of known2 (i, p) \<noteq> None) = (map_of known (i, p) \<noteq> None \<or> i = j \<and> p \<in> set (siblings_at C j))"
      "\<And>i p. \<not> (i = j \<and> p \<in> set (siblings_at C j)) \<Longrightarrow> map_of known2 (i, p) = map_of known (i, p)"
    by (simp_all add: siblings_at_def)
  have "d = h - Suc j" using Suc.hyps(2) by simp
  from Suc.hyps(1) [OF this p(2) [unfolded s(1)]] have IH: "hm_ok known2 \<longrightarrow> hm_ok known'"
      "\<And>i p. (map_of known' (i, p) \<noteq> None) = (map_of known2 (i, p) \<noteq> None \<or> Suc j \<le> i \<and> i < h \<and> p \<in> set (siblings_at C i))"
      "\<And>i p. \<not> (Suc j \<le> i \<and> i < h \<and> p \<in> set (siblings_at C i)) \<Longrightarrow> map_of known' (i, p) = map_of known2 (i, p)"
    by blast+
  have le: "j \<le> i \<longleftrightarrow> i = j \<or> Suc j \<le> i" for i by auto
  have "(map_of known' (i, p) \<noteq> None) = (map_of known (i, p) \<noteq> None \<or> j \<le> i \<and> i < h \<and> p \<in> set (siblings_at C i))" for i p
    unfolding IH(2) s(3) le using j by auto
  moreover have "map_of known' (i, p) = map_of known (i, p)" if "\<not> (j \<le> i \<and> i < h \<and> p \<in> set (siblings_at C i))" for i p
  proof -
    have "map_of known' (i, p) = map_of known2 (i, p)" using that by (intro IH(3)) (auto simp: le)
    also have "\<dots> = map_of known (i, p)" using that j by (intro s(4)) (auto simp: le)
    finally show ?thesis .
  qed
  ultimately show ?case using IH(1) s(2) by blast
qed auto

lemma recon_down:
  assumes "finite C" "C \<subseteq> {..<2 ^ h}" "length l = 2 ^ h" "hm_ok known"
    and "\<And>i p. map_of known (i, p) \<noteq> None \<longleftrightarrow> (i < h \<and> p \<in> set (siblings_at C i) \<or> i = 0 \<and> p \<in> C)"
    and "inj_on (\<lambda>(a, b). combine a b) (tree_pairs l h \<union> recon_pairs known h)"
    and "j < h" "\<And>q. q \<in> covered_at C (Suc j) \<Longrightarrow> parent_hash (recon known j) q = Some (level_at l (Suc j) ! q)"
  shows "p \<in> covered_at C j \<Longrightarrow> map_of (recon known j) p = Some (level_at l j ! p)"
proof -
  assume p: "p \<in> covered_at C j"
  let ?q = "p div 2"
  have q: "?q \<in> covered_at C (Suc j)" using p by auto
  from assms(8) [OF q] obtain a b where ab: "map_of (recon known j) (2 * ?q) = Some a"
      "map_of (recon known j) (2 * ?q + 1) = Some b" "combine a b = level_at l (Suc j) ! ?q"
    by (auto simp: parent_hash_def mult.commute split: option.splits)
  have ql: "?q < 2 ^ (h - Suc j)" using covered_at_less [OF assms(2), of "Suc j"] q assms(7) by auto
  moreover have "length (level_at l j) div 2 = 2 ^ (h - Suc j)"
    using length_level_at [OF assms(3), of j] assms(7) Suc_diff_Suc [OF assms(7)] by (metis less_imp_le_nat nonzero_mult_div_cancel_left power_Suc zero_neq_numeral)
  ultimately have "combine a b = combine (level_at l j ! (2 * ?q)) (level_at l j ! (2 * ?q + 1))"
    using ab(3) level_at_Suc_nth [where i = ?q and l = l and j = j] by simp
  moreover have "(a, b) \<in> recon_pairs known h" using ab assms(7) by (auto simp: recon_pairs_def)
  moreover have "(level_at l j ! (2 * ?q), level_at l j ! (2 * ?q + 1)) \<in> tree_pairs l h"
    using ql assms(7) by (auto simp: tree_pairs_def)
  ultimately have "a = level_at l j ! (2 * ?q)" "b = level_at l j ! (2 * ?q + 1)"
    using inj_onD [OF assms(6), of "(a, b)" "(level_at l j ! (2 * ?q), level_at l j ! (2 * ?q + 1))"] by auto
  then show ?thesis using ab sibling_cases [of p] by auto
qed

lemma recon_all:
  assumes "finite C" "C \<subseteq> {..<2 ^ h}" "length l = 2 ^ h" "hm_ok known"
    and "\<And>i p. map_of known (i, p) \<noteq> None \<longleftrightarrow> (i < h \<and> p \<in> set (siblings_at C i) \<or> i = 0 \<and> p \<in> C)"
    and "inj_on (\<lambda>(a, b). combine a b) (tree_pairs l h \<union> recon_pairs known h)"
    and "map_of (recon_root known h) 0 = Some (level_at l h ! 0)"
  shows "q \<in> C \<Longrightarrow> map_of known (0, q) = Some (l ! q)"
proof -
  have top: "map_of (recon_root known h) q = Some (level_at l h ! q)" if "q \<in> covered_at C h" for q
    using that assms(7) covered_at_less [OF assms(2), of h] by auto
  show "map_of known (0, q) = Some (l ! q)" if "q \<in> C" for q
  proof (cases h)
    case 0
    then show ?thesis using top [of q] that assms(4)
      by (auto simp: recon_root_def map_of_level_known split: option.splits)
  next
    case (Suc m)
    have "\<forall>q \<in> covered_at C (m - i). map_of (recon known (m - i)) q = Some (level_at l (m - i) ! q)" if "i \<le> m" for i
      using that
    proof (induction i)
      case 0
      have "parent_hash (recon known m) q = Some (level_at l (Suc m) ! q)" if "q \<in> covered_at C (Suc m)" for q
        using top [of q] that Suc map_of_parents [of "recon known m" q] by (simp add: recon_root_def)
      then show ?case using recon_down [OF assms(1-6), of m] Suc by simp
    next
      case (Suc i)
      let ?j = "m - Suc i"
      have j: "Suc ?j = m - i" "?j < h" using Suc.prems \<open>h = Suc m\<close> by auto
      have "parent_hash (recon known ?j) q = Some (level_at l (Suc ?j) ! q)" if "q \<in> covered_at C (Suc ?j)" for q
      proof -
        have "q \<notin> set (siblings_at C (Suc ?j))" using that covered_disjoint [OF assms(1), of "Suc ?j"] by blast
        then have "map_of known (Suc ?j, q) = None" using assms(5) [of "Suc ?j" q] by auto
        then have "map_of (recon known (Suc ?j)) q = parent_hash (recon known ?j) q"
          unfolding map_of_recon(2) [OF assms(4)] by simp
        then show ?thesis using Suc.IH Suc.prems that j(1) by simp
      qed
      then show ?case using recon_down [OF assms(1-6), of ?j] j(2) by simp
    qed
    from this [of m] that show ?thesis unfolding diff_self_eq_0 map_of_recon(1) [OF assms(4)] by simp
  qed
qed

text \<open>
  (C39) Soundness of batch proofs with distinct indices inside the tree: if verification against a tree of the same
  size accepts such a proof and it carries the root of the tree, then every item it was given has the hash of the leaf
  at its index, unless two of the pairs hashed in the tree or during verification collide. \<open>verify_batch\<close> does not
  check the condition on the indices, and it is needed: see \<open>out_of_range_accepted\<close>.
\<close>

theorem merkle_batch_sound:
  assumes "tree_size P = 2 ^ h" "tree_size Q = 2 ^ h" "merkle_root P = Ok (bp_root p)"
    and "distinct (leaf_indices p)" "\<forall>i \<in> set (leaf_indices p). i < 2 ^ h" "leaf_indices p \<noteq> []"
    and "verify_known h p items = Ok known"
    and "inj_on (\<lambda>(a, b). combine a b) (tree_pairs (padded (mb_leaves P) (2 ^ h)) h \<union> recon_pairs known h)"
    and "verify_batch Q p items = Ok True" "k < length items"
  shows "leaf_hash (items ! k) = padded (mb_leaves P) (2 ^ h) ! (leaf_indices p ! k)"
proof -
  let ?l = "padded (mb_leaves P) (2 ^ h)" and ?C = "set (leaf_indices p)"
  let ?known = "foldl (\<lambda>known (idx, data). hm_insert (0 :: nat, idx) (leaf_hash data) known) [] (zip (leaf_indices p) items)"
  have len: "length items = length (leaf_indices p)" using assms(9) by (auto simp: verify_batch_def split: if_splits)
  have C: "?C \<subseteq> {..<2 ^ h}" using assms(5) by auto
  have base: "map_of ?known (i, q) = (if i = 0 \<and> q \<in> ?C then map_option leaf_hash (map_of (zip (leaf_indices p) items) q) else None)" for i q
    using fold_insert_leaves [OF len [symmetric] assms(4), of leaf_hash "[]" i q] by simp
  have baseok: "hm_ok ?known" by (rule hm_ok_fold_leaves) (simp add: hm_ok_def)
  have base_dom: "map_of ?known (i, q) \<noteq> None \<longleftrightarrow> i = 0 \<and> q \<in> ?C" for i q
    unfolding base using map_of_zip_is_None [OF len [symmetric], of q] by auto
  have pl: "place_levels [0 ..< h] ?known (sibling_hashes p) (pos_list (covered_at ?C 0)) = Ok known"
    using assms(7) by (simp add: verify_known_def sort_pos)
  note pk = place_levels_Ok [OF pl]
  have ok: "hm_ok known" using pk baseok by simp
  have dom: "map_of known (i, q) \<noteq> None \<longleftrightarrow> (i < h \<and> q \<in> set (siblings_at ?C i) \<or> i = 0 \<and> q \<in> ?C)" for i q
    using pk base_dom [of i q] by auto
  have leaf: "map_of known (0, q) = map_of ?known (0, q)" if "q \<in> ?C" for q
  proof -
    have "q \<notin> set (siblings_at ?C 0)" using that covered_disjoint [of ?C 0] by auto
    then show ?thesis using pk by simp
  qed
  have root: "map_of (recon_root known h) 0 = Some (level_at ?l h ! 0)"
    using assms(2,3,7,9) len merkle_root_eq [OF assms(1)]
    by (auto simp: verify_batch_def Let_def trailing_zeros_power propagate_recon split: option.splits)
  note all = recon_all [OF _ C _ ok dom assms(8) root]
  have "leaf_indices p ! k \<in> ?C" using assms(10) len by simp
  moreover have "map_of (zip (leaf_indices p) items) (leaf_indices p ! k) = Some (items ! k)"
    using assms(4,10) len by (intro map_of_zip_nth) auto
  ultimately show ?thesis using all [of "leaf_indices p ! k"] leaf base [of 0 "leaf_indices p ! k"] by simp
qed

lemma sorted_duplicate: "sorted xs \<Longrightarrow> \<not> distinct xs \<Longrightarrow> \<exists>i \<in> set xs. first_duplicate xs = Some i"
proof (induction xs)
  case (Cons x xs)
  show ?case
  proof (cases xs)
    case (Cons y ys)
    show ?thesis
    proof (cases "x = y")
      case True
      then show ?thesis using Cons by (simp add: first_duplicate_def)
    next
      case False
      then have "x \<notin> set xs" using Cons Cons.prems(1) by auto
      then have "\<not> distinct xs" using Cons.prems(2) by simp
      then show ?thesis using Cons.IH Cons.prems(1) False Cons by (auto simp: first_duplicate_def)
    qed
  qed (use Cons.prems in simp)
qed simp

lemma find_sorted_Min:
  fixes n :: nat
  assumes "sorted xs" "\<exists>i \<in> set xs. n \<le> i"
  shows "find (\<lambda>i. n \<le> i) xs = Some (Min {i \<in> set xs. n \<le> i})"
  using assms
proof (induction xs)
  case (Cons x xs)
  show ?case
  proof (cases "n \<le> x")
    case True
    then have "Min {i \<in> set (x # xs). n \<le> i} = x" using Cons.prems(1) by (intro Min_eqI) auto
    then show ?thesis using True by simp
  next
    case False
    then have "{i \<in> set (x # xs). n \<le> i} = {i \<in> set xs. n \<le> i}" by auto
    then show ?thesis using False Cons by simp
  qed
qed simp

text \<open>
  \<open>prove_batch\<close> on every input: it reports the smallest index out of range, else an index given
  twice, and otherwise returns a proof for the sorted indices that carries the root of the tree. It
  never panics.
\<close>

theorem prove_batch_total:
  assumes "mbp_new data = Ok P"
  shows "if \<exists>i \<in> set ixs. length data \<le> i
     then prove_batch P ixs = Err (LeafIndexOutOfBounds (Min {i \<in> set ixs. length data \<le> i}) (length data))
     else if \<not> distinct ixs then \<exists>i \<in> set ixs. prove_batch P ixs = Err (DuplicateLeaf i)
     else \<exists>p. prove_batch P ixs = Ok p \<and> leaf_indices p = sort ixs \<and> merkle_root P = Ok (bp_root p)"
proof -
  have n: "length (mb_leaves P) = length data" using assms by (auto simp: mbp_new_def split: if_splits)
  obtain h where h: "tree_size P = 2 ^ h" using tree_size_power by blast
  note levels = build_levels_power [of "padded (mb_leaves P) (2 ^ h)" h] merkle_root_eq [OF h]
  consider (oob) "\<exists>i \<in> set ixs. length data \<le> i" | (dup) "\<forall>i \<in> set ixs. i < length data" "\<not> distinct ixs"
    | (ok) "\<forall>i \<in> set ixs. i < length data" "distinct ixs" by (meson not_le)
  then show ?thesis
  proof cases
    case oob
    then have "find (\<lambda>i. length data \<le> i) (sort ixs) = Some (Min {i \<in> set ixs. length data \<le> i})"
      using find_sorted_Min [of "sort ixs" "length data"] by simp
    then show ?thesis using oob by (simp add: prove_batch_def Let_def n)
  next
    case dup
    then obtain i where "i \<in> set ixs" "first_duplicate (sort ixs) = Some i"
      using sorted_duplicate [of "sort ixs"] by auto
    then show ?thesis using dup by (auto simp: prove_batch_def Let_def n find_None)
  next
    case ok
    then show ?thesis using levels h
      by (auto simp: prove_batch_def Let_def n find_None no_duplicate build_tree_def split_beta simp del: upt_Suc)
  qed
qed

lemma two_levels: "[0 ..< 2] = [0, 1 :: nat]"
  by (simp add: numeral_2_eq_2)

text \<open>
  Equal siblings break honest proofs: \<open>prove_batch\<close> emits a sibling hash once per level even if
  two positions need it, and \<open>verify_batch\<close> then runs out of hashes. For any leaves \<open>a\<close>, \<open>x\<close>, \<open>b\<close>, \<open>x\<close> the
  proof for the indices 0 and 2 is rejected.
\<close>

theorem equal_siblings_rejected:
  "\<exists>P p. mbp_new [a, x, b, x] = Ok P \<and> prove_batch P [0, 2] = Ok p \<and>
     verify_batch P p [a, b] = Err (InvalidProof ''not enough sibling hashes in proof'')"
proof -
  let ?P = "\<lparr>mb_leaves = map leaf_hash [a, x, b, x]\<rparr>" and ?l = "map leaf_hash [a, x, b, x]"
  have size: "tree_size ?P = 2 ^ 2"
    by (simp add: tree_size_def next_power_of_two_def npot_loop.simps)
  have pad: "padded ?l (2 ^ 2) = ?l" by (simp add: padded_def upt_rec)
  have levels: "build_levels ?l = Ok [?l, level_up ?l, level_at ?l 2]"
    using build_levels_power [of ?l 2] by (simp add: upt_rec numeral_2_eq_2)
  obtain r where root: "merkle_root ?P = Ok r" using merkle_root_eq [OF size] by blast
  have "prove_batch ?P [0, 2] = Ok \<lparr>leaf_indices = [0, 2], sibling_hashes = [(0, leaf_hash x)], bp_root = r\<rparr>"
    using levels root size pad
    by (simp add: prove_batch_def Let_def first_duplicate_def build_tree_def sibling_of_def insort_insert_key_def)
  moreover have "verify_batch ?P \<lparr>leaf_indices = [0, 2], sibling_hashes = [(0, leaf_hash x)], bp_root = r\<rparr> [a, b] =
      Err (InvalidProof ''not enough sibling hashes in proof'')"
    unfolding verify_batch_def size trailing_zeros_power
    by (simp add: verify_known_def Let_def two_levels sibling_of_def)
  ultimately show ?thesis by (intro exI [of _ ?P] exI) (simp add: mbp_new_def)
qed

text \<open>
  Indices outside the tree are not verified: a proof for one leaf is accepted together with any
  other item under an index beyond the tree.
\<close>

theorem out_of_range_accepted:
  "\<exists>P p. mbp_new [d] = Ok P \<and> merkle_root P = Ok (bp_root p) \<and> leaf_indices p = [0, 5] \<and>
     verify_batch P p [d, forged] = Ok True"
proof -
  let ?P = "\<lparr>mb_leaves = [leaf_hash d]\<rparr>"
  let ?p = "\<lparr>leaf_indices = [0, 5], sibling_hashes = [], bp_root = leaf_hash d\<rparr>"
  have size: "tree_size ?P = 2 ^ 0" by (simp add: tree_size_def next_power_of_two_def)
  have "merkle_root ?P = Ok (leaf_hash d)" using merkle_root_eq [OF size] by (simp add: padded_def)
  moreover have "verify_batch ?P ?p [d, forged] = Ok True"
    unfolding verify_batch_def size trailing_zeros_power
    by (simp add: verify_known_def Let_def level_known_def hm_insert_def)
  ultimately show ?thesis by (intro exI [of _ ?P] exI [of _ ?p]) (simp add: mbp_new_def)
qed

subsection \<open>Examples\<close>

definition two_leaves :: MerkleBatchProver where
  "two_leaves = \<lparr>mb_leaves = [leaf_hash [1], leaf_hash [2]]\<rparr>"

lemma two_leaves_new: "mbp_new [[1], [2]] = Ok two_leaves"
  by (simp add: mbp_new_def two_leaves_def)

lemma two_leaves_size: "tree_size two_leaves = 2 ^ 1"
  by (simp add: tree_size_def two_leaves_def next_power_of_two_def npot_loop.simps)

lemma two_leaves_padded: "padded (mb_leaves two_leaves) (2 ^ 1) = [leaf_hash [1], leaf_hash [2]]"
  by (simp add: padded_def two_leaves_def upt_rec)

lemma two_leaves_siblings: "siblings_at {0} 0 = [1]"
  by (simp add: siblings_at_def pos_list_def sibling_of_def)

theorem merkle_batch_complete_witness:
  "\<exists>p. prove_batch two_leaves [0] = Ok p \<and> verify_batch two_leaves p [[1]] = Ok True"
  using merkle_batch_complete [OF two_leaves_new two_leaves_size, of "[0]" two_leaves]
  by (auto simp: siblings_differ_def two_leaves_siblings)

theorem prove_batch_total_witness:
  "prove_batch two_leaves [9, 0, 7] = Err (LeafIndexOutOfBounds 7 2)"
proof -
  have "{i \<in> set [9, 0, 7 :: nat]. length [[1 :: u8], [2]] \<le> i} = {7, 9}" by auto
  then show ?thesis using prove_batch_total [OF two_leaves_new, of "[9, 0, 7]"] by auto
qed

definition proof_example :: BatchProof where
  "proof_example = \<lparr>leaf_indices = [0], sibling_hashes = [(0, leaf_hash [2])], bp_root = combine (leaf_hash [1]) (leaf_hash [2])\<rparr>"

lemma proof_example_known:
  "verify_known 1 proof_example [[1]] = Ok [((0, 0), leaf_hash [1]), ((0, 1), leaf_hash [2])]"
  by (simp add: verify_known_def proof_example_def hm_insert_def sibling_of_def)

theorem merkle_batch_sound_witness:
  "verify_batch two_leaves proof_example [[1]] = Ok True \<and> leaf_hash [1] = padded (mb_leaves two_leaves) (2 ^ 1) ! 0"
proof -
  let ?known = "[((0, 0), leaf_hash [1]), ((0, 1), leaf_hash [2])] :: known_map"
  let ?pair = "(leaf_hash [1], leaf_hash [2])"
  have root: "merkle_root two_leaves = Ok (bp_root proof_example)"
    using merkle_root_eq [OF two_leaves_size] unfolding two_leaves_padded by (simp add: proof_example_def level_up_def)
  have top: "map_of (recon_root ?known 1) 0 = Some (combine (leaf_hash [1]) (leaf_hash [2]))"
    by (simp add: recon_root_def map_of_parents parent_hash_def level_known_def hm_insert_def)
  have v: "verify_batch two_leaves proof_example [[1]] = Ok True"
    using top unfolding verify_batch_def two_leaves_size trailing_zeros_power proof_example_known Let_def propagate_recon
    by (simp add: proof_example_def)
  have "tree_pairs [leaf_hash [1], leaf_hash [2]] 1 \<subseteq> {?pair}" by (auto simp: tree_pairs_def)
  moreover have "recon_pairs ?known 1 \<subseteq> {?pair}"
    by (auto simp: recon_pairs_def level_known_def hm_insert_def split: if_splits)
  ultimately have inj: "inj_on (\<lambda>(a, b). combine a b)
      (tree_pairs (padded (mb_leaves two_leaves) (2 ^ 1)) 1 \<union> recon_pairs ?known 1)"
    unfolding two_leaves_padded
    using inj_on_subset [of _ "{?pair}", OF _ Un_least] by (simp only: inj_on_insert) simp
  have "leaf_hash ([[1]] ! 0) = padded (mb_leaves two_leaves) (2 ^ 1) ! (leaf_indices proof_example ! 0)"
    by (rule merkle_batch_sound [OF two_leaves_size two_leaves_size root _ _ _ proof_example_known inj v])
       (simp_all add: proof_example_def)
  then show ?thesis using v by (simp add: proof_example_def)
qed

end
