(* ===== verification/Core_Block.thy ===== *)
theory Core_Block
  imports Block_Store
begin

text \<open>
  Blocks (\<open>ipfrs-core/src/block.rs\<close>): construction with a size check and a computed CID, integrity check,
  slices, metadata and the builder. Sharing of buffers (\<open>shares_data\<close>, zero-copy) has no counterpart here.
\<close>

subsection \<open>The code\<close>

definition MAX_BLOCK_SIZE :: nat where "MAX_BLOCK_SIZE = 2 * 1024 * 1024"
definition MIN_BLOCK_SIZE :: nat where "MIN_BLOCK_SIZE = 1"

definition validate_size :: "nat \<Rightarrow> (core_error, unit) outcome" where
  "validate_size sz =
     (if sz < MIN_BLOCK_SIZE then Err (InvalidData ''Block size below minimum'')
      else if sz > MAX_BLOCK_SIZE then Err (InvalidData ''Block size exceeds maximum (2 MiB)'')
      else Ok ())"

definition block_new :: "'c cid_crate \<Rightarrow> bytes \<Rightarrow> (core_error, 'c Block) outcome" where
  "block_new E data =
     obind (validate_size (length data)) (\<lambda>_.
       obind (cb_build E cb_new data) (\<lambda>cid. Ok \<lparr>blk_cid = cid, blk_data = data\<rparr>))"

definition block_size :: "'c Block \<Rightarrow> u64" where
  "block_size b = of_nat (length (blk_data b))"

definition block_verify :: "'c cid_crate \<Rightarrow> 'c Block \<Rightarrow> (core_error, bool) outcome" where
  "block_verify E b = obind (cb_build E cb_new (blk_data b)) (\<lambda>computed_cid. Ok (computed_cid = blk_cid b))"

definition into_parts :: "'c Block \<Rightarrow> 'c \<times> bytes" where
  "into_parts b = (blk_cid b, blk_data b)"

datatype range_bound = Included nat | Excluded nat | Unbounded

text \<open>\<open>Bytes::slice\<close> panics unless the range lies in the data.\<close>

definition block_slice :: "'c Block \<Rightarrow> range_bound \<Rightarrow> range_bound \<Rightarrow> (core_error, bytes) outcome" where
  "block_slice b start_bound end_bound =
     (let start = (case start_bound of Included n \<Rightarrow> n | Excluded n \<Rightarrow> n + 1 | Unbounded \<Rightarrow> 0);
          stop = (case end_bound of Included n \<Rightarrow> n + 1 | Excluded n \<Rightarrow> n | Unbounded \<Rightarrow> length (blk_data b)) in
      if start \<le> stop \<and> stop \<le> length (blk_data b) then Ok (take (stop - start) (drop start (blk_data b)))
      else Panic)"

definition block_len :: "'c Block \<Rightarrow> nat" where
  "block_len b = length (blk_data b)"

definition block_is_empty :: "'c Block \<Rightarrow> bool" where
  "block_is_empty b \<longleftrightarrow> blk_data b = []"

record 'c BlockMetadata =
  bm_cid :: 'c
  bm_size :: u64
  bm_links :: nat

definition bm_new :: "'c \<Rightarrow> u64 \<Rightarrow> 'c BlockMetadata" where
  "bm_new cid sz = \<lparr>bm_cid = cid, bm_size = sz, bm_links = 0\<rparr>"

definition bm_with_links :: "'c BlockMetadata \<Rightarrow> nat \<Rightarrow> 'c BlockMetadata" where
  "bm_with_links m n = m\<lparr>bm_links := n\<rparr>"

definition block_metadata :: "'c Block \<Rightarrow> 'c BlockMetadata" where
  "block_metadata b = bm_new (blk_cid b) (block_size b)"

record BlockBuilder =
  bb_cid_builder :: CidBuilder

definition bb_new :: BlockBuilder where
  "bb_new = \<lparr>bb_cid_builder = cb_new\<rparr>"

definition bb_hash_algorithm :: "HashAlgorithm \<Rightarrow> BlockBuilder \<Rightarrow> BlockBuilder" where
  "bb_hash_algorithm a bb = bb\<lparr>bb_cid_builder := cb_set_hash_algorithm a (bb_cid_builder bb)\<rparr>"

definition bb_cid_version :: "Version \<Rightarrow> BlockBuilder \<Rightarrow> BlockBuilder" where
  "bb_cid_version v bb = bb\<lparr>bb_cid_builder := cb_set_version v (bb_cid_builder bb)\<rparr>"

definition bb_codec :: "u64 \<Rightarrow> BlockBuilder \<Rightarrow> BlockBuilder" where
  "bb_codec c bb = bb\<lparr>bb_cid_builder := cb_set_codec c (bb_cid_builder bb)\<rparr>"

definition bb_build :: "'c cid_crate \<Rightarrow> BlockBuilder \<Rightarrow> bytes \<Rightarrow> (core_error, 'c Block) outcome" where
  "bb_build E bb data =
     obind (validate_size (length data)) (\<lambda>_.
       obind (cb_build E (bb_cid_builder bb) data) (\<lambda>cid. Ok \<lparr>blk_cid = cid, blk_data = data\<rparr>))"

text \<open>Blocks compare by their CIDs: \<open>eq\<close>, and \<open>cmp\<close> on the binary form.\<close>

definition block_eq :: "'c Block \<Rightarrow> 'c Block \<Rightarrow> bool" where
  "block_eq a b \<longleftrightarrow> blk_cid a = blk_cid b"

subsection \<open>Lemmas\<close>

definition block_wf :: "'c cid_crate \<Rightarrow> 'c Block \<Rightarrow> bool" where
  "block_wf E b \<longleftrightarrow> block_verify E b = Ok True \<and> 1 \<le> length (blk_data b) \<and> length (blk_data b) \<le> MAX_BLOCK_SIZE"

lemma validate_size_Ok [simp]: "validate_size n = Ok u \<longleftrightarrow> 1 \<le> n \<and> n \<le> MAX_BLOCK_SIZE"
  by (auto simp: validate_size_def MIN_BLOCK_SIZE_def)

lemma validate_size_in_range: "1 \<le> n \<Longrightarrow> n \<le> MAX_BLOCK_SIZE \<Longrightarrow> validate_size n = Ok ()"
  by simp

lemma validate_size_total [simp]: "validate_size n \<noteq> Diverge" "validate_size n \<noteq> Panic"
  by (simp_all add: validate_size_def)

lemma block_new_iff: "block_new E data = Ok b \<longleftrightarrow> blk_data b = data \<and> block_wf E b"
  by (auto simp: block_new_def block_wf_def block_verify_def obind_eq_Ok)

lemma cb_build_total [simp]: "cb_build E b data \<noteq> Diverge" "cb_build E b data \<noteq> Panic"
  by (simp_all add: cb_build_def Let_def)

lemma block_new_total [simp]: "block_new E data \<noteq> Diverge" "block_new E data \<noteq> Panic"
  by (auto simp: block_new_def obind_eq_Diverge obind_eq_Panic)

text \<open>
  A block that the builder made with another codec, hash or version is not accepted by \<open>verify\<close>, which
  recomputes the CID with the default settings.
\<close>

lemma builder_block_not_verified:
  assumes "bb_build E bb data = Ok b" "cb_build E cb_new data = Ok c" "blk_cid b \<noteq> c"
  shows "block_verify E b = Ok False"
  using assms by (auto simp: bb_build_def block_verify_def obind_eq_Ok)

end
