(* ===== verification/Car_Archive.thy ===== *)
theory Car_Archive
  imports Core_Block
begin

text \<open>
  Content-addressed archives (\<open>ipfrs-core/src/car.rs\<close>) and the compression of blocks
  (\<open>ipfrs-core/src/compression.rs\<close>).

  \<^item> The writer writes to a vector and the reader reads from a slice, so writing does not fail and a
    failed \<open>read_exact\<close> leaves the slice empty.
  \<^item> \<open>Cid::read_bytes\<close> and the compression crates are the record \<open>car_crates\<close>; what is relied on is \<open>car_laws\<close>.
  \<^item> An allocation of more than \<open>isize::MAX\<close> bytes panics. Ratios (floating point) are left out.
\<close>

subsection \<open>Compression\<close>

record 'c car_crates =
  cid_read_bytes :: "bytes \<Rightarrow> ('c \<times> bytes) option"
  zstd_compress_with_level :: "int \<Rightarrow> bytes \<Rightarrow> bytes option"
  zstd_decompress :: "bytes \<Rightarrow> bytes option"
  lz4_compress :: "bytes \<Rightarrow> bytes option"
  lz4_decompress :: "nat \<Rightarrow> bytes \<Rightarrow> bytes option"

datatype CompressionAlgorithm = No_Compression | Zstd | Lz4

definition ca_name :: "CompressionAlgorithm \<Rightarrow> string" where
  "ca_name a = (case a of No_Compression \<Rightarrow> ''none'' | Zstd \<Rightarrow> ''zstd'' | Lz4 \<Rightarrow> ''lz4'')"

definition ca_is_compressed :: "CompressionAlgorithm \<Rightarrow> bool" where
  "ca_is_compressed a \<longleftrightarrow> a \<noteq> No_Compression"

definition ca_all :: "CompressionAlgorithm list" where
  "ca_all = [No_Compression, Zstd, Lz4]"

definition compress_zstd :: "'c car_crates \<Rightarrow> bytes \<Rightarrow> u8 \<Rightarrow> (core_error, bytes) outcome" where
  "compress_zstd C data level =
     (let zstd_level = if level = 0 then 1 else 1 + uint level * 21 div 9 in
      ok_or (Internal ''Zstd compression failed'') (zstd_compress_with_level C zstd_level data))"

definition decompress_zstd :: "'c car_crates \<Rightarrow> bytes \<Rightarrow> (core_error, bytes) outcome" where
  "decompress_zstd C data = ok_or (Internal ''Zstd decompression failed'') (zstd_decompress C data)"

definition compress_lz4 :: "'c car_crates \<Rightarrow> bytes \<Rightarrow> u8 \<Rightarrow> (core_error, bytes) outcome" where
  "compress_lz4 C data level =
     obind (ok_or (Internal ''LZ4 compression failed'') (lz4_compress C data)) (\<lambda>payload.
       Ok (le_bytes 4 (length data mod 2 ^ 32) @ payload))"

definition decompress_lz4 :: "'c car_crates \<Rightarrow> bytes \<Rightarrow> (core_error, bytes) outcome" where
  "decompress_lz4 C data =
     (if length data < 4 then Err (Internal ''LZ4 block too short (missing original size header)'')
      else let orig_size = from_le (take 4 data);
               max_output = max (orig_size * 2) (orig_size + 64) in
           ok_or (Internal ''LZ4 decompression failed'') (lz4_decompress C max_output (drop 4 data)))"

definition compress :: "'c car_crates \<Rightarrow> bytes \<Rightarrow> CompressionAlgorithm \<Rightarrow> u8 \<Rightarrow> (core_error, bytes) outcome" where
  "compress C data algorithm level =
     (if 9 < level then Err (InvalidInput ''Invalid compression level, must be 0-9'')
      else case algorithm of
             No_Compression \<Rightarrow> Ok data
           | Zstd \<Rightarrow> compress_zstd C data level
           | Lz4 \<Rightarrow> compress_lz4 C data level)"

definition decompress :: "'c car_crates \<Rightarrow> bytes \<Rightarrow> CompressionAlgorithm \<Rightarrow> (core_error, bytes) outcome" where
  "decompress C data algorithm =
     (case algorithm of
        No_Compression \<Rightarrow> Ok data | Zstd \<Rightarrow> decompress_zstd C data | Lz4 \<Rightarrow> decompress_lz4 C data)"

subsection \<open>Variable-length integers\<close>

definition MAX_VARINT_SIZE :: nat where "MAX_VARINT_SIZE = 10"

text \<open>The loop fills a buffer of ten bytes; writing past its end would panic.\<close>

function write_varint_loop :: "u64 \<Rightarrow> bytes \<Rightarrow> (core_error, bytes) outcome" where
  "write_varint_loop val buf =
     (if MAX_VARINT_SIZE \<le> length buf then Panic
      else let byte = ucast (val AND 0x7F);
               val = drop_bit 7 val;
               byte = if val \<noteq> 0 then byte OR 0x80 else byte in
           if val = 0 then Ok (buf @ [byte]) else write_varint_loop val (buf @ [byte]))"
  by pat_completeness auto
termination by (relation "measure (\<lambda>(val, buf). MAX_VARINT_SIZE - length buf)") auto

declare write_varint_loop.simps [simp del]

definition write_varint :: "bytes \<Rightarrow> u64 \<Rightarrow> bytes \<times> (core_error, unit) outcome" where
  "write_varint out val =
     sbind (out, write_varint_loop val []) (\<lambda>out buf. (out @ buf, Ok ()))"

fun read_varint_loop :: "nat \<Rightarrow> u64 \<Rightarrow> nat \<Rightarrow> bytes \<Rightarrow> bytes \<times> (core_error, u64 option) outcome" where
  "read_varint_loop 0 result shift rs = (rs, Err (Deserialization ''Varint exceeds maximum size''))"
| "read_varint_loop (Suc k) result shift [] =
     ([], if shift = 0 then Ok None else Err (Error_Io ''failed to fill whole buffer''))"
| "read_varint_loop (Suc k) result shift (byte # rs) =
     (let result = result OR push_bit shift (ucast (byte AND 0x7F)) in
      if byte AND 0x80 = 0 then (rs, Ok (Some result))
      else if 64 \<le> shift + 7 then (rs, Err (Deserialization ''Varint too large''))
      else read_varint_loop k result (shift + 7) rs)"

definition read_varint_opt :: "bytes \<Rightarrow> bytes \<times> (core_error, u64 option) outcome" where
  "read_varint_opt rs = read_varint_loop MAX_VARINT_SIZE 0 0 rs"

definition read_varint :: "bytes \<Rightarrow> bytes \<times> (core_error, u64) outcome" where
  "read_varint rs =
     sbind (read_varint_opt rs) (\<lambda>rs v. (rs, ok_or (Deserialization ''Unexpected EOF reading varint'') v))"

text \<open>\<open>vec![0u8; n]\<close> and \<open>read_exact\<close> into it.\<close>

definition read_vec :: "u64 \<Rightarrow> bytes \<Rightarrow> bytes \<times> (core_error, bytes) outcome" where
  "read_vec n rs =
     (if isize_max < unat n then (rs, Panic)
      else case read_exact (unat n) rs of
             None \<Rightarrow> ([], Err (Error_Io ''failed to fill whole buffer''))
           | Some (bs, rs) \<Rightarrow> (rs, Ok bs))"

subsection \<open>The header\<close>

definition CAR_VERSION :: u64 where "CAR_VERSION = 1"

record 'c CarHeader =
  ch_version :: u64
  ch_roots :: "'c list"

definition ch_new :: "'c list \<Rightarrow> 'c CarHeader" where
  "ch_new roots = \<lparr>ch_version = CAR_VERSION, ch_roots = roots\<rparr>"

definition header_ipld :: "'c CarHeader \<Rightarrow> 'c Ipld" where
  "header_ipld h =
     Map (bt_insert ''roots'' (List (map Link (ch_roots h)))
       (bt_insert ''version'' (Integer (uint (ch_version h))) []))"

definition ch_encode :: "'c cid_crate \<Rightarrow> 'c CarHeader \<Rightarrow> (core_error, bytes) outcome" where
  "ch_encode E h = to_dag_cbor E (header_ipld h)"

definition ch_decode :: "'c cid_crate \<Rightarrow> bytes \<Rightarrow> (core_error, 'c CarHeader) outcome" where
  "ch_decode E data =
     obind (from_dag_cbor E data) (\<lambda>ipld.
       obind (case ipld of Map m \<Rightarrow> Ok m | _ \<Rightarrow> Err (Deserialization ''CAR header must be a map'')) (\<lambda>m.
         obind (case map_of m ''version'' of Some (Integer v) \<Rightarrow> Ok (word_of_int v)
                | _ \<Rightarrow> Err (Deserialization ''CAR header missing version'')) (\<lambda>version.
           if version \<noteq> CAR_VERSION then Err (Deserialization ''Unsupported CAR version'')
           else obind (case map_of m ''roots'' of
                         Some (List l) \<Rightarrow> omap_list (\<lambda>item. case item of Link cid \<Rightarrow> Ok cid
                                            | _ \<Rightarrow> Err (Deserialization ''Invalid root CID in header'')) l
                       | _ \<Rightarrow> Err (Deserialization ''CAR header missing roots'')) (\<lambda>roots.
                  Ok \<lparr>ch_version = version, ch_roots = roots\<rparr>))))"

subsection \<open>The writer\<close>

record CarCompressionStats =
  blocks_processed :: nat
  uncompressed_bytes :: nat
  compressed_bytes :: nat
  blocks_compressed :: nat

definition ccs_new :: CarCompressionStats where
  "ccs_new = \<lparr>blocks_processed = 0, uncompressed_bytes = 0, compressed_bytes = 0, blocks_compressed = 0\<rparr>"

definition bytes_saved :: "CarCompressionStats \<Rightarrow> nat" where
  "bytes_saved s = uncompressed_bytes s - compressed_bytes s"

record CarWriter =
  wr_out :: bytes
  wr_header_written :: bool
  wr_compression :: "(CompressionAlgorithm \<times> int) option"
  wr_stats :: CarCompressionStats

definition write_header :: "'c cid_crate \<Rightarrow> CarWriter \<Rightarrow> 'c CarHeader \<Rightarrow> CarWriter \<times> (core_error, unit) outcome" where
  "write_header E w h =
     sbind (w, ch_encode E h) (\<lambda>w header_bytes.
       let (out, r) = write_varint (wr_out w) (of_nat (length header_bytes)) in
       sbind (w\<lparr>wr_out := out\<rparr>, r) (\<lambda>w _.
         (w\<lparr>wr_out := wr_out w @ header_bytes, wr_header_written := True\<rparr>, Ok ())))"

definition wr_new_with_options ::
    "'c cid_crate \<Rightarrow> bytes \<Rightarrow> 'c list \<Rightarrow> (CompressionAlgorithm \<times> int) option \<Rightarrow> (core_error, CarWriter) outcome" where
  "wr_new_with_options E out roots compression =
     (let w = \<lparr>wr_out = out, wr_header_written = False, wr_compression = compression, wr_stats = ccs_new\<rparr>;
          (w, r) = write_header E w (ch_new roots) in
      obind r (\<lambda>_. Ok w))"

definition wr_new :: "'c cid_crate \<Rightarrow> bytes \<Rightarrow> 'c list \<Rightarrow> (core_error, CarWriter) outcome" where
  "wr_new E out roots = wr_new_with_options E out roots None"

record 'c CarWriterBuilder =
  wb_roots :: "'c list"
  wb_compression :: "(CompressionAlgorithm \<times> int) option"

definition wb_new :: "'c list \<Rightarrow> 'c CarWriterBuilder" where
  "wb_new roots = \<lparr>wb_roots = roots, wb_compression = None\<rparr>"

definition wb_with_compression :: "'c CarWriterBuilder \<Rightarrow> CompressionAlgorithm \<Rightarrow> int \<Rightarrow> 'c CarWriterBuilder" where
  "wb_with_compression wb algorithm level = wb\<lparr>wb_compression := Some (algorithm, level)\<rparr>"

definition wb_build :: "'c cid_crate \<Rightarrow> 'c CarWriterBuilder \<Rightarrow> bytes \<Rightarrow> (core_error, CarWriter) outcome" where
  "wb_build E wb out = wr_new_with_options E out (wb_roots wb) (wb_compression wb)"

text \<open>The compression of one block, with the statistics.\<close>

definition wr_compress ::
    "'c car_crates \<Rightarrow> CarWriter \<Rightarrow> bytes \<Rightarrow> CarWriter \<times> (core_error, bytes \<times> bool) outcome" where
  "wr_compress C w data =
     (case wr_compression w of
        Some (algorithm, level) \<Rightarrow>
          sbind (w, compress C data algorithm (word_of_int level)) (\<lambda>w compressed.
            let is_compressed = algorithm \<noteq> No_Compression;
                st = wr_stats w;
                st = if is_compressed then st\<lparr>blocks_compressed := blocks_compressed st + 1\<rparr> else st in
            (w\<lparr>wr_stats := st\<lparr>compressed_bytes := compressed_bytes st + length compressed\<rparr>\<rparr>,
             Ok (compressed, is_compressed)))
      | None \<Rightarrow>
          (w\<lparr>wr_stats := (wr_stats w)\<lparr>compressed_bytes := compressed_bytes (wr_stats w) + length data\<rparr>\<rparr>, Ok (data, False)))"

definition write_block :: "'c cid_crate \<Rightarrow> 'c car_crates \<Rightarrow> CarWriter \<Rightarrow> 'c Block \<Rightarrow> CarWriter \<times> (core_error, unit) outcome" where
  "write_block E C w block =
     (if \<not> wr_header_written w then (w, Err (InvalidData ''CAR header not written''))
      else
        let cid_bytes = cid_to_bytes E (blk_cid block);
            data = blk_data block;
            st = wr_stats w;
            w = w\<lparr>wr_stats := st\<lparr>blocks_processed := blocks_processed st + 1,
                                  uncompressed_bytes := uncompressed_bytes st + length data\<rparr>\<rparr> in
        sbind (wr_compress C w data) (\<lambda>w (final_data, was_compressed).
          let total_len = length cid_bytes + 1 + length final_data;
              (out, r) = write_varint (wr_out w) (of_nat total_len) in
          sbind (w\<lparr>wr_out := out\<rparr>, r) (\<lambda>w _.
            (w\<lparr>wr_out := wr_out w @ cid_bytes @ [if was_compressed then 1 else 0] @ final_data\<rparr>, Ok ()))))"

text \<open>\<open>finish\<close> flushes and gives the writer up: the archive is the vector.\<close>

definition wr_finish :: "CarWriter \<Rightarrow> (core_error, bytes) outcome" where
  "wr_finish w = Ok (wr_out w)"

subsection \<open>The reader\<close>

record 'c CarReader =
  rd_reader :: bytes
  rd_header :: "'c CarHeader"

definition rd_new :: "'c cid_crate \<Rightarrow> bytes \<Rightarrow> (core_error, 'c CarReader) outcome" where
  "rd_new E data =
     snd (sbind (read_varint data) (\<lambda>rs header_len.
       sbind (read_vec header_len rs) (\<lambda>rs header_bytes.
         (rs, obind (ch_decode E header_bytes) (\<lambda>header. Ok \<lparr>rd_reader = rs, rd_header = header\<rparr>)))))"

definition rd_roots :: "'c CarReader \<Rightarrow> 'c list" where
  "rd_roots rd = ch_roots (rd_header rd)"

text \<open>The block inside the bytes of a section: CID, flag, data.\<close>

definition parse_section :: "'c cid_crate \<Rightarrow> 'c car_crates \<Rightarrow> bytes \<Rightarrow> (core_error, 'c Block) outcome" where
  "parse_section E C block_bytes =
     obind (ok_or (Error_Cid ''Failed to parse CID'') (cid_read_bytes C block_bytes)) (\<lambda>(cid, cursor).
       obind (case cursor of
                [] \<Rightarrow> Err (Deserialization ''Empty block data'')
              | flag # rest \<Rightarrow> Ok (if flag = 0 \<or> flag = 1 then (flag = 1, rest) else (False, cursor)))
         (\<lambda>(is_compressed, raw_data).
           obind (if is_compressed
                  then (case decompress C raw_data Zstd of
                          Err _ \<Rightarrow> decompress C raw_data Lz4 | r \<Rightarrow> r)
                  else Ok raw_data) (\<lambda>final_data.
             obind (block_new E final_data) (\<lambda>block.
               if blk_cid block \<noteq> cid then Err (InvalidData ''Block CID mismatch'') else Ok block))))"

definition read_block ::
    "'c cid_crate \<Rightarrow> 'c car_crates \<Rightarrow> 'c CarReader \<Rightarrow> 'c CarReader \<times> (core_error, 'c Block option) outcome" where
  "read_block E C rd =
     (let (rs, r) = sbind (read_varint_opt (rd_reader rd)) (\<lambda>rs len. case len of
            None \<Rightarrow> (rs, Ok None)
          | Some total_len \<Rightarrow>
              sbind (read_vec total_len rs) (\<lambda>rs block_bytes.
                (rs, obind (parse_section E C block_bytes) (\<lambda>b. Ok (Some b))))) in
      (rd\<lparr>rd_reader := rs\<rparr>, r))"

subsection \<open>Reading to the end\<close>

lemma read_varint_loop_length:
  "length (fst (read_varint_loop k result shift rs)) \<le> length rs"
  "snd (read_varint_loop k result shift rs) = Ok (Some v) \<Longrightarrow> length (fst (read_varint_loop k result shift rs)) < length rs"
  by (induction k result shift rs rule: read_varint_loop.induct) (auto simp: Let_def split: if_splits)

lemma read_vec_length: "length (fst (read_vec n rs)) \<le> length rs"
  by (auto simp: read_vec_def read_exact_def)

text \<open>A block that is read has consumed input.\<close>

lemma read_block_shrinks:
  assumes "read_block E C rd = (rd', Ok (Some b))"
  shows "length (rd_reader rd') < length (rd_reader rd)"
proof -
  from assms obtain rs len rs' bs where
    len: "read_varint_opt (rd_reader rd) = (rs, Ok (Some len))" and vec: "read_vec len rs = (rs', Ok bs)" and rd': "rd' = rd\<lparr>rd_reader := rs'\<rparr>"
    by (auto simp: read_block_def sbind_eq_Ok split: prod.splits option.splits)
  have "length rs < length (rd_reader rd)"
    using read_varint_loop_length(2) [of MAX_VARINT_SIZE 0 0 "rd_reader rd"] len by (simp add: read_varint_opt_def)
  moreover have "length rs' \<le> length rs" using read_vec_length [of len rs] vec by simp
  ultimately show ?thesis by (simp add: rd')
qed

function read_all_loop ::
    "'c cid_crate \<Rightarrow> 'c car_crates \<Rightarrow> 'c CarReader \<Rightarrow> 'c Block list \<Rightarrow> 'c CarReader \<times> (core_error, 'c Block list) outcome" where
  "read_all_loop E C rd blocks =
     (case read_block E C rd of
        (rd', Ok (Some b)) \<Rightarrow> read_all_loop E C rd' (blocks @ [b])
      | (rd', Ok None) \<Rightarrow> (rd', Ok blocks)
      | (rd', Err e) \<Rightarrow> (rd', Err e)
      | (rd', Panic) \<Rightarrow> (rd', Panic)
      | (rd', Diverge) \<Rightarrow> (rd', Diverge))"
  by pat_completeness auto
termination
  by (relation "measure (\<lambda>(E, C, rd, blocks). length (rd_reader rd))") (auto intro: read_block_shrinks [OF sym])

declare read_all_loop.simps [simp del]

definition read_all_blocks ::
    "'c cid_crate \<Rightarrow> 'c car_crates \<Rightarrow> 'c CarReader \<Rightarrow> 'c CarReader \<times> (core_error, 'c Block list) outcome" where
  "read_all_blocks E C rd = read_all_loop E C rd []"

subsection \<open>Variable-length integers: round trip\<close>

lemma varint_byte:
  fixes v :: u64
  shows "ucast ((if b then ucast (v AND 0x7F) OR 0x80 else ucast (v AND 0x7F) :: u8) AND 0x7F) = take_bit 7 v"
    "(if b then ucast (v AND 0x7F) OR 0x80 else ucast (v AND 0x7F) :: u8) AND 0x80 = 0 \<longleftrightarrow> \<not> b"
proof -
  have m: "(0x7F :: u8) = mask 7" "(0x7F :: u64) = mask 7" by (simp_all add: mask_eq_exp_minus_1)
  have e: "(0x80 :: u8) = 2 ^ 7" "(0x80 :: int) = 2 ^ 7" by simp_all
  have h: "bit (0x80 :: u8) n \<longleftrightarrow> n = 7" "bit (0x80 :: int) n \<longleftrightarrow> n = 7" for n
    unfolding e by (auto simp only: bit_exp_iff possible_bit_word possible_bit_int) simp_all
  show "ucast ((if b then ucast (v AND 0x7F) OR 0x80 else ucast (v AND 0x7F) :: u8) AND 0x7F) = take_bit 7 v"
    unfolding m by (rule bit_word_eqI) (auto simp: bit_simps h)
  have "(if b then ucast (v AND 0x7F) OR 0x80 else ucast (v AND 0x7F) :: u8) AND 0x80 = (if b then 0x80 else 0)"
    unfolding m by (rule bit_word_eqI) (auto simp: bit_simps h)
  then show "(if b then ucast (v AND 0x7F) OR 0x80 else ucast (v AND 0x7F) :: u8) AND 0x80 = 0 \<longleftrightarrow> \<not> b"
    by simp
qed

lemma take_bit_step: "take_bit n v OR push_bit n (take_bit 7 (drop_bit n v)) = take_bit (n + 7) (v :: u64)"
  by (rule bit_word_eqI) (auto simp: bit_simps)

lemma drop_bit_all: "64 \<le> n \<Longrightarrow> drop_bit n (v :: u64) = 0"
  by (rule bit_word_eqI) (auto simp: bit_simps dest: bit_imp_le_length)

lemma take_bit_of_drop: "drop_bit n v = 0 \<Longrightarrow> take_bit n v = (v :: u64)"
  using bits_ident [of n v] by simp

lemma varint_loops:
  assumes "i \<le> 9" "length buf = i" "drop_bit (7 * i) v = w"
  shows "\<exists>bs. write_varint_loop w buf = Ok (buf @ bs) \<and> bs \<noteq> [] \<and> i + length bs \<le> 10 \<and>
    (\<forall>rs. read_varint_loop (10 - i) (take_bit (7 * i) v) (7 * i) (bs @ rs) = (rs, Ok (Some v)))"
  using assms
proof (induction "9 - i" arbitrary: i buf w)
  case (0 i)
  then have i: "i = 9" by simp
  have w: "w = drop_bit 63 v" using 0(4) i by simp
  have z: "drop_bit 7 w = 0" unfolding w drop_bit_drop_bit by (rule drop_bit_all) simp
  let ?b = "ucast (w AND 0x7F) :: u8"
  have r: "take_bit 63 v OR push_bit 63 (take_bit 7 (drop_bit 63 v)) = v"
    using take_bit_step [of 63 v] take_bit_of_drop [of 70 v] drop_bit_all [of 70 v] by simp
  have "write_varint_loop w buf = Ok (buf @ [?b])"
    using 0 z i by (subst write_varint_loop.simps) (simp add: MAX_VARINT_SIZE_def)
  moreover have "read_varint_loop (10 - i) (take_bit (7 * i) v) (7 * i) ([?b] @ rs) = (rs, Ok (Some v))" for rs
    using varint_byte [of False w] r 0(4) by (simp add: i)
  ultimately show ?case using i by (intro exI [of _ "[?b]"]) simp
next
  case (Suc k i)
  let ?w = "drop_bit 7 w" and ?b = "if drop_bit 7 w \<noteq> 0 then ucast (w AND 0x7F) OR 0x80 else ucast (w AND 0x7F) :: u8"
  have w': "drop_bit (7 * Suc i) v = ?w" using Suc.prems(3) by (auto simp: drop_bit_drop_bit ac_simps)
  have w: "write_varint_loop w buf = (if ?w = 0 then Ok (buf @ [?b]) else write_varint_loop ?w (buf @ [?b]))"
    using Suc.prems Suc.hyps(2) by (subst write_varint_loop.simps) (simp add: MAX_VARINT_SIZE_def Let_def)
  have t: "take_bit (7 * i) v OR push_bit (7 * i) (ucast (?b AND 0x7F)) = take_bit (7 * Suc i) v"
    using take_bit_step [of "7 * i" v] varint_byte(1) [of "?w \<noteq> 0" w] Suc.prems(3) by (simp add: add.commute)
  have n: "10 - i = Suc (10 - Suc i)" using Suc.hyps(2) by simp
  have r: "read_varint_loop (10 - i) (take_bit (7 * i) v) (7 * i) (?b # rs) =
      (if ?w = 0 then (rs, Ok (Some (take_bit (7 * Suc i) v)))
       else read_varint_loop (10 - Suc i) (take_bit (7 * Suc i) v) (7 * Suc i) rs)" for rs
    unfolding n read_varint_loop.simps Let_def t varint_byte(2) using Suc.hyps(2) by (simp add: add.commute)
  show ?case
  proof (cases "?w = 0")
    case True
    then have "take_bit (7 * Suc i) v = v" using w' take_bit_of_drop by metis
    then show ?thesis using True w r Suc.prems(1) by (intro exI [of _ "[?b]"]) simp
  next
    case False
    have "\<exists>bs. write_varint_loop ?w (buf @ [?b]) = Ok ((buf @ [?b]) @ bs) \<and> bs \<noteq> [] \<and> Suc i + length bs \<le> 10 \<and>
        (\<forall>rs. read_varint_loop (10 - Suc i) (take_bit (7 * Suc i) v) (7 * Suc i) (bs @ rs) = (rs, Ok (Some v)))"
      by (rule Suc.hyps(1)) (use Suc.hyps(2) Suc.prems w' in simp_all)
    then obtain bs where bs: "write_varint_loop ?w (buf @ [?b]) = Ok ((buf @ [?b]) @ bs)" "Suc i + length bs \<le> 10"
      "\<And>rs. read_varint_loop (10 - Suc i) (take_bit (7 * Suc i) v) (7 * Suc i) (bs @ rs) = (rs, Ok (Some v))" by blast
    show ?thesis
      by (rule exI [of _ "?b # bs"]) (use False w r bs in simp)
  qed
qed

lemma write_read_varint:
  obtains bs where "\<And>out. write_varint out v = (out @ bs, Ok ())" "bs \<noteq> []" "length bs \<le> 10"
    "\<And>rs. read_varint_opt (bs @ rs) = (rs, Ok (Some v))"
proof -
  from varint_loops [of 0 "[]" v v] obtain bs where "write_varint_loop v [] = Ok bs" "bs \<noteq> []" "length bs \<le> 10"
    "\<forall>rs. read_varint_loop 10 0 0 (bs @ rs) = (rs, Ok (Some v))" by auto
  then show ?thesis using that [of bs] by (simp add: write_varint_def read_varint_opt_def MAX_VARINT_SIZE_def)
qed

subsection \<open>What the archive relies on\<close>

text \<open>
  Documented behaviour of the crates: \<open>read_bytes\<close> takes the binary form of a CID off its input, decompression
  inverts compression, and the Zstd decoder fails on input that does not start with a magic number, of
  which the least is \<open>0x184D2A50\<close>. Sizes are bounded so that vectors do not overflow.
\<close>

definition car_laws :: "'c cid_crate \<Rightarrow> 'c car_crates \<Rightarrow> bool" where
  "car_laws E C \<longleftrightarrow>
     (\<forall>c rs. cid_read_bytes C (cid_to_bytes E c @ rs) = Some (c, rs) \<and> length (cid_to_bytes E c) < 2 ^ 32) \<and>
     (\<forall>l d bs. zstd_compress_with_level C l d = Some bs \<longrightarrow> zstd_decompress C bs = Some d \<and> length bs < 2 ^ 62) \<and>
     (\<forall>d bs. lz4_compress C d = Some bs \<longrightarrow> length bs < 2 ^ 62 \<and> (\<forall>m \<ge> length d. lz4_decompress C m bs = Some d)) \<and>
     (\<forall>bs. 4 \<le> length bs \<and> from_le (take 4 bs) < 2 ^ 24 \<longrightarrow> zstd_decompress C bs = None)"

text \<open>The decompression of \<open>read_block\<close>, which tries Zstd first, inverts each compression of a block.\<close>

lemma compress_inverse:
  assumes "car_laws E C" "length data \<le> MAX_BLOCK_SIZE" "compress C data alg level = Ok bs"
  shows "alg = No_Compression \<Longrightarrow> bs = data"
    "alg \<noteq> No_Compression \<Longrightarrow> (case decompress C bs Zstd of Err _ \<Rightarrow> decompress C bs Lz4 | r \<Rightarrow> r) = Ok data"
    "length bs < 2 ^ 62 + 4"
proof -
  have small: "length data < 2 ^ 22" using assms(2) by (simp add: MAX_BLOCK_SIZE_def)
  show "alg = No_Compression \<Longrightarrow> bs = data" using assms(3) by (simp add: compress_def split: if_splits)
  have "(case decompress C bs Zstd of Err _ \<Rightarrow> decompress C bs Lz4 | r \<Rightarrow> r) = Ok data" "length bs < 2 ^ 62 + 4" if "alg = Lz4"
  proof -
    from assms(3) that obtain p where p: "lz4_compress C data = Some p" "bs = le_bytes 4 (length data) @ p"
      using small by (auto simp: compress_def compress_lz4_def obind_eq_Ok split: if_splits)
    have "from_le (take 4 bs) = length data" using small by (simp add: p(2) from_le_bytes_id)
    then show "(case decompress C bs Zstd of Err _ \<Rightarrow> decompress C bs Lz4 | r \<Rightarrow> r) = Ok data" "length bs < 2 ^ 62 + 4"
      using assms(1) p small by (auto simp: car_laws_def decompress_def decompress_zstd_def decompress_lz4_def)
  qed
  moreover have "(case decompress C bs Zstd of Err _ \<Rightarrow> decompress C bs Lz4 | r \<Rightarrow> r) = Ok data \<and> length bs < 2 ^ 62 + 4" if "alg = Zstd"
    using assms that by (fastforce simp: car_laws_def compress_def compress_zstd_def decompress_def decompress_zstd_def split: if_splits)
  moreover have "length bs < 2 ^ 62 + 4" if "alg = No_Compression"
    using that assms(3) small by (simp add: compress_def split: if_splits)
  ultimately show "alg \<noteq> No_Compression \<Longrightarrow> (case decompress C bs Zstd of Err _ \<Rightarrow> decompress C bs Lz4 | r \<Rightarrow> r) = Ok data"
    "length bs < 2 ^ 62 + 4"
    by (cases alg; simp)+
qed

lemma read_vec_append:
  assumes "length bs \<le> isize_max"
  shows "read_vec (of_nat (length bs)) (bs @ rs) = (rs, Ok bs)"
  using assms by (simp add: read_vec_def)

subsection \<open>Sections\<close>

lemma parse_section_written:
  assumes "car_laws E C" "block_wf E b"
    and "if flag then (case decompress C final Zstd of Err _ \<Rightarrow> decompress C final Lz4 | r \<Rightarrow> r) = Ok (blk_data b) else final = blk_data b"
  shows "parse_section E C (cid_to_bytes E (blk_cid b) @ [if flag then 1 else 0] @ final) = Ok b"
proof -
  have "cid_read_bytes C (cid_to_bytes E (blk_cid b) @ [if flag then 1 else 0] @ final) = Some (blk_cid b, (if flag then 1 else 0) # final)"
    using assms(1) by (simp add: car_laws_def)
  moreover have "block_new E (blk_data b) = Ok b" using assms(2) by (simp add: block_new_iff)
  ultimately show ?thesis using assms(3) by (cases flag) (simp_all add: parse_section_def del: append.simps)
qed

lemma wr_compress_ok:
  assumes "car_laws E C" "length data \<le> MAX_BLOCK_SIZE" "wr_compress C w data = (w', Ok (final, flag))"
  shows "wr_out w' = wr_out w \<and> wr_header_written w' = wr_header_written w \<and> wr_compression w' = wr_compression w \<and>
    length final < 2 ^ 62 + 4 \<and>
    (if flag then (case decompress C final Zstd of Err _ \<Rightarrow> decompress C final Lz4 | r \<Rightarrow> r) = Ok data else final = data)"
proof (cases "wr_compression w")
  case None
  then show ?thesis using assms(2,3) by (auto simp: wr_compress_def MAX_BLOCK_SIZE_def)
next
  case (Some a)
  then obtain alg level where "wr_compression w = Some (alg, level)" by (cases a) auto
  with assms(3) have "compress C data alg (word_of_int level) = Ok final" "flag \<longleftrightarrow> alg \<noteq> No_Compression"
    "wr_out w' = wr_out w" "wr_header_written w' = wr_header_written w" "wr_compression w' = wr_compression w"
    by (auto simp: wr_compress_def sbind_eq_Ok Let_def split: if_splits)
  then show ?thesis using compress_inverse [OF assms(1,2)] by auto
qed

text \<open>What \<open>write_block\<close> appends is a section, from which \<open>read_block\<close> parses.\<close>

lemma write_block_section:
  assumes "car_laws E C" "length (blk_data b) \<le> MAX_BLOCK_SIZE" "write_block E C w b = (w', Ok ())"
  obtains bs final flag where "wr_out w' = wr_out w @ bs" "wr_header_written w'" "wr_compression w' = wr_compression w"
    "if flag then (case decompress C final Zstd of Err _ \<Rightarrow> decompress C final Lz4 | r \<Rightarrow> r) = Ok (blk_data b) else final = blk_data b"
    "\<And>rd rs. rd_reader rd = bs @ rs \<Longrightarrow> read_block E C rd =
       (rd\<lparr>rd_reader := rs\<rparr>,
        obind (parse_section E C (cid_to_bytes E (blk_cid b) @ [if flag then 1 else 0] @ final)) (\<lambda>b. Ok (Some b)))"
proof -
  let ?cid = "cid_to_bytes E (blk_cid b)"
  define st where "st = wr_stats w"
  define w0 where "w0 = w\<lparr>wr_stats := st\<lparr>blocks_processed := blocks_processed st + 1,
                                  uncompressed_bytes := uncompressed_bytes st + length (blk_data b)\<rparr>\<rparr>"
  have hw: "wr_header_written w" using assms(3) by (auto simp: write_block_def split: if_splits)
  from assms(3) hw obtain w1 final flag where c: "wr_compress C w0 (blk_data b) = (w1, Ok (final, flag))"
    and rest: "(let (out, r) = write_varint (wr_out w1) (of_nat (length ?cid + 1 + length final)) in
        sbind (w1\<lparr>wr_out := out\<rparr>, r) (\<lambda>w _. (w\<lparr>wr_out := wr_out w @ ?cid @ [if flag then 1 else 0] @ final\<rparr>, Ok ()))) = (w', Ok ())"
    by (auto simp: write_block_def sbind_eq_Ok w0_def st_def Let_def)
  note wc = wr_compress_ok [OF assms(1,2) c]
  let ?sec = "?cid @ [if flag then 1 else 0] @ final"
  obtain vs where vs: "\<And>out. write_varint out (of_nat (length ?sec)) = (out @ vs, Ok ())"
    "\<And>rs. read_varint_opt (vs @ rs) = (rs, Ok (Some (of_nat (length ?sec))))"
    by (rule write_read_varint [of "of_nat (length ?sec)"]) blast
  have len: "length ?cid + 1 + length final = length ?sec" by simp
  have w': "w' = w1\<lparr>wr_out := wr_out w1 @ vs @ ?sec\<rparr>"
    using rest unfolding len vs(1) by (simp add: Let_def)
  have "length ?cid < 2 ^ 32" using assms(1) by (simp add: car_laws_def)
  then have small: "length ?sec \<le> isize_max" using wc by (simp add: isize_max_def)
  show ?thesis
  proof (rule that [of "vs @ ?sec" flag final])
    show "wr_out w' = wr_out w @ vs @ ?sec" "wr_header_written w'" "wr_compression w' = wr_compression w"
      using wc hw by (simp_all add: w' w0_def)
    show "read_block E C rd = (rd\<lparr>rd_reader := rs\<rparr>, obind (parse_section E C ?sec) (\<lambda>b. Ok (Some b)))"
      if "rd_reader rd = (vs @ ?sec) @ rs" for rd rs
      using that vs(2) [of "?sec @ rs"] read_vec_append [OF small, of rs] by (simp add: read_block_def del: append.simps)
  qed (use wc in blast)
qed

lemma write_block_read_block:
  assumes "car_laws E C" "block_wf E b" "write_block E C w b = (w', Ok ())"
  obtains bs where "wr_out w' = wr_out w @ bs" "wr_header_written w'"
    "\<And>rd rs. rd_reader rd = bs @ rs \<Longrightarrow> read_block E C rd = (rd\<lparr>rd_reader := rs\<rparr>, Ok (Some b))"
proof -
  have sz: "length (blk_data b) \<le> MAX_BLOCK_SIZE" using assms(2) by (simp add: block_wf_def)
  show ?thesis
    by (rule write_block_section [OF assms(1) sz assms(3)], rule that, assumption, assumption)
      (simp only: parse_section_written [OF assms(1,2)] obind.simps)
qed

text \<open>A block whose CID is not the default one for its data is written, but not read.\<close>

lemma write_block_foreign:
  assumes "car_laws E C" "block_new E (blk_data b) = Ok b'" "blk_cid b' \<noteq> blk_cid b" "write_block E C w b = (w', Ok ())"
  obtains bs where "wr_out w' = wr_out w @ bs"
    "\<And>rd rs. rd_reader rd = bs @ rs \<Longrightarrow> read_block E C rd = (rd\<lparr>rd_reader := rs\<rparr>, Err (InvalidData ''Block CID mismatch''))"
proof -
  have sz: "length (blk_data b) \<le> MAX_BLOCK_SIZE" using assms(2) by (auto simp: block_new_iff block_wf_def)
  have p: "parse_section E C (cid_to_bytes E (blk_cid b) @ [if flag then 1 else 0] @ final) = Err (InvalidData ''Block CID mismatch'')"
    if "if flag then (case decompress C final Zstd of Err _ \<Rightarrow> decompress C final Lz4 | r \<Rightarrow> r) = Ok (blk_data b) else final = blk_data b"
    for flag final
  proof -
    have "cid_read_bytes C (cid_to_bytes E (blk_cid b) @ [if flag then 1 else 0] @ final) = Some (blk_cid b, (if flag then 1 else 0) # final)"
      using assms(1) by (simp add: car_laws_def)
    then show ?thesis using that assms(2,3) by (cases flag) (simp_all add: parse_section_def del: append.simps)
  qed
  show ?thesis
    by (rule write_block_section [OF assms(1) sz assms(4)], rule that, assumption) (simp only: p obind.simps)
qed

subsection \<open>Whole archives\<close>

fun write_blocks :: "'c cid_crate \<Rightarrow> 'c car_crates \<Rightarrow> CarWriter \<Rightarrow> 'c Block list \<Rightarrow> CarWriter \<times> (core_error, unit) outcome" where
  "write_blocks E C w [] = (w, Ok ())"
| "write_blocks E C w (b # bs) = sbind (write_block E C w b) (\<lambda>w _. write_blocks E C w bs)"

definition car_write ::
    "'c cid_crate \<Rightarrow> 'c car_crates \<Rightarrow> 'c CarWriterBuilder \<Rightarrow> 'c Block list \<Rightarrow> (core_error, bytes) outcome" where
  "car_write E C wb blocks =
     obind (wb_build E wb []) (\<lambda>w. let (w, r) = write_blocks E C w blocks in obind r (\<lambda>_. wr_finish w))"

text \<open>
  Reading back blocks whose data has a size that \<open>Block::new\<close> accepts: all of them, if each has the CID that
  \<open>Block::new\<close> gives its data, and an error otherwise.
\<close>

definition read_back :: "'c cid_crate \<Rightarrow> 'c Block list \<Rightarrow> (core_error, 'c Block list) outcome" where
  "read_back E blocks =
     (if \<forall>b \<in> set blocks. block_wf E b then Ok blocks else Err (InvalidData ''Block CID mismatch''))"

lemma foreign_cid: "block_new E (blk_data b) = Ok b' \<Longrightarrow> \<not> block_wf E b \<Longrightarrow> blk_cid b' \<noteq> blk_cid b"
  by (cases b, cases b') (auto simp: block_new_iff)

lemma write_blocks_read:
  assumes "car_laws E C" "\<forall>b \<in> set blocks. \<exists>b'. block_new E (blk_data b) = Ok b'" "write_blocks E C w blocks = (w', Ok ())"
  obtains bs where "wr_out w' = wr_out w @ bs"
    "\<And>rd acc. rd_reader rd = bs \<Longrightarrow> snd (read_all_loop E C rd acc) = obind (read_back E blocks) (\<lambda>blocks. Ok (acc @ blocks))"
  using assms(2,3)
proof (induction blocks arbitrary: w thesis)
  case Nil
  have "snd (read_all_loop E C rd acc) = Ok acc" if "rd_reader rd = []" for rd acc
    using that by (subst read_all_loop.simps) (simp add: read_block_def read_varint_opt_def MAX_VARINT_SIZE_def numeral_eq_Suc)
  then show ?case using Nil(1) [of "[]"] Nil(3) by (simp add: read_back_def)
next
  case (Cons b blocks)
  from Cons.prems(3) obtain w1 where w1: "write_block E C w b = (w1, Ok ())" "write_blocks E C w1 blocks = (w', Ok ())"
    by (auto simp: sbind_eq_Ok)
  obtain b' where b': "block_new E (blk_data b) = Ok b'" "\<forall>b \<in> set blocks. \<exists>b'. block_new E (blk_data b) = Ok b'"
    using Cons.prems(2) by auto
  obtain cs where cs: "wr_out w' = wr_out w1 @ cs"
    "\<And>rd acc. rd_reader rd = cs \<Longrightarrow> snd (read_all_loop E C rd acc) = obind (read_back E blocks) (\<lambda>blocks. Ok (acc @ blocks))"
    by (rule Cons.IH [OF _ b'(2) w1(2)]) blast
  show ?case
  proof (cases "block_wf E b")
    case True
    obtain bs where bs: "wr_out w1 = wr_out w @ bs"
      "\<And>rd rs. rd_reader rd = bs @ rs \<Longrightarrow> read_block E C rd = (rd\<lparr>rd_reader := rs\<rparr>, Ok (Some b))"
      by (rule write_block_read_block [OF assms(1) True w1(1)]) blast
    have "snd (read_all_loop E C rd acc) = obind (read_back E (b # blocks)) (\<lambda>blocks. Ok (acc @ blocks))"
      if "rd_reader rd = bs @ cs" for rd acc
      using True by (subst read_all_loop.simps) (simp add: bs(2) [OF that] cs(2) read_back_def)
    then show ?thesis using Cons.prems(1) [of "bs @ cs"] bs(1) cs(1) by simp
  next
    case False
    obtain bs where bs: "wr_out w1 = wr_out w @ bs"
      "\<And>rd rs. rd_reader rd = bs @ rs \<Longrightarrow> read_block E C rd = (rd\<lparr>rd_reader := rs\<rparr>, Err (InvalidData ''Block CID mismatch''))"
      by (rule write_block_foreign [OF assms(1) b'(1) foreign_cid [OF b'(1) False] w1(1)]) blast
    have "snd (read_all_loop E C rd acc) = obind (read_back E (b # blocks)) (\<lambda>blocks. Ok (acc @ blocks))"
      if "rd_reader rd = bs @ cs" for rd acc
      using False by (subst read_all_loop.simps) (simp add: bs(2) [OF that] read_back_def)
    then show ?thesis using Cons.prems(1) [of "bs @ cs"] bs(1) cs(1) by simp
  qed
qed

lemma header_ok:
  assumes "cid_laws E" "car_laws E C" "length roots * ipld_size E \<le> isize_max" "length roots < 2 ^ 64"
  shows "ch_decode E (encode_dag_cbor E (header_ipld (ch_new roots))) = Ok (ch_new roots)"
proof -
  have l: "ipld_ok E (Link c)" for c
  proof -
    have "length (cid_to_bytes E c) < 2 ^ 32" using assms(2) by (simp add: car_laws_def)
    then show ?thesis using assms(1) by (simp add: isize_max_def)
  qed
  have "ipld_ok E (header_ipld (ch_new roots))"
    using assms(3,4) l by (simp add: header_ipld_def ch_new_def CAR_VERSION_def valid_str_def of_char_def isize_max_def list_all_iff bt_ok_def)
  note d = from_dag_cbor_encode [OF this, of "[]", simplified]
  have "omap_list (\<lambda>item. case item of Link cid \<Rightarrow> Ok cid | _ \<Rightarrow> Err (Deserialization ''Invalid root CID in header'')) (map Link roots) = Ok roots"
    by (induction roots) simp_all
  then show ?thesis
    by (simp add: ch_decode_def d) (simp add: header_ipld_def ch_new_def CAR_VERSION_def)
qed

lemma wb_build_out:
  assumes "length (encode_dag_cbor E (header_ipld (ch_new (wb_roots wb)))) \<le> isize_max"
  obtains w bs where "wb_build E wb [] = Ok w" "wr_out w = bs" "wr_header_written w" "wr_compression w = wb_compression wb"
    "\<And>rs. rd_new E (bs @ rs) =
       obind (ch_decode E (encode_dag_cbor E (header_ipld (ch_new (wb_roots wb))))) (\<lambda>h. Ok \<lparr>rd_reader = rs, rd_header = h\<rparr>)"
proof -
  let ?h = "encode_dag_cbor E (header_ipld (ch_new (wb_roots wb)))"
  obtain vs where vs: "\<And>out. write_varint out (of_nat (length ?h)) = (out @ vs, Ok ())"
    "\<And>rs. read_varint_opt (vs @ rs) = (rs, Ok (Some (of_nat (length ?h))))"
    by (rule write_read_varint [of "of_nat (length ?h)"]) blast
  let ?w = "\<lparr>wr_out = vs @ ?h, wr_header_written = True, wr_compression = wb_compression wb, wr_stats = ccs_new\<rparr>"
  have "wb_build E wb [] = Ok ?w"
    by (simp add: wb_build_def wr_new_with_options_def write_header_def ch_encode_def to_dag_cbor_def vs(1))
  moreover have "rd_new E ((vs @ ?h) @ rs) = obind (ch_decode E ?h) (\<lambda>h. Ok \<lparr>rd_reader = rs, rd_header = h\<rparr>)" for rs
    using vs(2) [of "?h @ rs"] read_vec_append [OF assms, of rs] by (simp add: rd_new_def read_varint_def)
  ultimately show ?thesis using that [of ?w "vs @ ?h"] by simp
qed

lemma car_read_back:
  assumes "cid_laws E" "car_laws E C" "length (wb_roots wb) * ipld_size E \<le> isize_max" "length (wb_roots wb) < 2 ^ 64"
    and "length (encode_dag_cbor E (header_ipld (ch_new (wb_roots wb)))) \<le> isize_max"
    and "\<forall>b \<in> set blocks. \<exists>b'. block_new E (blk_data b) = Ok b'" "car_write E C wb blocks = Ok archive"
  shows "\<exists>rd. rd_new E archive = Ok rd \<and> rd_roots rd = wb_roots wb \<and> snd (read_all_blocks E C rd) = read_back E blocks"
proof -
  obtain w bs where w: "wb_build E wb [] = Ok w" "wr_out w = bs"
    "\<And>rs. rd_new E (bs @ rs) =
       obind (ch_decode E (encode_dag_cbor E (header_ipld (ch_new (wb_roots wb))))) (\<lambda>h. Ok \<lparr>rd_reader = rs, rd_header = h\<rparr>)"
    by (rule wb_build_out [OF assms(5)]) blast
  from assms(7) w(1) obtain w' where w': "write_blocks E C w blocks = (w', Ok ())" "archive = wr_out w'"
    by (auto simp: car_write_def wr_finish_def obind_eq_Ok split: prod.splits)
  obtain cs where cs: "wr_out w' = wr_out w @ cs"
    "\<And>rd acc. rd_reader rd = cs \<Longrightarrow> snd (read_all_loop E C rd acc) = obind (read_back E blocks) (\<lambda>blocks. Ok (acc @ blocks))"
    by (rule write_blocks_read [OF assms(2,6) w'(1)]) blast
  show ?thesis
    using w(2,3) w'(2) cs header_ok [OF assms(1-4)] by (simp add: rd_roots_def ch_new_def read_all_blocks_def read_back_def)
qed

text \<open>Without compression writing succeeds.\<close>

lemma write_blocks_plain:
  "wr_compression w = None \<Longrightarrow> wr_header_written w \<Longrightarrow> \<exists>w'. write_blocks E C w blocks = (w', Ok ())"
proof (induction blocks arbitrary: w)
  case (Cons b blocks)
  obtain vs where vs: "\<And>out. write_varint out (of_nat (length (cid_to_bytes E (blk_cid b)) + 1 + length (blk_data b))) = (out @ vs, Ok ())"
    by (rule write_read_varint [of "of_nat (length (cid_to_bytes E (blk_cid b)) + 1 + length (blk_data b))"]) blast
  have "\<exists>w1. write_block E C w b = (w1, Ok ()) \<and> wr_compression w1 = None \<and> wr_header_written w1"
    using Cons.prems vs by (simp add: write_block_def wr_compress_def Let_def add.commute)
  then show ?case using Cons.IH by auto
qed simp

text \<open>An instance of the crates: Zstd adds its magic number, LZ4 keeps the data.\<close>

definition crates64 :: "(u64 + u64 \<times> u64) car_crates" where
  "crates64 =
     \<lparr>cid_read_bytes = (\<lambda>bs. if bs = [] then None
        else let n = if hd bs = 0x12 then 9 else 17 in map_option (\<lambda>c. (c, drop n bs)) (cid_try_from crate64 (take n bs))),
      zstd_compress_with_level = (\<lambda>l d. if length d < 2 ^ 61 then Some ([0x28, 0xB5, 0x2F, 0xFD] @ d) else None),
      zstd_decompress = (\<lambda>bs. if take 4 bs = [0x28, 0xB5, 0x2F, 0xFD] then Some (drop 4 bs) else None),
      lz4_compress = (\<lambda>d. if length d < 2 ^ 61 then Some d else None),
      lz4_decompress = (\<lambda>m bs. if length bs \<le> m then Some bs else None)\<rparr>"

lemma car_laws_crates64: "car_laws crate64 crates64"
  unfolding car_laws_def
proof (intro conjI allI impI)
  fix c :: "u64 + u64 \<times> u64" and rs
  have l: "cid_to_bytes crate64 c \<noteq> [] \<and> length (cid_to_bytes crate64 c) = (if hd (cid_to_bytes crate64 c) = 0x12 then 9 else 17)"
    by (auto simp: crate64_def split: sum.split)
  then show "cid_read_bytes crates64 (cid_to_bytes crate64 c @ rs) = Some (c, rs)"
    using cid_try_from_to_bytes [OF cid_laws_crate64, of c] by (simp add: crates64_def Let_def)
  show "length (cid_to_bytes crate64 c) < 2 ^ 32" using l by simp
next
  fix bs :: bytes
  assume "4 \<le> length bs \<and> from_le (take 4 bs) < 2 ^ 24"
  moreover have "from_le [0x28, 0xB5, 0x2F, 0xFD] = 4247762216" by (simp add: from_le_def from_be_def)
  ultimately have "take 4 bs \<noteq> [0x28, 0xB5, 0x2F, 0xFD]" by auto
  then show "zstd_decompress crates64 bs = None" by (simp add: crates64_def)
qed (auto simp: crates64_def split: if_splits)

definition block64 :: "(u64 + u64 \<times> u64) Block" where
  "block64 = \<lparr>blk_cid = Inr (0x55, 8), blk_data = [1]\<rparr>"

lemma block_wf_block64: "block_wf crate64 block64"
  by (simp add: block_wf_def block_verify_def block64_def cb_build_def cb_new_def crate64_def MAX_BLOCK_SIZE_def
      from_be_bytes_id [of 8 8, simplified])

text \<open>
  (C22) What reading an archive gives. For blocks whose data has a size that \<open>Block::new\<close> accepts, whatever their CIDs
  and the compression: an archive that the writer returns is opened with the same roots, and reading it gives the
  same blocks in the same order if each has the CID that \<open>Block::new\<close> gives its data (the default version, codec and
  hash), and is refused with a mismatch of CIDs if one has not; without compression the writer does return.
\<close>

theorem car_roundtrip:
  assumes "cid_laws E" "car_laws E C" "length (wb_roots wb) * ipld_size E \<le> isize_max" "length (wb_roots wb) < 2 ^ 64"
    and "length (encode_dag_cbor E (header_ipld (ch_new (wb_roots wb)))) \<le> isize_max"
    and "\<forall>b \<in> set blocks. \<exists>b'. block_new E (blk_data b) = Ok b'"
  shows "(\<forall>archive. car_write E C wb blocks = Ok archive \<longrightarrow>
      (\<exists>rd. rd_new E archive = Ok rd \<and> rd_roots rd = wb_roots wb \<and>
        snd (read_all_blocks E C rd) =
          (if \<forall>b \<in> set blocks. block_new E (blk_data b) = Ok b then Ok blocks
           else Err (InvalidData ''Block CID mismatch'')))) \<and>
    (wb_compression wb = None \<longrightarrow> (\<exists>archive. car_write E C wb blocks = Ok archive))"
proof (intro conjI allI impI)
  fix archive assume "car_write E C wb blocks = Ok archive"
  from car_read_back [OF assms this] show "\<exists>rd. rd_new E archive = Ok rd \<and> rd_roots rd = wb_roots wb \<and>
      snd (read_all_blocks E C rd) =
        (if \<forall>b \<in> set blocks. block_new E (blk_data b) = Ok b then Ok blocks else Err (InvalidData ''Block CID mismatch''))"
    by (simp add: read_back_def block_new_iff)
next
  assume plain: "wb_compression wb = None"
  obtain w where "wb_build E wb [] = Ok w" "wr_header_written w" "wr_compression w = wb_compression wb"
    by (rule wb_build_out [OF assms(5)])
  with plain write_blocks_plain [of w E C blocks] show "\<exists>archive. car_write E C wb blocks = Ok archive"
    by (auto simp: car_write_def wr_finish_def)
qed

theorem car_roundtrip_witness:
  "\<exists>archive rd. car_write crate64 crates64 (wb_new [Inr (0x55, 8)]) [block64] = Ok archive \<and>
     rd_new crate64 archive = Ok rd \<and> rd_roots rd = [Inr (0x55, 8)] \<and> snd (read_all_blocks crate64 crates64 rd) = Ok [block64]"
proof -
  have e: "length (encode_dag_cbor crate64 (header_ipld (ch_new [Inr (0x55, 8)]))) \<le> isize_max"
    by (simp add: header_ipld_def ch_new_def CAR_VERSION_def encode_cbor_length_def encode_cbor_tag_def encode_cbor_integer_def
        crate64_def isize_max_def Let_def str_bytes_def)
  have i: "ipld_size crate64 \<le> isize_max" by (simp add: crate64_def isize_max_def)
  show ?thesis
    using car_roundtrip [OF cid_laws_crate64 car_laws_crates64, of "wb_new [Inr (0x55, 8)]" "[block64]"] e i block_wf_block64
    by (auto simp: wb_new_def block_new_iff)
qed

lemma parse_section_wf: "parse_section E C bs = Ok b \<Longrightarrow> block_wf E b"
  by (auto simp: parse_section_def obind_eq_Ok block_new_iff split: if_splits)

lemma decompress_total [simp]: "decompress C data alg \<noteq> Diverge"
  by (simp add: decompress_def decompress_zstd_def decompress_lz4_def Let_def split: CompressionAlgorithm.split)

lemma parse_section_total [simp]: "parse_section E C bs \<noteq> Diverge"
  by (auto simp: parse_section_def obind_eq_Diverge split: if_splits list.splits outcome.splits)

lemma read_varint_loop_total [simp]: "snd (read_varint_loop k r s rs) \<noteq> Diverge"
  by (induction k r s rs rule: read_varint_loop.induct) (auto simp: Let_def)

lemma read_block_total: "snd (read_block E C rd) \<noteq> Diverge"
proof -
  obtain rs len where r: "read_varint_opt (rd_reader rd) = (rs, len)" by fastforce
  then have "len \<noteq> Diverge" using read_varint_loop_total [of MAX_VARINT_SIZE 0 0 "rd_reader rd"] by (simp add: read_varint_opt_def)
  then show ?thesis
    by (cases len) (auto simp: read_block_def r read_vec_def obind_eq_Diverge split: option.splits)
qed

lemma read_block_wf: "read_block E C rd = (rd', Ok (Some b)) \<Longrightarrow> block_wf E b"
  by (auto simp: read_block_def sbind_eq_Ok obind_eq_Ok split: prod.splits option.splits dest: parse_section_wf)

lemma read_all_loop_safe:
  "snd (read_all_loop E C rd acc) \<noteq> Diverge"
  "snd (read_all_loop E C rd acc) = Ok blocks \<Longrightarrow> \<forall>b \<in> set acc. block_wf E b \<Longrightarrow> b \<in> set blocks \<Longrightarrow> block_wf E b"
proof (induction E C rd acc rule: read_all_loop.induct)
  case (1 E C rd acc)
  obtain rd' r where r: "read_block E C rd = (rd', r)" by fastforce
  {
    case 1
    then show ?case using "1.IH"(1) [OF r [symmetric]] read_block_total [of E C rd] r
      by (subst read_all_loop.simps) (auto split: outcome.splits option.splits)
  next
    case 2
    then show ?case using "1.IH"(2) [OF r [symmetric]] r read_block_wf [of E C rd rd']
      by (subst (asm) read_all_loop.simps) (auto split: outcome.splits option.splits)
  }
qed

text \<open>
  (C23) The reader is safe on any input: it ends, and every block it returns has a size within the limits
  and the CID of its data.
\<close>

theorem car_reader_safe:
  "snd (read_all_blocks E C rd) \<noteq> Diverge \<and>
   (\<forall>blocks. snd (read_all_blocks E C rd) = Ok blocks \<longrightarrow> (\<forall>b \<in> set blocks. block_wf E b))"
  using read_all_loop_safe [of E C rd "[]"] by (auto simp: read_all_blocks_def)

theorem car_reader_safe_witness:
  "\<exists>rd. snd (read_all_blocks crate64 crates64 rd) = Ok [block64] \<and> block_wf crate64 block64"
proof -
  let ?w = "\<lparr>wr_out = [], wr_header_written = True, wr_compression = None, wr_stats = ccs_new\<rparr>"
  from write_blocks_plain [of ?w crate64 crates64 "[block64]"] obtain w' where
    w': "write_blocks crate64 crates64 ?w [block64] = (w', Ok ())" by auto
  have new: "\<forall>b \<in> set [block64]. \<exists>b'. block_new crate64 (blk_data b) = Ok b'"
    using block_wf_block64 block_new_iff [of crate64 "blk_data block64" block64] by auto
  obtain bs where "\<And>rd acc. rd_reader rd = bs \<Longrightarrow>
      snd (read_all_loop crate64 crates64 rd acc) = obind (read_back crate64 [block64]) (\<lambda>blocks. Ok (acc @ blocks))"
    by (rule write_blocks_read [OF car_laws_crates64 new w']) blast
  then have "snd (read_all_blocks crate64 crates64 \<lparr>rd_reader = bs, rd_header = ch_new []\<rparr>) = Ok [block64]"
    using block_wf_block64 by (simp add: read_all_blocks_def read_back_def)
  moreover from this car_reader_safe [of crate64 crates64 "\<lparr>rd_reader = bs, rd_header = ch_new []\<rparr>"]
  have "block_wf crate64 block64" by auto
  ultimately show ?thesis by blast
qed

text \<open>
  An archive with a block whose CID has another codec, hash or version than the default (every block of
  the knowledge graph, for one) is written without an error and cannot be read.
\<close>

theorem car_foreign_block_rejected:
  assumes "cid_laws E" "car_laws E C" "length (wb_roots wb) * ipld_size E \<le> isize_max" "length (wb_roots wb) < 2 ^ 64"
    and "length (encode_dag_cbor E (header_ipld (ch_new (wb_roots wb)))) \<le> isize_max"
    and "block_new E (blk_data b) = Ok b'" "blk_cid b' \<noteq> blk_cid b" "car_write E C wb [b] = Ok archive"
  shows "\<exists>rd. rd_new E archive = Ok rd \<and> snd (read_all_blocks E C rd) = Err (InvalidData ''Block CID mismatch'')"
proof -
  have "\<not> block_wf E b" using assms(6,7) block_new_iff [of E "blk_data b" b] by auto
  then show ?thesis using car_read_back [OF assms(1-5) _ assms(8)] assms(6) by (auto simp: read_back_def)
qed

end
