(* ===== verification/Chunker.thy ===== *)
theory Chunker
  imports Core_Block
begin

text \<open>
  Splitting files into blocks (\<open>ipfrs-core/src/chunking.rs\<close>): configuration, fixed-size and content-defined
  chunks, and the tree of DAG-CBOR nodes above them.

  \<^item> Sizes are natural numbers; a sum of \<open>u64\<close> link sizes wraps, as in a release build.
  \<^item> The tree is built by a loop that does not end for one link per node; it takes fuel for its levels.
  \<^item> The percentage of saved space (floating point) is left out, and the logarithm of the target size is
    computed on integers.
\<close>

subsection \<open>Configuration\<close>

definition DEFAULT_CHUNK_SIZE :: nat where "DEFAULT_CHUNK_SIZE = 256 * 1024"
definition MIN_CHUNK_SIZE :: nat where "MIN_CHUNK_SIZE = 1024"
definition MAX_CHUNK_SIZE :: nat where "MAX_CHUNK_SIZE = 1024 * 1024"
definition MAX_LINKS_PER_NODE :: nat where "MAX_LINKS_PER_NODE = 174"

datatype ChunkingStrategy = FixedSize | ContentDefined

record ChunkingConfig =
  cc_chunk_size :: nat
  cc_strategy :: ChunkingStrategy
  cc_max_links_per_node :: nat

definition cc_default :: ChunkingConfig where
  "cc_default = \<lparr>cc_chunk_size = DEFAULT_CHUNK_SIZE, cc_strategy = FixedSize, cc_max_links_per_node = MAX_LINKS_PER_NODE\<rparr>"

definition check_chunk_size :: "nat \<Rightarrow> (core_error, unit) outcome" where
  "check_chunk_size chunk_size =
     (if chunk_size < MIN_CHUNK_SIZE then Err (InvalidInput ''Chunk size is below minimum'')
      else if chunk_size > MAX_CHUNK_SIZE then Err (InvalidInput ''Chunk size exceeds maximum'')
      else Ok ())"

definition cc_with_chunk_size :: "nat \<Rightarrow> (core_error, ChunkingConfig) outcome" where
  "cc_with_chunk_size chunk_size =
     obind (check_chunk_size chunk_size) (\<lambda>_. Ok (cc_default\<lparr>cc_chunk_size := chunk_size\<rparr>))"

definition cc_content_defined :: ChunkingConfig where
  "cc_content_defined =
     \<lparr>cc_chunk_size = DEFAULT_CHUNK_SIZE, cc_strategy = ContentDefined, cc_max_links_per_node = MAX_LINKS_PER_NODE\<rparr>"

definition cc_content_defined_with_size :: "nat \<Rightarrow> (core_error, ChunkingConfig) outcome" where
  "cc_content_defined_with_size target =
     obind (check_chunk_size target) (\<lambda>_. Ok (cc_content_defined\<lparr>cc_chunk_size := target\<rparr>))"

record ChunkingConfigBuilder =
  ccb_chunk_size :: "nat option"
  ccb_strategy :: "ChunkingStrategy option"
  ccb_max_links_per_node :: "nat option"

definition ccb_new :: ChunkingConfigBuilder where
  "ccb_new = \<lparr>ccb_chunk_size = None, ccb_strategy = None, ccb_max_links_per_node = None\<rparr>"

definition ccb_set_chunk_size :: "ChunkingConfigBuilder \<Rightarrow> nat \<Rightarrow> ChunkingConfigBuilder" where
  "ccb_set_chunk_size b n = b\<lparr>ccb_chunk_size := Some n\<rparr>"

definition ccb_set_strategy :: "ChunkingConfigBuilder \<Rightarrow> ChunkingStrategy \<Rightarrow> ChunkingConfigBuilder" where
  "ccb_set_strategy b s = b\<lparr>ccb_strategy := Some s\<rparr>"

definition ccb_set_max_links_per_node :: "ChunkingConfigBuilder \<Rightarrow> nat \<Rightarrow> ChunkingConfigBuilder" where
  "ccb_set_max_links_per_node b n = b\<lparr>ccb_max_links_per_node := Some n\<rparr>"

definition unwrap_or :: "'a option \<Rightarrow> 'a \<Rightarrow> 'a" where
  "unwrap_or x d = (case x of Some y \<Rightarrow> y | None \<Rightarrow> d)"

definition ccb_build :: "ChunkingConfigBuilder \<Rightarrow> (core_error, ChunkingConfig) outcome" where
  "ccb_build b =
     (let chunk_size = unwrap_or (ccb_chunk_size b) DEFAULT_CHUNK_SIZE;
          strategy = unwrap_or (ccb_strategy b) FixedSize;
          max_links_per_node = unwrap_or (ccb_max_links_per_node b) MAX_LINKS_PER_NODE in
      obind (check_chunk_size chunk_size) (\<lambda>_.
        Ok \<lparr>cc_chunk_size = chunk_size, cc_strategy = strategy, cc_max_links_per_node = max_links_per_node\<rparr>))"

subsection \<open>Content-defined boundaries\<close>

record RabinChunker =
  ra_target_size :: nat
  ra_min_size :: nat
  ra_max_size :: nat
  ra_polynomial :: u64
  ra_window_size :: nat
  ra_mask :: u64

fun floor_log2 :: "nat \<Rightarrow> nat" where
  "floor_log2 n = (if n < 2 then 0 else Suc (floor_log2 (n div 2)))"

declare floor_log2.simps [simp del]

definition ra_new :: "nat \<Rightarrow> RabinChunker" where
  "ra_new target =
     \<lparr>ra_target_size = target, ra_min_size = target div 4, ra_max_size = target * 4, ra_polynomial = 0x3DA3358B4DC173,
      ra_window_size = 48, ra_mask = push_bit (floor_log2 target) 1 - 1\<rparr>"

definition out_table :: "RabinChunker \<Rightarrow> u8 \<Rightarrow> u64" where
  "out_table ra byte = ((\<lambda>val. word_rotl 1 val XOR ra_polynomial ra) ^^ ra_window_size ra) (ucast byte)"

definition in_table :: "RabinChunker \<Rightarrow> u8 \<Rightarrow> u64" where
  "in_table ra byte = ucast byte"

record boundary_state =
  fb_boundaries :: "nat list"
  fb_hash :: u64
  fb_window :: bytes
  fb_window_pos :: nat
  fb_last_boundary :: nat

text \<open>One round of the loop, for the byte at index \<open>i\<close>.\<close>

definition boundary_step :: "RabinChunker \<Rightarrow> boundary_state \<Rightarrow> nat \<times> u8 \<Rightarrow> boundary_state" where
  "boundary_step ra st = (\<lambda>(i, byte).
     let out_byte = fb_window st ! fb_window_pos st;
         window = (fb_window st)[fb_window_pos st := byte];
         window_pos = (fb_window_pos st + 1) mod ra_window_size ra;
         hash = word_rotl 1 (fb_hash st) XOR out_table ra out_byte XOR in_table ra byte;
         chunk_size = i - fb_last_boundary st;
         st = st\<lparr>fb_hash := hash, fb_window := window, fb_window_pos := window_pos\<rparr> in
     if ra_min_size ra \<le> chunk_size then
       if ra_max_size ra \<le> chunk_size then
         \<lparr>fb_boundaries = fb_boundaries st @ [i], fb_hash = 0, fb_window = replicate (length window) 0,
          fb_window_pos = 0, fb_last_boundary = i\<rparr>
       else if hash AND ra_mask ra = 0 then
         st\<lparr>fb_boundaries := fb_boundaries st @ [i], fb_last_boundary := i\<rparr>
       else st
     else st)"

definition find_boundaries :: "RabinChunker \<Rightarrow> bytes \<Rightarrow> nat list" where
  "find_boundaries ra data =
     (if length data \<le> ra_min_size ra then [length data]
      else let st = foldl (boundary_step ra)
                 \<lparr>fb_boundaries = [], fb_hash = 0, fb_window = replicate (ra_window_size ra) 0, fb_window_pos = 0, fb_last_boundary = 0\<rparr>
                 (enumerate 0 data) in
           fb_boundaries st @ (if fb_last_boundary st < length data then [length data] else []))"

text \<open>The slices between boundaries; a slice that is not in range panics.\<close>

fun cut_slices :: "bytes \<Rightarrow> nat \<Rightarrow> nat list \<Rightarrow> (core_error, bytes list) outcome" where
  "cut_slices data start [] = Ok []"
| "cut_slices data start (stop # stops) =
     (if start \<le> stop \<and> stop \<le> length data
      then obind (cut_slices data stop stops) (\<lambda>cs. Ok (take (stop - start) (drop start data) # cs))
      else Panic)"

text \<open>\<open>slice::chunks\<close>.\<close>

fun chunks_of :: "nat \<Rightarrow> 'a list \<Rightarrow> 'a list list" where
  "chunks_of n xs = (if n = 0 \<or> xs = [] then [] else take n xs # chunks_of n (drop n xs))"

declare chunks_of.simps [simp del]

definition slice_chunks :: "nat \<Rightarrow> 'a list \<Rightarrow> (core_error, 'a list list) outcome" where
  "slice_chunks n xs = (if n = 0 then Panic else Ok (chunks_of n xs))"

definition chunk_slices :: "ChunkingConfig \<Rightarrow> bytes \<Rightarrow> (core_error, bytes list) outcome" where
  "chunk_slices cfg data =
     (case cc_strategy cfg of
        FixedSize \<Rightarrow> slice_chunks (cc_chunk_size cfg) data
      | ContentDefined \<Rightarrow> cut_slices data 0 (find_boundaries (ra_new (cc_chunk_size cfg)) data))"

subsection \<open>Nodes\<close>

record 'c DagLink =
  dl_cid :: 'c
  dl_size :: u64
  dl_name :: "string option"

definition dl_new :: "'c \<Rightarrow> u64 \<Rightarrow> 'c DagLink" where
  "dl_new cid sz = \<lparr>dl_cid = cid, dl_size = sz, dl_name = None\<rparr>"

definition dl_with_name :: "'c \<Rightarrow> u64 \<Rightarrow> string \<Rightarrow> 'c DagLink" where
  "dl_with_name cid sz name = \<lparr>dl_cid = cid, dl_size = sz, dl_name = Some name\<rparr>"

record 'c DagNode =
  dn_links :: "'c DagLink list"
  dn_total_size :: u64
  dn_data :: "bytes option"

definition dn_leaf :: "bytes \<Rightarrow> 'c DagNode" where
  "dn_leaf data = \<lparr>dn_links = [], dn_total_size = of_nat (length data), dn_data = Some data\<rparr>"

definition dn_intermediate :: "'c DagLink list \<Rightarrow> 'c DagNode" where
  "dn_intermediate ls = \<lparr>dn_links = ls, dn_total_size = sum_list (map dl_size ls), dn_data = None\<rparr>"

definition dn_is_leaf :: "'c DagNode \<Rightarrow> bool" where
  "dn_is_leaf n \<longleftrightarrow> dn_links n = []"

definition dn_link_count :: "'c DagNode \<Rightarrow> nat" where
  "dn_link_count n = length (dn_links n)"

definition dl_to_ipld :: "'c DagLink \<Rightarrow> 'c Ipld" where
  "dl_to_ipld l =
     (let m = bt_insert ''size'' (Integer (uint (dl_size l))) (bt_insert ''cid'' (Link (dl_cid l)) []) in
      Map (case dl_name l of Some name \<Rightarrow> bt_insert ''name'' (String name) m | None \<Rightarrow> m))"

definition dn_to_ipld :: "'c DagNode \<Rightarrow> 'c Ipld" where
  "dn_to_ipld n =
     (let m = bt_insert ''totalSize'' (Integer (uint (dn_total_size n)))
                (bt_insert ''links'' (List (map dl_to_ipld (dn_links n))) []) in
      Map (case dn_data n of Some data \<Rightarrow> bt_insert ''data'' (Bytes data) m | None \<Rightarrow> m))"

definition dn_to_dag_cbor :: "'c cid_crate \<Rightarrow> 'c DagNode \<Rightarrow> (core_error, bytes) outcome" where
  "dn_to_dag_cbor E n = to_dag_cbor E (dn_to_ipld n)"

subsection \<open>The chunker\<close>

record DeduplicationStats =
  ds_total_chunks :: nat
  ds_unique_chunks :: nat
  ds_reused_chunks :: nat
  ds_total_data_size :: u64
  ds_deduplicated_size :: u64

record 'c ChunkedFile =
  cf_root_cid :: 'c
  cf_blocks :: "'c Block list"
  cf_total_size :: u64
  cf_chunk_count :: nat
  cf_dedup_stats :: DeduplicationStats

text \<open>\<open>seen_cids.entry(cid).or_insert(len)\<close> over the leaf blocks.\<close>

definition seen_cids :: "'c Block list \<Rightarrow> ('c \<times> nat) list" where
  "seen_cids blocks =
     foldl (\<lambda>seen b. if map_of seen (blk_cid b) = None then hm_insert (blk_cid b) (length (blk_data b)) seen else seen) [] blocks"

definition dedup_stats :: "bytes \<Rightarrow> nat \<Rightarrow> 'c Block list \<Rightarrow> DeduplicationStats" where
  "dedup_stats data chunk_count leaf_blocks =
     (let seen = seen_cids leaf_blocks in
      \<lparr>ds_total_chunks = chunk_count, ds_unique_chunks = length seen, ds_reused_chunks = chunk_count - length seen,
       ds_total_data_size = of_nat (length data), ds_deduplicated_size = of_nat (sum_list (map snd seen))\<rparr>)"

text \<open>One node of the next level: its link and its block.\<close>

definition level_node :: "'c cid_crate \<Rightarrow> 'c DagLink list \<Rightarrow> (core_error, 'c DagLink \<times> 'c Block) outcome" where
  "level_node E link_chunk =
     (let node = dn_intermediate link_chunk in
      obind (dn_to_dag_cbor E node) (\<lambda>node_bytes.
        if length node_bytes > MAX_BLOCK_SIZE then Err (Internal ''DAG node too large, reduce max_links_per_node'')
        else obind (bb_build E (bb_codec codec_DAG_CBOR bb_new) node_bytes) (\<lambda>block.
               Ok (dl_new (blk_cid block) (dn_total_size node), block))))"

fun build_dag :: "nat \<Rightarrow> 'c cid_crate \<Rightarrow> nat \<Rightarrow> 'c DagLink list \<Rightarrow> 'c Block list \<Rightarrow> (core_error, 'c DagLink list \<times> 'c Block list) outcome" where
  "build_dag fuel E max_links current_links all_blocks =
     (if length current_links \<le> 1 then Ok (current_links, all_blocks)
      else case fuel of
             0 \<Rightarrow> Diverge
           | Suc fuel \<Rightarrow>
               obind (slice_chunks max_links current_links) (\<lambda>groups.
                 obind (omap_list (level_node E) groups) (\<lambda>level.
                   build_dag fuel E max_links (map fst level) (all_blocks @ map snd level))))"

declare build_dag.simps [simp del]

definition chunk :: "nat \<Rightarrow> 'c cid_crate \<Rightarrow> ChunkingConfig \<Rightarrow> bytes \<Rightarrow> (core_error, 'c ChunkedFile) outcome" where
  "chunk fuel E cfg data =
     (if data = [] then Err (InvalidInput ''Cannot chunk empty data'')
      else if length data \<le> cc_chunk_size cfg then
        obind (block_new E data) (\<lambda>block.
          Ok \<lparr>cf_root_cid = blk_cid block, cf_blocks = [block], cf_total_size = of_nat (length data), cf_chunk_count = 1,
              cf_dedup_stats = \<lparr>ds_total_chunks = 1, ds_unique_chunks = 1, ds_reused_chunks = 0,
                ds_total_data_size = of_nat (length data), ds_deduplicated_size = of_nat (length data)\<rparr>\<rparr>)
      else
        obind (chunk_slices cfg data) (\<lambda>slices.
          obind (omap_list (block_new E) slices) (\<lambda>leaf_blocks.
            let stats = dedup_stats data (length slices) leaf_blocks;
                leaf_links = map (\<lambda>b. dl_new (blk_cid b) (of_nat (length (blk_data b)))) leaf_blocks in
            obind (build_dag fuel E (cc_max_links_per_node cfg) leaf_links leaf_blocks) (\<lambda>(current_links, all_blocks).
              case current_links of
                [] \<Rightarrow> Panic
              | root # _ \<Rightarrow>
                  Ok \<lparr>cf_root_cid = dl_cid root, cf_blocks = all_blocks, cf_total_size = of_nat (length data),
                      cf_chunk_count = length slices, cf_dedup_stats = stats\<rparr>))))"

definition needs_chunking :: "ChunkingConfig \<Rightarrow> nat \<Rightarrow> bool" where
  "needs_chunking cfg data_len \<longleftrightarrow> data_len > cc_chunk_size cfg"

text \<open>\<open>div_ceil\<close> panics on a zero divisor.\<close>

definition estimate_chunk_count :: "ChunkingConfig \<Rightarrow> nat \<Rightarrow> (core_error, nat) outcome" where
  "estimate_chunk_count cfg data_len =
     (if data_len = 0 then Ok 0
      else if cc_chunk_size cfg = 0 then Panic
      else Ok ((data_len + cc_chunk_size cfg - 1) div cc_chunk_size cfg))"

definition create_directory ::
    "'c cid_crate \<Rightarrow> (string \<times> 'c \<times> u64) list \<Rightarrow> (core_error, 'c DagNode \<times> 'c Block) outcome" where
  "create_directory E entries =
     (let node = dn_intermediate (map (\<lambda>(name, cid, sz). dl_with_name cid sz name) entries) in
      obind (dn_to_dag_cbor E node) (\<lambda>node_bytes.
        obind (bb_build E (bb_codec codec_DAG_CBOR bb_new) node_bytes) (\<lambda>block. Ok (node, block))))"

definition create_file :: "nat \<Rightarrow> 'c cid_crate \<Rightarrow> ChunkingConfig \<Rightarrow> bytes \<Rightarrow> (core_error, 'c ChunkedFile) outcome" where
  "create_file fuel E cfg data = chunk fuel E cfg data"

subsection \<open>Slices tile the data\<close>

lemma chunks_of_simps:
  "chunks_of n [] = []"
  "0 < n \<Longrightarrow> xs \<noteq> [] \<Longrightarrow> chunks_of n xs = take n xs # chunks_of n (drop n xs)"
  by (simp_all add: chunks_of.simps)

lemma concat_chunks_of: "0 < n \<Longrightarrow> concat (chunks_of n xs) = xs"
  by (induction n xs rule: chunks_of.induct) (metis append_take_drop_id chunks_of_simps concat.simps neq0_conv)

lemma chunks_of_sizes: "c \<in> set (chunks_of n xs) \<Longrightarrow> c \<noteq> [] \<and> length c \<le> n"
  by (induction n xs rule: chunks_of.induct) (fastforce simp: chunks_of.simps split: if_splits)

lemma set_chunks_of: "0 < n \<Longrightarrow> c \<in> set (chunks_of n xs) \<Longrightarrow> set c \<subseteq> set xs"
  using arg_cong [OF concat_chunks_of, of n set xs] by auto

text \<open>Two or more to a group make the next level shorter.\<close>

lemma length_chunks_of: "2 \<le> n \<Longrightarrow> 2 \<le> length xs \<Longrightarrow> length (chunks_of n xs) < length xs \<and> chunks_of n xs \<noteq> []"
proof (induction n xs rule: chunks_of.induct)
  case (1 n xs)
  have c: "chunks_of n xs = take n xs # chunks_of n (drop n xs)" using "1.prems" by (subst chunks_of.simps) auto
  show ?case
  proof (cases "2 \<le> length (drop n xs)")
    case True
    then have "length (chunks_of n (drop n xs)) < length (drop n xs)" using "1.IH" "1.prems" by force
    then show ?thesis using c "1.prems" by simp
  next
    case False
    have "length (chunks_of n (drop n xs)) \<le> length (drop n xs)"
    proof (cases "drop n xs")
      case (Cons y ys)
      with False have "ys = []" by (cases ys) simp_all
      with Cons "1.prems"(1) show ?thesis by (simp add: chunks_of_simps)
    qed (simp add: chunks_of_simps)
    then show ?thesis using c "1.prems" by simp
  qed
qed

fun tiles :: "nat \<Rightarrow> nat list \<Rightarrow> nat \<Rightarrow> bool" where
  "tiles s [] n \<longleftrightarrow> s = n"
| "tiles s (b # bs) n \<longleftrightarrow> s < b \<and> tiles b bs n"

fun gaps :: "nat \<Rightarrow> nat list \<Rightarrow> nat list" where
  "gaps s [] = []"
| "gaps s (b # bs) = (b - s) # gaps b bs"

lemma tiles_snoc: "tiles s bs m \<Longrightarrow> m < b \<Longrightarrow> tiles s (bs @ [b]) b"
  by (induction bs arbitrary: s) auto

lemma gaps_snoc: "tiles s bs m \<Longrightarrow> gaps s (bs @ [b]) = gaps s bs @ [b - m]"
  by (induction bs arbitrary: s) auto

lemma tiles_le: "tiles s bs n \<Longrightarrow> s \<le> n"
  by (induction bs arbitrary: s) (auto dest: less_imp_le order_trans)

lemma cut_slices_tiles:
  assumes "tiles s bs n" "n \<le> length data"
  shows "\<exists>cs. cut_slices data s bs = Ok cs \<and> concat cs = take (n - s) (drop s data) \<and> map length cs = gaps s bs"
  using assms
proof (induction bs arbitrary: s)
  case (Cons b bs)
  then obtain cs where cs: "cut_slices data b bs = Ok cs" "concat cs = take (n - b) (drop b data)" "map length cs = gaps b bs" by auto
  have b: "s < b" "b \<le> n" using Cons.prems(1) tiles_le by auto
  have "take (b - s) (drop s data) @ take (n - b) (drop b data) = take (n - s) (drop s data)"
    using b take_add [of "b - s" "n - b" "drop s data"] by simp
  then show ?case using cs b Cons.prems(2) by simp
qed simp

text \<open>
  The state of the boundary loop before index \<open>i\<close>: the boundaries tile the data up to the last one, with
  gaps within the limits, and the gap that is open is no longer than the maximum.
\<close>

definition boundary_inv :: "RabinChunker \<Rightarrow> nat \<Rightarrow> boundary_state \<Rightarrow> bool" where
  "boundary_inv ra i st \<longleftrightarrow>
     tiles 0 (fb_boundaries st) (fb_last_boundary st) \<and>
     (\<forall>g \<in> set (gaps 0 (fb_boundaries st)). ra_min_size ra \<le> g \<and> g \<le> ra_max_size ra) \<and>
     fb_last_boundary st \<le> i - 1 \<and> i - fb_last_boundary st \<le> ra_max_size ra"

lemma boundary_step_cases:
  "(ra_min_size ra \<le> i - fb_last_boundary st \<and>
      fb_boundaries (boundary_step ra st (i, byte)) = fb_boundaries st @ [i] \<and> fb_last_boundary (boundary_step ra st (i, byte)) = i) \<or>
   ((i - fb_last_boundary st < ra_min_size ra \<or> i - fb_last_boundary st < ra_max_size ra) \<and>
      fb_boundaries (boundary_step ra st (i, byte)) = fb_boundaries st \<and> fb_last_boundary (boundary_step ra st (i, byte)) = fb_last_boundary st)"
  by (auto simp: boundary_step_def Let_def)

lemma boundary_step_inv:
  assumes "1 \<le> ra_min_size ra" "ra_min_size ra \<le> ra_max_size ra" "boundary_inv ra i st"
  shows "boundary_inv ra (Suc i) (boundary_step ra st (i, byte))"
proof -
  have inv: "tiles 0 (fb_boundaries st) (fb_last_boundary st)"
    "\<forall>g \<in> set (gaps 0 (fb_boundaries st)). ra_min_size ra \<le> g \<and> g \<le> ra_max_size ra"
    "fb_last_boundary st \<le> i - 1" "i - fb_last_boundary st \<le> ra_max_size ra"
    using assms(3) by (auto simp: boundary_inv_def)
  show ?thesis
    using boundary_step_cases [of ra i st byte]
  proof (elim disjE conjE)
    assume "ra_min_size ra \<le> i - fb_last_boundary st"
      "fb_boundaries (boundary_step ra st (i, byte)) = fb_boundaries st @ [i]" "fb_last_boundary (boundary_step ra st (i, byte)) = i"
    then show ?thesis
      using inv assms(1,2) tiles_snoc [OF inv(1), of i] by (auto simp: boundary_inv_def gaps_snoc [OF inv(1)])
  qed (use inv assms(2) in \<open>auto simp: boundary_inv_def\<close>)
qed

lemma boundary_loop_inv:
  assumes "1 \<le> ra_min_size ra" "ra_min_size ra \<le> ra_max_size ra" "boundary_inv ra i st"
  shows "boundary_inv ra (i + length data) (foldl (boundary_step ra) st (enumerate i data))"
  using assms(3)
proof (induction data arbitrary: i st)
  case (Cons b data)
  from Cons.IH [OF boundary_step_inv [OF assms(1,2) Cons.prems]] show ?case by simp
qed simp

lemma find_boundaries_tiles:
  assumes "1 \<le> ra_min_size ra" "ra_min_size ra \<le> ra_max_size ra" "data \<noteq> []"
  obtains bs where "find_boundaries ra data = bs @ [length data]" "tiles 0 (bs @ [length data]) (length data)"
    "\<forall>g \<in> set (gaps 0 bs). ra_min_size ra \<le> g" "\<forall>g \<in> set (gaps 0 (bs @ [length data])). 1 \<le> g \<and> g \<le> ra_max_size ra"
proof (cases "length data \<le> ra_min_size ra")
  case True
  then show ?thesis using that [of "[]"] assms by (auto simp: find_boundaries_def Suc_le_eq)
next
  case False
  let ?init = "\<lparr>fb_boundaries = [], fb_hash = 0, fb_window = replicate (ra_window_size ra) 0, fb_window_pos = 0, fb_last_boundary = 0\<rparr>"
  let ?st = "foldl (boundary_step ra) ?init (enumerate 0 data)"
  let ?n = "length data" and ?l = "fb_last_boundary ?st"
  have init: "boundary_inv ra 0 ?init" by (simp add: boundary_inv_def)
  have st: "boundary_inv ra ?n ?st"
    using boundary_loop_inv [OF assms(1,2) init, of data] by (simp only: add_0)
  then have l: "tiles 0 (fb_boundaries ?st) ?l" "?l \<le> ?n - 1" "?n - ?l \<le> ra_max_size ra"
    and g: "\<forall>g \<in> set (gaps 0 (fb_boundaries ?st)). ra_min_size ra \<le> g \<and> g \<le> ra_max_size ra"
    by (simp_all add: boundary_inv_def)
  have n: "?l < ?n" using l(2) assms(3) by (cases data) simp_all
  show ?thesis
  proof (rule that [of "fb_boundaries ?st"])
    show "find_boundaries ra data = fb_boundaries ?st @ [?n]" using False n by (simp add: find_boundaries_def)
    show "tiles 0 (fb_boundaries ?st @ [?n]) ?n" by (rule tiles_snoc [OF l(1) n])
    show "\<forall>g \<in> set (gaps 0 (fb_boundaries ?st)). ra_min_size ra \<le> g" using g by blast
    show "\<forall>g \<in> set (gaps 0 (fb_boundaries ?st @ [?n])). 1 \<le> g \<and> g \<le> ra_max_size ra"
      using g assms(1) l(3) n by (auto simp: gaps_snoc [OF l(1)])
  qed
qed

lemma butlast_gaps: "tiles s (bs @ [b]) n \<Longrightarrow> butlast (gaps s (bs @ [b])) = gaps s bs"
proof (induction bs arbitrary: s)
  case (Cons c bs)
  then show ?case by (cases "bs @ [b]") (auto simp: butlast_append)
qed simp

lemma content_defined_slices:
  assumes "4 \<le> target" "data \<noteq> []"
  obtains cs where "cut_slices data 0 (find_boundaries (ra_new target) data) = Ok cs" "concat cs = data"
    "\<forall>c \<in> set cs. c \<noteq> [] \<and> length c \<le> 4 * target" "\<forall>c \<in> set (butlast cs). target div 4 \<le> length c"
proof -
  have r: "1 \<le> ra_min_size (ra_new target)" "ra_min_size (ra_new target) \<le> ra_max_size (ra_new target)"
    using assms(1) by (simp_all add: ra_new_def)
  from find_boundaries_tiles [OF r assms(2)] obtain bs where
    bs: "find_boundaries (ra_new target) data = bs @ [length data]" "tiles 0 (bs @ [length data]) (length data)"
      "\<forall>g \<in> set (gaps 0 bs). ra_min_size (ra_new target) \<le> g"
      "\<forall>g \<in> set (gaps 0 (bs @ [length data])). 1 \<le> g \<and> g \<le> ra_max_size (ra_new target)" .
  from cut_slices_tiles [OF bs(2) order_refl] obtain cs where
    cs: "cut_slices data 0 (bs @ [length data]) = Ok cs" "concat cs = data" "map length cs = gaps 0 (bs @ [length data])" by auto
  have l: "length c \<in> set (gaps 0 (bs @ [length data]))" if "c \<in> set cs" for c
    using that unfolding cs(3) [symmetric] by simp
  have b: "length c \<in> set (gaps 0 bs)" if "c \<in> set (butlast cs)" for c
    using that unfolding butlast_gaps [OF bs(2), symmetric] cs(3) [symmetric] map_butlast [symmetric] by simp
  show ?thesis
    by (rule that [of cs]) (use cs bs l b in \<open>fastforce simp: ra_new_def\<close>)+
qed

definition max_slice :: "ChunkingConfig \<Rightarrow> nat" where
  "max_slice cfg = (case cc_strategy cfg of FixedSize \<Rightarrow> cc_chunk_size cfg | ContentDefined \<Rightarrow> 4 * cc_chunk_size cfg)"

lemma chunk_slices_ok:
  assumes "4 \<le> cc_chunk_size cfg" "data \<noteq> []"
  obtains cs where "chunk_slices cfg data = Ok cs" "concat cs = data" "\<forall>c \<in> set cs. c \<noteq> [] \<and> length c \<le> max_slice cfg"
proof (cases "cc_strategy cfg")
  case FixedSize
  then show ?thesis
    using that [of "chunks_of (cc_chunk_size cfg) data"] assms concat_chunks_of [of "cc_chunk_size cfg" data] chunks_of_sizes
    by (fastforce simp: chunk_slices_def slice_chunks_def max_slice_def)
next
  case ContentDefined
  then show ?thesis
    using content_defined_slices [OF assms] that by (simp add: chunk_slices_def max_slice_def) metis
qed

subsection \<open>The tree\<close>

lemma bb_build_total [simp]: "bb_build E bb data \<noteq> Diverge" "bb_build E bb data \<noteq> Panic"
  by (auto simp: bb_build_def obind_eq_Diverge obind_eq_Panic)

lemma level_node_total [simp]: "level_node E ls \<noteq> Diverge" "level_node E ls \<noteq> Panic"
  by (auto simp: level_node_def dn_to_dag_cbor_def to_dag_cbor_def Let_def obind_eq_Diverge obind_eq_Panic)

lemma omap_list_not_Panic: "(\<And>x. x \<in> set xs \<Longrightarrow> f x \<noteq> Panic) \<Longrightarrow> omap_list f xs \<noteq> Panic"
  by (induction xs) (auto simp: obind_eq_Panic)

lemma build_dag_total:
  assumes "2 \<le> m" "ls \<noteq> []" "length ls \<le> Suc fuel"
  shows "build_dag fuel E m ls bs \<noteq> Diverge \<and> build_dag fuel E m ls bs \<noteq> Panic \<and>
    (\<forall>ls' bs'. build_dag fuel E m ls bs = Ok (ls', bs') \<longrightarrow> length ls' = 1)"
  using assms(2,3)
proof (induction fuel arbitrary: ls bs)
  case 0
  then show ?case by (subst (1 2 3) build_dag.simps) (cases ls; auto)
next
  case (Suc fuel)
  show ?case
  proof (cases "length ls \<le> 1")
    case True
    with Suc.prems(1) have "length ls = 1" by (cases ls) auto
    with True show ?thesis by (subst (1 2 3) build_dag.simps) simp
  next
    case False
    let ?gs = "chunks_of m ls"
    have g: "length ?gs < length ls" "?gs \<noteq> []" using length_chunks_of [OF assms(1), of ls] False by auto
    have d: "build_dag (Suc fuel) E m ls bs = obind (omap_list (level_node E) ?gs) (\<lambda>level. build_dag fuel E m (map fst level) (bs @ map snd level))"
      using False assms(1) by (subst build_dag.simps) (simp add: slice_chunks_def)
    have t: "omap_list (level_node E) ?gs \<noteq> Diverge" "omap_list (level_node E) ?gs \<noteq> Panic"
      using omap_list_total [of ?gs "level_node E"] omap_list_not_Panic [of ?gs "level_node E"] by simp_all
    show ?thesis
    proof (cases "omap_list (level_node E) ?gs")
      case (Ok level)
      have "map fst level \<noteq> []" "length (map fst level) \<le> Suc fuel"
        using omap_list_length [OF Ok] g Suc.prems(2) by auto
      from Suc.IH [OF this, of "bs @ map snd level"] show ?thesis unfolding d Ok by simp
    qed (use t in \<open>simp_all add: d\<close>)
  qed
qed

subsection \<open>The chunker succeeds\<close>

lemma length_encode_cbor_length: "length (encode_cbor_length mt n) \<le> 9"
  by (simp add: encode_cbor_length_def Let_def)

text \<open>
  A node of \<open>n\<close> unnamed links takes at most \<open>64 + n * (64 + L)\<close> bytes, when a binary CID takes at most \<open>L\<close>.
\<close>

lemma length_link_encoding:
  assumes "length (cid_to_bytes E (dl_cid l)) \<le> L" "dl_name l = None"
  shows "length (encode_dag_cbor E (dl_to_ipld l)) \<le> 64 + L"
  using length_encode_cbor_length [of 5 2] length_encode_cbor_length [of 3 3] length_encode_cbor_length [of 6 CID_TAG]
    length_encode_cbor_length [of 2 "1 + word_of_nat (length (cid_to_bytes E (dl_cid l)))"]
    length_encode_cbor_length [of 3 4] length_encode_cbor_length [of 0 "dl_size l"] assms
  by (simp add: dl_to_ipld_def encode_cbor_tag_def encode_cbor_integer_def Let_def)

lemma length_links_encoding:
  assumes "\<And>c. length (cid_to_bytes E c) \<le> L" "\<forall>l \<in> set ls. dl_name l = None"
  shows "length (concat (map (encode_dag_cbor E) (map dl_to_ipld ls))) \<le> length ls * (64 + L)"
  using assms(2)
proof (induction ls)
  case (Cons l ls)
  then show ?case using length_link_encoding [OF assms(1), of l] by simp
qed simp

lemma length_node_encoding:
  assumes "\<And>c. length (cid_to_bytes E c) \<le> L" "\<forall>l \<in> set ls. dl_name l = None"
  shows "length (encode_dag_cbor E (dn_to_ipld (dn_intermediate ls))) \<le> 64 + length ls * (64 + L)"
  using length_encode_cbor_length [of 5 2] length_encode_cbor_length [of 3 5] length_encode_cbor_length [of 4 "of_nat (length ls)"]
    length_encode_cbor_length [of 3 9] length_encode_cbor_length [of 0 "dn_total_size (dn_intermediate ls)"]
    length_links_encoding [OF assms]
  by (simp add: dn_to_ipld_def encode_cbor_integer_def dn_intermediate_def)

lemma encode_nonempty: "1 \<le> length (encode_dag_cbor E (dn_to_ipld n))"
  by (simp add: dn_to_ipld_def encode_cbor_length_def Let_def split: option.split)

definition fits :: "'c cid_crate \<Rightarrow> nat \<Rightarrow> bool" where
  "fits E m \<longleftrightarrow> (\<exists>L. (\<forall>c. length (cid_to_bytes E c) \<le> L) \<and> 64 + m * (64 + L) \<le> MAX_BLOCK_SIZE)"

lemma level_node_ok:
  assumes "cid_laws E" "fits E m" "length ls \<le> m" "\<forall>l \<in> set ls. dl_name l = None"
  obtains cid block where "level_node E ls = Ok (dl_new cid (dn_total_size (dn_intermediate ls)), block)"
proof -
  obtain L where L: "\<And>c. length (cid_to_bytes E c) \<le> L" "64 + m * (64 + L) \<le> MAX_BLOCK_SIZE"
    using assms(2) by (auto simp: fits_def)
  have "64 + length ls * (64 + L) \<le> 64 + m * (64 + L)" using assms(3) by simp
  then have n: "length (encode_dag_cbor E (dn_to_ipld (dn_intermediate ls))) \<le> MAX_BLOCK_SIZE"
    using length_node_encoding [OF L(1) assms(4)] L(2) by linarith
  obtain cid where "cid_new E V1 codec_DAG_CBOR (mh_digest E Sha256 (encode_dag_cbor E (dn_to_ipld (dn_intermediate ls)))) = Some cid"
    using assms(1) unfolding cid_laws_def by blast
  then have "level_node E ls = Ok (dl_new cid (dn_total_size (dn_intermediate ls)), \<lparr>blk_cid = cid, blk_data = encode_dag_cbor E (dn_to_ipld (dn_intermediate ls))\<rparr>)"
    using n encode_nonempty [of E "dn_intermediate ls"]
    by (simp add: validate_size_in_range level_node_def dn_to_dag_cbor_def to_dag_cbor_def bb_build_def cb_build_def bb_codec_def bb_new_def cb_new_def cb_set_codec_def Let_def)
  then show ?thesis by (rule that)
qed

lemma omap_list_Ok: "(\<And>x. x \<in> set xs \<Longrightarrow> \<exists>y. f x = Ok y \<and> P y) \<Longrightarrow> \<exists>ys. omap_list f xs = Ok ys \<and> (\<forall>y \<in> set ys. P y)"
  by (induction xs) fastforce+

lemma build_dag_not_Err:
  assumes "cid_laws E" "fits E m" "1 \<le> m" "\<forall>l \<in> set ls. dl_name l = None"
  shows "build_dag fuel E m ls bs \<noteq> Err e"
  using assms(4)
proof (induction fuel arbitrary: ls bs)
  case 0
  then show ?case by (subst build_dag.simps) simp
next
  case (Suc fuel)
  have "\<exists>r. level_node E g = Ok r \<and> dl_name (fst r) = None" if "g \<in> set (chunks_of m ls)" for g
  proof -
    have g: "length g \<le> m" "set g \<subseteq> set ls"
      using chunks_of_sizes [OF that] set_chunks_of [OF _ that] assms(3) by simp_all
    then have "\<forall>l \<in> set g. dl_name l = None" using Suc.prems by blast
    from level_node_ok [OF assms(1,2) g(1) this] show ?thesis by (metis DagLink.select_convs(3) dl_new_def fst_conv)
  qed
  from omap_list_Ok [of "chunks_of m ls" "level_node E" "\<lambda>r. dl_name (fst r) = None", OF this] obtain level where
    level: "omap_list (level_node E) (chunks_of m ls) = Ok level" "\<forall>r \<in> set level. dl_name (fst r) = None" by blast
  have "build_dag fuel E m (map fst level) (bs @ map snd level) \<noteq> Err e" using level(2) by (intro Suc.IH) simp
  then show ?case using assms(3) level(1) by (subst build_dag.simps) (simp add: slice_chunks_def)
qed

text \<open>With one link to a node the level never gets shorter.\<close>

lemma chunks_of_1: "chunks_of 1 xs = map (\<lambda>x. [x]) xs"
  by (induction xs) (simp_all add: chunks_of_simps)

lemma build_dag_one_link:
  assumes "cid_laws E" "fits E 1" "2 \<le> length ls" "\<forall>l \<in> set ls. dl_name l = None"
  shows "build_dag fuel E 1 ls bs = Diverge"
  using assms(3,4)
proof (induction fuel arbitrary: ls bs)
  case 0
  then show ?case by (subst build_dag.simps) simp
next
  case (Suc fuel)
  have "\<exists>r. level_node E g = Ok r \<and> dl_name (fst r) = None" if "g \<in> set (map (\<lambda>l. [l]) ls)" for g
  proof -
    have "length g \<le> 1" "\<forall>l \<in> set g. dl_name l = None" using that Suc.prems(2) by auto
    from level_node_ok [OF assms(1,2) this] show ?thesis by (metis DagLink.select_convs(3) dl_new_def fst_conv)
  qed
  from omap_list_Ok [of "map (\<lambda>l. [l]) ls" "level_node E" "\<lambda>r. dl_name (fst r) = None", OF this] obtain level where
    level: "omap_list (level_node E) (map (\<lambda>l. [l]) ls) = Ok level" "\<forall>r \<in> set level. dl_name (fst r) = None" by blast
  have "build_dag fuel E 1 (map fst level) (bs @ map snd level) = Diverge"
    using level(2) omap_list_length [OF level(1)] Suc.prems(1) by (intro Suc.IH) simp_all
  then show ?case using Suc.prems(1) level(1) by (subst build_dag.simps) (simp add: slice_chunks_def chunks_of_1 del: One_nat_def)
qed

lemma leaf_block_ok:
  assumes "cid_laws E" "1 \<le> length d" "length d \<le> MAX_BLOCK_SIZE"
  shows "\<exists>b. block_new E d = Ok b \<and> blk_data b = d"
proof -
  obtain cid where "cid_new E V1 codec_RAW (mh_digest E Sha256 d) = Some cid"
    using assms(1) unfolding cid_laws_def by blast
  with assms(2,3) show ?thesis by (simp add: validate_size_in_range block_new_def cb_build_def cb_new_def codec_RAW_def Let_def)
qed

lemma leaf_blocks_ok:
  assumes "cid_laws E" "\<forall>d \<in> set ds. 1 \<le> length d \<and> length d \<le> MAX_BLOCK_SIZE"
  shows "\<exists>bs. omap_list (block_new E) ds = Ok bs"
  using omap_list_Ok [of ds "block_new E" "\<lambda>_. True"] leaf_block_ok [OF assms(1)] assms(2) by metis

lemma chunk_dag:
  assumes "data \<noteq> []" "cc_chunk_size cfg < length data" "chunk_slices cfg data = Ok slices" "omap_list (block_new E) slices = Ok blocks"
  shows "chunk fuel E cfg data =
    obind (build_dag fuel E (cc_max_links_per_node cfg) (map (\<lambda>b. dl_new (blk_cid b) (of_nat (length (blk_data b)))) blocks) blocks)
      (\<lambda>(ls, bs). case ls of [] \<Rightarrow> Panic
         | root # _ \<Rightarrow> Ok \<lparr>cf_root_cid = dl_cid root, cf_blocks = bs, cf_total_size = of_nat (length data),
             cf_chunk_count = length slices, cf_dedup_stats = dedup_stats data (length slices) blocks\<rparr>)"
  using assms by (simp add: chunk_def Let_def)

lemma length_slices: "\<forall>c \<in> set cs. c \<noteq> [] \<Longrightarrow> length cs \<le> length (concat cs)"
proof (induction cs)
  case (Cons c cs)
  then show ?case by (cases c) auto
qed simp

lemma chunks_of_nonempty: "xs \<noteq> [] \<Longrightarrow> 0 < n \<Longrightarrow> chunks_of n xs \<noteq> []"
  by (simp add: chunks_of_simps)

text \<open>Every chunk of a fixed size but the last one is full.\<close>

lemma butlast_chunks_of: "c \<in> set (butlast (chunks_of n xs)) \<Longrightarrow> length c = n"
proof (induction n xs rule: chunks_of.induct)
  case (1 n xs)
  then have n: "n \<noteq> 0" "xs \<noteq> []" by (auto simp: chunks_of.simps [of n xs] split: if_splits)
  then have c: "chunks_of n xs = take n xs # chunks_of n (drop n xs)" by (simp add: chunks_of_simps)
  with "1.prems" have "drop n xs \<noteq> []" by (auto simp: chunks_of_simps(1))
  with "1.IH" "1.prems" n c show ?case by (auto split: if_splits)
qed

definition min_slice :: "ChunkingConfig \<Rightarrow> nat" where
  "min_slice cfg = (case cc_strategy cfg of FixedSize \<Rightarrow> cc_chunk_size cfg | ContentDefined \<Rightarrow> cc_chunk_size cfg div 4)"

lemma chunk_slices_min:
  assumes "4 \<le> cc_chunk_size cfg" "data \<noteq> []" "chunk_slices cfg data = Ok cs" "c \<in> set (butlast cs)"
  shows "min_slice cfg \<le> length c"
proof (cases "cc_strategy cfg")
  case FixedSize
  then show ?thesis
    using assms butlast_chunks_of [of c "cc_chunk_size cfg" data] by (simp add: chunk_slices_def slice_chunks_def min_slice_def)
next
  case ContentDefined
  from content_defined_slices [OF assms(1,2)] show ?thesis
    using assms(3,4) ContentDefined by (auto simp: chunk_slices_def min_slice_def)
qed

lemma ccb_build_bounds: "ccb_build b = Ok cfg \<Longrightarrow> 1024 \<le> cc_chunk_size cfg \<and> cc_chunk_size cfg \<le> 1024 * 1024"
  by (auto simp: ccb_build_def check_chunk_size_def MIN_CHUNK_SIZE_def MAX_CHUNK_SIZE_def Let_def split: if_splits)

lemma chunk_total:
  assumes "4 \<le> cc_chunk_size cfg" "2 \<le> cc_max_links_per_node cfg" "length data \<le> fuel"
  shows "chunk fuel E cfg data \<noteq> Diverge" "chunk fuel E cfg data \<noteq> Panic"
proof -
  have "chunk fuel E cfg data \<noteq> Diverge \<and> chunk fuel E cfg data \<noteq> Panic"
  proof (cases "data = [] \<or> length data \<le> cc_chunk_size cfg")
    case True
    then show ?thesis by (auto simp: chunk_def obind_eq_Diverge obind_eq_Panic)
  next
    case False
    then have d: "data \<noteq> []" "cc_chunk_size cfg < length data" by auto
    from chunk_slices_ok [OF assms(1) d(1)] obtain cs where
      cs: "chunk_slices cfg data = Ok cs" "concat cs = data" "\<forall>c \<in> set cs. c \<noteq> [] \<and> length c \<le> max_slice cfg" .
    show ?thesis
    proof (cases "omap_list (block_new E) cs")
      case (Ok bs)
      let ?ls = "map (\<lambda>b. dl_new (blk_cid b) (of_nat (length (blk_data b)))) bs"
      have "?ls \<noteq> []" "length ?ls \<le> Suc fuel"
        using omap_list_length [OF Ok] cs(2,3) d(1) length_slices [of cs] assms(3) by auto
      from build_dag_total [OF assms(2) this, of E bs] show ?thesis
        unfolding chunk_dag [OF d cs(1) Ok] by (auto simp: obind_eq_Diverge obind_eq_Panic split: list.splits)
    qed (use cs d omap_list_total [of cs "block_new E"] omap_list_not_Panic [of cs "block_new E"] in
          \<open>simp_all add: chunk_def\<close>)
  qed
  then show "chunk fuel E cfg data \<noteq> Diverge" "chunk fuel E cfg data \<noteq> Panic" by simp_all
qed

subsection \<open>Deduplication\<close>

lemma seen_fold:
  fixes bs :: "'c Block list"
  assumes "distinct (map fst seen)"
  defines "seen' \<equiv> foldl (\<lambda>seen b. if map_of seen (blk_cid b) = None then hm_insert (blk_cid b) (length (blk_data b)) seen else seen) seen bs"
  shows "distinct (map fst seen') \<and> set (map fst seen') = set (map fst seen) \<union> blk_cid ` set bs \<and>
    sum_list (map snd seen') \<le> sum_list (map snd seen) + sum_list (map (\<lambda>b. length (blk_data b)) bs)"
  using assms(1) unfolding seen'_def
proof (induction bs arbitrary: seen)
  case (Cons b bs)
  show ?case
  proof (cases "map_of seen (blk_cid b)")
    case None
    then have i: "hm_insert (blk_cid b) (length (blk_data b)) seen = seen @ [(blk_cid b, length (blk_data b))]"
      unfolding hm_insert_def by (induction seen) (auto split: if_splits)
    have "distinct (map fst (seen @ [(blk_cid b, length (blk_data b))]))"
      using Cons.prems None by (auto simp: map_of_eq_None_iff)
    from Cons.IH [OF this] show ?thesis using None i by (auto simp: ac_simps)
  next
    case (Some n)
    then have "blk_cid b \<in> fst ` set seen" by (metis domI dom_map_of_conv_image_fst)
    with Cons.IH [OF Cons.prems] Some show ?thesis by (auto simp: ac_simps)
  qed
qed simp

lemma seen_cids_spec:
  "distinct (map fst (seen_cids bs))" "length (seen_cids bs) = card (blk_cid ` set bs)"
  "sum_list (map snd (seen_cids bs)) \<le> sum_list (map (\<lambda>b. length (blk_data b)) bs)"
proof -
  note f = seen_fold [of "[]" bs, folded seen_cids_def, simplified]
  then show "distinct (map fst (seen_cids bs))" "sum_list (map snd (seen_cids bs)) \<le> sum_list (map (\<lambda>b. length (blk_data b)) bs)"
    by simp_all
  from f have "length (seen_cids bs) = card (set (map fst (seen_cids bs)))" by (metis distinct_card length_map)
  then show "length (seen_cids bs) = card (blk_cid ` set bs)" using f by simp
qed

lemma leaf_blocks_data: "omap_list (block_new E) cs = Ok bs \<Longrightarrow> map blk_data bs = cs"
  by (induction cs arbitrary: bs) (auto simp: obind_eq_Ok block_new_iff)

lemma dedup_stats_ok:
  fixes bs :: "'c Block list"
  assumes "omap_list (block_new E) cs = Ok bs" "concat cs = data"
  defines "st \<equiv> dedup_stats data (length cs) bs"
  shows "ds_unique_chunks st = card (blk_cid ` set bs)" "ds_unique_chunks st + ds_reused_chunks st = ds_total_chunks st"
    "length data < 2 ^ 64 \<Longrightarrow> ds_deduplicated_size st \<le> ds_total_data_size st"
proof -
  show u: "ds_unique_chunks st = card (blk_cid ` set bs)" by (simp add: st_def dedup_stats_def seen_cids_spec Let_def)
  have "card (blk_cid ` set bs) \<le> length cs"
    using card_image_le [of "set bs" blk_cid] card_length [of bs] omap_list_length [OF assms(1)] by simp
  then show "ds_unique_chunks st + ds_reused_chunks st = ds_total_chunks st"
    using u by (simp add: st_def dedup_stats_def Let_def)
  have "sum_list (map (\<lambda>b. length (blk_data b)) bs) = length data"
    using leaf_blocks_data [OF assms(1)] assms(2) by (auto simp: length_concat comp_def)
  then have "sum_list (map snd (seen_cids bs)) \<le> length data" using seen_cids_spec(3) [of bs] by simp
  then show "ds_deduplicated_size st \<le> ds_total_data_size st" if "length data < 2 ^ 64"
    using that by (simp add: st_def dedup_stats_def Let_def word_le_nat_alt unat_of_nat_u64)
qed

subsection \<open>Properties\<close>

text \<open>
  (C15) Chunk sizes, for every configuration the builder accepts: the chunks are the data, cut into pieces
  none of which is empty; each has at most the configured size, or four times the target for content-defined
  chunks, and every one but the last has the configured size, or at least a quarter of the target.
\<close>

theorem chunk_slices_bounds:
  assumes "ccb_build b = Ok cfg" "data \<noteq> []"
  shows "\<exists>cs. chunk_slices cfg data = Ok cs \<and> concat cs = data \<and>
    (\<forall>c \<in> set cs. c \<noteq> [] \<and> length c \<le> max_slice cfg) \<and> (\<forall>c \<in> set (butlast cs). min_slice cfg \<le> length c)"
proof -
  have c: "4 \<le> cc_chunk_size cfg" using ccb_build_bounds [OF assms(1)] by simp
  from chunk_slices_ok [OF c assms(2)] obtain cs where
    "chunk_slices cfg data = Ok cs" "concat cs = data" "\<forall>c \<in> set cs. c \<noteq> [] \<and> length c \<le> max_slice cfg" .
  with chunk_slices_min [OF c assms(2)] show ?thesis by blast
qed

theorem chunk_slices_bounds_witness:
  defines "cfg \<equiv> \<lparr>cc_chunk_size = 1024, cc_strategy = ContentDefined, cc_max_links_per_node = 174\<rparr>"
  shows "\<exists>cs. chunk_slices cfg (replicate 5000 7) = Ok cs \<and> concat cs = replicate 5000 7 \<and>
    (\<forall>c \<in> set cs. c \<noteq> [] \<and> length c \<le> 4096) \<and> (\<forall>c \<in> set (butlast cs). 256 \<le> length c)"
proof -
  have "ccb_build (ccb_set_strategy (ccb_set_chunk_size ccb_new 1024) ContentDefined) = Ok cfg"
    by (simp add: cfg_def ccb_build_def ccb_set_strategy_def ccb_set_chunk_size_def ccb_new_def unwrap_or_def check_chunk_size_def
        MIN_CHUNK_SIZE_def MAX_CHUNK_SIZE_def MAX_LINKS_PER_NODE_def)
  from chunk_slices_bounds [OF this, of "replicate 5000 7"] show ?thesis by (simp add: cfg_def max_slice_def min_slice_def)
qed

text \<open>
  (C14) The chunker always finishes: with at least two links per node, chunks that fit in a block and nodes
  that fit in a block, it returns a file for all data but the empty, as many levels as the data has bytes
  being enough; its statistics count the distinct chunks.
\<close>

theorem chunk_succeeds:
  assumes "cid_laws E" "fits E (cc_max_links_per_node cfg)" "4 \<le> cc_chunk_size cfg" "2 \<le> cc_max_links_per_node cfg"
    "max_slice cfg \<le> MAX_BLOCK_SIZE" "data \<noteq> []" "length data \<le> fuel"
  shows "\<exists>f. chunk fuel E cfg data = Ok f \<and> cf_total_size f = of_nat (length data) \<and>
    ds_unique_chunks (cf_dedup_stats f) + ds_reused_chunks (cf_dedup_stats f) = cf_chunk_count f"
proof (cases "length data \<le> cc_chunk_size cfg")
  case True
  then have "length data \<le> MAX_BLOCK_SIZE" using assms(5) by (auto simp: max_slice_def split: ChunkingStrategy.splits)
  then show ?thesis using True leaf_block_ok [OF assms(1), of data] assms(6) by (auto simp: chunk_def Suc_le_eq)
next
  case False
  from chunk_slices_ok [OF assms(3,6)] obtain cs where
    cs: "chunk_slices cfg data = Ok cs" "concat cs = data" "\<forall>c \<in> set cs. c \<noteq> [] \<and> length c \<le> max_slice cfg" .
  then obtain bs where bs: "omap_list (block_new E) cs = Ok bs"
    using leaf_blocks_ok [OF assms(1), of cs] assms(5) by (fastforce simp: Suc_le_eq)
  note d = chunk_dag [OF assms(6) _ cs(1) bs, of fuel]
  let ?ls = "map (\<lambda>b. dl_new (blk_cid b) (of_nat (length (blk_data b)))) bs"
  have n: "\<forall>l \<in> set ?ls. dl_name l = None" by (simp add: dl_new_def)
  have "build_dag fuel E (cc_max_links_per_node cfg) ?ls bs \<noteq> Err e" for e
    using build_dag_not_Err [OF assms(1,2) _ n] assms(4) by simp
  moreover have "chunk fuel E cfg data \<noteq> Diverge" "chunk fuel E cfg data \<noteq> Panic"
    by (rule chunk_total [OF assms(3,4,7)])+
  ultimately show ?thesis
    using False d dedup_stats_ok(2) [OF bs cs(2)]
    by (cases "build_dag fuel E (cc_max_links_per_node cfg) ?ls bs") (auto simp: dedup_stats_def Let_def split: list.splits)
qed

lemma fits_crate64: "64 + m * 81 \<le> MAX_BLOCK_SIZE \<Longrightarrow> fits crate64 m"
  unfolding fits_def by (rule exI [of _ 17]) (auto simp: crate64_def split: sum.splits)

theorem chunk_succeeds_witness:
  defines "cfg \<equiv> \<lparr>cc_chunk_size = 1024, cc_strategy = FixedSize, cc_max_links_per_node = 174\<rparr>"
  shows "\<exists>f. chunk 3000 crate64 cfg (replicate 3000 1) = Ok f \<and> cf_total_size f = 3000 \<and>
    ds_unique_chunks (cf_dedup_stats f) + ds_reused_chunks (cf_dedup_stats f) = cf_chunk_count f"
  using chunk_succeeds [OF cid_laws_crate64 fits_crate64, of cfg "replicate 3000 1" 3000]
  by (simp add: cfg_def max_slice_def MAX_BLOCK_SIZE_def)

text \<open>
  The number of links per node is not checked: a configuration with one link per node, which the
  builder accepts, makes the chunker build levels of the same length for ever as soon as the data takes two
  chunks.
\<close>

theorem chunk_one_link_diverges:
  assumes "cid_laws E" "fits E 1" "ccb_build b = Ok cfg" "cc_strategy cfg = FixedSize" "cc_max_links_per_node cfg = 1"
    "cc_chunk_size cfg < length data"
  shows "chunk fuel E cfg data = Diverge"
proof -
  have c: "4 \<le> cc_chunk_size cfg" "cc_chunk_size cfg \<le> MAX_BLOCK_SIZE" using ccb_build_bounds [OF assms(3)] by (auto simp: MAX_BLOCK_SIZE_def)
  have d: "data \<noteq> []" using assms(6) by auto
  from chunk_slices_ok [OF c(1) d] obtain cs where
    cs: "chunk_slices cfg data = Ok cs" "concat cs = data" "\<forall>c \<in> set cs. c \<noteq> [] \<and> length c \<le> max_slice cfg" .
  have m: "max_slice cfg = cc_chunk_size cfg" by (simp add: max_slice_def assms(4))
  obtain bs where bs: "omap_list (block_new E) cs = Ok bs"
    using leaf_blocks_ok [OF assms(1), of cs] cs(3) c(2) m by (fastforce simp: Suc_le_eq)
  have "2 \<le> length cs"
  proof (rule ccontr)
    assume "\<not> 2 \<le> length cs"
    then consider "cs = []" | c where "cs = [c]" by (cases cs rule: remdups_adj.cases) auto
    then show False using cs(2,3) m assms(6) by cases auto
  qed
  then show ?thesis
    unfolding chunk_dag [OF d assms(6) cs(1) bs] assms(5)
    using build_dag_one_link [OF assms(1,2)] omap_list_length [OF bs] by (simp add: dl_new_def)
qed

theorem chunk_one_link_diverges_witness:
  defines "cfg \<equiv> \<lparr>cc_chunk_size = 1024, cc_strategy = FixedSize, cc_max_links_per_node = 1\<rparr>"
  shows "\<forall>fuel. chunk fuel crate64 cfg (replicate 2000 1) = Diverge"
proof
  have "ccb_build (ccb_set_max_links_per_node (ccb_set_chunk_size ccb_new 1024) 1) = Ok cfg"
    by (simp add: cfg_def ccb_build_def ccb_set_max_links_per_node_def ccb_set_chunk_size_def ccb_new_def unwrap_or_def check_chunk_size_def
        MIN_CHUNK_SIZE_def MAX_CHUNK_SIZE_def)
  from chunk_one_link_diverges [OF cid_laws_crate64 fits_crate64 this, of "replicate 2000 1"]
  show "chunk fuel crate64 cfg (replicate 2000 1) = Diverge" for fuel by (simp add: cfg_def MAX_BLOCK_SIZE_def)
qed

end
