(* ===== verification/Dag_Reader.thy ===== *)
theory Dag_Reader
  imports Chunker
begin

text \<open>
  Reading blocks and trees of blocks (\<open>ipfrs-core/src/streaming.rs\<close>): the memory fetcher, the readers of one
  block, the stream of chunks and \<open>read_chunked_file\<close>.

  \<^item> A fetcher is any function from CIDs to results; the futures are awaited where they are made, so each
    \<open>await\<close> is a call.
  \<^item> The text of a \<open>BlockNotFound\<close> error, which prints the CID, is fixed.
  \<^item> The loops follow links, which may form an endless chain in what a fetcher returns; they take fuel.
\<close>

subsection \<open>Fetching\<close>

type_synonym 'c fetcher = "'c \<Rightarrow> (core_error, 'c Block) outcome"

record 'c MemoryBlockFetcher =
  mf_blocks :: "('c \<times> 'c Block) list"

definition mf_new :: "'c MemoryBlockFetcher" where
  "mf_new = \<lparr>mf_blocks = []\<rparr>"

definition mf_add_block :: "'c MemoryBlockFetcher \<Rightarrow> 'c Block \<Rightarrow> 'c MemoryBlockFetcher" where
  "mf_add_block mf block = mf\<lparr>mf_blocks := hm_insert (blk_cid block) block (mf_blocks mf)\<rparr>"

definition mf_add_blocks :: "'c MemoryBlockFetcher \<Rightarrow> 'c Block list \<Rightarrow> 'c MemoryBlockFetcher" where
  "mf_add_blocks mf blocks = foldl mf_add_block mf blocks"

definition mf_fetch :: "'c MemoryBlockFetcher \<Rightarrow> 'c fetcher" where
  "mf_fetch mf cid = ok_or (BlockNotFound ''cid'') (map_of (mf_blocks mf) cid)"

subsection \<open>Readers of one block\<close>

record BlockReader =
  br_data :: bytes
  br_position :: nat

definition br_from_bytes :: "bytes \<Rightarrow> BlockReader" where
  "br_from_bytes data = \<lparr>br_data = data, br_position = 0\<rparr>"

definition br_new :: "'c Block \<Rightarrow> BlockReader" where
  "br_new block = \<lparr>br_data = blk_data block, br_position = 0\<rparr>"

definition br_remaining :: "BlockReader \<Rightarrow> nat" where
  "br_remaining r = length (br_data r) - br_position r"

definition br_is_empty :: "BlockReader \<Rightarrow> bool" where
  "br_is_empty r \<longleftrightarrow> length (br_data r) \<le> br_position r"

definition br_len :: "BlockReader \<Rightarrow> nat" where
  "br_len r = length (br_data r)"

text \<open>\<open>read\<close> into a buffer: the reader, the bytes copied to the front of the buffer (the rest of it stays) and the count.\<close>

definition br_read :: "BlockReader \<Rightarrow> bytes \<Rightarrow> BlockReader \<times> bytes \<times> nat" where
  "br_read r buf =
     (if length (br_data r) \<le> br_position r then (r, buf, 0)
      else let remaining = drop (br_position r) (br_data r);
               to_read = min (length buf) (length remaining) in
           (r\<lparr>br_position := br_position r + to_read\<rparr>, take to_read remaining @ drop to_read buf, to_read))"

text \<open>
  \<open>AsyncBlockReader\<close> has the same state; \<open>poll_read\<close> appends to the filled part of a buffer of some capacity
  and is always ready.
\<close>

record ReadBuf =
  rb_filled :: bytes
  rb_capacity :: nat

definition abr_poll_read :: "BlockReader \<Rightarrow> ReadBuf \<Rightarrow> BlockReader \<times> ReadBuf" where
  "abr_poll_read r buf =
     (if length (br_data r) \<le> br_position r then (r, buf)
      else let remaining = drop (br_position r) (br_data r);
               to_read = min (rb_capacity buf - length (rb_filled buf)) (length remaining) in
           (r\<lparr>br_position := br_position r + to_read\<rparr>, buf\<lparr>rb_filled := rb_filled buf @ take to_read remaining\<rparr>))"

subsection \<open>Streams of chunks\<close>

datatype DagReaderState = Reading bytes nat | FetchingNext | Done

record 'c DagStreamReader =
  sr_state :: DagReaderState
  sr_pending_links :: "'c DagLink list"
  sr_total_read :: u64

definition sr_new :: "'c DagLink list \<Rightarrow> 'c DagStreamReader" where
  "sr_new root_links = \<lparr>sr_state = FetchingNext, sr_pending_links = root_links, sr_total_read = 0\<rparr>"

definition sr_from_node :: "'c DagNode \<Rightarrow> 'c DagStreamReader" where
  "sr_from_node node =
     (case dn_data node of
        Some data \<Rightarrow> \<lparr>sr_state = Reading data 0, sr_pending_links = [], sr_total_read = 0\<rparr>
      | None \<Rightarrow> sr_new (dn_links node))"

text \<open>The links of a decoded node; an entry without a CID and a size is passed over, and the size is cast to 64 bits.\<close>

fun new_links :: "'c Ipld list \<Rightarrow> 'c DagLink list" where
  "new_links [] = []"
| "new_links (link_ipld # rest) =
     (case link_ipld of
        Map link_map \<Rightarrow>
          (case (map_of link_map ''cid'', map_of link_map ''size'') of
             (Some (Link cid), Some (Integer sz)) \<Rightarrow> dl_new cid (word_of_int sz) # new_links rest
           | _ \<Rightarrow> new_links rest)
      | _ \<Rightarrow> new_links rest)"

text \<open>\<open>next_chunk\<close>: the links left, and the result of the call, \<open>None\<close> at the end of the stream.\<close>

fun next_chunk ::
    "nat \<Rightarrow> 'c cid_crate \<Rightarrow> 'c fetcher \<Rightarrow> 'c DagLink list \<Rightarrow> 'c DagLink list \<times> (core_error, bytes) outcome option" where
  "next_chunk fuel E fetch pending =
     (case pending of
        [] \<Rightarrow> ([], None)
      | l # pending' \<Rightarrow>
          (case fuel of
             0 \<Rightarrow> (pending, Some Diverge)
           | Suc fuel \<Rightarrow>
               (case fetch (dl_cid l) of
                  Ok block \<Rightarrow>
                    if cid_codec E (blk_cid block) = 0x55 then (pending', Some (Ok (blk_data block)))
                    else (case from_dag_cbor E (blk_data block) of
                            Ok (Map m) \<Rightarrow>
                              (let pending'' = (case map_of m ''links'' of Some (List ls) \<Rightarrow> new_links ls @ pending' | _ \<Rightarrow> pending') in
                               case map_of m ''data'' of
                                 Some (Bytes data) \<Rightarrow> (pending'', Some (Ok data))
                               | _ \<Rightarrow> next_chunk fuel E fetch pending'')
                          | Ok _ \<Rightarrow> next_chunk fuel E fetch pending'
                          | Err e \<Rightarrow> (pending', Some (Err e))
                          | Panic \<Rightarrow> (pending', Some Panic)
                          | Diverge \<Rightarrow> (pending', Some Diverge))
                | Err e \<Rightarrow> (pending', Some (Err e))
                | Panic \<Rightarrow> (pending', Some Panic)
                | Diverge \<Rightarrow> (pending', Some Diverge))))"

declare next_chunk.simps [simp del]

definition has_more :: "'c DagLink list \<Rightarrow> bool" where
  "has_more pending \<longleftrightarrow> pending \<noteq> []"

subsection \<open>Reading a file\<close>

definition read_link ::
    "'c cid_crate \<Rightarrow> 'c fetcher \<Rightarrow> bytes \<times> 'c Ipld list \<Rightarrow> 'c Ipld \<Rightarrow> (core_error, bytes \<times> 'c Ipld list) outcome" where
  "read_link E fetch = (\<lambda>(result, queue) link_ipld.
     case link_ipld of
       Map link_map \<Rightarrow>
         (case map_of link_map ''cid'' of
            Some (Link cid) \<Rightarrow>
              obind (fetch cid) (\<lambda>block.
                if cid_codec E (blk_cid block) = 0x55 then Ok (result @ blk_data block, queue)
                else obind (from_dag_cbor E (blk_data block)) (\<lambda>child_ipld. Ok (result, queue @ [child_ipld])))
          | _ \<Rightarrow> Ok (result, queue))
     | _ \<Rightarrow> Ok (result, queue))"

definition read_node ::
    "'c cid_crate \<Rightarrow> 'c fetcher \<Rightarrow> bytes \<Rightarrow> 'c Ipld list \<Rightarrow> 'c Ipld \<Rightarrow> (core_error, bytes \<times> 'c Ipld list) outcome" where
  "read_node E fetch result queue ipld =
     (case ipld of
        Map m \<Rightarrow>
          (let result = (case map_of m ''data'' of Some (Bytes data) \<Rightarrow> result @ data | _ \<Rightarrow> result) in
           case map_of m ''links'' of
             Some (List ls) \<Rightarrow> ofold (read_link E fetch) (result, queue) ls
           | _ \<Rightarrow> Ok (result, queue))
      | _ \<Rightarrow> Ok (result, queue))"

fun read_queue :: "nat \<Rightarrow> 'c cid_crate \<Rightarrow> 'c fetcher \<Rightarrow> bytes \<Rightarrow> 'c Ipld list \<Rightarrow> (core_error, bytes) outcome" where
  "read_queue fuel E fetch result [] = Ok result"
| "read_queue 0 E fetch result (ipld # queue) = Diverge"
| "read_queue (Suc fuel) E fetch result (ipld # queue) =
     obind (read_node E fetch result queue ipld) (\<lambda>(result, queue). read_queue fuel E fetch result queue)"

definition read_chunked_file :: "nat \<Rightarrow> 'c cid_crate \<Rightarrow> 'c fetcher \<Rightarrow> 'c \<Rightarrow> (core_error, bytes) outcome" where
  "read_chunked_file fuel E fetch root_cid =
     obind (fetch root_cid) (\<lambda>root_block.
       if cid_codec E (blk_cid root_block) = 0x55 then Ok (blk_data root_block)
       else obind (from_dag_cbor E (blk_data root_block)) (\<lambda>root_ipld. read_queue fuel E fetch [] [root_ipld]))"

subsection \<open>What a tree of blocks holds\<close>

lemma dl_to_ipld_unnamed:
  "dl_name l = None \<Longrightarrow> dl_to_ipld l = Map [(''cid'', Link (dl_cid l)), (''size'', Integer (uint (dl_size l)))]"
  by (simp add: dl_to_ipld_def)

lemma dn_to_ipld_intermediate:
  "dn_to_ipld (dn_intermediate ls) =
     Map [(''links'', List (map dl_to_ipld ls)), (''totalSize'', Integer (uint (sum_list (map dl_size ls))))]"
  by (simp add: dn_to_ipld_def dn_intermediate_def)

text \<open>
  \<open>covers E fetch k l d\<close>: the tree of height \<open>k\<close> at link \<open>l\<close> holds the data \<open>d\<close>. All its leaves have the same
  depth.
\<close>

primrec covers :: "'c cid_crate \<Rightarrow> 'c fetcher \<Rightarrow> nat \<Rightarrow> 'c DagLink \<Rightarrow> bytes \<Rightarrow> bool" where
  "covers E fetch 0 l d \<longleftrightarrow> (\<exists>b. fetch (dl_cid l) = Ok b \<and> cid_codec E (blk_cid b) = 0x55 \<and> blk_data b = d)"
| "covers E fetch (Suc k) l d \<longleftrightarrow>
     (\<exists>b ls ds. fetch (dl_cid l) = Ok b \<and> cid_codec E (blk_cid b) \<noteq> 0x55 \<and>
        from_dag_cbor E (blk_data b) = Ok (dn_to_ipld (dn_intermediate ls)) \<and>
        (\<forall>l \<in> set ls. dl_name l = None) \<and> list_all2 (covers E fetch k) ls ds \<and> d = concat ds)"

definition node_at :: "'c cid_crate \<Rightarrow> 'c fetcher \<Rightarrow> nat \<Rightarrow> 'c Ipld \<Rightarrow> bytes \<Rightarrow> bool" where
  "node_at E fetch k ipld d \<longleftrightarrow>
     (\<exists>ls ds. ipld = dn_to_ipld (dn_intermediate ls) \<and> (\<forall>l \<in> set ls. dl_name l = None) \<and>
        list_all2 (covers E fetch k) ls ds \<and> d = concat ds)"

lemma covers_Suc:
  "covers E fetch (Suc k) l d \<longleftrightarrow>
     (\<exists>b ipld. fetch (dl_cid l) = Ok b \<and> cid_codec E (blk_cid b) \<noteq> 0x55 \<and>
        from_dag_cbor E (blk_data b) = Ok ipld \<and> node_at E fetch k ipld d)"
  by (auto simp: node_at_def)

subsection \<open>Reading level by level\<close>

lemma read_link_leaf:
  "covers E fetch 0 l d \<Longrightarrow> dl_name l = None \<Longrightarrow> read_link E fetch (result, queue) (dl_to_ipld l) = Ok (result @ d, queue)"
  by (auto simp: read_link_def dl_to_ipld_unnamed)

lemma read_link_inner:
  "covers E fetch (Suc k) l d \<Longrightarrow> dl_name l = None \<Longrightarrow>
     \<exists>ipld. read_link E fetch (result, queue) (dl_to_ipld l) = Ok (result, queue @ [ipld]) \<and> node_at E fetch k ipld d"
  by (auto simp: read_link_def dl_to_ipld_unnamed covers_Suc simp del: covers.simps)

lemma read_node_intermediate:
  "read_node E fetch result queue (dn_to_ipld (dn_intermediate ls)) = ofold (read_link E fetch) (result, queue) (map dl_to_ipld ls)"
  by (simp add: read_node_def dn_to_ipld_intermediate)

lemma read_leaves:
  assumes "list_all2 (covers E fetch 0) ls ds" "\<forall>l \<in> set ls. dl_name l = None"
  shows "ofold (read_link E fetch) (result, queue) (map dl_to_ipld ls) = Ok (result @ concat ds, queue)"
  using assms by (induction arbitrary: result rule: list_all2_induct) (simp_all add: read_link_leaf del: covers.simps)

lemma read_inner:
  assumes "list_all2 (covers E fetch (Suc k)) ls ds" "\<forall>l \<in> set ls. dl_name l = None"
  shows "\<exists>cs. ofold (read_link E fetch) (result, queue) (map dl_to_ipld ls) = Ok (result, queue @ cs) \<and>
    list_all2 (node_at E fetch k) cs ds"
  using assms
proof (induction arbitrary: queue rule: list_all2_induct)
  case (Cons l ls d ds)
  from Cons.hyps(1) Cons.prems obtain ipld where
    i: "read_link E fetch (result, queue) (dl_to_ipld l) = Ok (result, queue @ [ipld])" "node_at E fetch k ipld d"
    using read_link_inner [of E fetch k l d result queue] by auto
  from Cons.IH [of "queue @ [ipld]"] Cons.prems obtain cs where
    "ofold (read_link E fetch) (result, queue @ [ipld]) (map dl_to_ipld ls) = Ok (result, (queue @ [ipld]) @ cs)"
    "list_all2 (node_at E fetch k) cs ds" by auto
  with i show ?case by (intro exI [of _ "ipld # cs"]) simp
qed simp

text \<open>The nodes of one level are replaced by those of the next, in order.\<close>

lemma read_level:
  assumes "list_all2 (node_at E fetch (Suc k)) as ds"
  shows "\<exists>cs es. list_all2 (node_at E fetch k) cs es \<and> concat es = concat ds \<and>
    (\<forall>fuel. read_queue (length as + fuel) E fetch result (as @ bs) = read_queue fuel E fetch result (bs @ cs))"
  using assms
proof (induction arbitrary: bs rule: list_all2_induct)
  case Nil
  show ?case by (intro exI [of _ "[]"]) simp
next
  case (Cons a as d ds)
  from Cons.hyps(1) obtain ls es where
    a: "a = dn_to_ipld (dn_intermediate ls)" "\<forall>l \<in> set ls. dl_name l = None" "list_all2 (covers E fetch (Suc k)) ls es" "d = concat es"
    by (auto simp: node_at_def simp del: covers.simps)
  from read_inner [OF a(3,2), of result "as @ bs"] obtain cs where
    cs: "ofold (read_link E fetch) (result, as @ bs) (map dl_to_ipld ls) = Ok (result, as @ bs @ cs)" "list_all2 (node_at E fetch k) cs es"
    by auto
  from Cons.IH [of "bs @ cs"] obtain cs' es' where
    r: "list_all2 (node_at E fetch k) cs' es'" "concat es' = concat ds"
      "\<And>fuel. read_queue (length as + fuel) E fetch result (as @ bs @ cs) = read_queue fuel E fetch result (bs @ cs @ cs')" by auto
  have "read_queue (length (a # as) + fuel) E fetch result ((a # as) @ bs) = read_queue fuel E fetch result (bs @ cs @ cs')" for fuel
    using cs(1) r(3) by (simp add: a(1) read_node_intermediate)
  moreover have "list_all2 (node_at E fetch k) (cs @ cs') (es @ es')" using cs(2) r(1) by (rule list_all2_appendI)
  ultimately show ?case using a(4) r(2) by (intro exI [of _ "cs @ cs'"] exI [of _ "es @ es'"]) simp
qed

lemma read_last_level:
  assumes "list_all2 (node_at E fetch 0) as ds"
  shows "read_queue (length as + fuel) E fetch result as = Ok (result @ concat ds)"
  using assms
proof (induction arbitrary: result rule: list_all2_induct)
  case (Cons a as d ds)
  then show ?case by (auto simp: node_at_def read_node_intermediate read_leaves simp del: covers.simps)
qed simp

lemma read_queue_settles:
  assumes "list_all2 (node_at E fetch k) as ds"
  shows "\<exists>N. \<forall>fuel. read_queue (N + fuel) E fetch result as = Ok (result @ concat ds)"
  using assms
proof (induction k arbitrary: as ds)
  case 0
  from read_last_level [OF this] show ?case by blast
next
  case (Suc k)
  from read_level [OF Suc.prems, of result "[]"] obtain cs es where
    c: "list_all2 (node_at E fetch k) cs es" "concat es = concat ds"
      "\<And>fuel. read_queue (length as + fuel) E fetch result as = read_queue fuel E fetch result cs" by auto
  from Suc.IH [OF c(1)] obtain N where "\<And>fuel. read_queue (N + fuel) E fetch result cs = Ok (result @ concat es)" by blast
  with c(2,3) show ?case by (intro exI [of _ "length as + N"]) (simp add: add.assoc)
qed

lemma read_chunked_file_covers:
  assumes "covers E fetch k l d"
  shows "settles (\<lambda>fuel. read_chunked_file fuel E fetch (dl_cid l)) (Ok d)"
proof (cases k)
  case 0
  then show ?thesis using assms by (auto simp: read_chunked_file_def)
next
  case (Suc j)
  then obtain b ipld where b: "fetch (dl_cid l) = Ok b" "cid_codec E (blk_cid b) \<noteq> 0x55"
      "from_dag_cbor E (blk_data b) = Ok ipld" "node_at E fetch j ipld d"
    using assms by (auto simp: covers_Suc simp del: covers.simps)
  from read_queue_settles [of E fetch j "[ipld]" "[d]" "[]"] b(4) obtain N where
    "\<And>fuel. read_queue (N + fuel) E fetch [] [ipld] = Ok d" by auto
  then have "read_queue fuel E fetch [] [ipld] = Ok d" if "N \<le> fuel" for fuel using that by (metis le_add_diff_inverse)
  then show ?thesis using b by (auto simp: read_chunked_file_def settles_def)
qed

subsection \<open>Reading depth first\<close>

text \<open>
  The calls of \<open>next_chunk\<close> until the stream ends: \<open>yields E fetch pending cs\<close> if enough fuel makes them return
  the chunks \<open>cs\<close> and then \<open>None\<close>.
\<close>

inductive yields :: "'c cid_crate \<Rightarrow> 'c fetcher \<Rightarrow> 'c DagLink list \<Rightarrow> bytes list \<Rightarrow> bool" for E fetch where
  yields_end: "settles (\<lambda>n. next_chunk n E fetch pending) (pending', None) \<Longrightarrow> yields E fetch pending []"
| yields_chunk: "settles (\<lambda>n. next_chunk n E fetch pending) (pending', Some (Ok c)) \<Longrightarrow> yields E fetch pending' cs \<Longrightarrow>
    yields E fetch pending (c # cs)"

inductive_cases yields_NilE: "yields E fetch [] cs"

lemma next_chunk_Nil [simp]: "next_chunk n E fetch [] = ([], None)"
  by (simp add: next_chunk.simps)

lemma settles_shift: "settles f r \<Longrightarrow> (\<And>n. g (Suc n) = f n) \<Longrightarrow> settles g r"
  unfolding settles_def by (metis Suc_le_D Suc_le_mono)

lemma yields_shift:
  assumes "yields E fetch pending cs" "\<And>n. next_chunk (Suc n) E fetch pending'' = next_chunk n E fetch pending"
  shows "yields E fetch pending'' cs"
  using assms(1)
proof cases
  case (yields_end pending')
  from settles_shift [OF yields_end(2) assms(2)] yields_end(1) show ?thesis by (auto intro: yields.yields_end)
next
  case (yields_chunk pending' c cs')
  from settles_shift [OF yields_chunk(2) assms(2)] yields_chunk(1,3) show ?thesis by (auto intro: yields.yields_chunk)
qed

lemma new_links_unnamed: "\<forall>l \<in> set ls. dl_name l = None \<Longrightarrow> new_links (map dl_to_ipld ls) = ls"
  by (induction ls) (simp_all add: dl_to_ipld_unnamed dl_new_def)

lemma next_chunk_leaf:
  "covers E fetch 0 l d \<Longrightarrow> next_chunk (Suc n) E fetch (l # pending) = (pending, Some (Ok d))"
  by (subst next_chunk.simps) auto

lemma next_chunk_inner:
  assumes "fetch (dl_cid l) = Ok b" "cid_codec E (blk_cid b) \<noteq> 0x55"
    "from_dag_cbor E (blk_data b) = Ok (dn_to_ipld (dn_intermediate ls))" "\<forall>l \<in> set ls. dl_name l = None"
  shows "next_chunk (Suc n) E fetch (l # pending) = next_chunk n E fetch (ls @ pending)"
  using assms by (subst next_chunk.simps) (simp add: dn_to_ipld_intermediate new_links_unnamed)

lemma yields_covers:
  assumes "covers E fetch k l d" "yields E fetch pending cs"
  shows "\<exists>cs'. yields E fetch (l # pending) (cs' @ cs) \<and> concat cs' = d"
  using assms
proof (induction k arbitrary: l d pending cs)
  case 0
  have "settles (\<lambda>n. next_chunk n E fetch (l # pending)) (pending, Some (Ok d))"
    by (rule settles_shift [OF settles_const]) (rule next_chunk_leaf [OF 0(1)])
  from yields_chunk [OF this 0(2)] show ?case by (intro exI [of _ "[d]"]) simp
next
  case (Suc k)
  from Suc.prems(1) obtain b ls ds where b: "fetch (dl_cid l) = Ok b" "cid_codec E (blk_cid b) \<noteq> 0x55"
      "from_dag_cbor E (blk_data b) = Ok (dn_to_ipld (dn_intermediate ls))" "\<forall>l \<in> set ls. dl_name l = None"
      "list_all2 (covers E fetch k) ls ds" "d = concat ds" by auto
  have "\<exists>cs'. yields E fetch (ls @ pending) (cs' @ cs) \<and> concat cs' = concat ds"
    using b(5)
  proof (induction rule: list_all2_induct)
    case Nil
    then show ?case using Suc.prems(2) by (intro exI [of _ "[]"]) simp
  next
    case (Cons l ls d ds)
    then obtain cs' where cs': "yields E fetch (ls @ pending) (cs' @ cs)" "concat cs' = concat ds" by blast
    from Suc.IH [OF Cons.hyps(1) cs'(1)] obtain cs'' where
      "yields E fetch (l # ls @ pending) (cs'' @ cs' @ cs)" "concat cs'' = d" by blast
    with cs'(2) show ?case by (intro exI [of _ "cs'' @ cs'"]) simp
  qed
  moreover have "next_chunk (Suc n) E fetch (l # pending) = next_chunk n E fetch (ls @ pending)" for n
    using b(1-4) by (rule next_chunk_inner)
  ultimately show ?case using yields_shift [of E fetch "ls @ pending" _ "l # pending"] b(6) by blast
qed

lemma yields_file: "covers E fetch k l d \<Longrightarrow> \<exists>cs. yields E fetch [l] cs \<and> concat cs = d"
  using yields_covers [of E fetch k l d "[]" "[]"] yields_end [of E fetch "[]" "[]"] by simp

subsection \<open>Fetchers and the chunker\<close>

definition codec_law :: "'c cid_crate \<Rightarrow> bool" where
  "codec_law E \<longleftrightarrow> (\<forall>codec h c. cid_new E V1 codec h = Some c \<longrightarrow> cid_codec E c = codec)"

lemma list_all2_chunks_of: "list_all2 P xs ys \<Longrightarrow> list_all2 (list_all2 P) (chunks_of n xs) (chunks_of n ys)"
proof (induction n xs arbitrary: ys rule: chunks_of.induct)
  case (1 n xs)
  show ?case
  proof (cases "n = 0 \<or> xs = []")
    case True
    then show ?thesis using "1.prems" by (auto simp: chunks_of.simps)
  next
    case False
    have "list_all2 P (take n xs) (take n ys)" "list_all2 P (drop n xs) (drop n ys)"
      using "1.prems" by (simp_all add: list_all2_takeI list_all2_dropI)
    moreover have "ys \<noteq> []" using False "1.prems" by auto
    ultimately show ?thesis using False "1.IH" by (simp add: chunks_of_simps(2))
  qed
qed

lemma dag_node_ok:
  assumes "cid_laws E" "cid_bytes_bounded E" "length ls * ipld_size E \<le> isize_max" "length ls < 2 ^ 64" "\<forall>l \<in> set ls. dl_name l = None"
  shows "ipld_ok E (dn_to_ipld (dn_intermediate ls))"
proof -
  have "ipld_ok E (dl_to_ipld l)" if "l \<in> set ls" for l
    using assms(5) that ipld_ok_Link [OF assms(1,2), of "dl_cid l"] ipld_ok_uint(1) [of E "dl_size l"]
    by (simp add: dl_to_ipld_unnamed valid_str_def of_char_def isize_max_def bt_ok_def del: ipld_ok.simps(3,9))
  then show ?thesis
    using assms(3,4) ipld_ok_uint(1) [of E "sum_list (map dl_size ls)"]
    by (simp add: dn_to_ipld_intermediate valid_str_def of_char_def isize_max_def bt_ok_def list_all_iff del: ipld_ok.simps(3))
qed

lemma concat_map_concat: "concat (map concat xss) = concat (concat xss)"
  by (induction xss) simp_all

lemma build_dag_step:
  assumes "build_dag (Suc fuel) E m ls bs = Ok (ls', bs')" "\<not> length ls \<le> 1"
  obtains level where "omap_list (level_node E) (chunks_of m ls) = Ok level"
    "build_dag fuel E m (map fst level) (bs @ map snd level) = Ok (ls', bs')"
  using assms by (subst (asm) build_dag.simps) (auto simp: slice_chunks_def obind_eq_Ok split: if_splits)

lemma build_dag_done: "build_dag fuel E m ls bs = Ok (ls', bs') \<Longrightarrow> fuel = 0 \<or> length ls \<le> 1 \<Longrightarrow> ls' = ls \<and> bs' = bs"
  by (subst (asm) build_dag.simps) (auto split: if_splits)

lemma build_dag_blocks: "build_dag fuel E m ls bs = Ok (ls', bs') \<Longrightarrow> set bs \<subseteq> set bs'"
proof (induction fuel arbitrary: ls bs)
  case 0
  from build_dag_done [OF this] show ?case by simp
next
  case (Suc fuel)
  show ?case
  proof (cases "length ls \<le> 1")
    case True
    with build_dag_done [OF Suc.prems] show ?thesis by simp
  next
    case False
    from build_dag_step [OF Suc.prems False] show ?thesis using Suc.IH by (metis Un_subset_iff set_append)
  qed
qed

text \<open>What a client of a fetcher relies on: the blocks it holds are found under their CIDs.\<close>

locale block_fetcher =
  fixes fetch :: "'c fetcher" and stored :: "'c Block \<Rightarrow> bool"
  assumes fetch_stored: "stored b \<Longrightarrow> fetch (blk_cid b) = Ok b"
begin

lemma leaf_covers:
  assumes "codec_law E" "block_new E d = Ok b" "stored b"
  shows "covers E fetch 0 (dl_new (blk_cid b) sz) d"
proof -
  have "cid_new E V1 0x55 (mh_digest E Sha256 d) = Some (blk_cid b)" "blk_data b = d"
    using assms(2) by (auto simp: block_new_def cb_build_def cb_new_def obind_eq_Ok Let_def)
  then show ?thesis using fetch_stored [OF assms(3)] assms(1) by (auto simp: codec_law_def dl_new_def)
qed

lemma leaves_cover:
  assumes "codec_law E" "omap_list (block_new E) ds = Ok bs" "\<forall>b \<in> set bs. stored b"
  shows "list_all2 (covers E fetch 0) (map (\<lambda>b. dl_new (blk_cid b) (of_nat (length (blk_data b)))) bs) ds"
  using assms(2,3)
proof (induction ds arbitrary: bs)
  case (Cons d ds)
  then obtain b bs' where "bs = b # bs'" "block_new E d = Ok b" "omap_list (block_new E) ds = Ok bs'" by (auto simp: obind_eq_Ok)
  with Cons show ?case using leaf_covers [OF assms(1)] by (simp del: covers.simps)
qed simp

lemma level_covers:
  assumes E: "cid_laws E" "codec_law E" "cid_bytes_bounded E"
    and ls: "length ls * ipld_size E \<le> isize_max" "length ls < 2 ^ 64" "\<forall>l \<in> set ls. dl_name l = None"
    and c: "list_all2 (covers E fetch k) ls ds" "level_node E ls = Ok (l, b)" "stored b"
  shows "covers E fetch (Suc k) l (concat ds) \<and> dl_name l = None"
proof -
  have "cid_new E V1 0x71 (mh_digest E Sha256 (blk_data b)) = Some (blk_cid b)"
    and b: "blk_data b = encode_dag_cbor E (dn_to_ipld (dn_intermediate ls))" "dl_cid l = blk_cid b" "dl_name l = None"
    using c(2) by (auto simp: level_node_def dn_to_dag_cbor_def to_dag_cbor_def bb_build_def cb_build_def bb_codec_def bb_new_def
        cb_new_def cb_set_codec_def codec_DAG_CBOR_def dl_new_def obind_eq_Ok Let_def split: if_splits)
  then have codec: "cid_codec E (blk_cid b) = 0x71" using E(2) by (auto simp: codec_law_def)
  from from_dag_cbor_encode [OF dag_node_ok [OF E(1,3) ls], of "[]"] show ?thesis
    using fetch_stored [OF c(3)] codec b ls(3) c(1) by auto
qed

text \<open>A level of nodes above links that cover the data covers the data.\<close>

lemma nodes_cover:
  assumes E: "cid_laws E" "codec_law E" "cid_bytes_bounded E"
    and "m * ipld_size E \<le> isize_max" "m < 2 ^ 64"
    and "\<forall>g \<in> set gs. length g \<le> m \<and> (\<forall>l \<in> set g. dl_name l = None)"
    and "list_all2 (list_all2 (covers E fetch k)) gs dss" "omap_list (level_node E) gs = Ok level" "\<forall>r \<in> set level. stored (snd r)"
  shows "list_all2 (covers E fetch (Suc k)) (map fst level) (map concat dss) \<and> (\<forall>l \<in> set (map fst level). dl_name l = None)"
  using assms(7,6,8,9)
proof (induction arbitrary: level rule: list_all2_induct)
  case (Cons g gs ds dss)
  from Cons.prems(2) obtain l b level' where
    l: "level = (l, b) # level'" "level_node E g = Ok (l, b)" "omap_list (level_node E) gs = Ok level'" by (auto simp: obind_eq_Ok)
  have "length g * ipld_size E \<le> m * ipld_size E" "length g \<le> m" using Cons.prems(1) by simp_all
  then have "length g * ipld_size E \<le> isize_max" "length g < 2 ^ 64" using assms(4,5) by linarith+
  with level_covers [OF E this _ Cons.hyps(1) l(2)] Cons.IH [OF _ l(3)] Cons.prems(1,3) l(1) show ?case by (simp del: covers.simps)
qed simp

lemma build_dag_covers:
  assumes E: "cid_laws E" "codec_law E" "cid_bytes_bounded E"
    and m: "1 \<le> m" "m * ipld_size E \<le> isize_max" "m < 2 ^ 64"
    and "build_dag fuel E m ls bs = Ok (ls', bs')" "\<forall>b \<in> set bs'. stored b"
    and "list_all2 (covers E fetch k) ls ds" "\<forall>l \<in> set ls. dl_name l = None"
  shows "\<exists>k' ds'. list_all2 (covers E fetch k') ls' ds' \<and> concat ds' = concat ds"
  using assms(7-)
proof (induction fuel arbitrary: k ls bs ds)
  case 0
  with build_dag_done [OF 0(1)] show ?case by blast
next
  case (Suc fuel)
  show ?case
  proof (cases "length ls \<le> 1")
    case True
    with build_dag_done [OF Suc.prems(1)] Suc.prems show ?thesis by blast
  next
    case False
    from build_dag_step [OF Suc.prems(1) this] obtain level where
      level: "omap_list (level_node E) (chunks_of m ls) = Ok level" "build_dag fuel E m (map fst level) (bs @ map snd level) = Ok (ls', bs')" .
    have g: "\<forall>g \<in> set (chunks_of m ls). length g \<le> m \<and> (\<forall>l \<in> set g. dl_name l = None)"
      using Suc.prems(4) chunks_of_sizes [of _ m ls] set_chunks_of [of m _ ls] m(1) by fastforce
    have st: "\<forall>r \<in> set level. stored (snd r)" using build_dag_blocks [OF level(2)] Suc.prems(2) by auto
    have c: "list_all2 (covers E fetch (Suc k)) (map fst level) (map concat (chunks_of m ds))"
      "\<forall>l \<in> set (map fst level). dl_name l = None"
      using nodes_cover [OF E m(2,3) g list_all2_chunks_of [OF Suc.prems(3)] level(1) st] by blast+
    have "concat (map concat (chunks_of m ds)) = concat ds"
      using concat_chunks_of [of m ds] m(1) by (simp add: concat_map_concat)
    with Suc.IH [OF level(2) Suc.prems(2) c] show ?thesis by simp
  qed
qed

lemma chunk_covers:
  assumes E: "cid_laws E" "codec_law E" "cid_bytes_bounded E"
    and m: "2 \<le> cc_max_links_per_node cfg" "cc_max_links_per_node cfg * ipld_size E \<le> isize_max" "cc_max_links_per_node cfg < 2 ^ 64"
    and c: "4 \<le> cc_chunk_size cfg" "length data \<le> fuel" "chunk fuel E cfg data = Ok f" "\<forall>b \<in> set (cf_blocks f). stored b"
  shows "\<exists>k. covers E fetch k (dl_new (cf_root_cid f) (cf_total_size f)) data"
proof (cases "length data \<le> cc_chunk_size cfg")
  case True
  with c(3) obtain b where "block_new E data = Ok b" "cf_blocks f = [b]" "cf_root_cid f = blk_cid b"
    by (auto simp: chunk_def obind_eq_Ok split: if_splits)
  then show ?thesis using leaf_covers [OF E(2)] c(4) by (intro exI [of _ 0]) simp
next
  case False
  then have d: "data \<noteq> []" "cc_chunk_size cfg < length data" by auto
  from chunk_slices_ok [OF c(1) d(1)] obtain cs where
    cs: "chunk_slices cfg data = Ok cs" "concat cs = data" "\<forall>c \<in> set cs. c \<noteq> [] \<and> length c \<le> max_slice cfg" .
  with c(3) d obtain bs where bs: "omap_list (block_new E) cs = Ok bs" by (auto simp: chunk_def obind_eq_Ok)
  let ?ls = "map (\<lambda>b. dl_new (blk_cid b) (of_nat (length (blk_data b)))) bs"
  have "?ls \<noteq> []" "length ?ls \<le> Suc fuel" using omap_list_length [OF bs] cs(2,3) d(1) length_slices [of cs] c(2) by auto
  note total = build_dag_total [OF m(1) this, of E bs]
  obtain ls' bs' where ls': "build_dag fuel E (cc_max_links_per_node cfg) ?ls bs = Ok (ls', bs')"
    using c(3) unfolding chunk_dag [OF d cs(1) bs] by (auto simp: obind_eq_Ok)
  with total obtain l where "ls' = [l]" by (auto simp: length_Suc_conv)
  with ls' c(3) have l: "build_dag fuel E (cc_max_links_per_node cfg) ?ls bs = Ok ([l], cf_blocks f)" "cf_root_cid f = dl_cid l"
    unfolding chunk_dag [OF d cs(1) bs] by auto
  have "\<forall>b \<in> set bs. stored b" using build_dag_blocks [OF l(1)] c(4) by blast
  from build_dag_covers [OF E _ m(2,3) l(1) c(4) leaves_cover [OF E(2) bs this]] m(1)
  obtain k' ds' where "list_all2 (covers E fetch k') [l] ds'" "concat ds' = data" using cs(2) by (auto simp: dl_new_def)
  then have "covers E fetch k' l data" by (auto simp: list_all2_Cons1)
  moreover have "covers E fetch k' l data \<longleftrightarrow> covers E fetch k' (dl_new (cf_root_cid f) (cf_total_size f)) data"
    using l(2) by (cases k') (simp_all add: dl_new_def)
  ultimately show ?thesis by blast
qed

end

subsection \<open>The memory fetcher\<close>

definition mf_stored :: "'c MemoryBlockFetcher \<Rightarrow> 'c Block \<Rightarrow> bool" where
  "mf_stored mf b \<longleftrightarrow> map_of (mf_blocks mf) (blk_cid b) = Some b"

interpretation memory: block_fetcher "mf_fetch mf" "mf_stored mf" for mf
  by unfold_locales (simp add: mf_fetch_def mf_stored_def)

lemma mf_add_blocks_get:
  "map_of (mf_blocks (mf_add_blocks mf bs)) c = (case find (\<lambda>b. blk_cid b = c) (rev bs) of Some b \<Rightarrow> Some b | None \<Rightarrow> map_of (mf_blocks mf) c)"
  unfolding mf_add_blocks_def
  by (induction bs rule: rev_induct) (auto simp: mf_add_block_def)

text \<open>Without two blocks under one CID, every block that was added is found.\<close>

lemma mf_add_blocks_stored:
  assumes "inj_on blk_cid (set bs)" "b \<in> set bs"
  shows "mf_stored (mf_add_blocks mf bs) b"
proof (cases "find (\<lambda>b'. blk_cid b' = blk_cid b) (rev bs)")
  case None
  then show ?thesis using assms(2) by (auto simp: find_None_iff)
next
  case (Some b')
  then have "b' \<in> set bs" "blk_cid b' = blk_cid b" by (auto simp: find_Some_iff set_conv_nth rev_nth)
  then have "b' = b" using assms by (auto dest: inj_onD)
  with Some show ?thesis by (simp add: mf_stored_def mf_add_blocks_get)
qed

lemma codec_law_crate64: "codec_law crate64"
  by (auto simp: codec_law_def crate64_def)

subsection \<open>Readers of one block\<close>

text \<open>Successive reads return the data in order, until nothing is left.\<close>

fun read_times :: "BlockReader \<Rightarrow> nat list \<Rightarrow> bytes" where
  "read_times r [] = []"
| "read_times r (n # ns) = (case br_read r (replicate n 0) of (r, buf, k) \<Rightarrow> take k buf @ read_times r ns)"

lemma read_times_spec: "br_position r \<le> length (br_data r) \<Longrightarrow> read_times r ns = take (sum_list ns) (drop (br_position r) (br_data r))"
proof (induction ns arbitrary: r)
  case (Cons n ns)
  let ?rest = "drop (br_position r) (br_data r)" and ?k = "min n (length (br_data r) - br_position r)"
  show ?case
  proof (cases "length (br_data r) \<le> br_position r")
    case True
    then show ?thesis using Cons.IH [of r] Cons.prems by (simp add: br_read_def)
  next
    case False
    have "read_times (r\<lparr>br_position := br_position r + ?k\<rparr>) ns = take (sum_list ns) (drop ?k ?rest)"
      using Cons.IH [of "r\<lparr>br_position := br_position r + ?k\<rparr>"] Cons.prems by (simp add: add.commute)
    moreover have "take ?k ?rest @ take (sum_list ns) (drop ?k ?rest) = take (n + sum_list ns) ?rest"
      by (cases "n \<le> length ?rest") (simp_all add: take_add min_def)
    moreover have "br_read r (replicate n 0) = (r\<lparr>br_position := br_position r + ?k\<rparr>, take ?k ?rest @ drop ?k (replicate n 0), ?k)"
      using False by (simp add: br_read_def Let_def)
    ultimately show ?thesis by simp
  qed
qed simp

subsection \<open>Properties\<close>

text \<open>
  (C13) Round trip of a file: when no two of its blocks share a CID, a memory fetcher that was given the blocks
  of a chunked file returns the data of the file from its root, both level by level and through the stream.
\<close>

theorem chunk_read_roundtrip:
  assumes "cid_laws E" "codec_law E" "cid_bytes_bounded E"
    and "2 \<le> cc_max_links_per_node cfg" "cc_max_links_per_node cfg * ipld_size E \<le> isize_max" "cc_max_links_per_node cfg < 2 ^ 64"
    and "4 \<le> cc_chunk_size cfg" "length data \<le> fuel" "chunk fuel E cfg data = Ok f" "inj_on blk_cid (set (cf_blocks f))"
  defines "mf \<equiv> mf_add_blocks mf_new (cf_blocks f)"
  shows "settles (\<lambda>n. read_chunked_file n E (mf_fetch mf) (cf_root_cid f)) (Ok data) \<and>
    (\<exists>cs. yields E (mf_fetch mf) [dl_new (cf_root_cid f) (cf_total_size f)] cs \<and> concat cs = data)"
proof -
  have "\<forall>b \<in> set (cf_blocks f). mf_stored mf b" unfolding mf_def using mf_add_blocks_stored [OF assms(10)] by blast
  from memory.chunk_covers [OF assms(1-9) this] obtain k where
    "covers E (mf_fetch mf) k (dl_new (cf_root_cid f) (cf_total_size f)) data" by blast
  from read_chunked_file_covers [OF this] yields_file [OF this] show ?thesis by (simp add: dl_new_def)
qed

text \<open>A file of two chunks and their node.\<close>

definition digest64 :: "bytes \<Rightarrow> u64" where
  "digest64 d = of_nat (from_be (mh_digest crate64 Sha256 d))"

lemma cid_new_crate64: "cid_new crate64 V1 codec (mh_digest crate64 Sha256 d) = Some (Inr (codec, digest64 d))"
  by (simp add: digest64_def crate64_def)

lemma block_new_crate64:
  "1 \<le> length d \<Longrightarrow> length d \<le> MAX_BLOCK_SIZE \<Longrightarrow> block_new crate64 d = Ok \<lparr>blk_cid = Inr (0x55, digest64 d), blk_data = d\<rparr>"
  by (simp add: block_new_def cb_build_def cb_new_def validate_size_in_range cid_new_crate64)

lemma level_node_crate64:
  assumes "length ls \<le> 100" "\<forall>l \<in> set ls. dl_name l = None"
  defines "d \<equiv> encode_dag_cbor crate64 (dn_to_ipld (dn_intermediate ls))"
  shows "level_node crate64 ls = Ok (dl_new (Inr (0x71, digest64 d)) (dn_total_size (dn_intermediate ls)), \<lparr>blk_cid = Inr (0x71, digest64 d), blk_data = d\<rparr>)"
proof -
  have "length (cid_to_bytes crate64 c) \<le> 17" for c by (auto simp: crate64_def split: sum.splits)
  from length_node_encoding [OF this assms(2)] have "length d \<le> MAX_BLOCK_SIZE"
    using assms(1) by (simp add: d_def MAX_BLOCK_SIZE_def)
  moreover have "1 \<le> length d" unfolding d_def by (rule encode_nonempty)
  ultimately show ?thesis
    by (simp add: level_node_def dn_to_dag_cbor_def to_dag_cbor_def bb_build_def cb_build_def bb_codec_def bb_new_def cb_new_def
        cb_set_codec_def codec_DAG_CBOR_def validate_size_in_range cid_new_crate64 flip: d_def)
qed

lemma chunk_two_leaves:
  "\<exists>f. chunk 5 crate64 \<lparr>cc_chunk_size = 4, cc_strategy = FixedSize, cc_max_links_per_node = 2\<rparr> [1, 2, 3, 4, 5] = Ok f \<and>
     inj_on blk_cid (set (cf_blocks f))"
proof -
  have "digest64 [1, 2, 3, 4] \<noteq> digest64 [5]" by (simp add: digest64_def crate64_def from_be_bytes_id)
  then show ?thesis
    by (simp add: chunk_def chunk_slices_def slice_chunks_def chunks_of.simps block_new_crate64 MAX_BLOCK_SIZE_def
        level_node_crate64 build_dag.simps [of 5] build_dag.simps [of 4] Let_def dl_new_def)
qed

theorem chunk_read_roundtrip_witness:
  "\<exists>f :: (u64 + u64 \<times> u64) ChunkedFile.
     settles (\<lambda>n. read_chunked_file n crate64 (mf_fetch (mf_add_blocks mf_new (cf_blocks f))) (cf_root_cid f)) (Ok [1, 2, 3, 4, 5]) \<and>
     (\<exists>cs. yields crate64 (mf_fetch (mf_add_blocks mf_new (cf_blocks f))) [dl_new (cf_root_cid f) (cf_total_size f)] cs \<and>
       concat cs = [1, 2, 3, 4, 5])"
proof -
  from chunk_two_leaves obtain f where
    f: "chunk 5 crate64 \<lparr>cc_chunk_size = 4, cc_strategy = FixedSize, cc_max_links_per_node = 2\<rparr> [1, 2, 3, 4, 5] = Ok f"
      "inj_on blk_cid (set (cf_blocks f))" by blast
  have "2 * ipld_size crate64 \<le> isize_max" by (simp add: crate64_def isize_max_def)
  with chunk_read_roundtrip [OF cid_laws_crate64 codec_law_crate64 cid_bytes_bounded_crate64 _ _ _ _ _ f] show ?thesis
    by (intro exI [of _ f]) simp
qed

text \<open>
  The two readers disagree on a tree whose leaves have different depths: of a node that links to another node
  and then to a leaf, the stream returns the bytes below the inner node first, \<open>read_chunked_file\<close> last.
\<close>

definition mixed_fetch :: "(u64 + u64 \<times> u64) fetcher" where
  "mixed_fetch c =
     (let leaf = (\<lambda>h. dl_new (Inr (0x55, h)) 1);
          node = (\<lambda>h ls. Ok \<lparr>blk_cid = Inr (0x71, h), blk_data = encode_dag_cbor crate64 (dn_to_ipld (dn_intermediate ls))\<rparr>) in
      if c = Inr (0x71, 0) then node 0 [dl_new (Inr (0x71, 1)) 1, leaf 2]
      else if c = Inr (0x71, 1) then node 1 [leaf 1]
      else if c = Inr (0x55, 1) then Ok \<lparr>blk_cid = c, blk_data = [1]\<rparr>
      else Ok \<lparr>blk_cid = c, blk_data = [2]\<rparr>)"

lemma ipld_ok_unnamed_node:
  assumes "\<forall>l \<in> set ls. dl_name l = None" "length ls \<le> 100"
  shows "from_dag_cbor crate64 (encode_dag_cbor crate64 (dn_to_ipld (dn_intermediate ls)) :: bytes) = Ok (dn_to_ipld (dn_intermediate ls))"
proof -
  have "length ls * ipld_size crate64 \<le> isize_max" "length ls < 2 ^ 64" using assms(2) by (simp_all add: crate64_def isize_max_def)
  from from_dag_cbor_encode [OF dag_node_ok [OF cid_laws_crate64 cid_bytes_bounded_crate64 this assms(1)], of "[]"] show ?thesis by simp
qed

lemma yields_leaf: "covers E fetch 0 l d \<Longrightarrow> yields E fetch pending cs \<Longrightarrow> yields E fetch (l # pending) (d # cs)"
  by (rule yields_chunk [OF settles_shift [OF settles_const]]) (rule next_chunk_leaf)

lemma read_orders_differ:
  "read_chunked_file 2 crate64 mixed_fetch (Inr (0x71, 0)) = Ok [2, 1]"
  "yields crate64 mixed_fetch [dl_new (Inr (0x71, 0)) 2] [[1], [2]]"
proof -
  let ?l = "\<lambda>h. dl_new (Inr (0x55, h)) 1 :: (u64 + u64 \<times> u64) DagLink" and ?n = "dl_new (Inr (0x71, 1)) 1"
  have names: "\<forall>l \<in> set [?n, ?l 2]. dl_name l = None" "\<forall>l \<in> set [?l 1]. dl_name l = None" by (simp_all add: dl_new_def)
  let ?root = "\<lparr>blk_cid = Inr (0x71, 0), blk_data = encode_dag_cbor crate64 (dn_to_ipld (dn_intermediate [?n, ?l 2]))\<rparr>"
    and ?inner = "\<lparr>blk_cid = Inr (0x71, 1), blk_data = encode_dag_cbor crate64 (dn_to_ipld (dn_intermediate [?l 1]))\<rparr>"
  have f: "mixed_fetch (Inr (0x71, 0)) = Ok ?root" "mixed_fetch (Inr (0x71, 1)) = Ok ?inner"
    by (simp_all add: mixed_fetch_def)
  have d: "from_dag_cbor crate64 (blk_data ?root) = Ok (dn_to_ipld (dn_intermediate [?n, ?l 2]))"
    "from_dag_cbor crate64 (blk_data ?inner) = Ok (dn_to_ipld (dn_intermediate [?l 1]))"
    using ipld_ok_unnamed_node [OF names(1)] ipld_ok_unnamed_node [OF names(2)] by simp_all
  have codec: "cid_codec crate64 (blk_cid ?root) \<noteq> 0x55" "cid_codec crate64 (blk_cid ?inner) \<noteq> 0x55" by (simp_all add: crate64_def)
  have l: "covers crate64 mixed_fetch 0 (?l 1) [1]" "covers crate64 mixed_fetch 0 (?l 2) [2]"
    by (simp_all add: mixed_fetch_def dl_new_def crate64_def)
  have n: "read_link crate64 mixed_fetch (r, q) (dl_to_ipld ?n) = Ok (r, q @ [dn_to_ipld (dn_intermediate [?l 1])])" for r q
    using f(2) d(2) codec(2) names(1) by (simp add: read_link_def dl_to_ipld_unnamed) (simp add: dl_new_def)
  have "read_queue 2 crate64 mixed_fetch [] [dn_to_ipld (dn_intermediate [?n, ?l 2])] = Ok [2, 1]"
    using n read_link_leaf [OF l(1)] read_link_leaf [OF l(2)] names by (simp add: numeral_2_eq_2 read_node_intermediate)
  then show "read_chunked_file 2 crate64 mixed_fetch (Inr (0x71, 0)) = Ok [2, 1]"
    using f(1) d(1) codec(1) by (simp add: read_chunked_file_def)
  have "yields crate64 mixed_fetch [?l 1, ?l 2] [[1], [2]]"
    using yields_leaf [OF l(1) yields_leaf [OF l(2)]] yields_end [of crate64 mixed_fetch "[]" "[]"] by simp
  then have "yields crate64 mixed_fetch [?n, ?l 2] [[1], [2]]"
    by (rule yields_shift) (use next_chunk_inner [OF _ codec(2) d(2) names(2)] f(2) in \<open>simp add: dl_new_def\<close>)
  then show "yields crate64 mixed_fetch [dl_new (Inr (0x71, 0)) 2] [[1], [2]]"
    by (rule yields_shift) (use next_chunk_inner [OF _ codec(1) d(1) names(1)] f(1) in \<open>simp add: dl_new_def\<close>)
qed

end
