(* ===== verification/Raft.thy ===== *)
theory Raft
  imports Block_Store
begin

text \<open>
  The consensus node of the storage crate (\<open>ipfrs-storage/src/raft.rs\<close>): the handlers of both remote calls, the
  election timer, the loop that applies committed commands to the block store, and the append of a leader.

  \<^item> Terms, indices and node numbers are 64-bit words; \<open>+= 1\<close> wraps, as in a release build.
  \<^item> A handler holds the lock of the persistent state to its end, so it is one step; handlers and the applier run in
    one task. The timer is a task of its own that takes and releases a lock for each access, so a round of it is up to
    five steps, between which the other task may run.
  \<^item> A reading of the clock and a draw of the random generator are arguments. Channels hand over one message
    and one response; that nobody waits for a response is not an error.
\<close>

subsection \<open>State and messages\<close>

type_synonym node_id = u64
type_synonym raft_term = u64
type_synonym log_index = u64

datatype NodeState = Follower | Candidate | Leader

datatype Command = Put bytes bytes | Delete bytes | NoOp

record LogEntry =
  le_term :: raft_term
  le_index :: log_index
  le_command :: Command

record AppendEntriesRequest =
  ae_term :: raft_term
  ae_leader_id :: node_id
  ae_prev_log_index :: log_index
  ae_prev_log_term :: raft_term
  ae_entries :: "LogEntry list"
  ae_leader_commit :: log_index

record AppendEntriesResponse =
  ar_term :: raft_term
  ar_success :: bool
  ar_conflict_index :: "log_index option"

record RequestVoteRequest =
  rv_term :: raft_term
  rv_candidate_id :: node_id
  rv_last_log_index :: log_index
  rv_last_log_term :: raft_term

record RequestVoteResponse =
  vr_term :: raft_term
  vr_vote_granted :: bool

record RaftConfig =
  rcf_heartbeat_interval :: duration
  rcf_election_timeout_min :: duration
  rcf_election_timeout_max :: duration
  rcf_max_entries_per_append :: nat

definition raft_config_default :: RaftConfig where
  "raft_config_default =
     \<lparr>rcf_heartbeat_interval = from_millis 50, rcf_election_timeout_min = from_millis 150,
      rcf_election_timeout_max = from_millis 300, rcf_max_entries_per_append = 100\<rparr>"

record PersistentState =
  pst_current_term :: raft_term
  pst_voted_for :: "node_id option"

definition pst_default :: PersistentState where
  "pst_default = \<lparr>pst_current_term = 0, pst_voted_for = None\<rparr>"

record VolatileState =
  vol_commit_index :: log_index
  vol_last_applied :: log_index

definition vol_default :: VolatileState where
  "vol_default = \<lparr>vol_commit_index = 0, vol_last_applied = 0\<rparr>"

record LeaderState =
  ls_next_index :: "(node_id \<times> log_index) list"
  ls_match_index :: "(node_id \<times> log_index) list"

record 'k RaftNode =
  rn_id :: node_id
  rn_peers :: "node_id list"
  rn_state :: NodeState
  rn_persistent :: PersistentState
  rn_volatile :: VolatileState
  rn_leader_state :: "LeaderState option"
  rn_log :: "LogEntry list"
  rn_store :: 'k
  rn_config :: RaftConfig
  rn_last_heartbeat :: instant
  rn_current_leader :: "node_id option"
  rn_receiver :: bool

datatype RpcMessage = AppendEntries AppendEntriesRequest | RequestVote RequestVoteRequest

datatype RpcResponse = AppendEntriesReply AppendEntriesResponse | RequestVoteReply RequestVoteResponse

definition rn_new :: "instant \<Rightarrow> node_id \<Rightarrow> node_id list \<Rightarrow> 'k \<Rightarrow> RaftConfig \<Rightarrow> (core_error, 'k RaftNode) outcome" where
  "rn_new now i peers store config =
     Ok \<lparr>rn_id = i, rn_peers = peers, rn_state = Follower, rn_persistent = pst_default, rn_volatile = vol_default,
         rn_leader_state = None, rn_log = [], rn_store = store, rn_config = config, rn_last_heartbeat = now,
         rn_current_leader = None, rn_receiver = True\<rparr>"

text \<open>The persistent term and vote; \<open>set_term\<close> is what both handlers do on a higher term.\<close>

abbreviation rn_term :: "'k RaftNode \<Rightarrow> raft_term" where
  "rn_term n \<equiv> pst_current_term (rn_persistent n)"

abbreviation rn_voted_for :: "'k RaftNode \<Rightarrow> node_id option" where
  "rn_voted_for n \<equiv> pst_voted_for (rn_persistent n)"

definition see_term :: "raft_term \<Rightarrow> 'k RaftNode \<Rightarrow> 'k RaftNode" where
  "see_term t n =
     (if rn_term n < t then n\<lparr>rn_persistent := \<lparr>pst_current_term = t, pst_voted_for = None\<rparr>, rn_state := Follower\<rparr>
      else n)"

subsection \<open>AppendEntries\<close>

text \<open>The search for the first index of the conflicting term starts at the end of the log.\<close>

fun conflict_loop :: "raft_term \<Rightarrow> log_index \<Rightarrow> LogEntry list \<Rightarrow> log_index" where
  "conflict_loop t i [] = i"
| "conflict_loop t i (entry # rest) = (if le_term entry \<noteq> t then i else conflict_loop t (le_index entry) rest)"

definition append_one :: "LogEntry list \<Rightarrow> LogEntry \<Rightarrow> LogEntry list" where
  "append_one log entry =
     (let index = unat (le_index entry - 1) in
      if length log \<le> index then log @ [entry]
      else if le_term (log ! index) \<noteq> le_term entry then take index log @ [entry]
      else log)"

definition handle_append_entries ::
    "instant \<Rightarrow> 'k RaftNode \<Rightarrow> AppendEntriesRequest \<Rightarrow> 'k RaftNode \<times> (core_error, AppendEntriesResponse) outcome" where
  "handle_append_entries now n request =
     (if ae_term request < rn_term n then
        (n, Ok \<lparr>ar_term = rn_term n, ar_success = False, ar_conflict_index = None\<rparr>)
      else
        let n = (see_term (ae_term request) n)\<lparr>rn_last_heartbeat := now, rn_current_leader := Some (ae_leader_id request)\<rparr>;
            prev = unat (ae_prev_log_index request) in
        if 0 < prev \<and> length (rn_log n) < prev then
          (n, Ok \<lparr>ar_term = rn_term n, ar_success = False, ar_conflict_index = Some (of_nat (length (rn_log n)))\<rparr>)
        else if 0 < prev \<and> le_term (rn_log n ! (prev - 1)) \<noteq> ae_prev_log_term request then
          (n, Ok \<lparr>ar_term = rn_term n, ar_success = False,
                  ar_conflict_index = Some (conflict_loop (le_term (rn_log n ! (prev - 1))) (ae_prev_log_index request) (rev (rn_log n)))\<rparr>)
        else
          let n = n\<lparr>rn_log := foldl append_one (rn_log n) (ae_entries request)\<rparr>;
              n = (if vol_commit_index (rn_volatile n) < ae_leader_commit request
                   then n\<lparr>rn_volatile := (rn_volatile n)\<lparr>vol_commit_index := min (ae_leader_commit request) (of_nat (length (rn_log n)))\<rparr>\<rparr>
                   else n) in
          (n, Ok \<lparr>ar_term = rn_term n, ar_success = True, ar_conflict_index = None\<rparr>))"

subsection \<open>RequestVote\<close>

definition last_log_term :: "LogEntry list \<Rightarrow> raft_term" where
  "last_log_term log = (if log = [] then 0 else le_term (last log))"

definition log_ok :: "LogEntry list \<Rightarrow> RequestVoteRequest \<Rightarrow> bool" where
  "log_ok log request \<longleftrightarrow>
     last_log_term log < rv_last_log_term request \<or>
     (rv_last_log_term request = last_log_term log \<and> of_nat (length log) \<le> rv_last_log_index request)"

definition handle_request_vote ::
    "'k RaftNode \<Rightarrow> RequestVoteRequest \<Rightarrow> 'k RaftNode \<times> (core_error, RequestVoteResponse) outcome" where
  "handle_request_vote n request =
     (if rv_term request < rn_term n then (n, Ok \<lparr>vr_term = rn_term n, vr_vote_granted = False\<rparr>)
      else
        let n = see_term (rv_term request) n in
        if (rn_voted_for n = None \<or> rn_voted_for n = Some (rv_candidate_id request)) \<and> log_ok (rn_log n) request then
          (n\<lparr>rn_persistent := (rn_persistent n)\<lparr>pst_voted_for := Some (rv_candidate_id request)\<rparr>\<rparr>,
           Ok \<lparr>vr_term = rn_term n, vr_vote_granted = True\<rparr>)
        else (n, Ok \<lparr>vr_term = rn_term n, vr_vote_granted = False\<rparr>))"

definition handle_rpc :: "instant \<Rightarrow> 'k RaftNode \<Rightarrow> RpcMessage \<Rightarrow> 'k RaftNode \<times> (core_error, RpcResponse) outcome" where
  "handle_rpc now n msg =
     (case msg of
        AppendEntries request \<Rightarrow> sbind (handle_append_entries now n request) (\<lambda>n r. (n, Ok (AppendEntriesReply r)))
      | RequestVote request \<Rightarrow> sbind (handle_request_vote n request) (\<lambda>n r. (n, Ok (RequestVoteReply r))))"

subsection \<open>The election timer\<close>

text \<open>A range with its ends swapped makes the generator panic.\<close>

definition random_election_timeout :: "RaftConfig \<Rightarrow> nat \<Rightarrow> (core_error, duration) outcome" where
  "random_election_timeout config draw =
     (let lo = as_millis (rcf_election_timeout_min config); hi = as_millis (rcf_election_timeout_max config) in
      if lo \<le> hi then Ok (from_millis (lo + draw mod (hi - lo + 1))) else Panic)"

definition election_due :: "instant \<Rightarrow> duration \<Rightarrow> NodeState \<Rightarrow> 'k RaftNode \<Rightarrow> bool" where
  "election_due now timeout current_state n \<longleftrightarrow> current_state \<noteq> Leader \<and> timeout \<le> now - rn_last_heartbeat n"

definition become_candidate :: "'k RaftNode \<Rightarrow> 'k RaftNode" where
  "become_candidate n = n\<lparr>rn_state := Candidate\<rparr>"

definition increment_term :: "'k RaftNode \<Rightarrow> 'k RaftNode" where
  "increment_term n = n\<lparr>rn_persistent := (rn_persistent n)\<lparr>pst_current_term := rn_term n + 1\<rparr>\<rparr>"

definition vote_self :: "'k RaftNode \<Rightarrow> 'k RaftNode" where
  "vote_self n = n\<lparr>rn_persistent := (rn_persistent n)\<lparr>pst_voted_for := Some (rn_id n)\<rparr>\<rparr>"

text \<open>
  The task takes a lock for each of its accesses, and other tasks may run in between: after its sleep it reads the
  state, reads the last heartbeat, and then sets the state, the term and the vote. \<open>timer_pc\<close> is where it is.
\<close>

datatype timer_pc = Sleeping | Saw NodeState | Due | Promoted | Incremented

fun timer_step :: "instant \<Rightarrow> duration \<Rightarrow> 'k RaftNode \<times> timer_pc \<Rightarrow> 'k RaftNode \<times> timer_pc" where
  "timer_step now timeout (n, Sleeping) = (n, Saw (rn_state n))"
| "timer_step now timeout (n, Saw current_state) = (n, if election_due now timeout current_state n then Due else Sleeping)"
| "timer_step now timeout (n, Due) = (become_candidate n, Promoted)"
| "timer_step now timeout (n, Promoted) = (increment_term n, Incremented)"
| "timer_step now timeout (n, Incremented) = (vote_self n, Sleeping)"

subsection \<open>Applying and appending\<close>

definition apply_command :: "'c cid_crate \<Rightarrow> ('k, 'c) BlockStoreTrait \<Rightarrow> 'k \<Rightarrow> Command \<Rightarrow> 'k \<times> (core_error, unit) outcome" where
  "apply_command E K k command =
     (case command of
        Put cid_bytes data \<Rightarrow>
          (case cid_try_from E cid_bytes of Some cid \<Rightarrow> ct_put K k (block_from_parts cid data) | None \<Rightarrow> (k, Ok ()))
      | Delete cid_bytes \<Rightarrow> (case cid_try_from E cid_bytes of Some cid \<Rightarrow> ct_delete K k cid | None \<Rightarrow> (k, Ok ()))
      | NoOp \<Rightarrow> (k, Ok ()))"

text \<open>The index of the entry is advanced before the command runs; an index beyond the log panics.\<close>

function apply_loop ::
    "'c cid_crate \<Rightarrow> ('k, 'c) BlockStoreTrait \<Rightarrow> log_index \<Rightarrow> 'k RaftNode \<Rightarrow> 'k RaftNode \<times> (core_error, unit) outcome" where
  "apply_loop E K commit n =
     (if commit \<le> vol_last_applied (rn_volatile n) then (n, Ok ())
      else
        let i = vol_last_applied (rn_volatile n) + 1;
            n = n\<lparr>rn_volatile := (rn_volatile n)\<lparr>vol_last_applied := i\<rparr>\<rparr> in
        if length (rn_log n) < unat i then (n, Panic)
        else case apply_command E K (rn_store n) (le_command (rn_log n ! (unat i - 1))) of
               (k, Ok _) \<Rightarrow> apply_loop E K commit (n\<lparr>rn_store := k\<rparr>)
             | (k, Err e) \<Rightarrow> (n\<lparr>rn_store := k\<rparr>, Err e)
             | (k, Panic) \<Rightarrow> (n\<lparr>rn_store := k\<rparr>, Panic)
             | (k, Diverge) \<Rightarrow> (n\<lparr>rn_store := k\<rparr>, Diverge))"
  by pat_completeness auto

lemma unat_Suc_less: "\<not> commit \<le> i \<Longrightarrow> unat (i + 1 :: u64) = Suc (unat i)"
  using unsigned_less [of commit, where 'a = nat] by (simp add: word_le_nat_alt unat_word_ariths(1))

termination apply_loop
proof (relation "measure (\<lambda>(E, K, commit, n). unat commit - unat (vol_last_applied (rn_volatile n)))", goal_cases)
  case 1
  then show ?case by simp
next
  case (2 E K commit n)
  then show ?case using unat_Suc_less [of commit "vol_last_applied (rn_volatile n)"] by (simp add: word_le_nat_alt)
qed

declare apply_loop.simps [simp del]

definition apply_committed_entries ::
    "'c cid_crate \<Rightarrow> ('k, 'c) BlockStoreTrait \<Rightarrow> 'k RaftNode \<Rightarrow> 'k RaftNode \<times> (core_error, unit) outcome" where
  "apply_committed_entries E K n = apply_loop E K (vol_commit_index (rn_volatile n)) n"

definition append_entry :: "'k RaftNode \<Rightarrow> Command \<Rightarrow> 'k RaftNode \<times> (core_error, log_index) outcome" where
  "append_entry n command =
     (if rn_state n \<noteq> Leader then (n, Err (Internal ''Not the leader''))
      else let index = of_nat (length (rn_log n) + 1) in
           (n\<lparr>rn_log := rn_log n @ [\<lparr>le_term = rn_term n, le_index = index, le_command = command\<rparr>]\<rparr>, Ok index))"

definition is_leader :: "'k RaftNode \<Rightarrow> bool" where
  "is_leader n \<longleftrightarrow> rn_state n = Leader"

text \<open>\<open>start\<close> takes the receiver out of the node, once.\<close>

definition take_receiver :: "'k RaftNode \<Rightarrow> 'k RaftNode \<times> (core_error, unit) outcome" where
  "take_receiver n =
     (if rn_receiver n then (n\<lparr>rn_receiver := False\<rparr>, Ok ()) else (n, Err (Internal ''Node already started'')))"

subsection \<open>Runs of a node\<close>

text \<open>
  What may happen to a node: a message, the next step of the timer task, a round of the applier, or a client. The
  handlers hold the lock of the term and the vote from their start to their end; they, the applier and the client's
  call are one step each.
\<close>

datatype raft_event = Message instant RpcMessage | Timer instant duration | Apply | Client Command

type_synonym 'k raft_state = "'k RaftNode \<times> timer_pc"

fun raft_exec :: "'c cid_crate \<Rightarrow> ('k, 'c) BlockStoreTrait \<Rightarrow> 'k raft_state \<Rightarrow> raft_event \<Rightarrow> 'k raft_state" where
  "raft_exec E K (n, pc) (Message now msg) = (fst (handle_rpc now n msg), pc)"
| "raft_exec E K s (Timer now timeout) = timer_step now timeout s"
| "raft_exec E K (n, pc) Apply = (fst (apply_committed_entries E K n), pc)"
| "raft_exec E K (n, pc) (Client command) = (fst (append_entry n command), pc)"

text \<open>The votes a step casts, with their terms: a granted request, or a candidate's vote for itself.\<close>

fun votes_cast :: "'k raft_state \<Rightarrow> raft_event \<Rightarrow> (raft_term \<times> node_id) set" where
  "votes_cast (n, pc) (Message now (RequestVote request)) =
     (case handle_request_vote n request of
        (_, Ok r) \<Rightarrow> if vr_vote_granted r then {(vr_term r, rv_candidate_id request)} else {}
      | _ \<Rightarrow> {})"
| "votes_cast (n, Incremented) (Timer now timeout) = {(rn_term n, rn_id n)}"
| "votes_cast s ev = {}"

fun raft_run :: "'c cid_crate \<Rightarrow> ('k, 'c) BlockStoreTrait \<Rightarrow> 'k raft_state \<Rightarrow> raft_event list \<Rightarrow> 'k raft_state \<times> (raft_term \<times> node_id) set" where
  "raft_run E K s [] = (s, {})"
| "raft_run E K s (ev # evs) = (case raft_run E K (raft_exec E K s ev) evs of (s', vs) \<Rightarrow> (s', votes_cast s ev \<union> vs))"

lemma raft_run_Cons:
  "fst (raft_run E K s (ev # evs)) = fst (raft_run E K (raft_exec E K s ev) evs)"
  "snd (raft_run E K s (ev # evs)) = votes_cast s ev \<union> snd (raft_run E K (raft_exec E K s ev) evs)"
  by (simp_all split: prod.splits)

text \<open>
  Two conditions on runs: the term is not incremented beyond what 64 bits hold, and no message is handled between
  the step in which the timer increments the term and the step in which it sets the vote.
\<close>

fun terms_fit :: "'c cid_crate \<Rightarrow> ('k, 'c) BlockStoreTrait \<Rightarrow> 'k raft_state \<Rightarrow> raft_event list \<Rightarrow> bool" where
  "terms_fit E K s [] = True"
| "terms_fit E K s (ev # evs) =
     ((case ev of Timer now timeout \<Rightarrow> snd s \<noteq> Promoted \<or> rn_term (fst s) \<noteq> - 1 | _ \<Rightarrow> True) \<and>
      terms_fit E K (raft_exec E K s ev) evs)"

fun vote_undisturbed :: "'c cid_crate \<Rightarrow> ('k, 'c) BlockStoreTrait \<Rightarrow> 'k raft_state \<Rightarrow> raft_event list \<Rightarrow> bool" where
  "vote_undisturbed E K s [] = True"
| "vote_undisturbed E K s (ev # evs) =
     ((case ev of Message now msg \<Rightarrow> snd s \<noteq> Incremented | _ \<Rightarrow> True) \<and> vote_undisturbed E K (raft_exec E K s ev) evs)"

subsection \<open>Votes\<close>

lemma handle_append_votes:
  "rn_term (fst (handle_append_entries now n request)) = max (rn_term n) (ae_term request)"
  "rn_voted_for (fst (handle_append_entries now n request)) = (if rn_term n < ae_term request then None else rn_voted_for n)"
  "rn_id (fst (handle_append_entries now n request)) = rn_id n"
  by (auto simp: handle_append_entries_def see_term_def Let_def)

lemma apply_loop_keeps:
  "rn_persistent (fst (apply_loop E K c n)) = rn_persistent n \<and> rn_id (fst (apply_loop E K c n)) = rn_id n \<and>
   rn_state (fst (apply_loop E K c n)) = rn_state n \<and> rn_log (fst (apply_loop E K c n)) = rn_log n"
proof (induction E K c n rule: apply_loop.induct)
  case (1 E K commit n)
  then show ?case by (subst (1 2 3 4) apply_loop.simps) (auto simp: Let_def split: prod.splits outcome.splits)
qed

lemma fst_sbind_reply: "(\<And>s x. fst (f s x) = s) \<Longrightarrow> fst (sbind r f) = fst r"
  by (cases r; cases "snd r") auto

lemma fst_handle_rpc [simp]:
  "fst (handle_rpc now n (AppendEntries a)) = fst (handle_append_entries now n a)"
  "fst (handle_rpc now n (RequestVote v)) = fst (handle_request_vote n v)"
  by (simp_all add: handle_rpc_def fst_sbind_reply)

lemma event_cases:
  obtains (append) now a where "ev = Message now (AppendEntries a)"
  | (vote) now v where "ev = Message now (RequestVote v)"
  | (timer) now timeout where "ev = Timer now timeout"
  | (apply_round) "ev = Apply" | (client) command where "ev = Client command"
  by (cases ev) (metis RpcMessage.exhaust)+

lemmas timer_defs = vote_self_def increment_term_def become_candidate_def

lemma timer_cases:
  obtains (sleeping) "pc = Sleeping" | (saw) st where "pc = Saw st" | (due) "pc = Due" | (promoted) "pc = Promoted"
  | (incremented) "pc = Incremented"
  by (cases pc)

definition votes_inv :: "(raft_term \<times> node_id) set \<Rightarrow> 'k raft_state \<Rightarrow> bool" where
  "votes_inv V s \<longleftrightarrow>
     (\<forall>(t, c) \<in> V. t \<le> rn_term (fst s) \<and> (t = rn_term (fst s) \<longrightarrow> snd s \<noteq> Incremented \<and> rn_voted_for (fst s) = Some c))"

lemma votes_invD: "votes_inv V s \<Longrightarrow> (rn_term (fst s), c) \<in> V \<Longrightarrow> rn_voted_for (fst s) = Some c"
  by (auto simp: votes_inv_def)

lemma term_inc: "t \<le> u \<Longrightarrow> u \<noteq> - 1 \<Longrightarrow> t < u + 1" for t u :: raft_term
proof -
  assume a: "t \<le> u" "u \<noteq> - 1"
  have "\<not> - 1 \<le> u" using a(2) by (simp add: word_order.extremum_unique)
  from unat_Suc_less [OF this] a(1) show ?thesis by (simp add: word_less_nat_alt word_le_nat_alt)
qed

lemma votes_timer:
  assumes "votes_inv V (n, pc)" "pc \<noteq> Promoted \<or> rn_term n \<noteq> - 1"
  shows "votes_inv (V \<union> votes_cast (n, pc) (Timer now timeout)) (timer_step now timeout (n, pc))"
proof (cases pc rule: timer_cases)
  case promoted
  then have "t < rn_term n + 1" if "(t, c) \<in> V" for t c
    using assms that by (auto simp: votes_inv_def intro!: term_inc)
  then show ?thesis using promoted by (auto simp: votes_inv_def timer_defs dest: less_imp_le)
qed (use assms(1) in \<open>auto simp: votes_inv_def timer_defs\<close>)

lemma votes_step:
  assumes "votes_inv V s" "case ev of Timer now timeout \<Rightarrow> snd s \<noteq> Promoted \<or> rn_term (fst s) \<noteq> - 1 | _ \<Rightarrow> True"
    and "case ev of Message now msg \<Rightarrow> snd s \<noteq> Incremented | _ \<Rightarrow> True"
  shows "votes_inv (V \<union> votes_cast s ev) (raft_exec E K s ev)"
proof -
  obtain n pc where s: "s = (n, pc)" by force
  show ?thesis
  proof (cases ev rule: event_cases)
    case (append now a)
    then show ?thesis using assms s by (force simp: votes_inv_def handle_append_votes max_def)
  next
    case (vote now v)
    then show ?thesis using assms s by (fastforce simp: votes_inv_def handle_request_vote_def see_term_def Let_def)
  next
    case (timer now timeout)
    then show ?thesis using votes_timer [of V n pc now timeout] assms s by simp
  next
    case apply_round
    then show ?thesis using assms(1) s by (simp add: votes_inv_def apply_committed_entries_def apply_loop_keeps)
  next
    case (client command)
    then show ?thesis using assms(1) s by (auto simp: votes_inv_def append_entry_def Let_def)
  qed
qed

lemma votes_cast_current: "(t, c) \<in> votes_cast s ev \<Longrightarrow> t = rn_term (fst (raft_exec E K s ev))"
proof -
  assume a: "(t, c) \<in> votes_cast s ev"
  obtain n pc where s: "s = (n, pc)" by force
  show ?thesis using a unfolding s
    by (cases ev rule: event_cases; cases pc rule: timer_cases)
      (auto simp: handle_request_vote_def Let_def vote_self_def split: if_splits)
qed

text \<open>One candidate per term.\<close>

definition one_per_term :: "(raft_term \<times> node_id) set \<Rightarrow> bool" where
  "one_per_term V \<longleftrightarrow> (\<forall>t c c'. (t, c) \<in> V \<longrightarrow> (t, c') \<in> V \<longrightarrow> c = c')"

lemma one_per_termD: "one_per_term V \<Longrightarrow> (t, c) \<in> V \<Longrightarrow> (t, c') \<in> V \<Longrightarrow> c = c'"
  by (simp add: one_per_term_def)

lemma raft_run_votes:
  assumes "votes_inv V s" "one_per_term V" "terms_fit E K s evs" "vote_undisturbed E K s evs"
  shows "one_per_term (V \<union> snd (raft_run E K s evs))"
  using assms
proof (induction evs arbitrary: V s)
  case (Cons ev evs)
  let ?s = "raft_exec E K s ev" and ?V = "V \<union> votes_cast s ev"
  have inv: "votes_inv ?V ?s"
    using votes_step [OF Cons.prems(1)] Cons.prems(3,4) unfolding terms_fit.simps vote_undisturbed.simps by blast
  have "one_per_term ?V"
    unfolding one_per_term_def
  proof (intro allI impI)
    fix t c c' assume tc: "(t, c) \<in> ?V" "(t, c') \<in> ?V"
    show "c = c'"
    proof (cases "t = rn_term (fst ?s)")
      case True
      then show ?thesis using votes_invD [OF inv] tc by (metis option.inject)
    next
      case False
      then have "(t, c) \<in> V" "(t, c') \<in> V" using tc votes_cast_current [of t _ s ev E K] by blast+
      then show ?thesis using Cons.prems(2) by (auto simp: one_per_term_def)
    qed
  qed
  from Cons.IH [OF inv this] Cons.prems(3,4) show ?case by (auto simp: Un_assoc split: prod.splits)
qed simp

lemma raft_votes_once:
  assumes "terms_fit E K (n, Sleeping) evs" "vote_undisturbed E K (n, Sleeping) evs"
  shows "one_per_term (snd (raft_run E K (n, Sleeping) evs))"
  using raft_run_votes [OF _ _ assms, of "{}"] by (simp add: votes_inv_def one_per_term_def)

subsection \<open>Logs\<close>

text \<open>An entry carries its position, counted from one.\<close>

definition well_indexed :: "nat \<Rightarrow> LogEntry list \<Rightarrow> bool" where
  "well_indexed p es \<longleftrightarrow> (\<forall>j < length es. le_index (es ! j) = of_nat (p + j + 1)) \<and> p + length es < 2 ^ 64"

text \<open>What the loop over the entries of a request does: skip what is there, cut at the first conflict.\<close>

fun merge_log :: "nat \<Rightarrow> LogEntry list \<Rightarrow> LogEntry list \<Rightarrow> LogEntry list" where
  "merge_log p log [] = log"
| "merge_log p log (e # es) =
     (if p < length log \<and> le_term (log ! p) = le_term e then merge_log (Suc p) log es else take p log @ e # es)"

lemma well_indexed_Cons:
  "well_indexed p (e # es) \<longleftrightarrow> le_index e = of_nat (Suc p) \<and> Suc (p + length es) < 2 ^ 64 \<and> well_indexed (Suc p) es"
  unfolding well_indexed_def by (auto simp: nth_Cons less_Suc_eq_0_disj split: nat.splits)

lemma entry_position: "Suc p < 2 ^ 64 \<Longrightarrow> unat (of_nat (Suc p) - 1 :: u64) = p"
  by (simp add: unat_of_nat)

lemma append_at_end:
  "well_indexed (length log) es \<Longrightarrow> foldl append_one log es = log @ es"
proof (induction es arbitrary: log)
  case (Cons e es)
  then have e: "le_index e = of_nat (Suc (length log))" "Suc (length log) < 2 ^ 64" "well_indexed (length (log @ [e])) es"
    by (auto simp: well_indexed_Cons)
  have "append_one log e = log @ [e]" unfolding append_one_def e(1) entry_position [OF e(2)] by simp
  then show ?case using Cons.IH [OF e(3)] by simp
qed simp

lemma append_loop:
  "well_indexed p es \<Longrightarrow> p \<le> length log \<Longrightarrow> foldl append_one log es = merge_log p log es"
proof (induction es arbitrary: p)
  case (Cons e es)
  then have e: "le_index e = of_nat (Suc p)" "Suc p < 2 ^ 64" "well_indexed (Suc p) es" by (auto simp: well_indexed_Cons)
  have a: "append_one log e = (if length log \<le> p then log @ [e] else if le_term (log ! p) \<noteq> le_term e then take p log @ [e] else log)"
    unfolding append_one_def e(1) entry_position [OF e(2)] by simp
  show ?case
  proof (cases "p < length log \<and> le_term (log ! p) = le_term e")
    case True
    then show ?thesis using a Cons.IH [OF e(3)] by simp
  next
    case False
    then have "append_one log e = take p log @ [e]" using a Cons.prems(2) by auto
    moreover have "length (take p log @ [e]) = Suc p" using Cons.prems(2) by simp
    ultimately show ?thesis using append_at_end [of "take p log @ [e]" es] e(3) False by auto
  qed
qed simp

text \<open>The log matching property: entries of one term at one position agree, and so do all before them.\<close>

definition log_matching :: "LogEntry list \<Rightarrow> LogEntry list \<Rightarrow> bool" where
  "log_matching A B \<longleftrightarrow>
     (\<forall>i. i < length A \<longrightarrow> i < length B \<longrightarrow> le_term (A ! i) = le_term (B ! i) \<longrightarrow> take (Suc i) A = take (Suc i) B)"

lemma log_matchingD:
  "log_matching A B \<Longrightarrow> i < length A \<Longrightarrow> i < length B \<Longrightarrow> le_term (A ! i) = le_term (B ! i) \<Longrightarrow> take (Suc i) A = take (Suc i) B"
  by (simp add: log_matching_def)

lemma merge_replicates:
  assumes "log_matching log L" "p \<le> length log" "take p log = take p L" "p + k \<le> length L"
  shows "take (p + k) (merge_log p log (take k (drop p L))) = take (p + k) L \<and>
    log_matching (merge_log p log (take k (drop p L))) L \<and>
    (take (p + k) log = take (p + k) L \<longrightarrow> merge_log p log (take k (drop p L)) = log)"
  using assms(2-)
proof (induction k arbitrary: p)
  case 0
  then show ?case using assms(1) by simp
next
  case (Suc k)
  have d: "take (Suc k) (drop p L) = L ! p # take k (drop (Suc p) L)"
    using Suc.prems(3) by (simp add: Cons_nth_drop_Suc [symmetric])
  show ?case
  proof (cases "p < length log \<and> le_term (log ! p) = le_term (L ! p)")
    case True
    then have "take (Suc p) log = take (Suc p) L" using log_matchingD [OF assms(1)] Suc.prems(3) by simp
    from Suc.IH [OF _ this] True Suc.prems(3) show ?thesis unfolding d by simp
  next
    case False
    then have m: "merge_log p log (take (Suc k) (drop p L)) = take (p + Suc k) L"
      using Suc.prems(2) d take_add [of p "Suc k" L] by auto
    have "take (p + Suc k) log \<noteq> take (p + Suc k) L"
    proof
      assume eq: "take (p + Suc k) log = take (p + Suc k) L"
      then have "length (take (p + Suc k) log) = p + Suc k" using Suc.prems(3) by simp
      then have "p < length log" by simp
      moreover have "log ! p = L ! p" using arg_cong [OF eq, of "\<lambda>l. l ! p"] by simp
      ultimately show False using False by simp
    qed
    then show ?thesis unfolding m by (auto simp: log_matching_def min_def)
  qed
qed

lemma handle_append_log:
  assumes "handle_append_entries now n request = (n', Ok r)"
  defines "prev \<equiv> unat (ae_prev_log_index request)"
  shows "ar_success r \<longleftrightarrow> rn_term n \<le> ae_term request \<and>
      (0 < prev \<longrightarrow> prev \<le> length (rn_log n) \<and> le_term (rn_log n ! (prev - 1)) = ae_prev_log_term request)"
    and "rn_log n' = (if ar_success r then foldl append_one (rn_log n) (ae_entries request) else rn_log n)"
    and "rn_store n' = rn_store n" and "vol_last_applied (rn_volatile n') = vol_last_applied (rn_volatile n)"
  using assms(1) unfolding prev_def
  by (auto simp: handle_append_entries_def see_term_def Let_def not_less split: if_splits)

subsection \<open>The state machine\<close>

definition cmd_content :: "'c cid_crate \<Rightarrow> ('c \<rightharpoonup> bytes) \<Rightarrow> Command \<Rightarrow> ('c \<rightharpoonup> bytes)" where
  "cmd_content E m command =
     (case command of
        Put cid_bytes data \<Rightarrow> (case cid_try_from E cid_bytes of Some cid \<Rightarrow> m(cid \<mapsto> data) | None \<Rightarrow> m)
      | Delete cid_bytes \<Rightarrow> (case cid_try_from E cid_bytes of Some cid \<Rightarrow> m(cid := None) | None \<Rightarrow> m)
      | NoOp \<Rightarrow> m)"

text \<open>The replicated state machine over a store that keeps the laws of \<open>cold_store\<close>.\<close>

locale raft_store = cold_store K content kinv
  for K :: "('k, 'c) BlockStoreTrait" and content :: "'k \<Rightarrow> 'c \<rightharpoonup> bytes" and kinv :: "'k \<Rightarrow> bool"
begin

lemma apply_command_content:
  assumes "kinv k" "apply_command E K k command = (k', Ok u)"
  shows "kinv k' \<and> content k' = cmd_content E (content k) command"
proof (cases command)
  case (Put cid_bytes data)
  then show ?thesis
    using assms put_ok [OF assms(1)] by (cases "cid_try_from E cid_bytes") (auto simp: apply_command_def cmd_content_def block_from_parts_def)
next
  case (Delete cid_bytes)
  then show ?thesis
    using assms delete_ok [OF assms(1)] by (cases "cid_try_from E cid_bytes") (auto simp: apply_command_def cmd_content_def)
qed (use assms in \<open>simp add: apply_command_def cmd_content_def\<close>)

lemma apply_loop_content:
  assumes "kinv (rn_store n)" "apply_loop E K commit n = (n', Ok ())"
  shows "kinv (rn_store n') \<and> vol_last_applied (rn_volatile n') = max commit (vol_last_applied (rn_volatile n)) \<and>
    content (rn_store n') =
      foldl (cmd_content E) (content (rn_store n))
        (map le_command (drop (unat (vol_last_applied (rn_volatile n))) (take (unat commit) (rn_log n))))"
  using assms
proof (induction "unat commit - unat (vol_last_applied (rn_volatile n))" arbitrary: n rule: less_induct)
  case less
  let ?la = "vol_last_applied (rn_volatile n)"
  show ?case
  proof (cases "commit \<le> ?la")
    case True
    then show ?thesis using less.prems by (subst (asm) apply_loop.simps) (simp add: word_le_nat_alt max_def)
  next
    case False
    note i = unat_Suc_less [OF False]
    let ?n = "n\<lparr>rn_volatile := (rn_volatile n)\<lparr>vol_last_applied := ?la + 1\<rparr>\<rparr>"
    obtain k where k: "unat (?la + 1) \<le> length (rn_log n)"
      "apply_command E K (rn_store n) (le_command (rn_log n ! unat ?la)) = (k, Ok ())"
      "apply_loop E K commit (?n\<lparr>rn_store := k\<rparr>) = (n', Ok ())"
      using less.prems(2) False i by (subst (asm) apply_loop.simps) (auto simp: Let_def split: if_splits prod.splits outcome.splits)
    have c: "kinv k" "content k = cmd_content E (content (rn_store n)) (le_command (rn_log n ! unat ?la))"
      using apply_command_content [OF less.prems(1) k(2)] by simp_all
    have la: "unat ?la < unat commit" using False by (simp add: word_le_nat_alt)
    then have "drop (unat ?la) (take (unat commit) (rn_log n)) = rn_log n ! unat ?la # drop (Suc (unat ?la)) (take (unat commit) (rn_log n))"
      using k(1) i by (simp add: Cons_nth_drop_Suc [symmetric])
    moreover have "max commit (?la + 1) = max commit ?la" using la i by (auto simp: max_def word_le_nat_alt word_unat_eq_iff)
    ultimately show ?thesis using less.hyps [of "?n\<lparr>rn_store := k\<rparr>"] k(3) c la i by simp
  qed
qed

text \<open>The loop fails only with the store, when the commit index lies within the log.\<close>

lemma apply_loop_no_panic:
  assumes "\<And>k command. snd (apply_command E K k command) \<notin> {Panic, Diverge}" "unat commit \<le> length (rn_log n)"
  shows "snd (apply_loop E K commit n) \<notin> {Panic, Diverge}"
  using assms(2)
proof (induction "unat commit - unat (vol_last_applied (rn_volatile n))" arbitrary: n rule: less_induct)
  case less
  let ?la = "vol_last_applied (rn_volatile n)"
  show ?case
  proof (cases "commit \<le> ?la")
    case True
    then show ?thesis by (subst apply_loop.simps) simp
  next
    case False
    note i = unat_Suc_less [OF False]
    obtain k r where k: "apply_command E K (rn_store n) (le_command (rn_log n ! unat ?la)) = (k, r)" by force
    have "r \<noteq> Panic" "r \<noteq> Diverge" using assms(1) [of "rn_store n" "le_command (rn_log n ! unat ?la)"] k by auto
    moreover have la: "unat ?la < unat commit" using False by (simp add: word_le_nat_alt)
    ultimately show ?thesis
      using less.hyps [of "n\<lparr>rn_volatile := (rn_volatile n)\<lparr>vol_last_applied := ?la + 1\<rparr>, rn_store := k\<rparr>"] less.prems i k
      by (subst apply_loop.simps) (cases r; auto simp: Let_def)
  qed
qed

end

interpretation raft_memory: raft_store memory_block_store mb_content mb_inv
  by unfold_locales

subsection \<open>Properties\<close>

lemma majorities_meet:
  assumes "finite V" "S \<subseteq> V" "T \<subseteq> V" "card V < 2 * card S" "card V < 2 * card T"
  obtains i where "i \<in> S" "i \<in> T"
proof -
  have "S \<inter> T \<noteq> {}"
  proof
    assume "S \<inter> T = {}"
    then have "card (S \<union> T) = card S + card T" using assms finite_subset by (metis card_Un_disjoint)
    moreover have "card (S \<union> T) \<le> card V" using assms by (intro card_mono) auto
    ultimately show False using assms(4,5) by linarith
  qed
  then show ?thesis using that by blast
qed

text \<open>
  (C9) Election safety: in a cluster whose nodes start fresh and run through any messages, steps of their timers,
  client calls and rounds of the applier, two candidates that each get the votes of a majority in one term are the
  same, provided that no term overflows and that no node handles a message between the step in which its timer
  increments the term and the step in which it sets the vote. The code takes two locks there and does not ensure
  this; \<open>timer_race_double_vote\<close> shows two votes in one term without it.
\<close>

theorem raft_election_safety:
  assumes "finite V" "\<forall>i \<in> V. rn_new (start i) i (peers i) (k i) (config i) = Ok (n i)"
    and "\<forall>i \<in> V. terms_fit E K (n i, Sleeping) (evs i) \<and> vote_undisturbed E K (n i, Sleeping) (evs i)"
    and "S \<subseteq> V" "card V < 2 * card S" "\<forall>i \<in> S. (t, c) \<in> snd (raft_run E K (n i, Sleeping) (evs i))"
    and "T \<subseteq> V" "card V < 2 * card T" "\<forall>i \<in> T. (t, d) \<in> snd (raft_run E K (n i, Sleeping) (evs i))"
  shows "c = d"
proof -
  from majorities_meet [OF assms(1,4,7,5,8)] obtain i where i: "i \<in> S" "i \<in> T" .
  then have "terms_fit E K (n i, Sleeping) (evs i)" "vote_undisturbed E K (n i, Sleeping) (evs i)" using assms(3,4) by auto
  from raft_votes_once [OF this] i assms(6,9) show ?thesis by (auto simp: one_per_term_def)
qed

text \<open>
  (C10) Log replication: a request that a leader with the log \<open>L\<close> makes is accepted exactly when its term is not
  below the follower's and the follower has the entry before the new ones with the right term; then the follower
  agrees with the leader up to the last new entry, the log matching property is kept, and a follower that had all
  entries loses nothing. A request that is not accepted leaves the log as it was, and one of a lower term changes
  nothing at all and is answered with the follower's term.
\<close>

theorem raft_append_replicates:
  assumes "log_matching (rn_log n) L" "well_indexed 0 L" "p + j \<le> length L"
    and "ae_prev_log_index request = of_nat p" "0 < p \<longrightarrow> ae_prev_log_term request = le_term (L ! (p - 1))"
    and "ae_entries request = take j (drop p L)"
    and "handle_append_entries now n request = (n', Ok r)"
  shows "(ar_success r \<longleftrightarrow> rn_term n \<le> ae_term request \<and> p \<le> length (rn_log n) \<and> take p (rn_log n) = take p L) \<and>
    (ae_term request < rn_term n \<longrightarrow> n' = n \<and> ar_term r = rn_term n) \<and>
    (if ar_success r
     then take (p + j) (rn_log n') = take (p + j) L \<and> log_matching (rn_log n') L \<and>
       (take (p + j) (rn_log n) = take (p + j) L \<longrightarrow> rn_log n' = rn_log n)
     else rn_log n' = rn_log n)"
proof -
  have p: "unat (ae_prev_log_index request) = p" using assms(2,3,4) by (simp add: well_indexed_def unat_of_nat)
  note h = handle_append_log [OF assms(7), unfolded p]
  have m: "le_term (rn_log n ! (p - 1)) = le_term (L ! (p - 1)) \<longleftrightarrow> take p (rn_log n) = take p L" if "0 < p" "p \<le> length (rn_log n)"
  proof
    assume "le_term (rn_log n ! (p - 1)) = le_term (L ! (p - 1))"
    then show "take p (rn_log n) = take p L" using log_matchingD [OF assms(1), of "p - 1"] that assms(3) by simp
  next
    assume "take p (rn_log n) = take p L"
    from arg_cong [OF this, of "\<lambda>l. l ! (p - 1)"] show "le_term (rn_log n ! (p - 1)) = le_term (L ! (p - 1))" using that by simp
  qed
  have s: "ar_success r \<longleftrightarrow> rn_term n \<le> ae_term request \<and> p \<le> length (rn_log n) \<and> take p (rn_log n) = take p L"
    using h(1) m assms(5) by (cases "p = 0") auto
  moreover have "ae_term request < rn_term n \<longrightarrow> n' = n \<and> ar_term r = rn_term n"
    using assms(7) by (auto simp: handle_append_entries_def)
  moreover have "well_indexed p (ae_entries request)" using assms(2,3) unfolding assms(6) well_indexed_def by auto
  ultimately show ?thesis
    using h(2) append_loop [of p "ae_entries request" "rn_log n"] merge_replicates [OF assms(1), of p j] assms(3,6) by auto
qed

text \<open>
  (C11) The applier refines the state machine: a round that succeeds advances to the commit index and leaves the
  store with what the commands after the last applied one make of its contents, each once and in order.
\<close>

theorem raft_applies_in_order:
  assumes "cold_store K content kinv" "kinv (rn_store n)" "apply_committed_entries E K n = (n', Ok ())"
  shows "rn_log n' = rn_log n \<and> kinv (rn_store n') \<and>
    vol_last_applied (rn_volatile n') = max (vol_commit_index (rn_volatile n)) (vol_last_applied (rn_volatile n)) \<and>
    content (rn_store n') =
      foldl (cmd_content E) (content (rn_store n))
        (map le_command (drop (unat (vol_last_applied (rn_volatile n))) (take (unat (vol_commit_index (rn_volatile n))) (rn_log n))))"
proof -
  have "raft_store K content kinv" using assms(1) by (simp add: raft_store_def)
  from raft_store.apply_loop_content [OF this assms(2)] show ?thesis
    using assms(3) apply_loop_keeps [of E K "vol_commit_index (rn_volatile n)" n]
    by (simp add: apply_committed_entries_def)
qed

text \<open>
  (C12) No leader is ever elected: whatever happens to a node, it does not become the leader, and appending an
  entry fails on it.
\<close>

theorem raft_no_leader:
  assumes "rn_new now i peers k config = Ok n" "fst (raft_run E K (n, Sleeping) evs) = (m, pc)"
  shows "\<not> is_leader m \<and> append_entry m command = (m, Err (Internal ''Not the leader''))"
proof -
  have timer: "rn_state (fst (timer_step now timeout (m, pc))) \<noteq> Leader" if "rn_state m \<noteq> Leader" for m :: "'a RaftNode" and pc now timeout
    using that by (cases pc rule: timer_cases) (simp_all add: timer_defs)
  have step: "rn_state (fst (raft_exec E K (m, pc) ev)) \<noteq> Leader" if "rn_state m \<noteq> Leader" for m pc ev
    using that timer by (cases ev rule: event_cases)
      (auto simp: handle_append_entries_def handle_request_vote_def see_term_def apply_committed_entries_def apply_loop_keeps
        append_entry_def Let_def)
  have "rn_state (fst (fst (raft_run E K s evs))) \<noteq> Leader" if "rn_state (fst s) \<noteq> Leader" for s
    using that
  proof (induction evs arbitrary: s)
    case (Cons ev evs)
    then show ?case using step [of "fst s" "snd s" ev] by (simp add: raft_run_Cons del: raft_run.simps(2))
  qed simp
  moreover have "rn_state n \<noteq> Leader" using assms(1) by (auto simp: rn_new_def)
  ultimately have "rn_state m \<noteq> Leader" using assms(2) by (metis fst_conv)
  then show ?thesis by (simp add: is_leader_def append_entry_def)
qed

subsection \<open>Witnesses\<close>

text \<open>Fresh nodes over memory stores, a request for a vote, and a log of one entry.\<close>

definition fresh_node :: "node_id \<Rightarrow> (u64 + u64 \<times> u64) MemoryBlockStore RaftNode" where
  "fresh_node i =
     \<lparr>rn_id = i, rn_peers = [], rn_state = Follower, rn_persistent = pst_default, rn_volatile = vol_default,
      rn_leader_state = None, rn_log = [], rn_store = mb_new, rn_config = raft_config_default, rn_last_heartbeat = 0,
      rn_current_leader = None, rn_receiver = True\<rparr>"

definition vote_request :: "raft_term \<Rightarrow> node_id \<Rightarrow> RequestVoteRequest" where
  "vote_request t c = \<lparr>rv_term = t, rv_candidate_id = c, rv_last_log_index = 0, rv_last_log_term = 0\<rparr>"

definition put_entry :: "raft_term \<Rightarrow> LogEntry" where
  "put_entry t = \<lparr>le_term = t, le_index = 1, le_command = Put (cid_to_bytes crate64 (Inr (0x55, 7))) [9]\<rparr>"

definition append_request :: "raft_term \<Rightarrow> LogEntry list \<Rightarrow> log_index \<Rightarrow> AppendEntriesRequest" where
  "append_request t es commit =
     \<lparr>ae_term = t, ae_leader_id = 2, ae_prev_log_index = 0, ae_prev_log_term = 0, ae_entries = es, ae_leader_commit = commit\<rparr>"

lemma rn_new_fresh: "rn_new 0 i [] mb_new raft_config_default = Ok (fresh_node i)"
  by (simp add: rn_new_def fresh_node_def)

lemmas node_defs = fresh_node_def vote_request_def append_request_def pst_default_def vol_default_def

text \<open>A fresh node with another term, vote and state.\<close>

definition voter :: "node_id \<Rightarrow> raft_term \<Rightarrow> node_id option \<Rightarrow> NodeState \<Rightarrow> (u64 + u64 \<times> u64) MemoryBlockStore RaftNode" where
  "voter i t v st = (fresh_node i)\<lparr>rn_persistent := \<lparr>pst_current_term = t, pst_voted_for = v\<rparr>, rn_state := st\<rparr>"

lemma voter_request:
  assumes "t \<le> u" "t < u \<or> v = None \<or> v = Some c"
  shows "handle_request_vote (voter i t v st) (vote_request u c) =
    (voter i u (Some c) (if t < u then Follower else st), Ok \<lparr>vr_term = u, vr_vote_granted = True\<rparr>)"
proof -
  have "rv_term (vote_request u c) = u" "rv_candidate_id (vote_request u c) = c" "log_ok [] (vote_request u c)"
    by (simp_all add: vote_request_def log_ok_def last_log_term_def)
  moreover have "t = u" if "\<not> t < u" using that assms(1) by simp
  ultimately show ?thesis using assms
    by (cases "t < u") (auto simp: handle_request_vote_def voter_def see_term_def fresh_node_def)
qed

lemma voter_timer:
  "election_due now now Follower (voter i t v st)" "rn_state (voter i t v st) = st" "become_candidate (voter i t v st) = voter i t v Candidate"
  "increment_term (voter i t v st) = voter i (t + 1) v st" "vote_self (voter i t v st) = voter i t (Some i) st"
  "rn_term (voter i t v st) = t" "rn_id (voter i t v st) = i"
  by (simp_all add: voter_def election_due_def timer_defs fresh_node_def)

lemma fresh_voter: "fresh_node i = voter i 0 None Follower"
  by (simp add: voter_def fresh_node_def pst_default_def)

text \<open>The timer of a fresh node runs through: the node votes for itself in term 1.\<close>

definition timer_round :: "raft_event list" where
  "timer_round = (let t = Timer 150000000 150000000 in [t, t, t, t, t])"

lemma timer_round_fresh:
  "snd (raft_run crate64 memory_block_store (fresh_node i, Sleeping) timer_round) = {(1, i)}"
  "terms_fit crate64 memory_block_store (fresh_node i, Sleeping) timer_round"
  "vote_undisturbed crate64 memory_block_store (fresh_node i, Sleeping) timer_round"
  unfolding timer_round_def fresh_voter by (simp_all add: voter_timer Let_def)

theorem raft_election_safety_witness:
  "snd (raft_run crate64 memory_block_store (fresh_node 1, Sleeping) timer_round) = {(1, 1)} \<and>
   snd (raft_run crate64 memory_block_store (fresh_node 2, Sleeping) [Message 0 (RequestVote (vote_request 1 1))]) = {(1, 1)} \<and>
   (1 :: node_id) = 1"
proof -
  let ?evs = "\<lambda>i :: node_id. if i = 1 then timer_round else [Message 0 (RequestVote (vote_request 1 1))]"
  have w: "snd (raft_run crate64 memory_block_store (fresh_node i, Sleeping) [Message 0 (RequestVote (vote_request 1 1))]) = {(1, 1)}" for i
    by (simp add: node_defs handle_request_vote_def see_term_def log_ok_def last_log_term_def)
  have "(1 :: node_id) = 1"
    by (rule raft_election_safety [where V = "{1, 2, 3}" and S = "{1, 2}" and T = "{2, 3}" and start = "\<lambda>_. 0" and peers = "\<lambda>_. []"
          and k = "\<lambda>_. mb_new" and config = "\<lambda>_. raft_config_default" and n = fresh_node and evs = ?evs
          and E = crate64 and K = memory_block_store and t = 1])
      (use timer_round_fresh w in \<open>auto simp: rn_new_fresh\<close>)
  with timer_round_fresh(1) w show ?thesis by blast
qed

theorem raft_append_replicates_witness:
  "\<exists>n' r. handle_append_entries 5 (fresh_node 1) (append_request 1 [put_entry 1] 1) = (n', Ok r) \<and>
     ar_success r \<and> take 1 (rn_log n') = [put_entry 1]"
proof -
  obtain n' r where h: "handle_append_entries 5 (fresh_node 1) (append_request 1 [put_entry 1] 1) = (n', Ok r)"
    by (simp add: handle_append_entries_def node_defs see_term_def Let_def)
  have "log_matching (rn_log (fresh_node 1)) [put_entry 1]" by (simp add: log_matching_def fresh_node_def)
  from raft_append_replicates [OF this _ _ _ _ _ h, of 0 1] have "ar_success r" "take 1 (rn_log n') = [put_entry 1]"
    by (simp_all add: well_indexed_def put_entry_def node_defs split: if_splits)
  with h show ?thesis by blast
qed

theorem raft_applies_in_order_witness:
  "\<exists>n'. apply_committed_entries crate64 memory_block_store
       ((fresh_node 1)\<lparr>rn_log := [put_entry 1], rn_volatile := \<lparr>vol_commit_index = 1, vol_last_applied = 0\<rparr>\<rparr>) = (n', Ok ()) \<and>
     mb_content (rn_store n') (Inr (0x55, 7)) = Some [9]"
proof -
  let ?n = "(fresh_node 1)\<lparr>rn_log := [put_entry 1], rn_volatile := \<lparr>vol_commit_index = 1, vol_last_applied = 0\<rparr>\<rparr>"
  obtain n' where a: "apply_committed_entries crate64 memory_block_store ?n = (n', Ok ())"
    by (simp add: apply_committed_entries_def apply_loop.simps [of _ _ 1] apply_command_def put_entry_def node_defs
        cid_laws_crate64 memory_block_store_def)
  have "mb_inv (rn_store ?n)" by (simp add: fresh_node_def mb_inv_def mb_new_def)
  from raft_applies_in_order [OF mb.cold_store_axioms this a] a show ?thesis
    by (simp add: put_entry_def cmd_content_def cid_laws_crate64)
qed

theorem raft_no_leader_witness:
  "\<exists>m pc. fst (raft_run crate64 memory_block_store (fresh_node 1, Sleeping) (timer_round @ [Apply])) = (m, pc) \<and>
     \<not> is_leader m \<and> append_entry m NoOp = (m, Err (Internal ''Not the leader''))"
proof -
  obtain m pc where run: "fst (raft_run crate64 memory_block_store (fresh_node 1, Sleeping) (timer_round @ [Apply])) = (m, pc)"
    by fastforce
  from raft_no_leader [OF rn_new_fresh run] run show ?thesis by blast
qed

subsection \<open>Defects\<close>

text \<open>
  Between the two locks of the timer the node is in a new term with the vote of the old one: a request of the
  candidate it voted for before is granted, and then the node votes for itself in the same term.
\<close>

lemma timer_race_double_vote:
  "snd (raft_run E K (fresh_node 1, Sleeping)
     [Message 0 (RequestVote (vote_request 1 2)), Timer 0 0, Timer 0 0, Timer 0 0, Timer 0 0,
      Message 0 (RequestVote (vote_request 2 2)), Timer 0 0]) = {(1, 2), (2, 2), (2, 1)}"
  unfolding fresh_voter by (simp add: voter_request voter_timer) (simp add: vote_request_def)

text \<open>
  The commit index follows the leader's up to the length of the follower's log, not up to the entries that the
  request vouches for: a heartbeat commits whatever entries the follower has.
\<close>

lemma heartbeat_commits_stale:
  assumes "rn_log n = [e]" "vol_commit_index (rn_volatile n) = 0" "rn_term n \<le> t"
  shows "\<exists>n'. fst (handle_append_entries now n (append_request t [] 1)) = n' \<and> rn_log n' = [e] \<and> vol_commit_index (rn_volatile n') = 1"
  using assms by (auto simp: handle_append_entries_def append_request_def see_term_def Let_def)

text \<open>A later leader replaces those entries, the log gets shorter than the commit index, and the applier panics.\<close>

lemma truncated_commit_panics:
  defines "e t i \<equiv> \<lparr>le_term = t, le_index = i, le_command = NoOp\<rparr>"
  shows "snd (apply_committed_entries E K (fst (fst (raft_run E K (fresh_node 1, Sleeping)
    [Message 0 (AppendEntries (append_request 1 [e 1 1, e 1 2] 2)), Message 0 (AppendEntries (append_request 2 [e 2 1] 2))])))) = Panic"
  unfolding e_def
  by (simp add: raft_run_Cons handle_append_entries_def node_defs see_term_def append_one_def apply_committed_entries_def
      apply_loop.simps [of _ _ 2] apply_command_def Let_def word_le_nat_alt)

end
