(* ===== verification/Write_Ahead_Log.thy ===== *)
theory Write_Ahead_Log
  imports Rust_Prelude
begin

text \<open>
  The two write-ahead logs of the storage crate (\<open>ipfrs-storage/src/wal.rs\<close>): a shared log with sequence numbers,
  checkpoints and replay, and a log driven by ticks with a budget of bytes.

  \<^item> Sequence numbers and counters are 64-bit words and wrap.
  \<^item> The serialisation of an operation (\<open>serde_json\<close>) is a parameter; a reading of the clock is an argument.
  \<^item> The mutex of the shared log is never poisoned, since no code that holds it panics.
\<close>

unbundle bit_operations_syntax

subsection \<open>The shared log\<close>

definition fnv1a_32 :: "bytes \<Rightarrow> u32" where
  "fnv1a_32 data = foldl (\<lambda>hash byte. (hash XOR ucast byte) * 16777619) 2166136261 data"

datatype WalError = CapacityExceeded nat nat | CheckpointFailed string | Serialization string

datatype WalOp =
    Op_Put string u64
  | Op_Delete string
  | Op_BatchPut "string list" u64
  | Op_Checkpoint u64

type_synonym op_serializer = "WalOp \<Rightarrow> bytes option"

definition to_bytes_for_crc :: "op_serializer \<Rightarrow> WalOp \<Rightarrow> (WalError, bytes) outcome" where
  "to_bytes_for_crc ser op = (case ser op of Some bs \<Rightarrow> Ok bs | None \<Rightarrow> Err (Serialization ''serde_json''))"

record WalEntry =
  we_sequence :: u64
  we_op :: WalOp
  we_crc32 :: u32
  we_timestamp_ms :: u64

record WalStats =
  ws_total_appended :: u64
  ws_total_checkpoints :: u64
  ws_total_truncated :: u64
  ws_total_replayed :: u64

record WriteAheadLog =
  wa_entries :: "WalEntry list"
  wa_next_sequence :: u64
  wa_checkpoint_sequence :: u64
  wa_max_entries :: nat
  wa_stats :: WalStats

definition wa_new :: "nat \<Rightarrow> WriteAheadLog" where
  "wa_new max_entries =
     \<lparr>wa_entries = [], wa_next_sequence = 1, wa_checkpoint_sequence = 0, wa_max_entries = max_entries,
      wa_stats = \<lparr>ws_total_appended = 0, ws_total_checkpoints = 0, ws_total_truncated = 0, ws_total_replayed = 0\<rparr>\<rparr>"

definition wa_with_defaults :: WriteAheadLog where
  "wa_with_defaults = wa_new 10000"

definition wa_append :: "op_serializer \<Rightarrow> u64 \<Rightarrow> WriteAheadLog \<Rightarrow> WalOp \<Rightarrow> WriteAheadLog \<times> (WalError, u64) outcome" where
  "wa_append ser now w op =
     (let current = length (wa_entries w) in
      if wa_max_entries w \<le> current then (w, Err (CapacityExceeded current (wa_max_entries w)))
      else case to_bytes_for_crc ser op of
             Ok bytes \<Rightarrow>
               (let sequence = wa_next_sequence w in
                (w\<lparr>wa_next_sequence := sequence + 1,
                   wa_entries := wa_entries w @ [\<lparr>we_sequence = sequence, we_op = op, we_crc32 = fnv1a_32 bytes, we_timestamp_ms = now\<rparr>],
                   wa_stats := (wa_stats w)\<lparr>ws_total_appended := ws_total_appended (wa_stats w) + 1\<rparr>\<rparr>, Ok sequence))
           | Err e \<Rightarrow> (w, Err e) | Panic \<Rightarrow> (w, Panic) | Diverge \<Rightarrow> (w, Diverge))"

definition wa_checkpoint :: "op_serializer \<Rightarrow> u64 \<Rightarrow> WriteAheadLog \<Rightarrow> WriteAheadLog \<times> (WalError, u64) outcome" where
  "wa_checkpoint ser now w =
     sbind (wa_append ser now w (Op_Checkpoint (wa_next_sequence w))) (\<lambda>w seq.
       (w\<lparr>wa_checkpoint_sequence := seq,
          wa_stats := (wa_stats w)\<lparr>ws_total_checkpoints := ws_total_checkpoints (wa_stats w) + 1\<rparr>\<rparr>, Ok seq))"

definition entries_since_checkpoint :: "WriteAheadLog \<Rightarrow> WalEntry list" where
  "entries_since_checkpoint w = filter (\<lambda>e. wa_checkpoint_sequence w < we_sequence e) (wa_entries w)"

definition wa_truncate_before :: "WriteAheadLog \<Rightarrow> u64 \<Rightarrow> WriteAheadLog \<times> nat" where
  "wa_truncate_before w sequence =
     (let kept = filter (\<lambda>e. sequence \<le> we_sequence e) (wa_entries w);
          removed = length (wa_entries w) - length kept in
      (w\<lparr>wa_entries := kept,
         wa_stats := (wa_stats w)\<lparr>ws_total_truncated := ws_total_truncated (wa_stats w) + of_nat removed\<rparr>\<rparr>, removed))"

definition wa_entry_count :: "WriteAheadLog \<Rightarrow> nat" where
  "wa_entry_count w = length (wa_entries w)"

fun data_op :: "WalOp \<Rightarrow> bool" where
  "data_op (Op_Checkpoint _) = False"
| "data_op _ = True"

definition replay_ops :: "WriteAheadLog \<Rightarrow> WriteAheadLog \<times> WalOp list" where
  "replay_ops w =
     (let ops = filter data_op (map we_op (entries_since_checkpoint w)) in
      (w\<lparr>wa_stats := (wa_stats w)\<lparr>ws_total_replayed := ws_total_replayed (wa_stats w) + of_nat (length ops)\<rparr>\<rparr>, ops))"

subsection \<open>The log driven by ticks\<close>

datatype WalEntryKind = Kind_Put | Kind_Delete | Kind_Update

record StorageWalEntry =
  se_sequence :: u64
  se_kind :: WalEntryKind
  se_key :: string
  se_data :: bytes
  se_timestamp_tick :: u64

record WalConfig =
  wc_max_entries :: nat
  wc_max_data_bytes :: u64
  wc_checkpoint_interval :: u64

definition wal_config_default :: WalConfig where
  "wal_config_default = \<lparr>wc_max_entries = 10000, wc_max_data_bytes = 100000000, wc_checkpoint_interval = 50\<rparr>"

record StorageWriteAheadLog =
  sw_config :: WalConfig
  sw_entries :: "StorageWalEntry list"
  sw_next_sequence :: u64
  sw_current_tick :: u64
  sw_total_data_bytes :: u64
  sw_checkpoints :: "u64 list"
  sw_last_checkpoint_tick :: u64

definition sw_new :: "WalConfig \<Rightarrow> StorageWriteAheadLog" where
  "sw_new config =
     \<lparr>sw_config = config, sw_entries = [], sw_next_sequence = 1, sw_current_tick = 0, sw_total_data_bytes = 0,
      sw_checkpoints = [], sw_last_checkpoint_tick = 0\<rparr>"

definition sat_sub :: "u64 \<Rightarrow> u64 \<Rightarrow> u64" where
  "sat_sub a b = (if b \<le> a then a - b else 0)"

definition sw_evict :: "StorageWriteAheadLog \<Rightarrow> StorageWriteAheadLog" where
  "sw_evict w =
     (case sw_entries w of
        [] \<Rightarrow> w
      | evicted # rest \<Rightarrow>
          w\<lparr>sw_entries := rest, sw_total_data_bytes := sat_sub (sw_total_data_bytes w) (of_nat (length (se_data evicted)))\<rparr>)"

definition sw_append ::
    "StorageWriteAheadLog \<Rightarrow> WalEntryKind \<Rightarrow> string \<Rightarrow> bytes \<Rightarrow> StorageWriteAheadLog \<times> (string, u64) outcome" where
  "sw_append w kind key data =
     (let new_data_len = of_nat (length data);
          would_be = sw_total_data_bytes w + new_data_len in
      if wc_max_data_bytes (sw_config w) < would_be then (w, Err ''WAL data limit exceeded'')
      else
        let w = (if wc_max_entries (sw_config w) \<le> length (sw_entries w) then sw_evict w else w);
            seq = sw_next_sequence w in
        (w\<lparr>sw_next_sequence := seq + 1,
           sw_entries := sw_entries w @
             [\<lparr>se_sequence = seq, se_kind = kind, se_key = key, se_data = data, se_timestamp_tick = sw_current_tick w\<rparr>],
           sw_total_data_bytes := sw_total_data_bytes w + new_data_len\<rparr>, Ok seq))"

definition sw_get_entry :: "StorageWriteAheadLog \<Rightarrow> u64 \<Rightarrow> StorageWalEntry option" where
  "sw_get_entry w sequence =
     (case sw_entries w of
        [] \<Rightarrow> None
      | front # _ \<Rightarrow>
          if sequence < se_sequence front then None
          else let idx = unat (sequence - se_sequence front) in
               if idx < length (sw_entries w) \<and> se_sequence (sw_entries w ! idx) = sequence then Some (sw_entries w ! idx) else None)"

definition sw_entries_since :: "StorageWriteAheadLog \<Rightarrow> u64 \<Rightarrow> StorageWalEntry list" where
  "sw_entries_since w sequence = filter (\<lambda>e. sequence < se_sequence e) (sw_entries w)"

definition sw_create_checkpoint :: "StorageWriteAheadLog \<Rightarrow> StorageWriteAheadLog \<times> u64" where
  "sw_create_checkpoint w =
     (let cp_seq = (if sw_entries w = [] then sat_sub (sw_next_sequence w) 1 else se_sequence (last (sw_entries w))) in
      (w\<lparr>sw_checkpoints := sw_checkpoints w @ [cp_seq], sw_last_checkpoint_tick := sw_current_tick w\<rparr>, cp_seq))"

function sw_truncate_before :: "StorageWriteAheadLog \<Rightarrow> u64 \<Rightarrow> StorageWriteAheadLog" where
  "sw_truncate_before w sequence =
     (case sw_entries w of
        [] \<Rightarrow> w
      | front # _ \<Rightarrow> if se_sequence front < sequence then sw_truncate_before (sw_evict w) sequence else w)"
  by pat_completeness auto
termination
  by (relation "measure (\<lambda>(w, s). length (sw_entries w))") (auto simp: sw_evict_def)

declare sw_truncate_before.simps [simp del]

definition replay_from_checkpoint :: "StorageWriteAheadLog \<Rightarrow> nat \<Rightarrow> (string, StorageWalEntry list) outcome" where
  "replay_from_checkpoint w checkpoint_idx =
     (if checkpoint_idx < length (sw_checkpoints w) then Ok (sw_entries_since w (sw_checkpoints w ! checkpoint_idx))
      else Err ''checkpoint index out of range'')"

definition should_checkpoint :: "StorageWriteAheadLog \<Rightarrow> bool" where
  "should_checkpoint w \<longleftrightarrow> wc_checkpoint_interval (sw_config w) \<le> sat_sub (sw_current_tick w) (sw_last_checkpoint_tick w)"

definition sw_tick :: "StorageWriteAheadLog \<Rightarrow> StorageWriteAheadLog" where
  "sw_tick w = w\<lparr>sw_current_tick := sw_current_tick w + 1\<rparr>"

record StorageWalStats =
  st_entry_count :: nat
  st_data_bytes :: u64
  st_checkpoint_count :: nat
  st_next_sequence :: u64
  st_oldest_sequence :: "u64 option"

definition sw_stats :: "StorageWriteAheadLog \<Rightarrow> StorageWalStats" where
  "sw_stats w =
     \<lparr>st_entry_count = length (sw_entries w), st_data_bytes = sw_total_data_bytes w,
      st_checkpoint_count = length (sw_checkpoints w), st_next_sequence = sw_next_sequence w,
      st_oldest_sequence = (case sw_entries w of [] \<Rightarrow> None | e # _ \<Rightarrow> Some (se_sequence e))\<rparr>"

subsection \<open>Replay\<close>

text \<open>
  Calls on the shared log, with the operations that a replay has to return kept beside it under the numbers that
  \<open>append\<close> returned: those accepted since the last checkpoint that succeeded, less those that a truncation removed.
\<close>

datatype wal_call = Call_Append u64 WalOp | Call_Checkpoint u64 | Call_Truncate u64 | Call_Replay

fun wal_exec :: "op_serializer \<Rightarrow> WriteAheadLog \<Rightarrow> wal_call \<Rightarrow> WriteAheadLog" where
  "wal_exec ser w (Call_Append now op) = fst (wa_append ser now w op)"
| "wal_exec ser w (Call_Checkpoint now) = fst (wa_checkpoint ser now w)"
| "wal_exec ser w (Call_Truncate s) = fst (wa_truncate_before w s)"
| "wal_exec ser w Call_Replay = fst (replay_ops w)"

fun pending_step :: "op_serializer \<Rightarrow> WriteAheadLog \<Rightarrow> (u64 \<times> WalOp) list \<Rightarrow> wal_call \<Rightarrow> (u64 \<times> WalOp) list" where
  "pending_step ser w ps (Call_Append now op) =
     (case snd (wa_append ser now w op) of Ok seq \<Rightarrow> if data_op op then ps @ [(seq, op)] else ps | _ \<Rightarrow> ps)"
| "pending_step ser w ps (Call_Checkpoint now) = (case snd (wa_checkpoint ser now w) of Ok _ \<Rightarrow> [] | _ \<Rightarrow> ps)"
| "pending_step ser w ps (Call_Truncate s) = filter (\<lambda>(seq, op). s \<le> seq) ps"
| "pending_step ser w ps Call_Replay = ps"

fun wal_run :: "op_serializer \<Rightarrow> WriteAheadLog \<Rightarrow> (u64 \<times> WalOp) list \<Rightarrow> wal_call list \<Rightarrow> WriteAheadLog \<times> (u64 \<times> WalOp) list" where
  "wal_run ser w ps [] = (w, ps)"
| "wal_run ser w ps (c # cs) = wal_run ser (wal_exec ser w c) (pending_step ser w ps c) cs"

definition pending_entries :: "WriteAheadLog \<Rightarrow> (u64 \<times> WalOp) list" where
  "pending_entries w =
     map (\<lambda>e. (we_sequence e, we_op e)) (filter (\<lambda>e. data_op (we_op e)) (entries_since_checkpoint w))"

lemma replay_pending: "snd (replay_ops w) = map snd (pending_entries w)"
  by (simp add: replay_ops_def pending_entries_def filter_map comp_def)

definition wal_inv :: "nat \<Rightarrow> WriteAheadLog \<Rightarrow> (u64 \<times> WalOp) list \<Rightarrow> bool" where
  "wal_inv k w ps \<longleftrightarrow>
     (\<forall>e \<in> set (wa_entries w). we_sequence e < wa_next_sequence w) \<and> wa_checkpoint_sequence w < wa_next_sequence w \<and>
     unat (wa_next_sequence w) \<le> Suc k \<and> length (wa_entries w) \<le> wa_max_entries w \<and> pending_entries w = ps"

lemma wa_append_cases:
  obtains (full) e where "wa_append ser now w op = (w, Err e)"
  | (ok) bytes where "length (wa_entries w) < wa_max_entries w"
      "wa_append ser now w op =
        (w\<lparr>wa_next_sequence := wa_next_sequence w + 1,
           wa_entries := wa_entries w @ [\<lparr>we_sequence = wa_next_sequence w, we_op = op, we_crc32 = fnv1a_32 bytes, we_timestamp_ms = now\<rparr>],
           wa_stats := (wa_stats w)\<lparr>ws_total_appended := ws_total_appended (wa_stats w) + 1\<rparr>\<rparr>, Ok (wa_next_sequence w))"
  by (cases "length (wa_entries w) < wa_max_entries w"; cases "ser op")
    (auto simp: wa_append_def to_bytes_for_crc_def Let_def)

lemma next_sequence:
  assumes "unat (n :: u64) \<le> Suc k" "Suc k < 2 ^ 64 - 1"
  shows "unat (n + 1) = Suc (unat n)" "n < n + 1"
proof -
  show "unat (n + 1) = Suc (unat n)" using assms by (simp add: unat_word_ariths(1))
  then show "n < n + 1" by (simp add: word_less_nat_alt)
qed

lemma wal_step:
  assumes "wal_inv k w ps" "Suc k < 2 ^ 64 - 1"
  shows "wal_inv (Suc k) (wal_exec ser w c) (pending_step ser w ps c)"
proof (cases c)
  case (Call_Append now op)
  have n: "wa_next_sequence w < wa_next_sequence w + 1" "unat (wa_next_sequence w + 1) = Suc (unat (wa_next_sequence w))"
    using next_sequence [OF _ assms(2)] assms(1) by (auto simp: wal_inv_def)
  show ?thesis
  proof (cases rule: wa_append_cases [of ser now w op])
    case (full e)
    then show ?thesis using assms(1) Call_Append by (auto simp: wal_inv_def)
  next
    case (ok bytes)
    then show ?thesis using assms(1) Call_Append n
      by (auto simp: wal_inv_def pending_entries_def entries_since_checkpoint_def Let_def dest: order.strict_trans)
  qed
next
  case (Call_Checkpoint now)
  have n: "wa_next_sequence w < wa_next_sequence w + 1" "unat (wa_next_sequence w + 1) = Suc (unat (wa_next_sequence w))"
    using next_sequence [OF _ assms(2)] assms(1) by (auto simp: wal_inv_def)
  show ?thesis
  proof (cases rule: wa_append_cases [of ser now w "Op_Checkpoint (wa_next_sequence w)"])
    case (full e)
    then show ?thesis using assms(1) Call_Checkpoint by (auto simp: wal_inv_def wa_checkpoint_def)
  next
    case (ok bytes)
    have "filter (\<lambda>e. wa_next_sequence w < we_sequence e) (wa_entries w) = []"
      using assms(1) by (auto simp: wal_inv_def filter_empty_conv dest: order.strict_trans)
    then show ?thesis using ok assms(1) Call_Checkpoint n
      by (auto simp: wal_inv_def wa_checkpoint_def pending_entries_def entries_since_checkpoint_def Let_def dest: order.strict_trans)
  qed
next
  case (Call_Truncate s)
  have "pending_entries (fst (wa_truncate_before w s)) = filter (\<lambda>(seq, op). s \<le> seq) (pending_entries w)"
    by (simp add: pending_entries_def entries_since_checkpoint_def wa_truncate_before_def Let_def filter_map comp_def conj_ac)
  then show ?thesis using assms(1) Call_Truncate
    by (auto simp: wal_inv_def wa_truncate_before_def Let_def intro: le_trans [OF length_filter_le])
next
  case Call_Replay
  then show ?thesis using assms(1) by (auto simp: wal_inv_def replay_ops_def pending_entries_def entries_since_checkpoint_def Let_def)
qed

lemma wal_run_inv:
  assumes "wal_inv k w ps" "k + length cs < 2 ^ 64 - 1" "wal_run ser w ps cs = (w', ps')"
  shows "wal_inv (k + length cs) w' ps'"
  using assms
proof (induction cs arbitrary: k w ps)
  case (Cons c cs)
  have "wal_inv (Suc k) (wal_exec ser w c) (pending_step ser w ps c)"
    by (rule wal_step [OF Cons.prems(1)]) (use Cons.prems(2) in simp)
  from Cons.IH [OF this] Cons.prems show ?case by simp
qed simp

subsection \<open>The log driven by ticks\<close>

datatype sw_call = Sw_Append WalEntryKind string bytes | Sw_Checkpoint | Sw_Truncate u64 | Sw_Tick

fun sw_exec :: "StorageWriteAheadLog \<Rightarrow> sw_call \<Rightarrow> StorageWriteAheadLog" where
  "sw_exec w (Sw_Append kind key data) = fst (sw_append w kind key data)"
| "sw_exec w Sw_Checkpoint = fst (sw_create_checkpoint w)"
| "sw_exec w (Sw_Truncate s) = sw_truncate_before w s"
| "sw_exec w Sw_Tick = sw_tick w"

text \<open>The entries are numbered without gaps up to the next number, and the bytes are counted.\<close>

definition data_bytes :: "StorageWalEntry list \<Rightarrow> nat" where
  "data_bytes es = sum_list (map (\<lambda>e. length (se_data e)) es)"

definition numbered :: "StorageWalEntry list \<Rightarrow> u64 \<Rightarrow> bool" where
  "numbered es next \<longleftrightarrow> (\<forall>i < length es. unat (se_sequence (es ! i)) + (length es - i) = unat next)"

definition sw_inv :: "WalConfig \<Rightarrow> nat \<Rightarrow> StorageWriteAheadLog \<Rightarrow> bool" where
  "sw_inv config k w \<longleftrightarrow>
     sw_config w = config \<and> numbered (sw_entries w) (sw_next_sequence w) \<and> unat (sw_next_sequence w) \<le> Suc k \<and>
     unat (sw_total_data_bytes w) = data_bytes (sw_entries w) \<and> data_bytes (sw_entries w) \<le> unat (wc_max_data_bytes config) \<and>
     length (sw_entries w) \<le> max 1 (wc_max_entries config)"

lemma numbered_tl: "numbered (e # es) n \<Longrightarrow> numbered es n"
  unfolding numbered_def
proof (intro allI impI)
  fix i assume n: "\<forall>i < length (e # es). unat (se_sequence ((e # es) ! i)) + (length (e # es) - i) = unat n" "i < length es"
  then show "unat (se_sequence (es ! i)) + (length es - i) = unat n" using spec [OF n(1), of "Suc i"] by simp
qed

lemma numbered_snoc:
  assumes "numbered es n" "unat (n + 1) = Suc (unat n)" "se_sequence e = n"
  shows "numbered (es @ [e]) (n + 1)"
  using assms by (auto simp: numbered_def nth_append less_Suc_eq Suc_diff_le)

lemma sw_evict_inv: "sw_inv config k w \<Longrightarrow> sw_inv config k (sw_evict w)"
  by (cases "sw_entries w")
    (auto simp: sw_inv_def sw_evict_def data_bytes_def sat_sub_def word_le_nat_alt unat_sub unat_of_nat intro: numbered_tl
      dest: order.strict_trans1 [OF _ unsigned_less])

lemma sw_truncate_inv: "sw_inv config k w \<Longrightarrow> sw_inv config k (sw_truncate_before w s)"
proof (induction w s rule: sw_truncate_before.induct)
  case (1 w s)
  then show ?case
    by (subst sw_truncate_before.simps) (cases "sw_entries w"; simp add: sw_evict_inv)
qed

lemma sw_evict_room:
  assumes "wc_max_entries (sw_config w) \<le> length (sw_entries w)" "length (sw_entries w) \<le> max 1 (wc_max_entries (sw_config w))"
  shows "length (sw_entries (sw_evict w)) < max 1 (wc_max_entries (sw_config w))"
  using assms by (cases "sw_entries w") (auto simp: sw_evict_def)

lemma sw_evict_simps [simp]:
  "sw_config (sw_evict w) = sw_config w" "sw_next_sequence (sw_evict w) = sw_next_sequence w" "sw_current_tick (sw_evict w) = sw_current_tick w"
  by (simp_all add: sw_evict_def split: list.splits)

lemma sw_append_inv:
  assumes "sw_inv config k w" "Suc k < 2 ^ 64 - 1" "unat (wc_max_data_bytes config) < 2 ^ 63" "length data < 2 ^ 63"
  shows "sw_inv config (Suc k) (fst (sw_append w kind key data))"
proof (cases "wc_max_data_bytes (sw_config w) < sw_total_data_bytes w + of_nat (length data)")
  case True
  then show ?thesis using assms(1) by (auto simp: sw_append_def sw_inv_def Let_def)
next
  case False
  define w1 where "w1 = (if wc_max_entries (sw_config w) \<le> length (sw_entries w) then sw_evict w else w)"
  have c: "sw_config w1 = config" "sw_config w = config" "sw_next_sequence w1 = sw_next_sequence w" using assms(1) by (auto simp: w1_def sw_inv_def)
  have i: "sw_inv config k w1" using assms(1) sw_evict_inv by (auto simp: w1_def)
  have room: "length (sw_entries w1) < max 1 (wc_max_entries config)"
    using sw_evict_room [of w] assms(1) by (auto simp: w1_def sw_inv_def)
  have n: "unat (sw_next_sequence w1 + 1) = Suc (unat (sw_next_sequence w1))" using next_sequence [OF _ assms(2)] i by (simp add: sw_inv_def)
  have b: "data_bytes (sw_entries w1) \<le> data_bytes (sw_entries w)"
    by (cases "sw_entries w") (auto simp: w1_def sw_evict_def data_bytes_def)
  have l: "unat (of_nat (length data) :: u64) = length data" using assms(4) by (simp add: unat_of_nat)
  have t: "unat (sw_total_data_bytes v + of_nat (length data)) = data_bytes (sw_entries v) + length data" if "sw_inv config k v" for v
    using that assms(3,4) by (simp add: sw_inv_def unat_word_ariths(1) l)
  have "data_bytes (sw_entries w) + length data \<le> unat (wc_max_data_bytes config)"
    using False t [OF assms(1)] c by (simp add: word_less_nat_alt)
  moreover have "fst (sw_append w kind key data) =
    w1\<lparr>sw_next_sequence := sw_next_sequence w1 + 1,
       sw_entries := sw_entries w1 @
         [\<lparr>se_sequence = sw_next_sequence w1, se_kind = kind, se_key = key, se_data = data, se_timestamp_tick = sw_current_tick w1\<rparr>],
       sw_total_data_bytes := sw_total_data_bytes w1 + of_nat (length data)\<rparr>"
    using False by (simp add: sw_append_def Let_def w1_def)
  ultimately show ?thesis
    using i room n b t [OF i] numbered_snoc [OF _ n] by (simp add: sw_inv_def data_bytes_def)
qed

fun sw_run :: "StorageWriteAheadLog \<Rightarrow> sw_call list \<Rightarrow> StorageWriteAheadLog" where
  "sw_run w [] = w"
| "sw_run w (c # cs) = sw_run (sw_exec w c) cs"

definition small_data :: "sw_call \<Rightarrow> bool" where
  "small_data c \<longleftrightarrow> (case c of Sw_Append kind key data \<Rightarrow> length data < 2 ^ 63 | _ \<Rightarrow> True)"

lemma sw_inv_mono: "sw_inv config k w \<Longrightarrow> sw_inv config (Suc k) w"
  by (auto simp: sw_inv_def)

lemma sw_run_inv:
  assumes "sw_inv config k w" "unat (wc_max_data_bytes config) < 2 ^ 63" "k + length cs < 2 ^ 64 - 1" "\<forall>c \<in> set cs. small_data c"
  shows "sw_inv config (k + length cs) (sw_run w cs)"
  using assms(1,3,4)
proof (induction cs arbitrary: k w)
  case (Cons c cs)
  have "sw_inv config (Suc k) (sw_exec w c)"
  proof (cases c)
    case (Sw_Append kind key data)
    then show ?thesis using sw_append_inv [OF Cons.prems(1) _ assms(2)] Cons.prems(2,3) by (simp add: small_data_def)
  next
    case Sw_Checkpoint
    then show ?thesis using sw_inv_mono [OF Cons.prems(1)] by (simp add: sw_create_checkpoint_def sw_inv_def Let_def)
  next
    case (Sw_Truncate s)
    then show ?thesis using sw_inv_mono [OF sw_truncate_inv [OF Cons.prems(1)]] by simp
  next
    case Sw_Tick
    then show ?thesis using sw_inv_mono [OF Cons.prems(1)] by (simp add: sw_tick_def sw_inv_def)
  qed
  from Cons.IH [OF this] Cons.prems show ?case by simp
qed simp

text \<open>The index computed from the first number is that of the entry.\<close>

lemma sw_get_entry_find:
  assumes "numbered (sw_entries w) n"
  shows "sw_get_entry w s = find (\<lambda>e. se_sequence e = s) (sw_entries w)"
proof (cases "find (\<lambda>e. se_sequence e = s) (sw_entries w)")
  case None
  then have no: "\<forall>e \<in> set (sw_entries w). se_sequence e \<noteq> s" by (simp add: find_None_iff)
  then have "se_sequence (sw_entries w ! i) \<noteq> s" if "i < length (sw_entries w)" for i using that by simp
  then show ?thesis using None by (simp add: sw_get_entry_def Let_def split: list.split) metis
next
  case (Some e)
  then obtain i where i: "i < length (sw_entries w)" "e = sw_entries w ! i" "se_sequence e = s" by (auto simp: find_Some_iff)
  obtain f es where es: "sw_entries w = f # es" using i(1) by (cases "sw_entries w") auto
  have "unat s + (length (sw_entries w) - i) = unat n" "unat (se_sequence f) + length (sw_entries w) = unat n"
    using assms i spec [OF assms [unfolded numbered_def], of 0] by (auto simp: numbered_def es)
  then have f: "unat s = unat (se_sequence f) + i" using i(1) by linarith
  then have "unat (s - se_sequence f) = i" by (simp add: unat_sub word_le_nat_alt)
  moreover have "\<not> s < se_sequence f" using f by (simp add: word_less_nat_alt)
  ultimately show ?thesis using Some i es by (auto simp: sw_get_entry_def Let_def)
qed

subsection \<open>Properties\<close>

text \<open>
  (C20) Replay: after any sequence of fewer than \<open>2 ^ 64 - 1\<close> calls on a fresh log, replay returns exactly the
  operations that were accepted since the last checkpoint that succeeded, in order, except those whose numbers lie
  below the bound of a truncation made after they were accepted. Their numbers are above that of the checkpoint, so
  a truncation up to the checkpoint removes none of them. The log stays within its capacity.
\<close>

theorem wal_replay_exact:
  assumes "wal_run ser (wa_new m) [] cs = (w, ps)" "length cs < 2 ^ 64 - 1"
  shows "snd (replay_ops w) = map snd ps \<and> (\<forall>(seq, op) \<in> set ps. wa_checkpoint_sequence w < seq) \<and> wa_entry_count w \<le> m"
proof -
  have init: "wal_inv 0 (wa_new m) []" by (simp add: wal_inv_def wa_new_def pending_entries_def entries_since_checkpoint_def)
  have "wa_max_entries (wal_exec ser v c) = wa_max_entries v" for v c
    by (cases c) (auto simp: wa_append_def wa_checkpoint_def wa_truncate_before_def replay_ops_def to_bytes_for_crc_def Let_def split: option.splits)
  then have "wal_run ser v qs cs = (w, ps) \<Longrightarrow> wa_max_entries w = wa_max_entries v" for v qs
    by (induction cs arbitrary: v qs) auto
  from this [OF assms(1)] wal_run_inv [OF init _ assms(1)] assms(2) have "wal_inv (length cs) w ps" "wa_max_entries w = m"
    by (simp_all add: wa_new_def)
  then show ?thesis
    by (auto simp: wal_inv_def replay_pending wa_entry_count_def pending_entries_def entries_since_checkpoint_def)
qed

text \<open>
  (C33) The log driven by ticks, after any calls with data that fits in memory: an entry is found under its
  number exactly when the log holds it, the byte count is the sum over the entries and within the budget, and the
  number of entries is within the limit.
\<close>

theorem storage_wal_consistent:
  assumes "w = sw_run (sw_new config) cs" "unat (wc_max_data_bytes config) < 2 ^ 63" "length cs < 2 ^ 64 - 1" "\<forall>c \<in> set cs. small_data c"
  shows "sw_get_entry w s = find (\<lambda>e. se_sequence e = s) (sw_entries w) \<and>
    unat (sw_total_data_bytes w) = sum_list (map (\<lambda>e. length (se_data e)) (sw_entries w)) \<and>
    sw_total_data_bytes w \<le> wc_max_data_bytes config \<and> length (sw_entries w) \<le> max 1 (wc_max_entries config)"
proof -
  have "sw_inv config 0 (sw_new config)" by (simp add: sw_inv_def sw_new_def numbered_def data_bytes_def)
  from sw_run_inv [OF this assms(2) _ assms(4)] assms(1,3) have "sw_inv config (length cs) w" by simp
  then show ?thesis using sw_get_entry_find [of w "sw_next_sequence w" s] by (simp add: sw_inv_def data_bytes_def word_le_nat_alt)
qed

theorem wal_replay_exact_witness:
  defines "cs \<equiv> [Call_Append 1 (Op_Delete ''a''), Call_Checkpoint 2, Call_Append 3 (Op_Put ''b'' 9), Call_Append 4 (Op_Put ''c'' 8), Call_Truncate 4]"
  shows "snd (replay_ops (fst (wal_run (\<lambda>_. Some []) (wa_new 5) [] cs))) = [Op_Put ''c'' 8] \<and>
    wa_entry_count (fst (wal_run (\<lambda>_. Some []) (wa_new 5) [] cs)) \<le> 5"
proof -
  obtain w where w: "wal_run (\<lambda>_. Some []) (wa_new 5) [] cs = (w, [(4, Op_Put ''c'' 8)])"
    by (simp add: cs_def wa_new_def wa_append_def wa_checkpoint_def to_bytes_for_crc_def Let_def)
  from wal_replay_exact [OF w] w show ?thesis by (simp add: cs_def)
qed

theorem storage_wal_consistent_witness:
  defines "w \<equiv> sw_run (sw_new wal_config_default) [Sw_Append Kind_Put ''a'' [1, 2], Sw_Append Kind_Delete ''a'' [], Sw_Tick, Sw_Checkpoint]"
  shows "sw_get_entry w 2 = find (\<lambda>e. se_sequence e = 2) (sw_entries w) \<and>
    unat (sw_total_data_bytes w) = sum_list (map (\<lambda>e. length (se_data e)) (sw_entries w)) \<and>
    sw_total_data_bytes w \<le> 100000000 \<and> length (sw_entries w) \<le> 10000"
  using storage_wal_consistent [of w wal_config_default "[Sw_Append Kind_Put ''a'' [1, 2], Sw_Append Kind_Delete ''a'' [], Sw_Tick, Sw_Checkpoint]" 2]
  unfolding w_def by (simp add: small_data_def wal_config_default_def)

subsection \<open>Defects\<close>

text \<open>A full log can neither be checkpointed nor appended to.\<close>

lemma wal_full_stuck:
  assumes "wa_max_entries w \<le> length (wa_entries w)"
  shows "wa_checkpoint ser now w = (w, Err (CapacityExceeded (length (wa_entries w)) (wa_max_entries w)))"
    "wa_append ser now w op = (w, Err (CapacityExceeded (length (wa_entries w)) (wa_max_entries w)))"
  using assms by (simp_all add: wa_checkpoint_def wa_append_def)

text \<open>The log driven by ticks evicts entries that no checkpoint covers; a replay then misses them.\<close>

lemma storage_wal_loses_entries:
  defines "w \<equiv> sw_run (sw_new \<lparr>wc_max_entries = 1, wc_max_data_bytes = 100, wc_checkpoint_interval = 50\<rparr>)
    [Sw_Checkpoint, Sw_Append Kind_Put ''a'' [1], Sw_Append Kind_Put ''b'' [2]]"
  shows "\<exists>es. replay_from_checkpoint w 0 = Ok es \<and> map se_key es = [''b'']"
  by (simp add: w_def sw_new_def sw_create_checkpoint_def sat_sub_def sw_append_def sw_evict_def replay_from_checkpoint_def sw_entries_since_def Let_def)

text \<open>The budget is tested before the eviction that would make room.\<close>

lemma storage_wal_budget_before_eviction:
  defines "w \<equiv> sw_run (sw_new \<lparr>wc_max_entries = 1, wc_max_data_bytes = 2, wc_checkpoint_interval = 50\<rparr>) [Sw_Append Kind_Put ''a'' [1, 2]]"
  shows "sw_append w Kind_Put ''b'' [3] = (w, Err ''WAL data limit exceeded'')" "snd (sw_append (sw_evict w) Kind_Put ''b'' [3]) = Ok 2"
  by (simp_all add: w_def sw_new_def sw_append_def sw_evict_def sat_sub_def Let_def)

end
