(* ===== verification/Version_Control.thy ===== *)
theory Version_Control
  imports Core_Block Worklist
begin

text \<open>
  Version control of models (\<open>ipfrs-storage/src/vcs.rs\<close>): commits as blocks that link to their parents, branches
  and tags in a table of references, checkout, history, search for ancestors, merge, and the commit builder.

  \<^item> The encoder \<open>oxicode\<close> is a parameter on the values that serde hands to it, in which a CID is the bytes that
    \<open>serialize_cid\<close> writes; the field \<open>cid\<close> of a commit is skipped.
  \<^item> The store is any backend of the trait; several users share it. A method runs to its end before the next.
  \<^item> A \<open>HashMap\<close> is the list of its entries in the order in which it iterates, which need not survive decoding.
  \<^item> The clock is the number of seconds since the epoch, negative before it. Texts of errors omit the CID.
  \<^item> The searches follow links; they take fuel. \<open>log\<close> is bounded by its limit.
\<close>

subsection \<open>Commits\<close>

record Author =
  au_name :: string
  au_email :: string

record 'c Commit =
  cm_cid :: "'c option"
  cm_parents :: "'c list"
  cm_root :: 'c
  cm_message :: string
  cm_author :: Author
  cm_timestamp :: u64
  cm_metadata :: "(string \<times> string) list"

datatype RefType = Branch | Tag

record 'c Ref =
  rf_name :: string
  rf_commit :: 'c
  rf_type :: RefType

text \<open>What serde passes to the encoder.\<close>

record wire_commit =
  wc_parents :: "bytes list"
  wc_root :: bytes
  wc_message :: string
  wc_author :: Author
  wc_timestamp :: u64
  wc_metadata :: "(string \<times> string) list"

record wire_ref =
  wr_name :: string
  wr_commit :: bytes
  wr_type :: RefType

record oxicode =
  ox_encode_commit :: "wire_commit \<Rightarrow> bytes option"
  ox_decode_commit :: "bytes \<Rightarrow> wire_commit option"
  ox_encode_ref :: "wire_ref \<Rightarrow> bytes option"
  ox_decode_ref :: "bytes \<Rightarrow> wire_ref option"

definition serialize_cid :: "'c cid_crate \<Rightarrow> 'c \<Rightarrow> bytes" where
  "serialize_cid E cid = cid_to_bytes E cid"

definition deserialize_cid :: "'c cid_crate \<Rightarrow> bytes \<Rightarrow> 'c option" where
  "deserialize_cid E bytes = cid_try_from E bytes"

definition serialize_cid_vec :: "'c cid_crate \<Rightarrow> 'c list \<Rightarrow> bytes list" where
  "serialize_cid_vec E cids = map (cid_to_bytes E) cids"

definition deserialize_cid_vec :: "'c cid_crate \<Rightarrow> bytes list \<Rightarrow> 'c list option" where
  "deserialize_cid_vec E bytes_vec = those (map (cid_try_from E) bytes_vec)"

definition commit_to_wire :: "'c cid_crate \<Rightarrow> 'c Commit \<Rightarrow> wire_commit" where
  "commit_to_wire E c =
     \<lparr>wc_parents = serialize_cid_vec E (cm_parents c), wc_root = serialize_cid E (cm_root c), wc_message = cm_message c,
      wc_author = cm_author c, wc_timestamp = cm_timestamp c, wc_metadata = cm_metadata c\<rparr>"

definition commit_of_wire :: "'c cid_crate \<Rightarrow> wire_commit \<Rightarrow> 'c Commit option" where
  "commit_of_wire E w =
     (case (deserialize_cid_vec E (wc_parents w), deserialize_cid E (wc_root w)) of
        (Some parents, Some root) \<Rightarrow>
          Some \<lparr>cm_cid = None, cm_parents = parents, cm_root = root, cm_message = wc_message w,
                cm_author = wc_author w, cm_timestamp = wc_timestamp w, cm_metadata = wc_metadata w\<rparr>
      | _ \<Rightarrow> None)"

definition ref_to_wire :: "'c cid_crate \<Rightarrow> 'c Ref \<Rightarrow> wire_ref" where
  "ref_to_wire E r = \<lparr>wr_name = rf_name r, wr_commit = serialize_cid E (rf_commit r), wr_type = rf_type r\<rparr>"

definition ref_of_wire :: "'c cid_crate \<Rightarrow> wire_ref \<Rightarrow> 'c Ref option" where
  "ref_of_wire E w =
     map_option (\<lambda>commit. \<lparr>rf_name = wr_name w, rf_commit = commit, rf_type = wr_type w\<rparr>) (deserialize_cid E (wr_commit w))"

definition commit_new ::
    "int \<Rightarrow> 'c list \<Rightarrow> 'c \<Rightarrow> string \<Rightarrow> Author \<Rightarrow> (string \<times> string) list \<Rightarrow> (core_error, 'c Commit) outcome" where
  "commit_new now parents root message author metadata =
     (if now < 0 then Panic
      else Ok \<lparr>cm_cid = None, cm_parents = parents, cm_root = root, cm_message = message, cm_author = author,
               cm_timestamp = word_of_int now, cm_metadata = metadata\<rparr>)"

definition commit_to_block :: "'c cid_crate \<Rightarrow> oxicode \<Rightarrow> 'c Commit \<Rightarrow> (core_error, 'c Block) outcome" where
  "commit_to_block E X c =
     obind (ok_or (Serialization ''Failed to serialize commit'') (ox_encode_commit X (commit_to_wire E c))) (block_new E)"

definition finalize :: "'c cid_crate \<Rightarrow> oxicode \<Rightarrow> 'c Commit \<Rightarrow> 'c Commit \<times> (core_error, 'c) outcome" where
  "finalize E X c =
     sbind (c, ok_or (Serialization ''Failed to serialize commit'') (ox_encode_commit X (commit_to_wire E c))) (\<lambda>c bytes.
     sbind (c, block_new E bytes) (\<lambda>c block.
       (c\<lparr>cm_cid := Some (blk_cid block)\<rparr>, Ok (blk_cid block))))"

definition commit_from_block :: "'c cid_crate \<Rightarrow> oxicode \<Rightarrow> 'c Block \<Rightarrow> (core_error, 'c Commit) outcome" where
  "commit_from_block E X block =
     obind (ok_or (Serialization ''Failed to deserialize commit'')
       (Option.bind (ox_decode_commit X (blk_data block)) (commit_of_wire E))) (\<lambda>commit.
     Ok (commit\<lparr>cm_cid := Some (blk_cid block)\<rparr>))"

definition is_initial :: "'c Commit \<Rightarrow> bool" where
  "is_initial c \<longleftrightarrow> cm_parents c = []"

definition get_commit_cid :: "'c Commit \<Rightarrow> (core_error, 'c) outcome" where
  "get_commit_cid c = (case cm_cid c of Some cid \<Rightarrow> Ok cid | None \<Rightarrow> Panic)"

definition ref_branch :: "string \<Rightarrow> 'c \<Rightarrow> 'c Ref" where
  "ref_branch name commit = \<lparr>rf_name = name, rf_commit = commit, rf_type = Branch\<rparr>"

definition ref_tag :: "string \<Rightarrow> 'c \<Rightarrow> 'c Ref" where
  "ref_tag name commit = \<lparr>rf_name = name, rf_commit = commit, rf_type = Tag\<rparr>"

definition ref_to_block :: "'c cid_crate \<Rightarrow> oxicode \<Rightarrow> 'c Ref \<Rightarrow> (core_error, 'c Block) outcome" where
  "ref_to_block E X r =
     obind (ok_or (Serialization ''Failed to serialize ref'') (ox_encode_ref X (ref_to_wire E r))) (block_new E)"

definition ref_from_block :: "'c cid_crate \<Rightarrow> oxicode \<Rightarrow> 'c Block \<Rightarrow> (core_error, 'c Ref) outcome" where
  "ref_from_block E X block =
     ok_or (Serialization ''Failed to deserialize ref'')
       (Option.bind (ox_decode_ref X (blk_data block)) (ref_of_wire E))"

subsection \<open>The version control system\<close>

record ('k, 'c) VersionControl =
  vc_store :: 'k
  vc_current_branch :: string
  vc_head :: "'c option"
  vc_refs_cache :: "(string \<times> 'c) list"

datatype MergeStrategy = MS_FastForward | ThreeWay | Ours | Theirs

datatype 'c MergeResult = MR_FastForward 'c | MergeCommit 'c | Conflicts "string list"

definition vc_new :: "'k \<Rightarrow> ('k, 'c) VersionControl" where
  "vc_new store = \<lparr>vc_store = store, vc_current_branch = ''main'', vc_head = None, vc_refs_cache = []\<rparr>"

definition list_refs :: "('k, 'c) VersionControl \<Rightarrow> (string \<times> 'c) list" where
  "list_refs vc = vc_refs_cache vc"

text \<open>\<open>self.store.put(&block).await\<close>\<close>

definition vc_put ::
    "('k, 'c) BlockStoreTrait \<Rightarrow> ('k, 'c) VersionControl \<Rightarrow> 'c Block
       \<Rightarrow> ('k, 'c) VersionControl \<times> (core_error, unit) outcome" where
  "vc_put K vc block = (let (k, r) = ct_put K (vc_store vc) block in (vc\<lparr>vc_store := k\<rparr>, r))"

text \<open>Loading of a commit, which the methods repeat: \<open>get\<close>, \<open>ok_or_else\<close> and \<open>from_block\<close>.\<close>

definition load_commit ::
    "'c cid_crate \<Rightarrow> oxicode \<Rightarrow> ('k, 'c) BlockStoreTrait \<Rightarrow> string \<Rightarrow> 'k \<Rightarrow> 'c \<Rightarrow> (core_error, 'c Commit) outcome" where
  "load_commit E X K what k cid =
     obind (ct_get K k cid) (\<lambda>block.
     obind (ok_or (Error_NotFound what) block) (commit_from_block E X))"

text \<open>The steps that \<open>commit\<close> and \<open>merge\<close> share: finalize the commit, make its block and store it.\<close>

definition store_commit ::
    "'c cid_crate \<Rightarrow> oxicode \<Rightarrow> ('k, 'c) BlockStoreTrait \<Rightarrow> ('k, 'c) VersionControl \<Rightarrow> 'c Commit
       \<Rightarrow> ('k, 'c) VersionControl \<times> (core_error, 'c) outcome" where
  "store_commit E X K vc commit =
     (let (commit, r) = finalize E X commit in
      sbind (vc, r) (\<lambda>vc commit_cid.
      sbind (vc, commit_to_block E X commit) (\<lambda>vc commit_block.
      sbind (vc_put K vc commit_block) (\<lambda>vc _. (vc, Ok commit_cid)))))"

definition update_ref ::
    "'c cid_crate \<Rightarrow> oxicode \<Rightarrow> ('k, 'c) BlockStoreTrait \<Rightarrow> ('k, 'c) VersionControl \<Rightarrow> string \<Rightarrow> 'c \<Rightarrow> RefType
       \<Rightarrow> ('k, 'c) VersionControl \<times> (core_error, unit) outcome" where
  "update_ref E X K vc name commit ref_type =
     (let vc = vc\<lparr>vc_refs_cache := hm_insert name commit (vc_refs_cache vc)\<rparr> in
      sbind (vc, ref_to_block E X \<lparr>rf_name = name, rf_commit = commit, rf_type = ref_type\<rparr>) (\<lambda>vc ref_block.
      sbind (vc_put K vc ref_block) (\<lambda>vc _. (vc, Ok ()))))"

definition vc_commit ::
    "'c cid_crate \<Rightarrow> oxicode \<Rightarrow> ('k, 'c) BlockStoreTrait \<Rightarrow> int \<Rightarrow> ('k, 'c) VersionControl
       \<Rightarrow> 'c \<Rightarrow> string \<Rightarrow> Author \<Rightarrow> (string \<times> string) list
       \<Rightarrow> ('k, 'c) VersionControl \<times> (core_error, 'c) outcome" where
  "vc_commit E X K now vc root message author metadata =
     (let parents = (case vc_head vc of Some head \<Rightarrow> [head] | None \<Rightarrow> []) in
      sbind (vc, commit_new now parents root message author metadata) (\<lambda>vc commit.
      sbind (store_commit E X K vc commit) (\<lambda>vc commit_cid.
      sbind (update_ref E X K (vc\<lparr>vc_head := Some commit_cid\<rparr>) (vc_current_branch vc) commit_cid Branch) (\<lambda>vc _.
        (vc, Ok commit_cid)))))"

definition checkout ::
    "'c cid_crate \<Rightarrow> oxicode \<Rightarrow> ('k, 'c) BlockStoreTrait \<Rightarrow> ('k, 'c) VersionControl \<Rightarrow> 'c
       \<Rightarrow> ('k, 'c) VersionControl \<times> (core_error, 'c) outcome" where
  "checkout E X K vc commit_cid =
     sbind (vc, load_commit E X K ''Commit not found'' (vc_store vc) commit_cid) (\<lambda>vc commit.
       (vc\<lparr>vc_head := Some commit_cid\<rparr>, Ok (cm_root commit)))"

fun contains :: "string \<Rightarrow> string \<Rightarrow> bool" where
  "contains p [] = (p = [])"
| "contains p (c # s) = (starts_with p (c # s) \<or> contains p s)"

definition get_ref :: "('k, 'c) VersionControl \<Rightarrow> string \<Rightarrow> (core_error, 'c Ref) outcome" where
  "get_ref vc name =
     (case map_of (vc_refs_cache vc) name of
        Some commit_cid \<Rightarrow>
          let ref_type = (if starts_with ''refs/tags/'' name \<or> contains ''/tags/'' name then Tag else Branch) in
          Ok \<lparr>rf_name = name, rf_commit = commit_cid, rf_type = ref_type\<rparr>
      | None \<Rightarrow> Err (Error_NotFound ''Ref not found''))"

definition checkout_ref ::
    "'c cid_crate \<Rightarrow> oxicode \<Rightarrow> ('k, 'c) BlockStoreTrait \<Rightarrow> ('k, 'c) VersionControl \<Rightarrow> string
       \<Rightarrow> ('k, 'c) VersionControl \<times> (core_error, 'c) outcome" where
  "checkout_ref E X K vc ref_name =
     sbind (vc, get_ref vc ref_name) (\<lambda>vc ref_obj.
       let vc = (if rf_type ref_obj = Branch then vc\<lparr>vc_current_branch := ref_name\<rparr> else vc) in
       checkout E X K vc (rf_commit ref_obj))"

definition create_ref ::
    "'c cid_crate \<Rightarrow> oxicode \<Rightarrow> ('k, 'c) BlockStoreTrait \<Rightarrow> RefType \<Rightarrow> ('k, 'c) VersionControl \<Rightarrow> string
       \<Rightarrow> ('k, 'c) VersionControl \<times> (core_error, unit) outcome" where
  "create_ref E X K ref_type vc name =
     sbind (vc, ok_or (Storage ''No HEAD commit'') (vc_head vc)) (\<lambda>vc head. update_ref E X K vc name head ref_type)"

definition create_branch ::
    "'c cid_crate \<Rightarrow> oxicode \<Rightarrow> ('k, 'c) BlockStoreTrait \<Rightarrow> ('k, 'c) VersionControl \<Rightarrow> string
       \<Rightarrow> ('k, 'c) VersionControl \<times> (core_error, unit) outcome" where
  "create_branch E X K vc branch_name = create_ref E X K Branch vc branch_name"

definition create_tag ::
    "'c cid_crate \<Rightarrow> oxicode \<Rightarrow> ('k, 'c) BlockStoreTrait \<Rightarrow> ('k, 'c) VersionControl \<Rightarrow> string
       \<Rightarrow> ('k, 'c) VersionControl \<times> (core_error, unit) outcome" where
  "create_tag E X K vc tag_name = create_ref E X K Tag vc tag_name"

subsection \<open>History\<close>

function log_loop ::
    "('c \<Rightarrow> (core_error, 'c Commit) outcome) \<Rightarrow> nat \<Rightarrow> 'c option \<Rightarrow> 'c Commit list \<Rightarrow> (core_error, 'c Commit list) outcome" where
  "log_loop load limit current commits =
     (case current of
        None \<Rightarrow> Ok commits
      | Some cid \<Rightarrow>
          if limit \<le> length commits then Ok commits
          else obind (load cid) (\<lambda>commit.
            let current = (case cm_parents commit of p # _ \<Rightarrow> Some p | [] \<Rightarrow> None) in
            log_loop load limit current (commits @ [commit])))"
  by pat_completeness auto
termination by (relation "measure (\<lambda>(_, limit, _, commits). limit - length commits)") auto

declare log_loop.simps [simp del]

definition vc_log ::
    "'c cid_crate \<Rightarrow> oxicode \<Rightarrow> ('k, 'c) BlockStoreTrait \<Rightarrow> 'k \<Rightarrow> 'c \<Rightarrow> nat \<Rightarrow> (core_error, 'c Commit list) outcome" where
  "vc_log E X K k commit_cid limit = log_loop (load_commit E X K ''Commit not found'' k) limit (Some commit_cid) []"

text \<open>The first loop of \<open>find_common_ancestor\<close>: every ancestor of a commit.\<close>

fun ancestors_loop ::
    "('c \<Rightarrow> (core_error, 'c Commit) outcome) \<Rightarrow> nat \<Rightarrow> 'c list \<Rightarrow> 'c list \<Rightarrow> (core_error, 'c list) outcome" where
  "ancestors_loop load 0 ancestors queue = (if queue = [] then Ok ancestors else Diverge)"
| "ancestors_loop load (Suc fuel) ancestors queue =
     (if queue = [] then Ok ancestors
      else let cid = last queue; queue = butlast queue in
        if cid \<in> set ancestors then ancestors_loop load fuel ancestors queue
        else obind (load cid) (\<lambda>commit.
          ancestors_loop load fuel (hs_insert cid ancestors) (queue @ cm_parents commit)))"

text \<open>
  The second loop of \<open>find_common_ancestor\<close> and the loop of \<open>is_ancestor\<close>: walk the ancestors until one passes
  the test, which is membership in the first set or equality with the ancestor asked for.
\<close>

fun walk_loop ::
    "('c \<Rightarrow> (core_error, 'c Commit) outcome) \<Rightarrow> ('c \<Rightarrow> bool) \<Rightarrow> nat \<Rightarrow> 'c list \<Rightarrow> 'c list
       \<Rightarrow> (core_error, 'c option) outcome" where
  "walk_loop load found 0 visited queue = (if queue = [] then Ok None else Diverge)"
| "walk_loop load found (Suc fuel) visited queue =
     (if queue = [] then Ok None
      else let cid = last queue; queue = butlast queue in
        if cid \<in> set visited then walk_loop load found fuel visited queue
        else if found cid then Ok (Some cid)
        else obind (load cid) (\<lambda>commit.
          walk_loop load found fuel (hs_insert cid visited) (queue @ cm_parents commit)))"

definition find_common_ancestor ::
    "'c cid_crate \<Rightarrow> oxicode \<Rightarrow> ('k, 'c) BlockStoreTrait \<Rightarrow> nat \<Rightarrow> 'k \<Rightarrow> 'c \<Rightarrow> 'c \<Rightarrow> (core_error, 'c option) outcome" where
  "find_common_ancestor E X K fuel k commit1 commit2 =
     (let load = load_commit E X K ''Commit not found'' k in
      obind (ancestors_loop load fuel [] [commit1]) (\<lambda>ancestors1.
        walk_loop load (\<lambda>cid. cid \<in> set ancestors1) fuel [] [commit2]))"

definition is_ancestor ::
    "'c cid_crate \<Rightarrow> oxicode \<Rightarrow> ('k, 'c) BlockStoreTrait \<Rightarrow> nat \<Rightarrow> 'k \<Rightarrow> 'c \<Rightarrow> 'c \<Rightarrow> (core_error, bool) outcome" where
  "is_ancestor E X K fuel k ancestor descendant =
     (if ancestor = descendant then Ok True
      else obind (walk_loop (load_commit E X K ''Commit not found'' k) (\<lambda>cid. cid = ancestor) fuel [] [descendant])
             (\<lambda>hit. Ok (hit \<noteq> None)))"

subsection \<open>Merge\<close>

text \<open>The root of a merge commit; the arm of \<open>FastForward\<close> is \<open>unreachable!\<close>.\<close>

definition merge_root :: "MergeStrategy \<Rightarrow> 'c Commit \<Rightarrow> 'c Commit \<Rightarrow> (core_error, 'c) outcome" where
  "merge_root strategy head_commit branch_commit =
     (case strategy of
        Ours \<Rightarrow> Ok (cm_root head_commit)
      | Theirs \<Rightarrow> Ok (cm_root branch_commit)
      | ThreeWay \<Rightarrow> Ok (cm_root branch_commit)
      | MS_FastForward \<Rightarrow> Panic)"

definition set_branch :: "('k, 'c) VersionControl \<Rightarrow> 'c \<Rightarrow> ('k, 'c) VersionControl" where
  "set_branch vc cid =
     vc\<lparr>vc_head := Some cid, vc_refs_cache := hm_insert (vc_current_branch vc) cid (vc_refs_cache vc)\<rparr>"

definition merge_commit ::
    "'c cid_crate \<Rightarrow> oxicode \<Rightarrow> ('k, 'c) BlockStoreTrait \<Rightarrow> int \<Rightarrow> ('k, 'c) VersionControl
       \<Rightarrow> 'c \<Rightarrow> 'c \<Rightarrow> string \<Rightarrow> Author \<Rightarrow> MergeStrategy \<Rightarrow> ('k, 'c) VersionControl \<times> (core_error, 'c MergeResult) outcome" where
  "merge_commit E X K now vc head_cid branch_cid message author strategy =
     sbind (vc, load_commit E X K ''HEAD commit not found'' (vc_store vc) head_cid) (\<lambda>vc head_commit.
     sbind (vc, load_commit E X K ''Branch commit not found'' (vc_store vc) branch_cid) (\<lambda>vc branch_commit.
     sbind (vc, merge_root strategy head_commit branch_commit) (\<lambda>vc root.
     sbind (vc, commit_new now [head_cid, branch_cid] root message author []) (\<lambda>vc commit.
     sbind (store_commit E X K vc commit) (\<lambda>vc merge_cid.
       (set_branch vc merge_cid, Ok (MergeCommit merge_cid)))))))"

definition vc_merge ::
    "'c cid_crate \<Rightarrow> oxicode \<Rightarrow> ('k, 'c) BlockStoreTrait \<Rightarrow> nat \<Rightarrow> int \<Rightarrow> ('k, 'c) VersionControl
       \<Rightarrow> 'c \<Rightarrow> string \<Rightarrow> Author \<Rightarrow> MergeStrategy \<Rightarrow> ('k, 'c) VersionControl \<times> (core_error, 'c MergeResult) outcome" where
  "vc_merge E X K fuel now vc branch_cid message author strategy =
     sbind (vc, ok_or (Storage ''No HEAD commit'') (vc_head vc)) (\<lambda>vc head_cid.
       if head_cid = branch_cid then (vc, Ok (MR_FastForward head_cid))
       else sbind (vc, is_ancestor E X K fuel (vc_store vc) head_cid branch_cid) (\<lambda>vc fast_forward.
         if fast_forward then (set_branch vc branch_cid, Ok (MR_FastForward branch_cid))
         else if strategy = MS_FastForward
         then (vc, Err (Storage ''Fast-forward not possible, branches have diverged''))
         else merge_commit E X K now vc head_cid branch_cid message author strategy))"

definition merge_branch ::
    "'c cid_crate \<Rightarrow> oxicode \<Rightarrow> ('k, 'c) BlockStoreTrait \<Rightarrow> nat \<Rightarrow> int \<Rightarrow> ('k, 'c) VersionControl
       \<Rightarrow> string \<Rightarrow> string \<Rightarrow> Author \<Rightarrow> MergeStrategy \<Rightarrow> ('k, 'c) VersionControl \<times> (core_error, 'c MergeResult) outcome" where
  "merge_branch E X K fuel now vc branch_name message author strategy =
     sbind (vc, get_ref vc branch_name) (\<lambda>vc branch_ref.
       vc_merge E X K fuel now vc (rf_commit branch_ref) message author strategy)"

subsection \<open>The commit builder\<close>

record 'c CommitBuilder =
  bu_parents :: "'c list"
  bu_root :: "'c option"
  bu_message :: "string option"
  bu_author :: "Author option"
  bu_metadata :: "(string \<times> string) list"

definition bu_new :: "'c CommitBuilder" where
  "bu_new = \<lparr>bu_parents = [], bu_root = None, bu_message = None, bu_author = None, bu_metadata = []\<rparr>"

definition bu_set_parents :: "'c list \<Rightarrow> 'c CommitBuilder \<Rightarrow> 'c CommitBuilder" where
  "bu_set_parents parents b = b\<lparr>bu_parents := parents\<rparr>"

definition bu_set_root :: "'c \<Rightarrow> 'c CommitBuilder \<Rightarrow> 'c CommitBuilder" where
  "bu_set_root root b = b\<lparr>bu_root := Some root\<rparr>"

definition bu_set_message :: "string \<Rightarrow> 'c CommitBuilder \<Rightarrow> 'c CommitBuilder" where
  "bu_set_message message b = b\<lparr>bu_message := Some message\<rparr>"

definition bu_set_author :: "Author \<Rightarrow> 'c CommitBuilder \<Rightarrow> 'c CommitBuilder" where
  "bu_set_author author b = b\<lparr>bu_author := Some author\<rparr>"

definition bu_add_metadata :: "string \<Rightarrow> string \<Rightarrow> 'c CommitBuilder \<Rightarrow> 'c CommitBuilder" where
  "bu_add_metadata key value b = b\<lparr>bu_metadata := hm_insert key value (bu_metadata b)\<rparr>"

definition bu_build :: "int \<Rightarrow> 'c CommitBuilder \<Rightarrow> (core_error, 'c Commit) outcome" where
  "bu_build now b =
     obind (ok_or (Storage ''Root CID is required'') (bu_root b)) (\<lambda>root.
     obind (ok_or (Storage ''Commit message is required'') (bu_message b)) (\<lambda>message.
     obind (ok_or (Storage ''Author is required'') (bu_author b)) (\<lambda>author.
       commit_new now (bu_parents b) root message author (bu_metadata b))))"

subsection \<open>Encoding\<close>

text \<open>
  Documented behaviour of the encoder: what it writes, it reads back, a hash map up to the order of its entries.
\<close>

definition wire_same :: "wire_commit \<Rightarrow> wire_commit \<Rightarrow> bool" where
  "wire_same w w' \<longleftrightarrow> w' = w\<lparr>wc_metadata := wc_metadata w'\<rparr> \<and> map_of (wc_metadata w') = map_of (wc_metadata w)"

definition oxicode_laws :: "oxicode \<Rightarrow> bool" where
  "oxicode_laws X \<longleftrightarrow>
     (\<forall>w d. ox_encode_commit X w = Some d \<longrightarrow> (\<exists>w'. ox_decode_commit X d = Some w' \<and> wire_same w w')) \<and>
     (\<forall>r d. ox_encode_ref X r = Some d \<longrightarrow> ox_decode_ref X d = Some r)"

text \<open>The commit that a block stands for: the same fields, the block's CID, the metadata as a map.\<close>

definition same_commit :: "'c \<Rightarrow> 'c Commit \<Rightarrow> 'c Commit \<Rightarrow> bool" where
  "same_commit cid c c' \<longleftrightarrow>
     c' = c\<lparr>cm_cid := Some cid, cm_metadata := cm_metadata c'\<rparr> \<and> map_of (cm_metadata c') = map_of (cm_metadata c)"

lemma same_commit_fields:
  assumes "same_commit cid c c'"
  shows "cm_parents c' = cm_parents c" "cm_root c' = cm_root c" "cm_cid c' = Some cid"
proof -
  from assms have "c' = c\<lparr>cm_cid := Some cid, cm_metadata := cm_metadata c'\<rparr>" by (simp add: same_commit_def)
  then show "cm_parents c' = cm_parents c" "cm_root c' = cm_root c" "cm_cid c' = Some cid"
    by (metis Commit.select_convs Commit.surjective Commit.update_convs)+
qed

lemma those_map_Some [simp]: "those (map (\<lambda>x. Some x) xs) = Some xs"
  by (induction xs) simp_all

lemma deserialize_cid_vec_serialize:
  "cid_laws E \<Longrightarrow> deserialize_cid_vec E (serialize_cid_vec E cids) = Some cids"
  by (simp add: deserialize_cid_vec_def serialize_cid_vec_def comp_def)

lemma commit_of_wire_same:
  assumes "cid_laws E" "wire_same (commit_to_wire E c) w"
  shows "commit_of_wire E w = Some (c\<lparr>cm_cid := None, cm_metadata := wc_metadata w\<rparr>)"
proof -
  have w: "w = (commit_to_wire E c)\<lparr>wc_metadata := wc_metadata w\<rparr>" using assms(2) by (simp add: wire_same_def)
  show ?thesis using assms(1)
    by (subst w) (simp add: commit_of_wire_def commit_to_wire_def deserialize_cid_vec_serialize deserialize_cid_def serialize_cid_def)
qed

lemma commit_from_to_block:
  assumes "cid_laws E" "oxicode_laws X" "commit_to_block E X c = Ok b"
  shows "\<exists>c'. commit_from_block E X b = Ok c' \<and> same_commit (blk_cid b) c c'"
proof -
  from assms(3) obtain d where d: "ox_encode_commit X (commit_to_wire E c) = Some d" "block_new E d = Ok b"
    by (auto simp: commit_to_block_def obind_eq_Ok)
  with assms(2) obtain w where w: "ox_decode_commit X d = Some w" "wire_same (commit_to_wire E c) w"
    unfolding oxicode_laws_def by blast
  have "blk_data b = d" using d(2) by (simp add: block_new_iff)
  with w commit_of_wire_same [OF assms(1) w(2)] show ?thesis
    by (auto simp: commit_from_block_def same_commit_def wire_same_def commit_to_wire_def)
qed

lemma ref_from_to_block:
  assumes "cid_laws E" "oxicode_laws X" "ref_to_block E X r = Ok b"
  shows "ref_from_block E X b = Ok r"
  using assms
  by (auto simp: ref_to_block_def obind_eq_Ok block_new_iff ref_from_block_def oxicode_laws_def ref_of_wire_def
      ref_to_wire_def serialize_cid_def deserialize_cid_def)

text \<open>The CID that \<open>finalize\<close> reports is that of the block that \<open>to_block\<close> makes.\<close>

lemma commit_to_wire_cid [simp]: "commit_to_wire E (c\<lparr>cm_cid := x\<rparr>) = commit_to_wire E c"
  by (simp add: commit_to_wire_def)

lemma commit_to_block_cid [simp]: "commit_to_block E X (c\<lparr>cm_cid := x\<rparr>) = commit_to_block E X c"
  by (simp add: commit_to_block_def)

lemma finalize_to_block:
  "finalize E X c =
     (case commit_to_block E X c of
        Ok b \<Rightarrow> (c\<lparr>cm_cid := Some (blk_cid b)\<rparr>, Ok (blk_cid b)) | Err e \<Rightarrow> (c, Err e) | Panic \<Rightarrow> (c, Panic) | Diverge \<Rightarrow> (c, Diverge))"
  by (cases "ox_encode_commit X (commit_to_wire E c)")
    (auto simp: finalize_def commit_to_block_def split: outcome.splits)

lemma store_commit_eq:
  "store_commit E X K vc c =
     (case commit_to_block E X c of
        Ok b \<Rightarrow> sbind (vc_put K vc b) (\<lambda>vc _. (vc, Ok (blk_cid b)))
      | Err e \<Rightarrow> (vc, Err e) | Panic \<Rightarrow> (vc, Panic) | Diverge \<Rightarrow> (vc, Diverge))"
  by (auto simp: store_commit_def finalize_to_block split: outcome.splits)

lemma commit_to_block_total [simp]: "commit_to_block E X c \<noteq> Panic" "commit_to_block E X c \<noteq> Diverge"
  by (auto simp: commit_to_block_def obind_eq_Panic obind_eq_Diverge)

lemma commit_from_block_total [simp]: "commit_from_block E X b \<noteq> Panic" "commit_from_block E X b \<noteq> Diverge"
  by (auto simp: commit_from_block_def obind_eq_Panic obind_eq_Diverge)

lemma ref_to_block_total [simp]: "ref_to_block E X r \<noteq> Panic" "ref_to_block E X r \<noteq> Diverge"
  by (auto simp: ref_to_block_def obind_eq_Panic obind_eq_Diverge)

subsection \<open>The commit graph\<close>

definition commit_at :: "'c cid_crate \<Rightarrow> oxicode \<Rightarrow> ('k, 'c) BlockStoreTrait \<Rightarrow> 'k \<Rightarrow> 'c \<Rightarrow> 'c Commit option" where
  "commit_at E X K k c = (case load_commit E X K [] k c of Ok cm \<Rightarrow> Some cm | _ \<Rightarrow> None)"

definition parents_of :: "'c cid_crate \<Rightarrow> oxicode \<Rightarrow> ('k, 'c) BlockStoreTrait \<Rightarrow> 'k \<Rightarrow> 'c \<Rightarrow> 'c list" where
  "parents_of E X K k c = (case commit_at E X K k c of Some cm \<Rightarrow> cm_parents cm | None \<Rightarrow> [])"

definition ancestors :: "'c cid_crate \<Rightarrow> oxicode \<Rightarrow> ('k, 'c) BlockStoreTrait \<Rightarrow> 'k \<Rightarrow> 'c \<Rightarrow> 'c set" where
  "ancestors E X K k c = reach (parents_of E X K k) {c}"

text \<open>A commit is complete when it and all its ancestors can be loaded.\<close>

definition complete :: "'c cid_crate \<Rightarrow> oxicode \<Rightarrow> ('k, 'c) BlockStoreTrait \<Rightarrow> 'k \<Rightarrow> 'c \<Rightarrow> bool" where
  "complete E X K k c \<longleftrightarrow> (\<forall>a \<in> ancestors E X K k c. commit_at E X K k a \<noteq> None)"

text \<open>
  Complete up to the commits of \<open>N\<close>: the commit can be loaded, and an ancestor that cannot be loaded is missing from
  the history of one of \<open>N\<close> already, which is an ancestor too.
\<close>

definition complete_up_to ::
    "'c cid_crate \<Rightarrow> oxicode \<Rightarrow> ('k, 'c) BlockStoreTrait \<Rightarrow> 'c set \<Rightarrow> 'k \<Rightarrow> 'c \<Rightarrow> bool" where
  "complete_up_to E X K N k c \<longleftrightarrow> commit_at E X K k c \<noteq> None \<and>
     (\<forall>a \<in> ancestors E X K k c. commit_at E X K k a = None \<longrightarrow> (\<exists>m \<in> N \<inter> ancestors E X K k c. a \<in> ancestors E X K k m))"

lemma load_commit_Ok: "load_commit E X K what k c = Ok cm \<longleftrightarrow> commit_at E X K k c = Some cm"
  unfolding commit_at_def load_commit_def
  by (cases "ct_get K k c") (auto simp: ok_or_def split: option.splits outcome.splits)

lemma ancestors_self [simp]: "c \<in> ancestors E X K k c"
  by (simp add: ancestors_def reach_base)

lemma ancestors_parent:
  "a \<in> ancestors E X K k c \<Longrightarrow> p \<in> set (parents_of E X K k a) \<Longrightarrow> p \<in> ancestors E X K k c"
  unfolding ancestors_def by (rule reach_step)

lemma parents_ofE:
  assumes "b \<in> set (parents_of E X K k a)"
  obtains cm where "commit_at E X K k a = Some cm" "b \<in> set (cm_parents cm)"
  using assms by (cases "commit_at E X K k a") (simp_all add: parents_of_def)

lemma ancestors_trans: "b \<in> ancestors E X K k c \<Longrightarrow> ancestors E X K k b \<subseteq> ancestors E X K k c"
  unfolding ancestors_def by (rule reach_least) (auto intro: reach_step)

lemma ancestors_unfold: "ancestors E X K k c = insert c (\<Union>p \<in> set (parents_of E X K k c). ancestors E X K k p)"
proof
  show "ancestors E X K k c \<subseteq> insert c (\<Union>p \<in> set (parents_of E X K k c). ancestors E X K k p)"
    unfolding ancestors_def by (rule reach_least) (auto intro: reach_base reach_step)
  show "insert c (\<Union>p \<in> set (parents_of E X K k c). ancestors E X K k p) \<subseteq> ancestors E X K k c"
    by (auto intro: subsetD [OF ancestors_trans] ancestors_parent [OF ancestors_self])
qed

lemma completeD: "complete E X K k c \<Longrightarrow> \<exists>cm. commit_at E X K k c = Some cm"
  by (auto simp: complete_def)

lemma complete_ancestor: "complete E X K k c \<Longrightarrow> a \<in> ancestors E X K k c \<Longrightarrow> complete E X K k a"
  using ancestors_trans by (fastforce simp: complete_def)

lemma complete_iff:
  "complete E X K k c \<longleftrightarrow>
     (\<exists>cm. commit_at E X K k c = Some cm \<and> (\<forall>p \<in> set (cm_parents cm). complete E X K k p))"
  unfolding complete_def
  by (subst ancestors_unfold) (auto simp: parents_of_def split: option.splits)

lemma complete_up_toD: "complete_up_to E X K N k c \<Longrightarrow> \<exists>cm. commit_at E X K k c = Some cm"
  by (auto simp: complete_up_to_def)

lemma complete_up_to_named: "c \<in> N \<Longrightarrow> commit_at E X K k c = Some cm \<Longrightarrow> complete_up_to E X K N k c"
  by (auto simp: complete_up_to_def)

lemma complete_up_to_complete:
  "complete_up_to E X K N k c \<Longrightarrow> \<forall>m \<in> N \<inter> ancestors E X K k c. complete E X K k m \<Longrightarrow> complete E X K k c"
  unfolding complete_up_to_def complete_def by blast

lemma complete_up_to_empty: "complete_up_to E X K {} k c \<longleftrightarrow> complete E X K k c"
  unfolding complete_up_to_def complete_def by auto

lemma complete_up_to_widen: "complete_up_to E X K N k c \<Longrightarrow> N \<subseteq> N' \<Longrightarrow> complete_up_to E X K N' k c"
  unfolding complete_up_to_def by blast

lemma complete_up_to_parents:
  assumes "commit_at E X K k c = Some cm" "\<forall>p \<in> set (cm_parents cm). complete_up_to E X K N k p"
  shows "complete_up_to E X K N k c"
  unfolding complete_up_to_def
proof (intro conjI ballI impI)
  fix a assume a: "a \<in> ancestors E X K k c" "commit_at E X K k a = None"
  then obtain p where p: "p \<in> set (cm_parents cm)" "a \<in> ancestors E X K k p"
    using assms(1) ancestors_unfold [of E X K k c] by (auto simp: parents_of_def)
  with assms a(2) obtain m where "m \<in> N" "m \<in> ancestors E X K k p" "a \<in> ancestors E X K k m"
    unfolding complete_up_to_def by blast
  moreover have "ancestors E X K k p \<subseteq> ancestors E X K k c"
    using p(1) assms(1) by (intro ancestors_trans ancestors_parent [OF ancestors_self]) (simp add: parents_of_def)
  ultimately show "\<exists>m \<in> N \<inter> ancestors E X K k c. a \<in> ancestors E X K k m" by blast
qed (use assms(1) in simp)

subsection \<open>The searches follow the worklist traversal\<close>

lemma closure_loop_incl: "closure_loop succs fuel seen frontier = Some r \<Longrightarrow> set seen \<union> set frontier \<subseteq> set r"
proof (induction fuel arbitrary: seen frontier)
  case (Suc fuel)
  show ?case
  proof (cases "frontier = []")
    case False
    with Suc.prems Suc.IH last_butlast_set [OF False] show ?thesis
      by (fastforce simp: Let_def split: if_splits)
  qed (use Suc.prems in simp)
qed (simp split: if_splits)

text \<open>On a set closed under parents every load succeeds and yields the links of the graph.\<close>

definition loads_on ::
    "('c \<Rightarrow> (core_error, 'c Commit) outcome) \<Rightarrow> ('c \<Rightarrow> 'c list) \<Rightarrow> 'c set \<Rightarrow> bool" where
  "loads_on load succs R \<longleftrightarrow>
     (\<forall>a \<in> R. (\<exists>cm. load a = Ok cm \<and> cm_parents cm = succs a) \<and> set (succs a) \<subseteq> R)"

lemma loads_onE:
  assumes "loads_on load succs R" "queue \<noteq> []" "set queue \<subseteq> R"
  obtains cm where "load (last queue) = Ok cm" "cm_parents cm = succs (last queue)"
    and "set (butlast queue) \<subseteq> R" "set (butlast queue @ succs (last queue)) \<subseteq> R" "set queue = insert (last queue) (set (butlast queue))"
  using assms last_butlast_set [OF assms(2)] unfolding loads_on_def by auto

lemma ancestors_loop_closure:
  assumes "loads_on load succs R" "set queue \<subseteq> R"
  shows "ancestors_loop load fuel seen queue =
    (case closure_loop succs fuel seen queue of Some r \<Rightarrow> Ok r | None \<Rightarrow> Diverge)"
  using assms(2)
proof (induction fuel arbitrary: seen queue)
  case (Suc fuel)
  show ?case
  proof (cases "queue = []")
    case False
    then show ?thesis using Suc by (elim loads_onE [OF assms(1)]) (simp_all add: Let_def)
  qed simp
qed simp

lemma walk_loop_closure:
  assumes "loads_on load succs R" "set queue \<subseteq> R" "closure_loop succs fuel seen queue = Some r" "\<forall>a \<in> set seen. \<not> found a"
  shows "walk_loop load found fuel seen queue = Ok None \<and> (\<forall>a \<in> set r. \<not> found a) \<or>
    (\<exists>a \<in> set r. found a \<and> walk_loop load found fuel seen queue = Ok (Some a))"
  using assms(2-4)
proof (induction fuel arbitrary: seen queue)
  case 0
  then show ?case by (simp split: if_splits)
next
  case (Suc fuel)
  show ?case
  proof (cases "queue = []")
    case True
    then show ?thesis using Suc.prems by simp
  next
    case False
    obtain cm where cm: "load (last queue) = Ok cm" "cm_parents cm = succs (last queue)"
      and sub: "set (butlast queue) \<subseteq> R" "set (butlast queue @ succs (last queue)) \<subseteq> R"
      using loads_onE [OF assms(1) False Suc.prems(1)] by metis
    have r: "last queue \<in> set r" using closure_loop_incl [OF Suc.prems(2)] last_in_set [OF False] by auto
    show ?thesis
      using False cm r Suc.prems(2,3) Suc.IH [OF sub(1), of seen]
        Suc.IH [OF sub(2), of "hs_insert (last queue) seen"]
      by (simp add: Let_def split: if_splits)
  qed
qed

text \<open>A hit is reached over commits that were loaded, whether or not all of the history can be.\<close>

lemma walk_loop_sound:
  assumes "\<And>c cm. load c = Ok cm \<Longrightarrow> cm_parents cm = succs c" "\<And>c b. c \<in> R \<Longrightarrow> b \<in> set (succs c) \<Longrightarrow> b \<in> R"
    and "set queue \<subseteq> R" "walk_loop load found fuel seen queue = Ok (Some a)"
  shows "a \<in> R \<and> found a"
  using assms(3,4)
proof (induction fuel arbitrary: seen queue)
  case (Suc fuel)
  then have ne: "queue \<noteq> []" by auto
  have sub: "last queue \<in> R" "set (butlast queue) \<subseteq> R" using last_butlast_set [OF ne] Suc.prems(1) by auto
  have parents: "set (butlast queue @ cm_parents cm) \<subseteq> R" if "load (last queue) = Ok cm" for cm
    using sub assms(1) [OF that] assms(2) by auto
  show ?case using ne sub Suc.prems(2) Suc.IH [OF sub(2)] Suc.IH [OF parents]
    by (auto simp: Let_def obind_eq_Ok split: if_splits)
qed (simp split: if_splits)

text \<open>\<open>log\<close> is the chain of first parents, cut at the limit.\<close>

fun first_parents ::
    "('c \<Rightarrow> (core_error, 'c Commit) outcome) \<Rightarrow> nat \<Rightarrow> 'c option \<Rightarrow> (core_error, 'c Commit list) outcome" where
  "first_parents load (Suc n) (Some c) =
     obind (load c) (\<lambda>cm. obind (first_parents load n (case cm_parents cm of p # _ \<Rightarrow> Some p | [] \<Rightarrow> None)) (\<lambda>cs. Ok (cm # cs)))"
| "first_parents load _ _ = Ok []"

lemma obind_Ok_id [simp]: "obind m Ok = m"
  by (cases m) simp_all

lemma obind_obind: "obind (obind m f) g = obind m (\<lambda>x. obind (f x) g)"
  by (cases m) simp_all

lemma log_loop_chain:
  "log_loop load limit current commits = obind (first_parents load (limit - length commits) current) (\<lambda>cs. Ok (commits @ cs))"
proof (induction load limit current commits rule: log_loop.induct)
  case (1 load limit current commits)
  show ?case
  proof (cases "current = None \<or> limit \<le> length commits")
    case True
    then show ?thesis by (subst log_loop.simps) (auto split: option.splits)
  next
    case False
    then obtain c n where c: "current = Some c" and n: "limit - length commits = Suc n" "limit - Suc (length commits) = n"
      by (cases "limit - length commits") auto
    have IH: "log_loop load limit (case cm_parents cm of p # _ \<Rightarrow> Some p | [] \<Rightarrow> None) (commits @ [cm]) =
        obind (first_parents load n (case cm_parents cm of p # _ \<Rightarrow> Some p | [] \<Rightarrow> None)) (\<lambda>cs. Ok (commits @ cm # cs))"
      if "load c = Ok cm" for cm
      using 1 [OF c _ that refl] False n(2) by simp
    show ?thesis
    proof (cases "load c")
      case (Ok cm)
      with IH [OF Ok] c n False show ?thesis by (subst log_loop.simps) (simp add: Let_def obind_obind)
    qed (use c n False in \<open>subst log_loop.simps, simp\<close>)+
  qed
qed

lemma vc_log_chain: "vc_log E X K k c n = first_parents (load_commit E X K ''Commit not found'' k) n (Some c)"
  by (simp add: vc_log_def log_loop_chain)

lemma first_parents_mono:
  assumes "\<And>c cm. load c = Ok cm \<Longrightarrow> load' c = Ok cm"
  shows "first_parents load n cur = Ok cs \<Longrightarrow> first_parents load' n cur = Ok cs"
  using assms by (induction load n cur arbitrary: cs rule: first_parents.induct) (fastforce simp: obind_eq_Ok)+

lemma first_parents_complete:
  assumes "complete E X K k c"
  shows "\<exists>cs. first_parents (load_commit E X K what k) n (Some c) = Ok cs \<and> length cs \<le> n"
  using assms
proof (induction n arbitrary: c)
  case (Suc n)
  then obtain cm where cm: "commit_at E X K k c = Some cm" "\<forall>p \<in> set (cm_parents cm). complete E X K k p"
    using complete_iff [THEN iffD1, OF Suc.prems] by blast
  have "\<exists>cs. first_parents (load_commit E X K what k) n (case cm_parents cm of p # _ \<Rightarrow> Some p | [] \<Rightarrow> None) = Ok cs \<and> length cs \<le> n"
    using Suc.IH cm(2) by (cases "cm_parents cm"; cases n) auto
  then show ?case using cm(1) [THEN load_commit_Ok [THEN iffD2], of what] by auto
qed simp

lemma sbind_obind: "sbind (s, m) (\<lambda>s x. sbind (s, f x) g) = sbind (s, obind m f) g"
  by (cases m) simp_all

subsection \<open>Over a store that answers\<close>

text \<open>
  A backend with the laws of \<open>cold_store\<close> whose reads do not fail. Two blocks collide when they have one CID and
  different data.
\<close>

definition stored_blocks :: "('c \<rightharpoonup> bytes) \<Rightarrow> 'c Block set" where
  "stored_blocks m = {b. m (blk_cid b) = Some (blk_data b)}"

definition no_collisions :: "'c Block set \<Rightarrow> bool" where
  "no_collisions B \<longleftrightarrow> (\<forall>b \<in> B. \<forall>b' \<in> B. blk_cid b = blk_cid b' \<longrightarrow> blk_data b = blk_data b')"

lemma no_collisions_put:
  assumes "no_collisions B" "stored_blocks m \<subseteq> B" "b \<in> B"
  shows "m \<subseteq>\<^sub>m m(blk_cid b \<mapsto> blk_data b)" "stored_blocks (m(blk_cid b \<mapsto> blk_data b)) \<subseteq> B"
proof -
  have same: "d = blk_data b" if "m (blk_cid b) = Some d" for d
  proof -
    have "block_from_parts (blk_cid b) d \<in> B" using that assms(2) by (auto simp: stored_blocks_def block_from_parts_def)
    from assms(1) [unfolded no_collisions_def, rule_format, OF this assms(3)] show ?thesis by (simp add: block_from_parts_def)
  qed
  then show "m \<subseteq>\<^sub>m m(blk_cid b \<mapsto> blk_data b)" by (auto simp: map_le_def dom_def)
  show "stored_blocks (m(blk_cid b \<mapsto> blk_data b)) \<subseteq> B"
  proof
    fix b' assume b': "b' \<in> stored_blocks (m(blk_cid b \<mapsto> blk_data b))"
    show "b' \<in> B"
    proof (cases "blk_cid b' = blk_cid b")
      case True
      then have "b' = b" using b' by (simp add: stored_blocks_def)
      then show ?thesis using assms(3) by simp
    next
      case False
      then show ?thesis using b' assms(2) by (auto simp: stored_blocks_def)
    qed
  qed
qed

lemma block_from_own_parts [simp]: "block_from_parts (blk_cid b) (blk_data b) = b"
  by (simp add: block_from_parts_def)

locale commit_store = cold_store K content kinv
  for K :: "('k, 'c) BlockStoreTrait" and content :: "'k \<Rightarrow> 'c \<rightharpoonup> bytes" and kinv :: "'k \<Rightarrow> bool" +
  assumes get_answers: "kinv k \<Longrightarrow> \<exists>ob. ct_get K k c = Ok ob"
begin

lemma get_content: "kinv k \<Longrightarrow> ct_get K k c = Ok (map_option (block_from_parts c) (content k c))"
  using get_answers [of k c] get_ok [of k c] by auto

lemma commit_at_content:
  "kinv k \<Longrightarrow> commit_at E X K k c = Some cm \<longleftrightarrow>
     (\<exists>d. content k c = Some d \<and> commit_from_block E X (block_from_parts c d) = Ok cm)"
  unfolding load_commit_Ok [of E X K "[]" k c cm, symmetric]
  by (cases "content k c") (auto simp: load_commit_def get_content obind_eq_Ok)

lemma commit_at_mono:
  "kinv k \<Longrightarrow> kinv k' \<Longrightarrow> content k \<subseteq>\<^sub>m content k' \<Longrightarrow> commit_at E X K k c = Some cm \<Longrightarrow> commit_at E X K k' c = Some cm"
  by (fastforce simp: commit_at_content map_le_def dom_def)

lemma ancestors_finite:
  assumes "kinv k" "complete E X K k c"
  shows "finite (ancestors E X K k c)"
proof (rule finite_subset [OF _ finite_content [OF assms(1)]])
  show "ancestors E X K k c \<subseteq> dom (content k)"
  proof
    fix a assume "a \<in> ancestors E X K k c"
    then obtain cm where "commit_at E X K k a = Some cm" using assms(2) by (auto simp: complete_def)
    then show "a \<in> dom (content k)" using commit_at_content [OF assms(1)] by auto
  qed
qed

lemma ancestors_mono:
  assumes "kinv k" "kinv k'" "content k \<subseteq>\<^sub>m content k'" "complete E X K k c"
  shows "ancestors E X K k' c = ancestors E X K k c"
proof -
  have p: "parents_of E X K k' a = parents_of E X K k a" if a: "a \<in> ancestors E X K k c" for a
  proof -
    obtain cm where cm: "commit_at E X K k a = Some cm" using assms(4) a by (auto simp: complete_def)
    show ?thesis using cm commit_at_mono [OF assms(1-3) cm] by (simp add: parents_of_def)
  qed
  have 1: "a \<in> ancestors E X K k c" if "a \<in> ancestors E X K k' c" for a
    using that unfolding ancestors_def [of E X K k']
    by (induction rule: reach_induct) (use p ancestors_parent in auto)
  have 2: "a \<in> ancestors E X K k' c" if "a \<in> ancestors E X K k c" for a
    using that unfolding ancestors_def [of E X K k]
  proof (induction rule: reach_induct)
    case (step a b)
    then show ?case using p [of a] ancestors_parent [of a E X K k' c b] by (simp add: ancestors_def [of E X K k])
  qed simp
  show ?thesis using 1 2 by blast
qed

lemma complete_mono:
  assumes "kinv k" "kinv k'" "content k \<subseteq>\<^sub>m content k'" "complete E X K k c"
  shows "complete E X K k' c"
  using assms(4) ancestors_mono [OF assms] commit_at_mono [OF assms(1-3)] unfolding complete_def by fastforce

lemma ancestors_grow:
  assumes "kinv k" "kinv k'" "content k \<subseteq>\<^sub>m content k'"
  shows "ancestors E X K k c \<subseteq> ancestors E X K k' c"
proof
  fix a assume "a \<in> ancestors E X K k c"
  then show "a \<in> ancestors E X K k' c" unfolding ancestors_def [of E X K k]
  proof (induction rule: reach_induct)
    case (step a b)
    obtain cm where cm: "commit_at E X K k a = Some cm" "b \<in> set (cm_parents cm)" using step(2) by (rule parents_ofE)
    have "b \<in> set (parents_of E X K k' a)" using commit_at_mono [OF assms cm(1)] cm(2) by (simp add: parents_of_def)
    with step.IH show ?case by (rule ancestors_parent)
  qed simp
qed

lemma ancestors_up_to:
  assumes "kinv k" "kinv k'" "content k \<subseteq>\<^sub>m content k'" "complete_up_to E X K N k c" "a \<in> ancestors E X K k' c"
  shows "a \<in> ancestors E X K k c \<or> (\<exists>m \<in> N \<inter> ancestors E X K k c. a \<in> ancestors E X K k' m)"
  using assms(5) unfolding ancestors_def [of E X K k' c]
proof (induction rule: reach_induct)
  case (step a b)
  note up = assms(4) [unfolded complete_up_to_def, THEN conjunct2, rule_format, of a]
  show ?case
  proof (cases "a \<in> ancestors E X K k c \<and> commit_at E X K k a \<noteq> None")
    case True
    then obtain cm where cm: "commit_at E X K k a = Some cm" by auto
    with commit_at_mono [OF assms(1-3) cm] step(2) have "b \<in> set (parents_of E X K k a)" by (simp add: parents_of_def)
    with True ancestors_parent [of a E X K k c b] show ?thesis by simp
  next
    case False
    with step.IH up ancestors_grow [OF assms(1-3)] obtain m where "m \<in> N \<inter> ancestors E X K k c" "a \<in> ancestors E X K k' m" by blast
    with ancestors_parent [OF _ step(2)] show ?thesis by blast
  qed
qed simp

lemma complete_up_to_mono:
  assumes "kinv k" "kinv k'" "content k \<subseteq>\<^sub>m content k'" "complete_up_to E X K N k c"
  shows "complete_up_to E X K N k' c"
  unfolding complete_up_to_def
proof (intro conjI ballI impI)
  show "commit_at E X K k' c \<noteq> None" using complete_up_toD [OF assms(4)] commit_at_mono [OF assms(1-3)] by fastforce
  fix a assume a: "a \<in> ancestors E X K k' c" "commit_at E X K k' a = None"
  then have "commit_at E X K k a = None" using commit_at_mono [OF assms(1-3)] by (cases "commit_at E X K k a") auto
  with assms(4) have up: "a \<in> ancestors E X K k c \<Longrightarrow> \<exists>m \<in> N \<inter> ancestors E X K k c. a \<in> ancestors E X K k m"
    unfolding complete_up_to_def by blast
  show "\<exists>m \<in> N \<inter> ancestors E X K k' c. a \<in> ancestors E X K k' m"
    using ancestors_up_to [OF assms a(1)] up ancestors_grow [OF assms(1-3)] by blast
qed

lemma complete_loads_on:
  assumes "complete E X K k c"
  shows "loads_on (load_commit E X K what k) (parents_of E X K k) (ancestors E X K k c)"
  unfolding loads_on_def
proof (intro ballI conjI subsetI)
  fix a assume "a \<in> ancestors E X K k c"
  then obtain cm where "commit_at E X K k a = Some cm" using assms by (auto simp: complete_def)
  then show "\<exists>cm. load_commit E X K what k a = Ok cm \<and> cm_parents cm = parents_of E X K k a"
    by (simp add: load_commit_Ok parents_of_def)
next
  fix a p assume "a \<in> ancestors E X K k c" "p \<in> set (parents_of E X K k a)"
  then show "p \<in> ancestors E X K k c" by (rule ancestors_parent)
qed

text \<open>The traversal from a complete commit ends with its ancestors.\<close>

lemma traversal:
  assumes "kinv k" "complete E X K k c"
  shows "\<exists>N. \<forall>n \<ge> N. \<exists>r. closure_loop (parents_of E X K k) n [] [c] = Some r \<and> set r = ancestors E X K k c"
proof (rule exI, rule allI, rule impI)
  fix n assume n: "1 + (\<Sum>a \<in> ancestors E X K k c. length (parents_of E X K k a)) \<le> n"
  have "\<exists>r. closure_loop (parents_of E X K k) n [] [c] = Some r"
    by (rule closure_loop_returns_closed [OF ancestors_finite [OF assms]]) (use n ancestors_parent in auto)
  then show "\<exists>r. closure_loop (parents_of E X K k) n [] [c] = Some r \<and> set r = ancestors E X K k c"
    using closure_loop_correct(1) by (fastforce simp: ancestors_def)
qed

lemma walk_settles:
  assumes "kinv k" "complete E X K k c"
  shows "\<exists>N. \<forall>n \<ge> N.
    walk_loop (load_commit E X K what k) found n [] [c] = Ok None \<and> (\<forall>a \<in> ancestors E X K k c. \<not> found a) \<or>
    (\<exists>a \<in> ancestors E X K k c. found a \<and> walk_loop (load_commit E X K what k) found n [] [c] = Ok (Some a))"
proof -
  from traversal [OF assms] obtain N where
    N: "\<forall>n \<ge> N. \<exists>r. closure_loop (parents_of E X K k) n [] [c] = Some r \<and> set r = ancestors E X K k c" by blast
  show ?thesis
  proof (intro exI allI impI)
    fix n assume "N \<le> n"
    with N obtain r where r: "closure_loop (parents_of E X K k) n [] [c] = Some r" "set r = ancestors E X K k c" by blast
    show "walk_loop (load_commit E X K what k) found n [] [c] = Ok None \<and> (\<forall>a \<in> ancestors E X K k c. \<not> found a) \<or>
      (\<exists>a \<in> ancestors E X K k c. found a \<and> walk_loop (load_commit E X K what k) found n [] [c] = Ok (Some a))"
      using walk_loop_closure [OF complete_loads_on [OF assms(2)] _ r(1), of found what] by (simp add: r(2))
  qed
qed

lemma is_ancestor_settles:
  assumes "kinv k" "complete E X K k d"
  shows "settles (\<lambda>fuel. is_ancestor E X K fuel k a d) (Ok (a \<in> ancestors E X K k d))"
proof -
  let ?w = "\<lambda>n. walk_loop (load_commit E X K ''Commit not found'' k) (\<lambda>c. c = a) n [] [d]"
  from walk_settles [OF assms, of "''Commit not found''" "\<lambda>c. c = a"] obtain N where
    N: "\<forall>n \<ge> N. ?w n = Ok None \<and> (\<forall>b \<in> ancestors E X K k d. b \<noteq> a) \<or> (\<exists>b \<in> ancestors E X K k d. b = a \<and> ?w n = Ok (Some b))"
    by blast
  have "is_ancestor E X K n k a d = Ok (a \<in> ancestors E X K k d)" if "N \<le> n" for n
    using N [rule_format, OF that] by (auto simp: is_ancestor_def)
  then show ?thesis unfolding settles_def by blast
qed

lemma common_ancestor_settles:
  assumes "kinv k" "complete E X K k c1" "complete E X K k c2"
  shows "\<exists>N. \<forall>n \<ge> N.
    find_common_ancestor E X K n k c1 c2 = Ok None \<and> ancestors E X K k c1 \<inter> ancestors E X K k c2 = {} \<or>
    (\<exists>a \<in> ancestors E X K k c1 \<inter> ancestors E X K k c2. find_common_ancestor E X K n k c1 c2 = Ok (Some a))"
proof -
  let ?load = "load_commit E X K ''Commit not found'' k"
  from traversal [OF assms(1,2)] obtain N1 where
    N1: "\<forall>n \<ge> N1. \<exists>r. closure_loop (parents_of E X K k) n [] [c1] = Some r \<and> set r = ancestors E X K k c1" by blast
  from walk_settles [OF assms(1,3), of "''Commit not found''" "\<lambda>c. c \<in> ancestors E X K k c1"] obtain N2 where
    N2: "\<forall>n \<ge> N2.
      walk_loop ?load (\<lambda>c. c \<in> ancestors E X K k c1) n [] [c2] = Ok None \<and> (\<forall>a \<in> ancestors E X K k c2. a \<notin> ancestors E X K k c1) \<or>
      (\<exists>a \<in> ancestors E X K k c2. a \<in> ancestors E X K k c1 \<and> walk_loop ?load (\<lambda>c. c \<in> ancestors E X K k c1) n [] [c2] = Ok (Some a))"
    by blast
  have "find_common_ancestor E X K n k c1 c2 = walk_loop ?load (\<lambda>c. c \<in> ancestors E X K k c1) n [] [c2]" if "N1 \<le> n" for n
    using N1 that ancestors_loop_closure [OF complete_loads_on [OF assms(2)], of "[c1]" "''Commit not found''" n "[]"]
    by (auto simp: find_common_ancestor_def)
  note eq = this
  show ?thesis
  proof (intro exI allI impI)
    fix n assume n: "max N1 N2 \<le> n"
    show "find_common_ancestor E X K n k c1 c2 = Ok None \<and> ancestors E X K k c1 \<inter> ancestors E X K k c2 = {} \<or>
      (\<exists>a \<in> ancestors E X K k c1 \<inter> ancestors E X K k c2. find_common_ancestor E X K n k c1 c2 = Ok (Some a))"
      using N2 [rule_format, of n] n eq [of n] by auto
  qed
qed

end

interpretation vcs_memory: commit_store memory_block_store mb_content mb_inv
  by unfold_locales (simp add: memory_block_store_def)

subsection \<open>Operations and the blocks they store\<close>

text \<open>
  The operations of one user. \<open>op_blocks\<close> are the blocks an operation may store: they must not collide with
  those stored before. \<open>op_names\<close> are the commits an operation is given by CID: \<open>checkout\<close> and \<open>merge\<close> load such a
  commit and do not look whether its parents are there.
\<close>

datatype 'c vcs_op =
    Op_commit 'c string Author "(string \<times> string) list"
  | Op_checkout 'c
  | Op_checkout_ref string
  | Op_create_branch string
  | Op_create_tag string
  | Op_merge 'c string Author MergeStrategy
  | Op_merge_branch string string Author MergeStrategy

definition vcs_exec ::
    "'c cid_crate \<Rightarrow> oxicode \<Rightarrow> ('k, 'c) BlockStoreTrait \<Rightarrow> nat \<Rightarrow> int \<Rightarrow> ('k, 'c) VersionControl \<Rightarrow> 'c vcs_op
       \<Rightarrow> ('k, 'c) VersionControl" where
  "vcs_exec E X K fuel now vc op =
     (case op of
        Op_commit root message author metadata \<Rightarrow> fst (vc_commit E X K now vc root message author metadata)
      | Op_checkout c \<Rightarrow> fst (checkout E X K vc c)
      | Op_checkout_ref name \<Rightarrow> fst (checkout_ref E X K vc name)
      | Op_create_branch name \<Rightarrow> fst (create_branch E X K vc name)
      | Op_create_tag name \<Rightarrow> fst (create_tag E X K vc name)
      | Op_merge c message author strategy \<Rightarrow> fst (vc_merge E X K fuel now vc c message author strategy)
      | Op_merge_branch name message author strategy \<Rightarrow> fst (merge_branch E X K fuel now vc name message author strategy))"

definition ref_blocks :: "'c cid_crate \<Rightarrow> oxicode \<Rightarrow> string \<Rightarrow> 'c \<Rightarrow> RefType \<Rightarrow> 'c Block set" where
  "ref_blocks E X name c t = {b. ref_to_block E X \<lparr>rf_name = name, rf_commit = c, rf_type = t\<rparr> = Ok b}"

definition head_parents :: "('k, 'c) VersionControl \<Rightarrow> 'c list" where
  "head_parents vc = (case vc_head vc of Some head \<Rightarrow> [head] | None \<Rightarrow> [])"

definition commit_blocks :: "'c cid_crate \<Rightarrow> oxicode \<Rightarrow> string \<Rightarrow> 'c Commit \<Rightarrow> 'c Block set" where
  "commit_blocks E X branch c =
     (case commit_to_block E X c of Ok b \<Rightarrow> insert b (ref_blocks E X branch (blk_cid b) Branch) | _ \<Rightarrow> {})"

definition merge_blocks ::
    "'c cid_crate \<Rightarrow> oxicode \<Rightarrow> ('k, 'c) BlockStoreTrait \<Rightarrow> int \<Rightarrow> ('k, 'c) VersionControl \<Rightarrow> 'c \<Rightarrow> string \<Rightarrow> Author
       \<Rightarrow> MergeStrategy \<Rightarrow> 'c Block set" where
  "merge_blocks E X K now vc branch message author strategy =
     {b. \<exists>h hc bc root c. vc_head vc = Some h \<and> commit_at E X K (vc_store vc) h = Some hc \<and>
        commit_at E X K (vc_store vc) branch = Some bc \<and> merge_root strategy hc bc = Ok root \<and>
        commit_new now [h, branch] root message author [] = Ok c \<and> commit_to_block E X c = Ok b}"

definition op_blocks ::
    "'c cid_crate \<Rightarrow> oxicode \<Rightarrow> ('k, 'c) BlockStoreTrait \<Rightarrow> int \<Rightarrow> ('k, 'c) VersionControl \<Rightarrow> 'c vcs_op \<Rightarrow> 'c Block set" where
  "op_blocks E X K now vc op =
     (case op of
        Op_commit root message author metadata \<Rightarrow>
          (case commit_new now (head_parents vc) root message author metadata of
             Ok c \<Rightarrow> commit_blocks E X (vc_current_branch vc) c | _ \<Rightarrow> {})
      | Op_create_branch name \<Rightarrow> (case vc_head vc of Some h \<Rightarrow> ref_blocks E X name h Branch | None \<Rightarrow> {})
      | Op_create_tag name \<Rightarrow> (case vc_head vc of Some h \<Rightarrow> ref_blocks E X name h Tag | None \<Rightarrow> {})
      | Op_merge c message author strategy \<Rightarrow> merge_blocks E X K now vc c message author strategy
      | Op_merge_branch name message author strategy \<Rightarrow>
          (case map_of (vc_refs_cache vc) name of
             Some c \<Rightarrow> merge_blocks E X K now vc c message author strategy | None \<Rightarrow> {})
      | _ \<Rightarrow> {})"

fun op_names :: "'c vcs_op \<Rightarrow> 'c set" where
  "op_names (Op_checkout c) = {c}"
| "op_names (Op_merge c _ _ _) = {c}"
| "op_names _ = {}"

text \<open>
  The invariant: the head and every reference point to commits whose history can be loaded, up to the commits of
  \<open>N\<close>.
\<close>

definition pointers :: "('k, 'c) VersionControl \<Rightarrow> 'c set" where
  "pointers vc = set_option (vc_head vc) \<union> ran (map_of (vc_refs_cache vc))"

definition vc_inv ::
    "'c cid_crate \<Rightarrow> oxicode \<Rightarrow> ('k, 'c) BlockStoreTrait \<Rightarrow> ('k \<Rightarrow> bool) \<Rightarrow> 'c set \<Rightarrow> ('k, 'c) VersionControl \<Rightarrow> bool" where
  "vc_inv E X K kinv N vc \<longleftrightarrow> kinv (vc_store vc) \<and> (\<forall>c \<in> pointers vc. complete_up_to E X K N (vc_store vc) c)"

lemma vc_inv_widen: "vc_inv E X K kinv N vc \<Longrightarrow> N \<subseteq> N' \<Longrightarrow> vc_inv E X K kinv N' vc"
  unfolding vc_inv_def using complete_up_to_widen [of E X K N "vc_store vc" _ N'] by simp

lemma pointers_hm_insert:
  "pointers (vc\<lparr>vc_refs_cache := hm_insert name c (vc_refs_cache vc)\<rparr>) \<subseteq> insert c (pointers vc)"
  by (auto simp: pointers_def ran_def split: if_splits)

text \<open>
  Steps: an operation of this user, whatever its outcome, or a change of the shared store by others, who add
  blocks and remove none. The set \<open>N\<close> has every commit that the operations are given by CID.
\<close>

inductive vcs_step ::
    "'c cid_crate \<Rightarrow> oxicode \<Rightarrow> ('k, 'c) BlockStoreTrait \<Rightarrow> ('k \<Rightarrow> 'c \<rightharpoonup> bytes) \<Rightarrow> ('k \<Rightarrow> bool)
       \<Rightarrow> 'c set \<Rightarrow> ('k, 'c) VersionControl \<Rightarrow> ('k, 'c) VersionControl \<Rightarrow> bool"
  for E X K content kinv N where
  operation: "no_collisions (stored_blocks (content (vc_store vc)) \<union> op_blocks E X K now vc op) \<Longrightarrow>
     op_names op \<subseteq> N \<Longrightarrow> vcs_step E X K content kinv N vc (vcs_exec E X K fuel now vc op)"
| shared: "kinv k \<Longrightarrow> content (vc_store vc) \<subseteq>\<^sub>m content k \<Longrightarrow> vcs_step E X K content kinv N vc (vc\<lparr>vc_store := k\<rparr>)"

text \<open>The store after an operation that puts blocks of \<open>B\<close> only.\<close>

definition grows :: "('k \<Rightarrow> 'c \<rightharpoonup> bytes) \<Rightarrow> ('k \<Rightarrow> bool) \<Rightarrow> 'c Block set \<Rightarrow> 'k \<Rightarrow> 'k \<Rightarrow> bool" where
  "grows content kinv B k k' \<longleftrightarrow> kinv k' \<and> content k \<subseteq>\<^sub>m content k' \<and> stored_blocks (content k') \<subseteq> B"

context commit_store
begin

lemma grows_trans: "grows content kinv B k k' \<Longrightarrow> grows content kinv B k' k'' \<Longrightarrow> grows content kinv B k k''"
  unfolding grows_def using map_le_trans by blast

lemma grows_refl: "kinv k \<Longrightarrow> stored_blocks (content k) \<subseteq> B \<Longrightarrow> grows content kinv B k k"
  by (simp add: grows_def)

lemma vc_put_grows:
  assumes "no_collisions B" "kinv (vc_store vc)" "stored_blocks (content (vc_store vc)) \<subseteq> B" "b \<in> B" "vc_put K vc b = (vc', r)"
  shows "\<exists>k. vc' = vc\<lparr>vc_store := k\<rparr> \<and> grows content kinv B (vc_store vc) k \<and>
    (r = Ok () \<longrightarrow> content k (blk_cid b) = Some (blk_data b))"
proof -
  obtain k where k: "ct_put K (vc_store vc) b = (k, r)" "vc' = vc\<lparr>vc_store := k\<rparr>"
    using assms(5) by (auto simp: vc_put_def split: prod.splits)
  show ?thesis
  proof (cases "r = Ok ()")
    case True
    then have "kinv k" "content k = (content (vc_store vc))(blk_cid b \<mapsto> blk_data b)"
      using put_ok [OF assms(2), of b k "()"] k(1) by simp_all
    with no_collisions_put [OF assms(1,3,4)] k(2) show ?thesis by (intro exI [of _ k]) (simp add: grows_def)
  next
    case False
    with put_err [OF assms(2) k(1)] assms(3) k(2) show ?thesis by (intro exI [of _ k]) (simp add: grows_def)
  qed
qed

lemma store_commit_grows:
  assumes "no_collisions B" "kinv (vc_store vc)" "stored_blocks (content (vc_store vc)) \<subseteq> B"
    and "\<And>b. commit_to_block E X c = Ok b \<Longrightarrow> b \<in> B" "store_commit E X K vc c = (vc', r)"
  shows "\<exists>k. vc' = vc\<lparr>vc_store := k\<rparr> \<and> grows content kinv B (vc_store vc) k \<and>
    (\<forall>cid. r = Ok cid \<longrightarrow> (\<exists>b. commit_to_block E X c = Ok b \<and> cid = blk_cid b \<and> content k cid = Some (blk_data b)))"
proof (cases "commit_to_block E X c")
  case (Ok b)
  obtain vc1 r1 where put: "vc_put K vc b = (vc1, r1)" by force
  from vc_put_grows [OF assms(1-3) assms(4) [OF Ok] put] obtain k where
    "vc1 = vc\<lparr>vc_store := k\<rparr>" "grows content kinv B (vc_store vc) k" "r1 = Ok () \<longrightarrow> content k (blk_cid b) = Some (blk_data b)" by blast
  with assms(5) Ok put show ?thesis by (cases r1) (auto simp: store_commit_eq)
qed (use assms grows_refl in \<open>auto simp: store_commit_eq intro!: exI [of _ "vc_store vc"]\<close>)

lemma update_ref_grows:
  assumes "no_collisions B" "kinv (vc_store vc)" "stored_blocks (content (vc_store vc)) \<subseteq> B"
    and "ref_blocks E X name c t \<subseteq> B" "update_ref E X K vc name c t = (vc', r)"
  shows "\<exists>k. vc' = vc\<lparr>vc_refs_cache := hm_insert name c (vc_refs_cache vc), vc_store := k\<rparr> \<and> grows content kinv B (vc_store vc) k"
proof -
  let ?vc = "vc\<lparr>vc_refs_cache := hm_insert name c (vc_refs_cache vc)\<rparr>"
    and ?b = "ref_to_block E X \<lparr>rf_name = name, rf_commit = c, rf_type = t\<rparr>"
  show ?thesis
  proof (cases ?b)
    case (Ok b)
    then have b: "b \<in> B" using assms(4) by (auto simp: ref_blocks_def)
    obtain vc1 r1 where put: "vc_put K ?vc b = (vc1, r1)" by force
    have "\<exists>k. vc1 = ?vc\<lparr>vc_store := k\<rparr> \<and> grows content kinv B (vc_store vc) k"
      using vc_put_grows [OF assms(1) _ _ b put] assms(2,3) by auto
    with assms(5) Ok put show ?thesis by (cases r1) (auto simp: update_ref_def)
  qed (use assms grows_refl in \<open>auto simp: update_ref_def intro!: exI [of _ "vc_store vc"]\<close>)
qed

text \<open>A commit that has been stored can be loaded, and is complete when its parents are.\<close>

lemma stored_commit_at:
  assumes "cid_laws E" "oxicode_laws X" "commit_to_block E X c = Ok b" "kinv k" "content k (blk_cid b) = Some (blk_data b)"
  shows "\<exists>cm. commit_at E X K k (blk_cid b) = Some cm \<and> same_commit (blk_cid b) c cm"
  using commit_from_to_block [OF assms(1-3)] assms(5) by (auto simp: commit_at_content [OF assms(4)])

lemma stored_complete:
  assumes "commit_at E X K k cid = Some cm" "same_commit cid c cm" "\<forall>p \<in> set (cm_parents c). complete_up_to E X K N k p"
  shows "complete_up_to E X K N k cid"
  using assms(3) same_commit_fields [OF assms(2)] by (intro complete_up_to_parents [OF assms(1)]) simp

lemma grows_complete: "kinv k \<Longrightarrow> grows content kinv B k k' \<Longrightarrow> complete_up_to E X K N k c \<Longrightarrow> complete_up_to E X K N k' c"
  unfolding grows_def using complete_up_to_mono by blast

lemma store_commit_complete:
  assumes "cid_laws E" "oxicode_laws X" "no_collisions B" "kinv (vc_store vc)" "stored_blocks (content (vc_store vc)) \<subseteq> B"
    and "\<And>b. commit_to_block E X c = Ok b \<Longrightarrow> b \<in> B" "store_commit E X K vc c = (vc', r)"
    and "\<forall>p \<in> set (cm_parents c). complete_up_to E X K N (vc_store vc) p"
  shows "\<exists>k. vc' = vc\<lparr>vc_store := k\<rparr> \<and> grows content kinv B (vc_store vc) k \<and>
    (\<forall>cid. r = Ok cid \<longrightarrow> complete_up_to E X K N k cid \<and>
      (\<exists>cm. commit_at E X K k cid = Some cm \<and> same_commit cid c cm) \<and> (\<exists>b. commit_to_block E X c = Ok b \<and> cid = blk_cid b))"
proof -
  from store_commit_grows [OF assms(3-7)] obtain k where
    k: "vc' = vc\<lparr>vc_store := k\<rparr>" "grows content kinv B (vc_store vc) k"
      "\<forall>cid. r = Ok cid \<longrightarrow> (\<exists>b. commit_to_block E X c = Ok b \<and> cid = blk_cid b \<and> content k cid = Some (blk_data b))" by blast
  have kinv: "kinv k" using k(2) by (simp add: grows_def)
  have parents: "\<forall>p \<in> set (cm_parents c). complete_up_to E X K N k p" using assms(8) grows_complete [OF assms(4) k(2)] by blast
  show ?thesis
  proof (intro exI [of _ k] conjI k(1,2) allI impI)
    fix cid assume "r = Ok cid"
    with k(3) obtain b where b: "commit_to_block E X c = Ok b" "cid = blk_cid b" "content k (blk_cid b) = Some (blk_data b)" by auto
    obtain cm where cm: "commit_at E X K k cid = Some cm" "same_commit cid c cm"
      using stored_commit_at [OF assms(1,2) b(1) kinv b(3)] b(2) by blast
    then show "complete_up_to E X K N k cid" using stored_complete [OF _ _ parents] by simp
    show "\<exists>cm. commit_at E X K k cid = Some cm \<and> same_commit cid c cm" using cm by blast
    show "\<exists>b. commit_to_block E X c = Ok b \<and> cid = blk_cid b" using b by blast
  qed
qed

lemma vc_inv_step:
  assumes "vc_inv E X K kinv N vc" "grows content kinv B (vc_store vc) (vc_store vc')"
    and "\<forall>c \<in> pointers vc'. c \<in> pointers vc \<or> complete_up_to E X K N (vc_store vc') c"
  shows "vc_inv E X K kinv N vc'"
  using assms grows_complete [OF _ assms(2)] unfolding vc_inv_def grows_def by blast

lemma vc_inv_head_parents: "vc_inv E X K kinv N vc \<Longrightarrow> \<forall>p \<in> set (head_parents vc). complete_up_to E X K N (vc_store vc) p"
  by (auto simp: vc_inv_def head_parents_def pointers_def split: option.splits)

lemma update_ref_inv:
  assumes "vc_inv E X K kinv N vc" "complete_up_to E X K N (vc_store vc) c"
    and "no_collisions B" "stored_blocks (content (vc_store vc)) \<subseteq> B" "ref_blocks E X name c t \<subseteq> B"
  shows "vc_inv E X K kinv N (fst (update_ref E X K vc name c t))"
proof -
  obtain vc' r where u: "update_ref E X K vc name c t = (vc', r)" by force
  have "kinv (vc_store vc)" using assms(1) by (simp add: vc_inv_def)
  from update_ref_grows [OF assms(3) this assms(4,5) u] obtain k where
    k: "vc' = vc\<lparr>vc_refs_cache := hm_insert name c (vc_refs_cache vc), vc_store := k\<rparr>" "grows content kinv B (vc_store vc) k" by blast
  have "complete_up_to E X K N k c" using grows_complete [OF \<open>kinv (vc_store vc)\<close> k(2) assms(2)] .
  moreover have "pointers vc' \<subseteq> insert c (pointers vc)" using pointers_hm_insert [of name c vc] by (simp add: k(1) pointers_def)
  ultimately show ?thesis using vc_inv_step [OF assms(1), of B vc'] k u by auto
qed

text \<open>A commit: the branch and the head move to a new commit with the old head as its parent.\<close>

lemma vc_commit_effect:
  assumes "cid_laws E" "oxicode_laws X" "vc_inv E X K kinv N vc" "no_collisions B" "stored_blocks (content (vc_store vc)) \<subseteq> B"
    and "op_blocks E X K now vc (Op_commit root message author metadata) \<subseteq> B"
    and "vc_commit E X K now vc root message author metadata = (vc', r)"
  shows "vc_inv E X K kinv N vc' \<and> grows content kinv B (vc_store vc) (vc_store vc') \<and>
    (\<forall>cid. r = Ok cid \<longrightarrow> vc_head vc' = Some cid \<and> map_of (vc_refs_cache vc') (vc_current_branch vc') = Some cid \<and>
      (\<exists>c cm. commit_new now (head_parents vc) root message author metadata = Ok c \<and>
        commit_at E X K (vc_store vc') cid = Some cm \<and> same_commit cid c cm))"
proof -
  have inv: "kinv (vc_store vc)" using assms(3) by (simp add: vc_inv_def)
  show ?thesis
  proof (cases "commit_new now (head_parents vc) root message author metadata")
    case (Ok c)
    have c: "cm_parents c = head_parents vc" using Ok by (auto simp: commit_new_def split: if_splits)
    have B: "b \<in> B" "ref_blocks E X (vc_current_branch vc) (blk_cid b) Branch \<subseteq> B" if "commit_to_block E X c = Ok b" for b
      using assms(6) Ok that by (auto simp: op_blocks_def commit_blocks_def)
    obtain vc1 r1 where s: "store_commit E X K vc c = (vc1, r1)" by force
    have "\<forall>p \<in> set (cm_parents c). complete_up_to E X K N (vc_store vc) p" using vc_inv_head_parents [OF assms(3)] c by simp
    from store_commit_complete [OF assms(1,2,4) inv assms(5) B(1) s this] obtain k where
      k: "vc1 = vc\<lparr>vc_store := k\<rparr>" "grows content kinv B (vc_store vc) k" and
      cid: "\<And>cid. r1 = Ok cid \<Longrightarrow> complete_up_to E X K N k cid \<and> (\<exists>cm. commit_at E X K k cid = Some cm \<and> same_commit cid c cm) \<and>
        (\<exists>b. commit_to_block E X c = Ok b \<and> cid = blk_cid b)" by blast
    have inv1: "vc_inv E X K kinv N vc1" using vc_inv_step [OF assms(3), of B vc1] k by (simp add: pointers_def)
    show ?thesis
    proof (cases r1)
      case (Ok cid)
      let ?vc = "vc1\<lparr>vc_head := Some cid\<rparr>"
      note x = cid [OF Ok]
      have inv2: "vc_inv E X K kinv N ?vc"
        by (rule vc_inv_step [OF inv1, of B]) (use k x grows_refl in \<open>auto simp: pointers_def grows_def\<close>)
      have st: "stored_blocks (content (vc_store ?vc)) \<subseteq> B" using k by (simp add: grows_def)
      have rb: "ref_blocks E X (vc_current_branch vc) cid Branch \<subseteq> B" using x B by blast
      obtain vc2 r2 where u: "update_ref E X K ?vc (vc_current_branch vc) cid Branch = (vc2, r2)" by force
      have kinv: "kinv (vc_store ?vc)" using k by (simp add: grows_def)
      from update_ref_grows [OF assms(4) kinv st rb u] obtain k2 where
        k2: "vc2 = ?vc\<lparr>vc_refs_cache := hm_insert (vc_current_branch vc) cid (vc_refs_cache ?vc), vc_store := k2\<rparr>"
          "grows content kinv B k k2" using k(1) by auto
      have inv3: "vc_inv E X K kinv N vc2" using update_ref_inv [OF inv2 _ assms(4) st rb] u x k(1) by simp
      have "\<exists>cm. commit_at E X K k2 cid = Some cm \<and> same_commit cid c cm"
        using x commit_at_mono [of k k2] k(2) k2(2) unfolding grows_def by blast
      then show ?thesis
        using assms(7) \<open>commit_new _ _ _ _ _ _ = Ok c\<close> s Ok u k k2 inv3 grows_trans [OF k(2) k2(2)]
        by (cases r2) (auto simp: vc_commit_def head_parents_def)
    qed (use assms(7) Ok s k inv1 in \<open>auto simp: vc_commit_def head_parents_def\<close>)
  qed (use assms inv grows_refl in \<open>auto simp: vc_commit_def head_parents_def\<close>)
qed

text \<open>A merge: the new head has both the old head and the merged commit in its history.\<close>

lemma is_ancestor_sound:
  assumes "is_ancestor E X K fuel k a d = Ok True"
  shows "a \<in> ancestors E X K k d"
proof (cases "a = d")
  case False
  let ?load = "load_commit E X K ''Commit not found'' k"
  from False assms obtain b where hit: "walk_loop ?load (\<lambda>c. c = a) fuel [] [d] = Ok (Some b)"
    by (auto simp: is_ancestor_def obind_eq_Ok)
  have "b \<in> ancestors E X K k d \<and> b = a"
  proof (rule walk_loop_sound [OF _ _ _ hit])
    show "cm_parents cm = parents_of E X K k c" if "?load c = Ok cm" for c cm using that by (simp add: load_commit_Ok parents_of_def)
    show "e \<in> ancestors E X K k d" if "c \<in> ancestors E X K k d" "e \<in> set (parents_of E X K k c)" for c e
      using that by (rule ancestors_parent)
  qed simp
  then show ?thesis by blast
qed simp

lemma is_ancestor_loaded:
  assumes "is_ancestor E X K fuel k a d = Ok True" "a \<noteq> d"
  shows "\<exists>cm. commit_at E X K k d = Some cm"
  using assms by (cases fuel) (auto simp: is_ancestor_def obind_eq_Ok load_commit_Ok split: if_splits)

lemma set_branch_inv:
  assumes "vc_inv E X K kinv N vc" "complete_up_to E X K N (vc_store vc) c"
  shows "vc_inv E X K kinv N (set_branch vc c)"
  using assms pointers_hm_insert [of "vc_current_branch vc" c vc] by (auto simp: vc_inv_def set_branch_def pointers_def)

lemma merge_commit_effect:
  assumes "cid_laws E" "oxicode_laws X" "vc_inv E X K kinv N vc" "no_collisions B" "stored_blocks (content (vc_store vc)) \<subseteq> B"
    and "merge_blocks E X K now vc branch message author strategy \<subseteq> B"
    and "vc_head vc = Some h" "branch \<in> N \<or> complete_up_to E X K N (vc_store vc) branch"
    and "merge_commit E X K now vc h branch message author strategy = (vc', r)"
  shows "vc_inv E X K kinv N vc' \<and> grows content kinv B (vc_store vc) (vc_store vc') \<and>
    (\<forall>res. r = Ok res \<longrightarrow> (\<exists>m cm. res = MergeCommit m \<and> vc_head vc' = Some m \<and>
      commit_at E X K (vc_store vc') m = Some cm \<and> cm_parents cm = [h, branch]))"
proof (cases "commit_at E X K (vc_store vc) branch")
  case None
  have "load_commit E X K ''Branch commit not found'' (vc_store vc) branch \<noteq> Ok cm" for cm using None by (simp add: load_commit_Ok)
  with assms(9) have "vc' = vc \<and> (\<forall>res. r \<noteq> Ok res)"
    by (cases "load_commit E X K ''HEAD commit not found'' (vc_store vc) h";
        cases "load_commit E X K ''Branch commit not found'' (vc_store vc) branch") (auto simp: merge_commit_def)
  moreover have "grows content kinv B (vc_store vc) (vc_store vc)" using assms(3,5) by (intro grows_refl) (simp_all add: vc_inv_def)
  ultimately show ?thesis using assms(3) by simp
next
  case (Some bc)
  have branch: "complete_up_to E X K N (vc_store vc) branch" using assms(8) complete_up_to_named [OF _ Some, of N] by blast
  have inv: "kinv (vc_store vc)" "complete_up_to E X K N (vc_store vc) h"
    using assms(3,7) by (auto simp: vc_inv_def pointers_def)
  obtain hc where hc: "commit_at E X K (vc_store vc) h = Some hc" using complete_up_toD inv(2) by meson
  note loads = hc [THEN load_commit_Ok [THEN iffD2]] Some [THEN load_commit_Ok [THEN iffD2]]
  have eff: "merge_commit E X K now vc h branch message author strategy =
      sbind (vc, obind (merge_root strategy hc bc) (\<lambda>root. commit_new now [h, branch] root message author [])) (\<lambda>vc c.
      sbind (store_commit E X K vc c) (\<lambda>vc m. (set_branch vc m, Ok (MergeCommit m))))"
    using loads by (simp add: merge_commit_def sbind_obind)
  show ?thesis
  proof (cases "obind (merge_root strategy hc bc) (\<lambda>root. commit_new now [h, branch] root message author [])")
    case (Ok c)
    then obtain root where root: "merge_root strategy hc bc = Ok root" "commit_new now [h, branch] root message author [] = Ok c"
      by (auto simp: obind_eq_Ok)
    have c: "cm_parents c = [h, branch]" using root(2) by (auto simp: commit_new_def split: if_splits)
    have B: "b \<in> B" if "commit_to_block E X c = Ok b" for b
      using assms(6,7) that hc Some root by (auto simp: merge_blocks_def)
    obtain vc1 r1 where s: "store_commit E X K vc c = (vc1, r1)" by force
    have "\<forall>p \<in> set (cm_parents c). complete_up_to E X K N (vc_store vc) p" using c inv(2) branch by simp
    from store_commit_complete [OF assms(1,2,4) inv(1) assms(5) B s this] obtain k where
      k: "vc1 = vc\<lparr>vc_store := k\<rparr>" "grows content kinv B (vc_store vc) k" and
      m: "\<And>m. r1 = Ok m \<Longrightarrow> complete_up_to E X K N k m \<and> (\<exists>cm. commit_at E X K k m = Some cm \<and> same_commit m c cm)"
      by blast
    have inv1: "vc_inv E X K kinv N vc1" using vc_inv_step [OF assms(3), of B vc1] k by (simp add: pointers_def)
    have res: "(vc', r) = sbind (vc1, r1) (\<lambda>vc m. (set_branch vc m, Ok (MergeCommit m)))"
      using assms(9) eff Ok s by simp
    show ?thesis
    proof (cases r1)
      case (Ok mc)
      have "\<exists>cm. commit_at E X K k mc = Some cm \<and> cm_parents cm = [h, branch]" using m [OF Ok] same_commit_fields c by metis
      then show ?thesis
        using Ok res m [OF Ok] inv1 k set_branch_inv [OF inv1, of mc] by (auto simp: set_branch_def)
    qed (use res inv1 k in auto)
  qed (use assms(3,5,9) inv eff grows_refl in auto)
qed

lemma vc_merge_effect:
  assumes "cid_laws E" "oxicode_laws X" "vc_inv E X K kinv N vc" "no_collisions B" "stored_blocks (content (vc_store vc)) \<subseteq> B"
    and "merge_blocks E X K now vc branch message author strategy \<subseteq> B" "branch \<in> N \<or> complete_up_to E X K N (vc_store vc) branch"
    and "vc_merge E X K fuel now vc branch message author strategy = (vc', r)"
  shows "vc_inv E X K kinv N vc' \<and> grows content kinv B (vc_store vc) (vc_store vc') \<and>
    (\<forall>res. r = Ok res \<longrightarrow> (\<exists>h h'. vc_head vc = Some h \<and> vc_head vc' = Some h' \<and>
      (h' = branch \<and> h \<in> ancestors E X K (vc_store vc) branch \<or>
       (\<exists>cm. commit_at E X K (vc_store vc') h' = Some cm \<and> cm_parents cm = [h, branch]))))"
proof (cases "vc_head vc")
  case (Some h)
  have same: "grows content kinv B (vc_store vc) (vc_store vc)" using assms(3,5) grows_refl by (simp add: vc_inv_def)
  show ?thesis
  proof (cases "h = branch")
    case False
    note start = assms(8) [unfolded vc_merge_def Some ok_or_Some sbind.simps if_not_P [OF False]]
    show ?thesis
    proof (cases "is_ancestor E X K fuel (vc_store vc) h branch")
      case (Ok ff)
      show ?thesis
      proof (cases ff)
        case True
        with Ok have hit: "is_ancestor E X K fuel (vc_store vc) h branch = Ok True" by simp
        have "complete_up_to E X K N (vc_store vc) branch"
          using assms(7) complete_up_to_named is_ancestor_loaded [OF hit False] by metis
        from set_branch_inv [OF assms(3) this] is_ancestor_sound [OF hit] show ?thesis
          using start Ok True Some same by (auto simp: set_branch_def)
      next
        case diverged: False
        show ?thesis
        proof (cases "strategy = MS_FastForward")
          case False
          then have "merge_commit E X K now vc h branch message author strategy = (vc', r)" using start Ok diverged by simp
          from merge_commit_effect [OF assms(1-6) Some assms(7) this] Some show ?thesis by blast
        qed (use start Ok diverged assms(3) same in auto)
      qed
    qed (use start assms(3) same in auto)
  qed (use assms(3,8) Some same in \<open>auto simp: vc_merge_def\<close>)
qed (use assms(3,5,8) grows_refl in \<open>auto simp: vc_merge_def vc_inv_def\<close>)

lemma checkout_inv:
  assumes "vc_inv E X K kinv N vc" "c \<in> N \<or> complete_up_to E X K N (vc_store vc) c"
  shows "vc_inv E X K kinv N (fst (checkout E X K vc c))"
proof (cases "load_commit E X K ''Commit not found'' (vc_store vc) c")
  case (Ok cm)
  then have "complete_up_to E X K N (vc_store vc) c" using assms(2) complete_up_to_named load_commit_Ok by metis
  then show ?thesis using Ok assms(1) by (auto simp: checkout_def vc_inv_def pointers_def)
qed (use assms(1) in \<open>simp_all add: checkout_def\<close>)

lemma get_ref_Ok: "get_ref vc name = Ok r \<Longrightarrow> map_of (vc_refs_cache vc) name = Some (rf_commit r)"
  by (auto simp: get_ref_def Let_def split: option.splits)

lemma get_ref_complete: "vc_inv E X K kinv N vc \<Longrightarrow> get_ref vc name = Ok r \<Longrightarrow> complete_up_to E X K N (vc_store vc) (rf_commit r)"
  using get_ref_Ok [of vc name r] by (auto simp: vc_inv_def pointers_def intro: ranI)

lemma checkout_ref_inv:
  assumes "vc_inv E X K kinv N vc"
  shows "vc_inv E X K kinv N (fst (checkout_ref E X K vc name))"
proof (cases "get_ref vc name")
  case (Ok r)
  have "vc_inv E X K kinv N (vc\<lparr>vc_current_branch := b\<rparr>)" for b using assms by (simp add: vc_inv_def pointers_def)
  with Ok checkout_inv [OF assms disjI2 [OF get_ref_complete [OF assms Ok]]] get_ref_complete [OF assms Ok] show ?thesis
    by (auto simp: checkout_ref_def intro: checkout_inv)
qed (use assms in \<open>simp_all add: checkout_ref_def\<close>)

lemma create_ref_inv:
  assumes "vc_inv E X K kinv N vc" "no_collisions B" "stored_blocks (content (vc_store vc)) \<subseteq> B"
    and "\<And>h. vc_head vc = Some h \<Longrightarrow> ref_blocks E X name h t \<subseteq> B"
  shows "vc_inv E X K kinv N (fst (create_ref E X K t vc name))"
proof (cases "vc_head vc")
  case (Some h)
  then have "complete_up_to E X K N (vc_store vc) h" using assms(1) by (simp add: vc_inv_def pointers_def)
  then show ?thesis using update_ref_inv [OF assms(1) _ assms(2,3) assms(4) [OF Some]] Some by (simp add: create_ref_def)
qed (use assms(1) in \<open>simp add: create_ref_def\<close>)

lemma vcs_exec_inv:
  assumes "cid_laws E" "oxicode_laws X" "vc_inv E X K kinv N vc"
    and B: "no_collisions (stored_blocks (content (vc_store vc)) \<union> op_blocks E X K now vc op)"
    and names: "op_names op \<subseteq> N"
  shows "vc_inv E X K kinv N (vcs_exec E X K fuel now vc op)"
proof (cases op)
  case (Op_commit root message author metadata)
  then show ?thesis using vc_commit_effect [OF assms(1-4) _ _ prod.collapse [symmetric]] by (auto simp: vcs_exec_def)
next
  case (Op_checkout c)
  then show ?thesis using checkout_inv [OF assms(3)] names by (simp add: vcs_exec_def)
next
  case (Op_checkout_ref name)
  then show ?thesis using checkout_ref_inv [OF assms(3)] by (simp add: vcs_exec_def)
next
  case (Op_create_branch name)
  then show ?thesis using create_ref_inv [OF assms(3) B] by (simp add: vcs_exec_def create_branch_def op_blocks_def)
next
  case (Op_create_tag name)
  then show ?thesis using create_ref_inv [OF assms(3) B] by (simp add: vcs_exec_def create_tag_def op_blocks_def)
next
  case (Op_merge c message author strategy)
  then show ?thesis using vc_merge_effect [OF assms(1-4) _ _ _ prod.collapse [symmetric]] names
    by (auto simp: vcs_exec_def op_blocks_def)
next
  case (Op_merge_branch name message author strategy)
  show ?thesis
  proof (cases "get_ref vc name")
    case (Ok r)
    have "merge_blocks E X K now vc (rf_commit r) message author strategy \<subseteq>
        stored_blocks (content (vc_store vc)) \<union> op_blocks E X K now vc op"
      using Op_merge_branch get_ref_Ok [OF Ok] by (auto simp: op_blocks_def)
    from vc_merge_effect [OF assms(1-4) _ this disjI2 [OF get_ref_complete [OF assms(3) Ok]] prod.collapse [symmetric]]
    show ?thesis using Op_merge_branch Ok by (simp add: vcs_exec_def merge_branch_def)
  qed (use Op_merge_branch assms(3) in \<open>simp_all add: vcs_exec_def merge_branch_def\<close>)
qed

lemma vcs_step_inv:
  assumes "cid_laws E" "oxicode_laws X" "vcs_step E X K content kinv N vc vc'" "vc_inv E X K kinv N vc"
  shows "vc_inv E X K kinv N vc'"
  using assms(3)
proof cases
  case (operation now op fuel)
  then show ?thesis using vcs_exec_inv [OF assms(1,2,4)] by blast
next
  case (shared k)
  then show ?thesis using assms(4) complete_up_to_mono by (fastforce simp: vc_inv_def pointers_def)
qed

lemma vcs_reachable_inv:
  assumes "cid_laws E" "oxicode_laws X" "kinv k" "(vcs_step E X K content kinv N)\<^sup>*\<^sup>* (vc_new k) vc"
  shows "vc_inv E X K kinv N vc"
  using assms(4)
proof (induction rule: rtranclp_induct)
  case base
  then show ?case using assms(3) by (simp add: vc_inv_def vc_new_def pointers_def)
next
  case (step vc vc')
  then show ?case using vcs_step_inv [OF assms(1,2)] by blast
qed

end

subsection \<open>Properties\<close>

text \<open>
  (C19) Whether a commit is an ancestor of another is decided by reachability over the links to parents: on a complete
  history the search ends and returns exactly that.
\<close>

theorem is_ancestor_correct:
  assumes "commit_store K content kinv" "kinv k" "complete E X K k d"
  shows "settles (\<lambda>fuel. is_ancestor E X K fuel k a d) (Ok (a \<in> ancestors E X K k d))"
  by (rule commit_store.is_ancestor_settles [OF assms])

text \<open>
  The common ancestor that is found is one, if there is one; it need not be a nearest one.
\<close>

lemma find_common_ancestor_correct:
  assumes "commit_store K content kinv" "kinv k" "complete E X K k c1" "complete E X K k c2"
  shows "\<exists>N. \<forall>n \<ge> N.
    find_common_ancestor E X K n k c1 c2 = Ok None \<and> ancestors E X K k c1 \<inter> ancestors E X K k c2 = {} \<or>
    (\<exists>a \<in> ancestors E X K k c1 \<inter> ancestors E X K k c2. find_common_ancestor E X K n k c1 c2 = Ok (Some a))"
  by (rule commit_store.common_ancestor_settles [OF assms])

text \<open>
  (C16) Whatever sequence of operations ran, with whatever outcomes, and while others add blocks to the store: the
  head and every reference point to a commit that can be loaded, and the only ancestors that may be missing from the
  store are those that are missing from the history of a commit given by CID to \<open>checkout\<close> or \<open>merge\<close> (the set \<open>N\<close>,
  empty when commits are reached by branches and tags only), which the code does not look at beyond the commit
  itself. So where the commits given by CID have their whole histories, every pointer has its own, and \<open>log\<close> succeeds
  from it with at most as many commits as asked for.
\<close>

theorem vcs_history_complete:
  assumes "commit_store K content kinv" "cid_laws E" "oxicode_laws X" "kinv k"
    and "(vcs_step E X K content kinv N)\<^sup>*\<^sup>* (vc_new k) vc" "c \<in> pointers vc"
  shows "commit_at E X K (vc_store vc) c \<noteq> None \<and>
    (\<forall>a \<in> ancestors E X K (vc_store vc) c. commit_at E X K (vc_store vc) a = None \<longrightarrow>
       (\<exists>m \<in> N \<inter> ancestors E X K (vc_store vc) c. a \<in> ancestors E X K (vc_store vc) m)) \<and>
    ((\<forall>m \<in> N \<inter> ancestors E X K (vc_store vc) c. complete E X K (vc_store vc) m) \<longrightarrow>
       complete E X K (vc_store vc) c \<and> (\<forall>n. \<exists>cs. vc_log E X K (vc_store vc) c n = Ok cs \<and> length cs \<le> n))"
proof -
  have up: "complete_up_to E X K N (vc_store vc) c"
    using commit_store.vcs_reachable_inv [OF assms(1-5)] assms(6) by (simp add: vc_inv_def)
  show ?thesis
    using up [unfolded complete_up_to_def] complete_up_to_complete [OF up] first_parents_complete
    by (auto simp: vc_log_chain)
qed

text \<open>
  (C17) A commit that is reported to have succeeded becomes the head and the tip of the current branch, checking it
  out returns its root, and its history is the new commit followed by the history of the old head.
\<close>

theorem commit_recorded:
  assumes "commit_store K content kinv" "cid_laws E" "oxicode_laws X" "vc_inv E X K kinv N vc"
    and "no_collisions (stored_blocks (content (vc_store vc)) \<union> op_blocks E X K now vc (Op_commit root message author metadata))"
    and "vc_commit E X K now vc root message author metadata = (vc', Ok cid)"
  shows "vc_head vc' = Some cid \<and> map_of (vc_refs_cache vc') (vc_current_branch vc') = Some cid \<and>
    checkout E X K vc' cid = (vc', Ok root) \<and>
    (\<exists>cm. cm_cid cm = Some cid \<and> cm_root cm = root \<and> cm_parents cm = head_parents vc \<and>
      (\<forall>n h cs. vc_head vc = Some h \<longrightarrow> vc_log E X K (vc_store vc) h n = Ok cs \<longrightarrow>
         vc_log E X K (vc_store vc') cid (Suc n) = Ok (cm # cs)))"
proof -
  let ?B = "stored_blocks (content (vc_store vc)) \<union> op_blocks E X K now vc (Op_commit root message author metadata)"
  from commit_store.vc_commit_effect [OF assms(1-5) Un_upper1 Un_upper2 assms(6)] obtain c cm where
    g: "grows content kinv ?B (vc_store vc) (vc_store vc')" and
    vc': "vc_head vc' = Some cid" "map_of (vc_refs_cache vc') (vc_current_branch vc') = Some cid" and
    c: "commit_new now (head_parents vc) root message author metadata = Ok c"
      "commit_at E X K (vc_store vc') cid = Some cm" "same_commit cid c cm" by auto
  have f: "cm_parents cm = head_parents vc" "cm_root cm = root" "cm_cid cm = Some cid"
    using same_commit_fields [OF c(3)] c(1) by (auto simp: commit_new_def split: if_splits)
  have load: "load_commit E X K what (vc_store vc') cid = Ok cm" for what using c(2) by (simp add: load_commit_Ok)
  have mono: "load_commit E X K what (vc_store vc') a = Ok b" if "load_commit E X K what (vc_store vc) a = Ok b" for a b what
    using that g assms(4) commit_store.commit_at_mono [OF assms(1), of "vc_store vc" "vc_store vc'"]
    by (simp add: load_commit_Ok grows_def vc_inv_def)
  have "vc_log E X K (vc_store vc') cid (Suc n) = Ok (cm # cs)"
    if "vc_head vc = Some h" "vc_log E X K (vc_store vc) h n = Ok cs" for n h cs
    using load f that first_parents_mono [OF mono] by (simp add: vc_log_chain head_parents_def)
  then show ?thesis using vc' load f by (auto simp: checkout_def intro!: exI [of _ cm])
qed

text \<open>
  (C18) A merge that succeeds loses no history, whatever is missing from the store: every ancestor of the old head and
  every ancestor of the merged commit, both themselves included, is an ancestor of the new head, which can be loaded
  and is complete when the old head and the merged commit are.
\<close>

theorem merge_keeps_both:
  assumes "commit_store K content kinv" "cid_laws E" "oxicode_laws X" "vc_inv E X K kinv N vc"
    and "no_collisions (stored_blocks (content (vc_store vc)) \<union> merge_blocks E X K now vc branch message author strategy)"
    and "vc_merge E X K fuel now vc branch message author strategy = (vc', Ok res)"
  shows "\<exists>h h'. vc_head vc = Some h \<and> vc_head vc' = Some h' \<and>
    ancestors E X K (vc_store vc) h \<union> ancestors E X K (vc_store vc) branch \<subseteq> ancestors E X K (vc_store vc') h' \<and>
    commit_at E X K (vc_store vc') h' \<noteq> None \<and>
    (complete E X K (vc_store vc) h \<and> complete E X K (vc_store vc) branch \<longrightarrow> complete E X K (vc_store vc') h')"
proof -
  let ?k = "vc_store vc" and ?k' = "vc_store vc'"
  from commit_store.vc_merge_effect [OF assms(1-3) vc_inv_widen [OF assms(4) subset_insertI] assms(5) Un_upper1 Un_upper2
      disjI1 [OF insertI1] assms(6)]
  obtain h h' where inv: "vc_inv E X K kinv (insert branch N) vc'" and h: "vc_head vc = Some h" "vc_head vc' = Some h'"
    and g: "kinv ?k'" "content ?k \<subseteq>\<^sub>m content ?k'"
    and c: "h' = branch \<and> h \<in> ancestors E X K ?k branch \<or> (\<exists>cm. commit_at E X K ?k' h' = Some cm \<and> cm_parents cm = [h, branch])"
    by (auto simp: grows_def)
  have k: "kinv ?k" using assms(4) by (simp add: vc_inv_def)
  note grow = commit_store.ancestors_grow [OF assms(1) k g] and full = commit_store.complete_mono [OF assms(1) k g]
  have "ancestors E X K ?k' h \<union> ancestors E X K ?k' branch \<subseteq> ancestors E X K ?k' h'"
    using c grow [of E X branch] ancestors_trans [of h E X K ?k' branch] ancestors_unfold [of E X K ?k' h']
    by (auto simp: parents_of_def)
  moreover have "commit_at E X K ?k' h' \<noteq> None" using inv h(2) by (auto simp: vc_inv_def pointers_def complete_up_to_def)
  moreover have "complete E X K ?k' h'" if "complete E X K ?k h" "complete E X K ?k branch"
    using c full [OF that(1)] full [OF that(2)] complete_iff [of E X K ?k' h'] by auto
  ultimately show ?thesis using h grow [of E X h] grow [of E X branch] by blast
qed

text \<open>The builder: a commit is built when root, message and author were set, with the last value of each metadata key.\<close>

lemma bu_build_Ok:
  "bu_build now b = Ok c \<longleftrightarrow>
     (\<exists>root message author. bu_root b = Some root \<and> bu_message b = Some message \<and> bu_author b = Some author \<and>
        commit_new now (bu_parents b) root message author (bu_metadata b) = Ok c)"
  by (auto simp: bu_build_def obind_eq_Ok)

subsection \<open>Behaviour that the documentation does not promise\<close>

lemma vc_put_fields: "vc_put K vc b = (vc', r) \<Longrightarrow> \<exists>k. vc' = vc\<lparr>vc_store := k\<rparr>"
  by (auto simp: vc_put_def split: prod.splits)

lemma store_commit_fields: "store_commit E X K vc c = (vc', Ok cid) \<Longrightarrow> \<exists>k. vc' = vc\<lparr>vc_store := k\<rparr>"
  by (cases "commit_to_block E X c") (auto simp: store_commit_eq sbind_eq_Ok dest!: vc_put_fields)

lemma vc_commit_fields:
  assumes "vc_commit E X K now vc root message author metadata = (vc', Ok cid)"
  shows "vc_head vc' = Some cid \<and> vc_current_branch vc' = vc_current_branch vc \<and>
    vc_refs_cache vc' = hm_insert (vc_current_branch vc) cid (vc_refs_cache vc)"
  using assms
  by (auto simp: vc_commit_def update_ref_def sbind_eq_Ok Let_def dest!: vc_put_fields store_commit_fields)

text \<open>
  Tags are documented as immutable. \<open>get_ref\<close> tells a tag by its name alone, so a tag created as \<open>v1.0\<close> is checked
  out as a branch, and the next commit moves it.
\<close>

lemma tag_moves:
  assumes "create_tag E X K vc name = (vc1, Ok ())" "\<not> starts_with ''refs/tags/'' name" "\<not> contains ''/tags/'' name"
    and "checkout_ref E X K vc1 name = (vc2, Ok r)" "vc_commit E X K now vc2 root message author metadata = (vc3, Ok cid)"
  shows "map_of (vc_refs_cache vc3) name = Some cid"
proof -
  have "vc_current_branch vc2 = name"
    using assms(2-4) by (auto simp: checkout_ref_def checkout_def get_ref_def sbind_eq_Ok Let_def split: option.splits)
  then show ?thesis using vc_commit_fields [OF assms(5)] by simp
qed

text \<open>
  A checkout by CID leaves the current branch as it is, so the next commit moves that branch to a commit whose only
  parent is the one checked out: the commits that the branch had before are no longer in its history.
\<close>

lemma checkout_rewinds_branch:
  assumes "checkout E X K vc c = (vc1, Ok r)" "vc_commit E X K now vc1 root message author metadata = (vc2, Ok cid)"
  shows "map_of (vc_refs_cache vc2) (vc_current_branch vc) = Some cid \<and> head_parents vc1 = [c]"
proof -
  have "vc1 = vc\<lparr>vc_head := Some c\<rparr>" using assms(1) by (auto simp: checkout_def sbind_eq_Ok)
  then show ?thesis using vc_commit_fields [OF assms(2)] by (simp add: head_parents_def)
qed

subsection \<open>A small history\<close>

text \<open>
  CIDs that are the data itself (an identity hash), an encoder that knows a few values, and a store with a commit
  \<open>[1]\<close> and two commits \<open>[2]\<close> and \<open>[3]\<close> on top of it.
\<close>

definition crate_id :: "bytes cid_crate" where
  "crate_id =
     \<lparr>cid_to_bytes = (\<lambda>c. c), cid_try_from = Some, cid_parse = (\<lambda>s. None), mh_digest = (\<lambda>a bs. bs), mh_code = (\<lambda>h. 0),
      cid_new = (\<lambda>v codec h. Some h), cid_new_v0 = (\<lambda>h. None), cid_new_v1 = (\<lambda>codec h. h), cid_version = (\<lambda>c. V1),
      cid_codec = (\<lambda>c. 0x55), cid_hash = (\<lambda>c. c), ipld_size = 112\<rparr>"

definition nobody :: Author where
  "nobody = \<lparr>au_name = [], au_email = []\<rparr>"

definition demo_wire :: "bytes list \<Rightarrow> bytes \<Rightarrow> wire_commit" where
  "demo_wire parents root =
     \<lparr>wc_parents = parents, wc_root = root, wc_message = [], wc_author = nobody, wc_timestamp = 0, wc_metadata = []\<rparr>"

definition demo_commits :: "(wire_commit \<times> bytes) list" where
  "demo_commits =
     [(demo_wire [] [91], [1]), (demo_wire [[1]] [92], [2]), (demo_wire [[1]] [93], [3]),
      (demo_wire [[2], [3]] [93], [4]), (demo_wire [[2], [1]] [91], [5])]"

definition demo_ref :: "bytes \<Rightarrow> wire_ref" where
  "demo_ref c = \<lparr>wr_name = ''main'', wr_commit = c, wr_type = Branch\<rparr>"

definition demo_codec :: oxicode where
  "demo_codec =
     \<lparr>ox_encode_commit = map_of demo_commits, ox_decode_commit = map_of (map prod.swap demo_commits),
      ox_encode_ref = map_of [(demo_ref [1], [11]), (demo_ref [2], [12])],
      ox_decode_ref = map_of [([11], demo_ref [1]), ([12], demo_ref [2])]\<rparr>"

definition demo_block :: "bytes \<Rightarrow> bytes \<times> bytes Block" where
  "demo_block d = (d, block_from_parts d d)"

definition demo_vc :: "bytes list \<Rightarrow> bytes \<Rightarrow> (bytes MemoryBlockStore, bytes) VersionControl" where
  "demo_vc ds h =
     \<lparr>vc_store = \<lparr>mb_blocks = map demo_block ds\<rparr>, vc_current_branch = ''main'',
      vc_head = Some h, vc_refs_cache = [(''main'', h)]\<rparr>"

definition demo_commit :: "bytes \<Rightarrow> bytes list \<Rightarrow> bytes \<Rightarrow> bytes Commit" where
  "demo_commit cid parents root =
     \<lparr>cm_cid = Some cid, cm_parents = parents, cm_root = root, cm_message = [], cm_author = nobody,
      cm_timestamp = 0, cm_metadata = []\<rparr>"

lemma cid_laws_crate_id: "cid_laws crate_id"
  by (simp add: cid_laws_def crate_id_def)

lemma demo_wire_eq [simp]: "demo_wire p r = demo_wire p' r' \<longleftrightarrow> p = p' \<and> r = r'"
  by (simp add: demo_wire_def)

lemma demo_ref_eq [simp]: "demo_ref c = demo_ref c' \<longleftrightarrow> c = c'"
  by (simp add: demo_ref_def)

lemma oxicode_laws_demo: "oxicode_laws demo_codec"
proof -
  have "map_of (map prod.swap demo_commits) d = Some w" if "map_of demo_commits w = Some d" for w d
    using that by (auto simp: demo_commits_def split: if_splits)
  moreover have "wire_same w w" for w by (simp add: wire_same_def)
  ultimately show ?thesis unfolding oxicode_laws_def
    by (auto simp: demo_codec_def split: if_splits)
qed

lemma block_new_crate_id:
  "1 \<le> length d \<Longrightarrow> length d \<le> MAX_BLOCK_SIZE \<Longrightarrow> block_new crate_id d = Ok (block_from_parts d d)"
  by (simp add: block_new_def cb_build_def cb_new_def validate_size_in_range crate_id_def block_from_parts_def)

text \<open>A set of blocks with identity CIDs has no collisions.\<close>

lemma block_new_crate_id_cid: "block_new crate_id d = Ok b \<Longrightarrow> blk_cid b = blk_data b"
  by (auto simp: block_new_def cb_build_def cb_new_def crate_id_def obind_eq_Ok)

lemma identity_no_collisions: "\<forall>b \<in> B. blk_cid b = blk_data b \<Longrightarrow> no_collisions B"
  by (auto simp: no_collisions_def)

lemma demo_commit_block: "commit_to_block crate_id X c = Ok b \<Longrightarrow> blk_cid b = blk_data b"
  by (auto simp: commit_to_block_def obind_eq_Ok dest: block_new_crate_id_cid)

lemma demo_ref_block: "b \<in> ref_blocks crate_id X name c t \<Longrightarrow> blk_cid b = blk_data b"
  by (auto simp: ref_blocks_def ref_to_block_def obind_eq_Ok dest: block_new_crate_id_cid)

lemma demo_op_blocks: "b \<in> op_blocks crate_id X K now vc op \<Longrightarrow> blk_cid b = blk_data b"
  by (auto simp: op_blocks_def commit_blocks_def merge_blocks_def split: vcs_op.splits option.splits outcome.splits
      dest: demo_commit_block demo_ref_block)

lemma demo_stored:
  "k = \<lparr>mb_blocks = map demo_block ds\<rparr> \<Longrightarrow> d \<in> set ds \<Longrightarrow> ct_get memory_block_store k d = Ok (Some (block_from_parts d d))"
  by (induction ds arbitrary: k) (auto simp: memory_block_store_def demo_block_def)

lemma demo_from_block:
  "commit_from_block crate_id demo_codec (block_from_parts [1] [1]) = Ok (demo_commit [1] [] [91])"
  "commit_from_block crate_id demo_codec (block_from_parts [2] [2]) = Ok (demo_commit [2] [[1]] [92])"
  "commit_from_block crate_id demo_codec (block_from_parts [3] [3]) = Ok (demo_commit [3] [[1]] [93])"
  "commit_from_block crate_id demo_codec (block_from_parts [4] [4]) = Ok (demo_commit [4] [[2], [3]] [93])"
  "commit_from_block crate_id demo_codec (block_from_parts [5] [5]) = Ok (demo_commit [5] [[2], [1]] [91])"
  by (simp_all add: commit_from_block_def block_from_parts_def demo_codec_def demo_commits_def demo_wire_def
      commit_of_wire_def deserialize_cid_vec_def deserialize_cid_def crate_id_def demo_commit_def)

lemma demo_load:
  assumes "d \<in> set ds" "commit_from_block crate_id demo_codec (block_from_parts d d) = Ok cm"
  shows "load_commit crate_id demo_codec memory_block_store what \<lparr>mb_blocks = map demo_block ds\<rparr> d = Ok cm"
  using demo_stored [OF refl assms(1)] assms(2) by (simp add: load_commit_def)

lemma demo_commit_at:
  assumes "d \<in> set ds" "commit_from_block crate_id demo_codec (block_from_parts d d) = Ok cm"
  shows "commit_at crate_id demo_codec memory_block_store (vc_store (demo_vc ds h)) d = Some cm"
  using demo_load [OF assms] by (simp add: load_commit_Ok demo_vc_def)

lemma demo_complete1: "[1] \<in> set ds \<Longrightarrow> complete crate_id demo_codec memory_block_store (vc_store (demo_vc ds h)) [1]"
  using demo_commit_at [OF _ demo_from_block(1)] by (subst complete_iff) (simp add: demo_commit_def)

lemma demo_complete2:
  "{[1], [2]} \<subseteq> set ds \<Longrightarrow> complete crate_id demo_codec memory_block_store (vc_store (demo_vc ds h)) [2]"
  "{[1], [3]} \<subseteq> set ds \<Longrightarrow> complete crate_id demo_codec memory_block_store (vc_store (demo_vc ds h)) [3]"
  using demo_commit_at [OF _ demo_from_block(2), of ds h] demo_commit_at [OF _ demo_from_block(3), of ds h] demo_complete1 [of ds h]
  by (subst complete_iff, simp add: demo_commit_def)+

lemma demo_mb_inv: "distinct ds \<Longrightarrow> mb_inv (vc_store (demo_vc ds h))"
  by (auto simp: mb_inv_def demo_vc_def demo_block_def hm_ok_def comp_def list_all_iff block_from_parts_def)

lemma demo_vc_inv:
  "distinct ds \<Longrightarrow> complete crate_id demo_codec memory_block_store (vc_store (demo_vc ds h)) h \<Longrightarrow>
   vc_inv crate_id demo_codec memory_block_store mb_inv {} (demo_vc ds h)"
  using demo_mb_inv [of ds h] by (auto simp: complete_up_to_empty vc_inv_def pointers_def demo_vc_def ran_def split: if_splits)

lemma demo_stored_blocks: "b \<in> stored_blocks (mb_content (vc_store (demo_vc ds h))) \<Longrightarrow> blk_cid b = blk_data b"
  by (auto simp: stored_blocks_def mb_content_def demo_vc_def demo_block_def block_from_parts_def dest!: map_of_SomeD)

lemma demo_collisions:
  "no_collisions (stored_blocks (mb_content (vc_store (demo_vc ds h))) \<union> op_blocks crate_id X K now vc op)"
  using demo_stored_blocks demo_op_blocks by (intro identity_no_collisions) blast

text \<open>Witness: the first commit is an ancestor of the second.\<close>

theorem is_ancestor_correct_witness:
  "settles (\<lambda>fuel. is_ancestor crate_id demo_codec memory_block_store fuel (vc_store (demo_vc [[1], [2]] [2])) [1] [2]) (Ok True)"
proof -
  let ?k = "vc_store (demo_vc [[1], [2]] [2])"
  have "[1] \<in> ancestors crate_id demo_codec memory_block_store ?k [2]"
    by (rule ancestors_parent [OF ancestors_self]) (simp add: parents_of_def demo_commit_at [OF _ demo_from_block(2)], simp add: demo_commit_def)
  then show ?thesis
    using is_ancestor_correct [OF vcs_memory.commit_store_axioms demo_mb_inv [of "[[1], [2]]" "[2]"] demo_complete2(1) [of "[[1], [2]]" "[2]"], of "[1]"]
    by simp
qed

text \<open>Storing on top of a small history.\<close>

definition demo_put :: "bytes \<Rightarrow> (bytes MemoryBlockStore, bytes) VersionControl \<Rightarrow> (bytes MemoryBlockStore, bytes) VersionControl" where
  "demo_put d vc = vc\<lparr>vc_store := \<lparr>mb_blocks = hm_insert d (block_from_parts d d) (mb_blocks (vc_store vc))\<rparr>\<rparr>"

lemma demo_vc_put: "vc_put memory_block_store vc (block_from_parts d d) = (demo_put d vc, Ok ())"
  by (simp add: vc_put_def memory_block_store_def demo_put_def block_from_parts_def)

lemma demo_block_new: "length d = 1 \<Longrightarrow> block_new crate_id d = Ok (block_from_parts d d)"
  by (rule block_new_crate_id) (simp_all add: MAX_BLOCK_SIZE_def)

lemma demo_store_commit:
  assumes "commit_new 0 parents root [] nobody [] = Ok c" "map_of demo_commits (demo_wire parents root) = Some d" "length d = 1"
  shows "store_commit crate_id demo_codec memory_block_store vc c = (demo_put d vc, Ok d)"
proof -
  have "commit_to_wire crate_id c = demo_wire parents root" using assms(1)
    by (auto simp: commit_new_def commit_to_wire_def demo_wire_def serialize_cid_vec_def serialize_cid_def crate_id_def)
  then have "commit_to_block crate_id demo_codec c = Ok (block_from_parts d d)"
    using assms(2) demo_block_new [OF assms(3)] by (simp add: commit_to_block_def demo_codec_def)
  moreover have "blk_cid (block_from_parts d d) = d" by (simp add: block_from_parts_def)
  ultimately show ?thesis by (simp add: store_commit_eq demo_vc_put)
qed

lemma demo_update_ref:
  assumes "ox_encode_ref demo_codec (demo_ref c) = Some d" "length d = 1"
  shows "update_ref crate_id demo_codec memory_block_store vc ''main'' c Branch =
    (demo_put d (vc\<lparr>vc_refs_cache := hm_insert ''main'' c (vc_refs_cache vc)\<rparr>), Ok ())"
proof -
  have "ref_to_block crate_id demo_codec \<lparr>rf_name = ''main'', rf_commit = c, rf_type = Branch\<rparr> = Ok (block_from_parts d d)"
    using assms(1) demo_block_new [OF assms(2)]
    by (simp add: ref_to_block_def ref_to_wire_def demo_ref_def serialize_cid_def crate_id_def)
  then show ?thesis by (simp add: update_ref_def demo_vc_put)
qed

lemma demo_put_fields [simp]:
  "vc_current_branch (demo_put d vc) = vc_current_branch vc" "vc_head (demo_put d vc) = vc_head vc"
  "vc_refs_cache (demo_put d vc) = vc_refs_cache vc"
  by (simp_all add: demo_put_def)

lemma demo_vc_commit:
  assumes "map_of demo_commits (demo_wire (head_parents vc) root) = Some d" "length d = 1" "vc_current_branch vc = ''main''"
    and "ox_encode_ref demo_codec (demo_ref d) = Some e" "length e = 1"
  shows "vc_commit crate_id demo_codec memory_block_store 0 vc root [] nobody [] =
    (demo_put e ((demo_put d vc)\<lparr>vc_head := Some d, vc_refs_cache := hm_insert ''main'' d (vc_refs_cache vc)\<rparr>), Ok d)"
proof -
  obtain c where c: "commit_new 0 (head_parents vc) root [] nobody [] = Ok c" by (simp add: commit_new_def)
  show ?thesis
    using c demo_store_commit [OF c assms(1,2)] demo_update_ref [OF assms(4,5)] assms(3)
    by (simp add: vc_commit_def head_parents_def)
qed

lemma hm_insert_demo:
  "hm_insert d (block_from_parts d d) (map demo_block ds) = (if d \<in> set ds then map demo_block ds else map demo_block (ds @ [d]))"
  unfolding hm_insert_def by (induction ds) (auto simp: demo_block_def)

lemma demo_first_commit:
  "vc_commit crate_id demo_codec memory_block_store 0 (vc_new mb_new) [91] [] nobody [] = (demo_vc [[1], [11]] [1], Ok [1])"
  using demo_vc_commit [of "vc_new mb_new" "[91]" "[1]" "[11]"]
  by (simp add: head_parents_def vc_new_def demo_commits_def demo_codec_def demo_put_def mb_new_def demo_vc_def hm_insert_def demo_block_def)

text \<open>Witness: the state after a first commit.\<close>

theorem vcs_history_complete_witness:
  "(vcs_step crate_id demo_codec memory_block_store mb_content mb_inv {})\<^sup>*\<^sup>* (vc_new mb_new) (demo_vc [[1], [11]] [1]) \<and>
   complete crate_id demo_codec memory_block_store (vc_store (demo_vc [[1], [11]] [1])) [1] \<and>
   (\<exists>cs. vc_log crate_id demo_codec memory_block_store (vc_store (demo_vc [[1], [11]] [1])) [1] 5 = Ok cs \<and> length cs \<le> 5)"
proof -
  let ?op = "Op_commit [91] [] nobody []" and ?vc0 = "vc_new mb_new :: (bytes MemoryBlockStore, bytes) VersionControl"
  have empty: "stored_blocks (mb_content (vc_store ?vc0)) = {}" by (simp add: stored_blocks_def vc_new_def mb_new_def mb_content_def)
  have "vcs_step crate_id demo_codec memory_block_store mb_content mb_inv {} ?vc0
      (vcs_exec crate_id demo_codec memory_block_store 0 0 ?vc0 ?op)"
    by (rule vcs_step.operation) (use demo_op_blocks empty in \<open>auto intro!: identity_no_collisions\<close>)
  then have step: "(vcs_step crate_id demo_codec memory_block_store mb_content mb_inv {})\<^sup>*\<^sup>* ?vc0 (demo_vc [[1], [11]] [1])"
    by (simp add: vcs_exec_def demo_first_commit r_into_rtranclp)
  have "mb_inv (mb_new :: bytes MemoryBlockStore)" by (simp add: mb_inv_def mb_new_def)
  from vcs_history_complete [OF vcs_memory.commit_store_axioms cid_laws_crate_id oxicode_laws_demo this step, of "[1]"] step
  show ?thesis by (simp add: pointers_def demo_vc_def)
qed

text \<open>Witness: a second commit on top of the first.\<close>

lemma demo_second_commit:
  "vc_commit crate_id demo_codec memory_block_store 0 (demo_vc [[1]] [1]) [92] [] nobody [] = (demo_vc [[1], [2], [12]] [2], Ok [2])"
  using demo_vc_commit [of "demo_vc [[1]] [1]" "[92]" "[2]" "[12]"]
  by (simp add: head_parents_def demo_commits_def demo_codec_def demo_put_def demo_vc_def hm_insert_def demo_block_def)

theorem commit_recorded_witness:
  "checkout crate_id demo_codec memory_block_store (demo_vc [[1], [2], [12]] [2]) [2] = (demo_vc [[1], [2], [12]] [2], Ok [92]) \<and>
   (\<exists>cm. cm_parents cm = [[1]] \<and>
      vc_log crate_id demo_codec memory_block_store (vc_store (demo_vc [[1], [2], [12]] [2])) [2] 4 = Ok [cm, demo_commit [1] [] [91]])"
proof -
  have log: "vc_log crate_id demo_codec memory_block_store (vc_store (demo_vc [[1]] [1])) [1] 3 = Ok [demo_commit [1] [] [91]]"
    using demo_load [OF _ demo_from_block(1), of "[[1]]"] by (simp add: vc_log_chain demo_vc_def demo_commit_def numeral_3_eq_3)
  have "vc_inv crate_id demo_codec memory_block_store mb_inv {} (demo_vc [[1]] [1])"
    by (rule demo_vc_inv) (simp_all add: demo_complete1)
  from commit_recorded [OF vcs_memory.commit_store_axioms cid_laws_crate_id oxicode_laws_demo this demo_collisions demo_second_commit] log
  show ?thesis by (fastforce simp: head_parents_def demo_vc_def)
qed

text \<open>Witness: a merge of two commits with a common parent.\<close>

lemma demo_parents:
  "[3] \<in> set ds \<Longrightarrow> load_commit crate_id demo_codec memory_block_store what (vc_store (demo_vc ds h)) [3] = Ok (demo_commit [3] [[1]] [93])"
  "[2] \<in> set ds \<Longrightarrow> load_commit crate_id demo_codec memory_block_store what (vc_store (demo_vc ds h)) [2] = Ok (demo_commit [2] [[1]] [92])"
  "[1] \<in> set ds \<Longrightarrow> load_commit crate_id demo_codec memory_block_store what (vc_store (demo_vc ds h)) [1] = Ok (demo_commit [1] [] [91])"
  "[5] \<in> set ds \<Longrightarrow> load_commit crate_id demo_codec memory_block_store what (vc_store (demo_vc ds h)) [5] = Ok (demo_commit [5] [[2], [1]] [91])"
  using demo_load demo_from_block by (simp_all add: demo_vc_def)

lemma demo_vc_head [simp]: "vc_head (demo_vc ds h) = Some h"
  by (simp add: demo_vc_def)

lemma demo_set_branch: "d \<notin> set ds \<Longrightarrow> set_branch (demo_put d (demo_vc ds h)) d = demo_vc (ds @ [d]) d"
  by (simp add: set_branch_def demo_put_def demo_vc_def hm_insert_demo) (simp add: hm_insert_def)

lemma demo_merge_step:
  assumes "is_ancestor crate_id demo_codec memory_block_store fuel (vc_store (demo_vc ds h)) h b = Ok False" "h \<noteq> b"
    and "load_commit crate_id demo_codec memory_block_store ''HEAD commit not found'' (vc_store (demo_vc ds h)) h = Ok hc"
    and "load_commit crate_id demo_codec memory_block_store ''Branch commit not found'' (vc_store (demo_vc ds h)) b = Ok bc"
    and "map_of demo_commits (demo_wire [h, b] (cm_root bc)) = Some d" "length d = 1" "d \<notin> set ds"
  shows "vc_merge crate_id demo_codec memory_block_store fuel 0 (demo_vc ds h) b [] nobody ThreeWay =
     (demo_vc (ds @ [d]) d, Ok (MergeCommit d))"
proof -
  obtain c where c: "commit_new 0 [h, b] (cm_root bc) [] nobody [] = Ok c" by (simp add: commit_new_def)
  show ?thesis
    using assms c demo_store_commit [OF c assms(5,6)] demo_set_branch [OF assms(7)]
    by (simp add: vc_merge_def merge_commit_def merge_root_def)
qed

lemma demo_merge:
  "vc_merge crate_id demo_codec memory_block_store 3 0 (demo_vc [[1], [2], [3]] [2]) [3] [] nobody ThreeWay =
     (demo_vc [[1], [2], [3], [4]] [4], Ok (MergeCommit [4]))"
proof -
  have "is_ancestor crate_id demo_codec memory_block_store 3 (vc_store (demo_vc [[1], [2], [3]] [2])) [2] [3] = Ok False"
    by (simp add: is_ancestor_def demo_parents numeral_3_eq_3) (simp add: demo_commit_def demo_parents)
  from demo_merge_step [OF this _ demo_parents(2,1), of "[4]"] show ?thesis by (simp add: demo_commit_def demo_commits_def)
qed

theorem merge_keeps_both_witness:
  "{[2], [3]} \<subseteq> ancestors crate_id demo_codec memory_block_store (vc_store (demo_vc [[1], [2], [3], [4]] [4])) [4] \<and>
   complete crate_id demo_codec memory_block_store (vc_store (demo_vc [[1], [2], [3], [4]] [4])) [4]"
proof -
  let ?vc = "demo_vc [[1], [2], [3]] [2]"
  have inv: "vc_inv crate_id demo_codec memory_block_store mb_inv {} ?vc"
    by (rule demo_vc_inv) (simp_all add: demo_complete2)
  have "complete crate_id demo_codec memory_block_store (vc_store ?vc) [2]"
    "complete crate_id demo_codec memory_block_store (vc_store ?vc) [3]" by (rule demo_complete2, simp)+
  moreover have "no_collisions (stored_blocks (mb_content (vc_store ?vc)) \<union>
      merge_blocks crate_id demo_codec memory_block_store 0 ?vc [3] [] nobody ThreeWay)"
    using demo_collisions [of "[[1], [2], [3]]" "[2]" demo_codec memory_block_store 0 ?vc "Op_merge [3] [] nobody ThreeWay"]
    by (simp add: op_blocks_def)
  ultimately show ?thesis
    using merge_keeps_both [OF vcs_memory.commit_store_axioms cid_laws_crate_id oxicode_laws_demo inv _ demo_merge]
      ancestors_self by fastforce
qed

text \<open>
  The commits given by CID are a real exception: below, \<open>[2]\<close> is in the store without its parent \<open>[1]\<close>. It can be
  checked out, and the log from it fails.
\<close>

lemma checkout_missing_parent:
  "checkout crate_id demo_codec memory_block_store (demo_vc [[2]] [9]) [2] = (demo_vc [[2]] [9]\<lparr>vc_head := Some [2]\<rparr>, Ok [92])"
  "vc_log crate_id demo_codec memory_block_store (vc_store (demo_vc [[2]] [9])) [2] 2 = Err (Error_NotFound ''Commit not found'')"
proof -
  have "load_commit crate_id demo_codec memory_block_store what (vc_store (demo_vc [[2]] [9])) [1] = Err (Error_NotFound what)" for what
    by (simp add: load_commit_def demo_vc_def memory_block_store_def demo_block_def)
  then show "vc_log crate_id demo_codec memory_block_store (vc_store (demo_vc [[2]] [9])) [2] 2 = Err (Error_NotFound ''Commit not found'')"
    using demo_parents(2) [of "[[2]]" _ "[9]"] by (simp add: vc_log_chain numeral_2_eq_2 demo_commit_def)
qed (simp add: checkout_def demo_parents, simp add: demo_commit_def)

text \<open>
  A merge of a commit that is already part of the history is not recognised as done: only equality with the head is
  tested. Below, \<open>[1]\<close> is the parent of the head \<open>[2]\<close>, whose root is \<open>[92]\<close>; a three-way merge of \<open>[1]\<close> makes a
  merge commit whose root is the old \<open>[91]\<close> and so takes back what the head had added.
\<close>

lemma merge_ancestor_reverts:
  "is_ancestor crate_id demo_codec memory_block_store 3 (vc_store (demo_vc [[1], [2]] [2])) [1] [2] = Ok True"
  "vc_merge crate_id demo_codec memory_block_store 3 0 (demo_vc [[1], [2]] [2]) [1] [] nobody ThreeWay =
     (demo_vc [[1], [2], [5]] [5], Ok (MergeCommit [5]))"
  "snd (checkout crate_id demo_codec memory_block_store (demo_vc [[1], [2]] [2]) [2]) = Ok [92]"
  "snd (checkout crate_id demo_codec memory_block_store (demo_vc [[1], [2], [5]] [5]) [5]) = Ok [91]"
proof -
  show "is_ancestor crate_id demo_codec memory_block_store 3 (vc_store (demo_vc [[1], [2]] [2])) [1] [2] = Ok True"
    by (simp add: is_ancestor_def demo_parents numeral_3_eq_3) (simp add: demo_commit_def demo_parents)
  have "is_ancestor crate_id demo_codec memory_block_store 3 (vc_store (demo_vc [[1], [2]] [2])) [2] [1] = Ok False"
    by (simp add: is_ancestor_def demo_parents numeral_3_eq_3) (simp add: demo_commit_def)
  from demo_merge_step [OF this _ demo_parents(2,3), of "[5]"]
  show "vc_merge crate_id demo_codec memory_block_store 3 0 (demo_vc [[1], [2]] [2]) [1] [] nobody ThreeWay =
     (demo_vc [[1], [2], [5]] [5], Ok (MergeCommit [5]))" by (simp add: demo_commit_def demo_commits_def)
qed (simp_all add: checkout_def demo_parents, simp_all add: demo_commit_def)

end
