(* ===== verification/Message_Codec.thy ===== *)
theory Message_Codec
  imports Rust_Prelude
begin

text \<open>
  The framing of messages between peers (\<open>ipfrs-network/src/message_codec.rs\<close>): a length prefix of four bytes, the
  payload, and a CRC32 checksum computed with a table. The counters live in cells, so encoding and decoding
  return the codec with its counters advanced; a counter wraps. The prefix is the length cast to 32 bits.
\<close>

unbundle bit_operations_syntax

subsection \<open>The code\<close>

definition crc_bit :: "u32 \<Rightarrow> u32" where
  "crc_bit crc = (if crc AND 1 \<noteq> 0 then drop_bit 1 crc XOR 0xEDB88320 else drop_bit 1 crc)"

definition CRC32_TABLE :: "u32 list" where
  "CRC32_TABLE = map (\<lambda>i. (crc_bit ^^ 8) (of_nat i)) [0..<256]"

definition crc32_step :: "u32 \<Rightarrow> u8 \<Rightarrow> u32" where
  "crc32_step crc byte = drop_bit 8 crc XOR CRC32_TABLE ! unat ((crc XOR ucast byte) AND 0xFF)"

definition crc32 :: "bytes \<Rightarrow> u32" where
  "crc32 data = foldl crc32_step 0xFFFFFFFF data XOR 0xFFFFFFFF"

datatype CodecError = BufferTooSmall | MessageTooLarge | InvalidLength | ChecksumMismatch

record CodecConfig =
  cfg_max_message_size :: nat
  cfg_use_checksum :: bool
  cfg_length_prefix_bytes :: nat

definition codec_config_default :: CodecConfig where
  "codec_config_default = \<lparr>cfg_max_message_size = 16777216, cfg_use_checksum = True, cfg_length_prefix_bytes = 4\<rparr>"

record EncodedMessage =
  em_data :: bytes
  em_original_size :: nat
  em_checksum :: "u32 option"

record CodecStats =
  cs_messages_encoded :: u64
  cs_messages_decoded :: u64
  cs_bytes_encoded :: u64
  cs_bytes_decoded :: u64

record PeerMessageCodec =
  pc_config :: CodecConfig
  pc_messages_encoded :: u64
  pc_messages_decoded :: u64
  pc_bytes_encoded :: u64
  pc_bytes_decoded :: u64

definition pc_new :: "CodecConfig \<Rightarrow> PeerMessageCodec" where
  "pc_new config =
     \<lparr>pc_config = config, pc_messages_encoded = 0, pc_messages_decoded = 0, pc_bytes_encoded = 0, pc_bytes_decoded = 0\<rparr>"

definition estimate_encoded_size :: "PeerMessageCodec \<Rightarrow> nat \<Rightarrow> nat" where
  "estimate_encoded_size c payload_size = 4 + payload_size + (if cfg_use_checksum (pc_config c) then 4 else 0)"

definition pc_encode :: "PeerMessageCodec \<Rightarrow> bytes \<Rightarrow> PeerMessageCodec \<times> (CodecError, bytes) outcome" where
  "pc_encode c payload =
     (if cfg_max_message_size (pc_config c) < length payload then (c, Err MessageTooLarge)
      else
        let buf = be_bytes 4 (unat (of_nat (length payload) :: u32));
            buf = buf @ payload;
            buf = (if cfg_use_checksum (pc_config c) then buf @ be_bytes 4 (unat (crc32 payload)) else buf) in
        (c\<lparr>pc_messages_encoded := pc_messages_encoded c + 1, pc_bytes_encoded := pc_bytes_encoded c + of_nat (length payload)\<rparr>,
         Ok buf))"

definition encode_with_metadata :: "PeerMessageCodec \<Rightarrow> bytes \<Rightarrow> PeerMessageCodec \<times> (CodecError, EncodedMessage) outcome" where
  "encode_with_metadata c payload =
     (if cfg_max_message_size (pc_config c) < length payload then (c, Err MessageTooLarge)
      else
        let checksum = (if cfg_use_checksum (pc_config c) then Some (crc32 payload) else None) in
        sbind (pc_encode c payload) (\<lambda>c data.
          let c = c\<lparr>pc_messages_encoded := pc_messages_encoded c - 1, pc_bytes_encoded := pc_bytes_encoded c - of_nat (length payload)\<rparr>;
              c = c\<lparr>pc_messages_encoded := pc_messages_encoded c + 1, pc_bytes_encoded := pc_bytes_encoded c + of_nat (length payload)\<rparr> in
          (c, Ok \<lparr>em_data = data, em_original_size = length payload, em_checksum = checksum\<rparr>)))"

definition decode_length :: "bytes \<Rightarrow> (CodecError, nat) outcome" where
  "decode_length data = (if length data < 4 then Err BufferTooSmall else Ok (from_be (take 4 data)))"

definition pc_decode :: "PeerMessageCodec \<Rightarrow> bytes \<Rightarrow> PeerMessageCodec \<times> (CodecError, bytes) outcome" where
  "pc_decode c data =
     (if length data < 4 then (c, Err BufferTooSmall)
      else case decode_length data of
        Ok payload_len \<Rightarrow>
          if cfg_max_message_size (pc_config c) < payload_len then (c, Err MessageTooLarge)
          else
            let checksum_size = (if cfg_use_checksum (pc_config c) then 4 else 0);
                expected_total = 4 + payload_len + checksum_size in
            if length data < expected_total then (c, Err InvalidLength)
            else
              let payload = take payload_len (drop 4 data) in
              if cfg_use_checksum (pc_config c) \<and> of_nat (from_be (take 4 (drop (4 + payload_len) data))) \<noteq> crc32 payload
              then (c, Err ChecksumMismatch)
              else (c\<lparr>pc_messages_decoded := pc_messages_decoded c + 1, pc_bytes_decoded := pc_bytes_decoded c + of_nat payload_len\<rparr>,
                    Ok payload)
      | Err e \<Rightarrow> (c, Err e) | Panic \<Rightarrow> (c, Panic) | Diverge \<Rightarrow> (c, Diverge))"

definition pc_stats :: "PeerMessageCodec \<Rightarrow> CodecStats" where
  "pc_stats c =
     \<lparr>cs_messages_encoded = pc_messages_encoded c, cs_messages_decoded = pc_messages_decoded c,
      cs_bytes_encoded = pc_bytes_encoded c, cs_bytes_decoded = pc_bytes_decoded c\<rparr>"

subsection \<open>The checksum\<close>

text \<open>The remainder computed bit by bit, without a table.\<close>

definition crc32_bitwise :: "bytes \<Rightarrow> u32" where
  "crc32_bitwise data = foldl (\<lambda>crc byte. (crc_bit ^^ 8) (crc XOR ucast byte)) 0xFFFFFFFF data XOR 0xFFFFFFFF"

lemma crc_bit_alt: "crc_bit crc = (if bit crc 0 then drop_bit 1 crc XOR 0xEDB88320 else drop_bit 1 crc)"
  by (simp add: crc_bit_def and_one_eq mod_2_eq_odd bit_0)

lemma crc_bit_xor: "crc_bit (x XOR y) = crc_bit x XOR crc_bit y"
  by (simp add: crc_bit_alt bit_xor_iff drop_bit_xor ac_simps)

lemma crc_bits_xor: "(crc_bit ^^ n) (x XOR y) = (crc_bit ^^ n) x XOR (crc_bit ^^ n) y"
  by (induction n) (simp_all add: crc_bit_xor)

text \<open>Zero bits are shifted out as they are.\<close>

lemma crc_bits_shift: "take_bit n x = 0 \<Longrightarrow> (crc_bit ^^ n) x = drop_bit n x"
proof (induction n arbitrary: x)
  case (Suc n)
  have z: "\<not> bit x i" if "i < Suc n" for i
    using Suc.prems that by (metis bit_0_eq bit_take_bit_iff bot_apply bot_bool_def)
  have "take_bit n (drop_bit 1 x) = 0" by (rule bit_eqI) (simp add: bit_simps z)
  moreover have "crc_bit x = drop_bit 1 x" using z [of 0] by (simp add: crc_bit_alt)
  ultimately show ?case using Suc.IH [of "drop_bit 1 x"] by (simp add: funpow_Suc_right del: funpow.simps)
qed simp

text \<open>The polynomial has its highest bit set, so no two remainders are identified.\<close>

lemma xor_cancel_u32: "x XOR p = y XOR p \<longleftrightarrow> x = (y :: u32)"
  by (metis xor.assoc xor.right_neutral xor_self_eq)

lemma inj_crc_bit: "inj crc_bit"
proof (rule injI)
  fix x y assume eq: "crc_bit x = crc_bit y"
  have top: "bit (crc_bit z) 31 = bit z 0" for z :: u32
    using bit_imp_le_length [of z 32] by (auto simp: crc_bit_alt bit_simps)
  have b: "bit x 0 = bit y 0" using eq top by metis
  then have "drop_bit 1 x = drop_bit 1 y" using eq by (simp add: crc_bit_alt xor_cancel_u32 split: if_splits)
  then have "bit x (Suc i) = bit y (Suc i)" for i by (metis bit_drop_bit_eq comp_apply plus_1_eq_Suc)
  with b show "x = y" by (intro bit_eqI) (metis not0_implies_Suc)
qed

lemma inj_crc_bits: "inj (crc_bit ^^ n)"
  by (rule inj_fn [OF inj_crc_bit])

lemma unat_low_byte: "unat (take_bit 8 (w :: u32)) < 256"
  by (simp add: unsigned_take_bit_eq take_bit_nat_def)

lemma crc32_step_bitwise: "crc32_step crc byte = (crc_bit ^^ 8) (crc XOR ucast byte)"
proof -
  let ?x = "crc XOR ucast byte"
  have low: "?x AND 0xFF = take_bit 8 ?x" by (simp add: take_bit_eq_mask mask_eq_exp_minus_1)
  have "unat (take_bit 8 ?x) < 256" by (rule unat_low_byte)
  then have t: "CRC32_TABLE ! unat (take_bit 8 ?x) = (crc_bit ^^ 8) (take_bit 8 ?x)" by (simp add: CRC32_TABLE_def del: funpow.simps)
  have x: "?x = push_bit 8 (drop_bit 8 ?x) XOR take_bit 8 ?x"
    by (rule bit_eqI) (auto simp: bit_simps)
  have "(crc_bit ^^ 8) ?x = (crc_bit ^^ 8) (push_bit 8 (drop_bit 8 ?x)) XOR (crc_bit ^^ 8) (take_bit 8 ?x)"
    by (subst x) (rule crc_bits_xor)
  moreover have "(crc_bit ^^ 8) (push_bit 8 (drop_bit 8 ?x)) = drop_bit 8 crc"
  proof -
    have "take_bit 8 (push_bit 8 (drop_bit 8 ?x)) = 0" by (simp add: take_bit_push_bit)
    moreover have "drop_bit 8 (push_bit 8 (drop_bit 8 ?x)) = drop_bit 8 crc"
      by (rule bit_eqI) (auto simp: bit_simps dest: bit_imp_le_length)
    ultimately show ?thesis using crc_bits_shift [of 8] by metis
  qed
  ultimately show ?thesis unfolding crc32_step_def low t by simp
qed

lemma unat_ucast_u32: "unat (ucast (b :: u8) :: u32) = unat b"
  by (simp add: unsigned_ucast_eq take_bit_eq_mod) (use unat_byte_less [of b] in simp)

lemma crc32_step_inject:
  "crc32_step crc a = crc32_step crc b \<Longrightarrow> a = b" "crc32_step crc a = crc32_step crc' a \<Longrightarrow> crc = crc'"
proof -
  have e: "crc XOR u = crc' XOR v" if "crc32_step crc a = crc32_step crc' b" "u = ucast a" "v = ucast b" for crc crc' u v a b
    using injD [OF inj_crc_bits [of 8]] that by (simp add: crc32_step_bitwise del: funpow.simps)
  show "crc32_step crc a = crc32_step crc' a \<Longrightarrow> crc = crc'" using e [of crc a crc' a] by (simp add: xor_cancel_u32)
  assume "crc32_step crc a = crc32_step crc b"
  then have "ucast a XOR crc = ucast b XOR crc" using e [of crc a crc b] by (simp add: xor.commute)
  then have "(ucast a :: u32) = ucast b" by (simp only: xor_cancel_u32)
  then have "unat a = unat b" by (metis unat_ucast_u32)
  then show "a = b" by (simp only: word_unat_eq_iff)
qed

lemma crc32_fold_inject: "foldl crc32_step crc data = foldl crc32_step crc' data \<Longrightarrow> crc = crc'"
  by (induction data arbitrary: crc crc') (auto dest: crc32_step_inject(2))

text \<open>A change of one byte changes the checksum.\<close>

lemma crc32_update:
  assumes "i < length data" "data ! i \<noteq> b"
  shows "crc32 (data[i := b]) \<noteq> crc32 data"
proof
  assume "crc32 (data[i := b]) = crc32 data"
  then have "foldl crc32_step 0xFFFFFFFF (data[i := b]) = foldl crc32_step 0xFFFFFFFF data" by (simp add: crc32_def xor_cancel_u32)
  then have "foldl crc32_step 0xFFFFFFFF (take i data @ b # drop (Suc i) data) = foldl crc32_step 0xFFFFFFFF (take i data @ data ! i # drop (Suc i) data)"
    using assms(1) by (simp add: upd_conv_take_nth_drop id_take_nth_drop [symmetric])
  then show False using assms(2) by (auto dest: crc32_fold_inject crc32_step_inject(1))
qed

subsection \<open>Frames\<close>

lemma pc_encode_ok:
  assumes "pc_encode c payload = (c', Ok frame)"
  shows "length payload \<le> cfg_max_message_size (pc_config c)"
    "frame = be_bytes 4 (length payload mod 2 ^ 32) @ payload @
       (if cfg_use_checksum (pc_config c) then be_bytes 4 (unat (crc32 payload)) else [])"
    "pc_config c' = pc_config c"
  using assms by (auto simp: pc_encode_def Let_def unat_of_nat split: if_splits)

lemma from_be_crc: "of_nat (from_be (be_bytes 4 (unat (x :: u32)))) = x"
proof -
  have "unat x < 256 ^ 4" using unsigned_less [of x, where 'a = nat] by simp
  then show ?thesis by (simp add: from_be_bytes_id)
qed

lemma pc_decode_frame:
  assumes "length payload \<le> cfg_max_message_size (pc_config c)" "length payload < 2 ^ 32"
    "cfg_use_checksum (pc_config c) \<longrightarrow> length crc = 4"
  shows "snd (pc_decode c (be_bytes 4 (length payload) @ payload @ (if cfg_use_checksum (pc_config c) then crc else []) @ rest)) =
    (if cfg_use_checksum (pc_config c) \<and> of_nat (from_be crc) \<noteq> crc32 payload then Err ChecksumMismatch else Ok payload)"
proof -
  have "from_be (be_bytes 4 (length payload)) = length payload" using assms(2) by (intro from_be_bytes_id) simp
  then show ?thesis using assms(1,3) by (simp add: pc_decode_def decode_length_def Let_def)
qed

lemma be_bytes_inject: "length a = n \<Longrightarrow> length b = n \<Longrightarrow> from_be a = from_be b \<Longrightarrow> a = b"
  by (metis be_bytes_from_be)

lemma from_be_inject_u32: "length a = 4 \<Longrightarrow> length b = 4 \<Longrightarrow> (of_nat (from_be a) :: u32) = of_nat (from_be b) \<Longrightarrow> a = b"
  using from_be_less [of a] from_be_less [of b] be_bytes_inject [of a 4 b]
  by (simp add: word_unat_eq_iff unat_of_nat)

subsection \<open>Properties\<close>

text \<open>(C31) The checksum computed with the table is the remainder computed bit by bit.\<close>

theorem crc32_is_bitwise: "crc32 data = crc32_bitwise data"
  unfolding crc32_def crc32_bitwise_def by (simp add: crc32_step_bitwise [abs_def] del: funpow.simps)

text \<open>
  (C32) Round trip of a frame: what is encoded is decoded, whatever follows the frame, and the frame has the
  estimated size.
\<close>

theorem frame_roundtrip:
  assumes "pc_encode c payload = (c', Ok frame)" "length payload < 2 ^ 32"
  shows "snd (pc_decode c' (frame @ rest)) = Ok payload \<and> length frame = estimate_encoded_size c (length payload)"
  using pc_encode_ok [OF assms(1)] assms(2) pc_decode_frame [of payload c' "be_bytes 4 (unat (crc32 payload))" rest]
  by (simp add: from_be_crc estimate_encoded_size_def)

theorem frame_roundtrip_witness:
  "snd (pc_decode (fst (pc_encode (pc_new codec_config_default) [104, 105])) (be_bytes 4 2 @ [104, 105] @ be_bytes 4 (unat (crc32 [104, 105])) @ [7])) = Ok [104, 105]"
proof -
  obtain c' where "pc_encode (pc_new codec_config_default) [104, 105] = (c', Ok (be_bytes 4 2 @ [104, 105] @ be_bytes 4 (unat (crc32 [104, 105]))))"
    by (simp add: pc_encode_def pc_new_def codec_config_default_def)
  from this frame_roundtrip [OF this, of "[7]"] show ?thesis by simp
qed

text \<open>
  (C21) The checksum detects every corrupted byte: with checksums on, a frame in which any one byte of the payload
  or of the checksum was changed is refused.
\<close>

theorem corruption_detected:
  assumes "pc_encode c payload = (c', Ok frame)" "length payload < 2 ^ 32" "cfg_use_checksum (pc_config c)"
    and "4 \<le> i" "i < length frame" "frame ! i \<noteq> b"
  shows "snd (pc_decode c' (frame[i := b])) = Err ChecksumMismatch"
proof -
  let ?l = "be_bytes 4 (length payload)" and ?s = "be_bytes 4 (unat (crc32 payload))"
  have f: "frame = ?l @ payload @ ?s" using pc_encode_ok(2) [OF assms(1)] assms(2,3) by simp
  have c: "length payload \<le> cfg_max_message_size (pc_config c')" "cfg_use_checksum (pc_config c')"
    using pc_encode_ok(1,3) [OF assms(1)] assms(3) by simp_all
  show ?thesis
  proof (cases "i < 4 + length payload")
    case True
    then have i: "i - 4 < length payload" using assms(4) by linarith
    then have "frame[i := b] = ?l @ payload[i - 4 := b] @ ?s" using assms(4) unfolding f by (simp add: list_update_append)
    moreover have "crc32 (payload[i - 4 := b]) \<noteq> crc32 payload"
      using i assms(4,6) unfolding f by (intro crc32_update) (auto simp: nth_append)
    ultimately show ?thesis
      using pc_decode_frame [of "payload[i - 4 := b]" c' ?s "[]"] c assms(2) by (simp add: from_be_crc)
  next
    case False
    let ?j = "i - 4 - length payload"
    have j: "?j < 4" "\<not> i - 4 < length payload" using False assms(5) unfolding f by simp_all
    have "frame[i := b] = ?l @ payload @ ?s[?j := b]" using False j(2) assms(4) unfolding f by (simp add: list_update_append)
    moreover have "?s[?j := b] \<noteq> ?s"
      using False assms(4,6) j unfolding f by (auto simp: nth_append list_update_same_conv)
    then have "of_nat (from_be (?s[?j := b])) \<noteq> crc32 payload"
      using from_be_inject_u32 [of "?s[?j := b]" ?s] by (auto simp: from_be_crc)
    ultimately show ?thesis
      using pc_decode_frame [of payload c' "?s[?j := b]" "[]"] c assms(2) by simp
  qed
qed

theorem corruption_detected_witness:
  "snd (pc_decode (fst (pc_encode (pc_new codec_config_default) [104, 105])) (be_bytes 4 2 @ [104, 255] @ be_bytes 4 (unat (crc32 [104, 105])))) =
   Err ChecksumMismatch"
proof -
  obtain c' where e: "pc_encode (pc_new codec_config_default) [104, 105] = (c', Ok (be_bytes 4 2 @ [104, 105] @ be_bytes 4 (unat (crc32 [104, 105]))))"
    by (simp add: pc_encode_def pc_new_def codec_config_default_def)
  from corruption_detected [OF e, of 5 255] show ?thesis
    unfolding e by (simp add: pc_new_def codec_config_default_def list_update_append nth_append)
qed

text \<open>A payload of \<open>2^32\<close> bytes or more, which a configuration may allow, gets the length modulo \<open>2^32\<close>.\<close>

lemma long_payload_truncated:
  assumes "pc_encode c payload = (c', Ok frame)" "\<not> cfg_use_checksum (pc_config c)" "2 ^ 32 \<le> length payload"
  shows "snd (pc_decode c' frame) = Ok (take (length payload mod 2 ^ 32) payload)"
proof -
  have "from_be (be_bytes 4 (length payload mod 2 ^ 32)) = length payload mod 2 ^ 32" by (intro from_be_bytes_id) simp
  moreover have "length payload mod 2 ^ 32 \<le> length payload" by simp
  ultimately show ?thesis
    using pc_encode_ok [OF assms(1)] assms(2) by (simp add: pc_decode_def decode_length_def Let_def)
qed

end
