(* ===== verification/Term_Ir.thy ===== *)
theory Term_Ir
  imports Rust_Prelude
begin

text \<open>
  Terms, predicates, rules and knowledge bases of the reasoning engine
  (\<open>ipfrs-tensorlogic/src/ir.rs\<close>). CIDs are values of an arbitrary type; an \<open>i64\<close> constant is an integer,
  as the code only compares it. The printing of terms is left out.
\<close>

subsection \<open>Terms\<close>

datatype Constant = CString string | CInt int | CBool bool | CFloat string

record 'c TermRef =
  tr_cid :: 'c
  tr_hint :: "string option"

definition tr_new :: "'c \<Rightarrow> 'c TermRef" where
  "tr_new cid = \<lparr>tr_cid = cid, tr_hint = None\<rparr>"

definition tr_with_hint :: "'c \<Rightarrow> string \<Rightarrow> 'c TermRef" where
  "tr_with_hint cid hint = \<lparr>tr_cid = cid, tr_hint = Some hint\<rparr>"

datatype 'c Term = Var string | Const Constant | Fun string "'c Term list" | Ref "'c TermRef"

definition is_var :: "'c Term \<Rightarrow> bool" where
  "is_var t = (case t of Var _ \<Rightarrow> True | _ \<Rightarrow> False)"

definition is_const :: "'c Term \<Rightarrow> bool" where
  "is_const t = (case t of Const _ \<Rightarrow> True | _ \<Rightarrow> False)"

fun is_ground :: "'c Term \<Rightarrow> bool" where
  "is_ground (Var _) = False"
| "is_ground (Const _) = True"
| "is_ground (Fun _ args) = list_all is_ground args"
| "is_ground (Ref _) = True"

fun estimate_var_count :: "'c Term \<Rightarrow> nat" where
  "estimate_var_count (Var _) = 1"
| "estimate_var_count (Const _) = 0"
| "estimate_var_count (Ref _) = 0"
| "estimate_var_count (Fun _ args) = sum_list (map estimate_var_count args)"

text \<open>\<open>collect_vars\<close> pushes on a vector; the loop over the arguments threads the vector through.\<close>

fun collect_vars :: "'c Term \<Rightarrow> string list \<Rightarrow> string list"
  and collect_vars_args :: "'c Term list \<Rightarrow> string list \<Rightarrow> string list" where
  "collect_vars (Var v) vars = vars @ [v]"
| "collect_vars (Fun _ args) vars = collect_vars_args args vars"
| "collect_vars _ vars = vars"
| "collect_vars_args [] vars = vars"
| "collect_vars_args (arg # args) vars = collect_vars_args args (collect_vars arg vars)"

definition term_variables :: "'c Term \<Rightarrow> string list" where
  "term_variables t = remdups_adj (sort (collect_vars t []))"

fun complexity :: "'c Term \<Rightarrow> nat" where
  "complexity (Var _) = 1"
| "complexity (Const _) = 1"
| "complexity (Ref _) = 1"
| "complexity (Fun _ args) = 1 + sum_list (map complexity args)"

subsection \<open>Predicates and rules\<close>

record 'c Predicate =
  p_name :: string
  p_args :: "'c Term list"

definition pred_new :: "string \<Rightarrow> 'c Term list \<Rightarrow> 'c Predicate" where
  "pred_new name args = \<lparr>p_name = name, p_args = args\<rparr>"

definition arity :: "'c Predicate \<Rightarrow> nat" where
  "arity p = length (p_args p)"

definition pred_is_ground :: "'c Predicate \<Rightarrow> bool" where
  "pred_is_ground p = list_all is_ground (p_args p)"

definition pred_variables :: "'c Predicate \<Rightarrow> string list" where
  "pred_variables p = remdups_adj (sort (collect_vars_args (p_args p) []))"

record 'c Rule =
  r_head :: "'c Predicate"
  r_body :: "'c Predicate list"

definition rule_new :: "'c Predicate \<Rightarrow> 'c Predicate list \<Rightarrow> 'c Rule" where
  "rule_new head body = \<lparr>r_head = head, r_body = body\<rparr>"

definition rule_fact :: "'c Predicate \<Rightarrow> 'c Rule" where
  "rule_fact head = \<lparr>r_head = head, r_body = []\<rparr>"

definition rule_is_fact :: "'c Rule \<Rightarrow> bool" where
  "rule_is_fact r = (r_body r = [])"

fun push_new_vars :: "string list \<Rightarrow> string list \<Rightarrow> string list" where
  "push_new_vars vars [] = vars"
| "push_new_vars vars (var # vs) = push_new_vars (if var \<in> set vars then vars else vars @ [var]) vs"

definition rule_variables :: "'c Rule \<Rightarrow> string list" where
  "rule_variables r =
     sort (foldl (\<lambda>vars p. push_new_vars vars (pred_variables p)) (pred_variables (r_head r)) (r_body r))"

lemma new_simps [simp]:
  "p_name (pred_new name args) = name" "p_args (pred_new name args) = args"
  "r_head (rule_new head body) = head" "r_body (rule_new head body) = body"
  "r_head (rule_fact head) = head" "r_body (rule_fact head) = []"
  by (simp_all add: pred_new_def rule_new_def rule_fact_def)

subsection \<open>Knowledge bases\<close>

record 'c KnowledgeBase =
  kb_facts :: "'c Predicate list"
  kb_rules :: "'c Rule list"

record KnowledgeBaseStats =
  num_facts :: nat
  num_rules :: nat

definition kb_new :: "'c KnowledgeBase" where
  "kb_new = \<lparr>kb_facts = [], kb_rules = []\<rparr>"

definition add_fact :: "'c KnowledgeBase \<Rightarrow> 'c Predicate \<Rightarrow> 'c KnowledgeBase" where
  "add_fact kb p = kb\<lparr>kb_facts := kb_facts kb @ [p]\<rparr>"

definition add_rule :: "'c KnowledgeBase \<Rightarrow> 'c Rule \<Rightarrow> 'c KnowledgeBase" where
  "add_rule kb rule = kb\<lparr>kb_rules := kb_rules kb @ [rule]\<rparr>"

definition get_predicates :: "'c KnowledgeBase \<Rightarrow> string \<Rightarrow> 'c Predicate list" where
  "get_predicates kb name = filter (\<lambda>p. p_name p = name) (kb_facts kb)"

definition get_rules :: "'c KnowledgeBase \<Rightarrow> string \<Rightarrow> 'c Rule list" where
  "get_rules kb name = filter (\<lambda>r. p_name (r_head r) = name) (kb_rules kb)"

definition kb_stats :: "'c KnowledgeBase \<Rightarrow> KnowledgeBaseStats" where
  "kb_stats kb = \<lparr>num_facts = length (kb_facts kb), num_rules = length (kb_rules kb)\<rparr>"

text \<open>\<open>index.entry(k).or_default().push(v)\<close>.\<close>

definition entry_push :: "'k \<Rightarrow> 'v \<Rightarrow> ('k \<times> 'v list) list \<Rightarrow> ('k \<times> 'v list) list" where
  "entry_push k v m = hm_insert k ((case map_of m k of None \<Rightarrow> [] | Some vs \<Rightarrow> vs) @ [v]) m"

definition index_rules_by_predicate :: "'c KnowledgeBase \<Rightarrow> (nat \<times> 'c) list \<Rightarrow> (string \<times> 'c list) list" where
  "index_rules_by_predicate kb rule_cids =
     foldl (\<lambda>index (idx, rule). case map_of rule_cids idx of
                None \<Rightarrow> index | Some cid \<Rightarrow> entry_push (p_name (r_head rule)) cid index)
       [] (enumerate 0 (kb_rules kb))"

definition index_rules_by_predicate_local :: "'c KnowledgeBase \<Rightarrow> (string \<times> nat list) list" where
  "index_rules_by_predicate_local kb =
     foldl (\<lambda>index (idx, rule). entry_push (p_name (r_head rule)) idx index) [] (enumerate 0 (kb_rules kb))"

subsection \<open>Variables\<close>

fun tvars :: "'c Term \<Rightarrow> string set" where
  "tvars (Var v) = {v}"
| "tvars (Fun _ args) = \<Union> (tvars ` set args)"
| "tvars _ = {}"

definition avars :: "'c Term list \<Rightarrow> string set" where
  "avars ts = \<Union> (tvars ` set ts)"

definition pvars :: "'c Predicate \<Rightarrow> string set" where
  "pvars p = avars (p_args p)"

lemma avars_simps [simp]: "avars [] = {}" "avars (t # ts) = tvars t \<union> avars ts"
  by (simp_all add: avars_def)

lemma set_collect_vars:
  "set (collect_vars (t :: 'c Term) vars) = set vars \<union> tvars t"
  "set (collect_vars_args (ts :: 'c Term list) vars) = set vars \<union> avars ts"
  by (induction t vars and ts vars rule: collect_vars_collect_vars_args.induct) (auto simp: avars_def)

lemma length_collect_vars:
  "length (collect_vars (t :: 'c Term) vars) = length vars + estimate_var_count t"
  "length (collect_vars_args (ts :: 'c Term list) vars) = length vars + sum_list (map estimate_var_count ts)"
  by (induction t vars and ts vars rule: collect_vars_collect_vars_args.induct) simp_all

lemma is_ground_iff: "is_ground t \<longleftrightarrow> tvars t = {}"
  by (induction t) (auto simp: list_all_iff)

lemma ground_args_iff: "list_all is_ground ts \<longleftrightarrow> avars ts = {}"
  by (auto simp: list_all_iff is_ground_iff avars_def)

lemma set_term_variables: "set (term_variables t) = tvars t"
  by (simp add: term_variables_def set_collect_vars)

lemma set_pred_variables: "set (pred_variables p) = pvars p"
  by (simp add: pred_variables_def pvars_def set_collect_vars)

lemma distinct_remdups_adj_sorted: "sorted xs \<Longrightarrow> distinct (remdups_adj xs)"
  by (induction xs rule: remdups_adj.induct) auto

lemma distinct_pred_variables: "distinct (pred_variables p)" "sorted (pred_variables p)"
  by (simp_all add: pred_variables_def distinct_remdups_adj_sorted)

lemma set_push_new_vars: "set (push_new_vars vars vs) = set vars \<union> set vs"
  by (induction vars vs rule: push_new_vars.induct) auto

lemma distinct_push_new_vars: "distinct vars \<Longrightarrow> distinct (push_new_vars vars vs)"
  by (induction vars vs rule: push_new_vars.induct) auto

definition rule_vars :: "'c Rule \<Rightarrow> string set" where
  "rule_vars r = pvars (r_head r) \<union> \<Union> (pvars ` set (r_body r))"

lemma set_rule_variables: "set (rule_variables r) = rule_vars r"
proof -
  have "set (foldl (\<lambda>vars p. push_new_vars vars (pred_variables p)) vs ps) = set vs \<union> \<Union> (pvars ` set ps)"
    for vs and ps :: "'a Predicate list"
    by (induction ps arbitrary: vs) (auto simp: set_push_new_vars set_pred_variables)
  then show ?thesis by (simp add: rule_variables_def rule_vars_def set_pred_variables)
qed

lemma distinct_rule_variables: "distinct (rule_variables r)"
proof -
  have "distinct vs \<Longrightarrow> distinct (foldl (\<lambda>vars p. push_new_vars vars (pred_variables p)) vs ps)"
    for vs and ps :: "'a Predicate list"
    by (induction ps arbitrary: vs) (auto simp: distinct_push_new_vars)
  then show ?thesis by (simp add: rule_variables_def distinct_pred_variables)
qed

subsection \<open>Rule indexes\<close>

lemma map_of_entry_push:
  "map_of (entry_push k v m) = (map_of m)(k \<mapsto> (case map_of m k of None \<Rightarrow> [] | Some vs \<Rightarrow> vs) @ [v])"
  by (simp add: entry_push_def)

text \<open>What an index built by \<open>entry_push\<close> holds, as a function of the pushes.\<close>

definition pushed :: "'k \<Rightarrow> ('k \<times> 'v) list \<Rightarrow> 'v list" where
  "pushed k kvs = map snd (filter (\<lambda>e. fst e = k) kvs)"

lemma map_of_pushes:
  "map_of (foldl (\<lambda>m (k, v). entry_push k v m) [] kvs) k =
   (if pushed k kvs = [] then None else Some (pushed k kvs))"
proof (induction kvs rule: rev_induct)
  case (snoc e kvs)
  then show ?case by (cases e) (auto simp: map_of_entry_push pushed_def)
qed (simp add: pushed_def)

lemma enumerate_map_nth: "enumerate 0 xs = map (\<lambda>i. (i, xs ! i)) [0 ..< length xs]"
  by (rule nth_equalityI) (simp_all add: nth_enumerate_eq)

lemma index_rules_local_lookup:
  "map_of (index_rules_by_predicate_local kb) name =
   (let is = filter (\<lambda>i. p_name (r_head (kb_rules kb ! i)) = name) [0 ..< length (kb_rules kb)]
    in if is = [] then None else Some is)"
proof -
  let ?n = "\<lambda>r. p_name (r_head r)" and ?rs = "kb_rules kb"
  have "index_rules_by_predicate_local kb =
      foldl (\<lambda>m (k, v). entry_push k v m) [] (map (\<lambda>i. (?n (?rs ! i), i)) [0 ..< length ?rs])"
    unfolding index_rules_by_predicate_local_def enumerate_map_nth by (simp add: foldl_map split_def)
  moreover have "pushed name (map (\<lambda>i. (?n (?rs ! i), i)) [0 ..< length ?rs]) =
      filter (\<lambda>i. ?n (?rs ! i) = name) [0 ..< length ?rs]"
    by (simp add: pushed_def filter_map comp_def)
  ultimately show ?thesis by (simp add: map_of_pushes Let_def)
qed

end
