(* ===== verification/Reasoning.thy ===== *)
theory Reasoning
  imports Term_Ir Cid_Core
begin

text \<open>
  The inference engine (\<open>ipfrs-tensorlogic/src/reasoning.rs\<close>): unification, backward chaining, proof
  trees and their verification.

  A substitution is a hash map whose bindings are applied once, not exhaustively; \<open>unify\<close> therefore
  does not always terminate, and takes fuel for its recursion (\<open>Diverge\<close> is the stack overflow of the
  Rust code). The search is bounded by \<open>max_depth\<close> and terminates by a measure. The loops of the
  search are \<open>ofold\<close> and \<open>ofind\<close>. The engines with a query cache are in \<open>Query_Cache\<close>.
\<close>

subsection \<open>Substitutions and unification\<close>

type_synonym 'c Substitution = "(string \<times> 'c Term) list"

fun occurs_in :: "string \<Rightarrow> 'c Term \<Rightarrow> bool" where
  "occurs_in var (Var v) = (v = var)"
| "occurs_in var (Fun _ args) = list_ex (occurs_in var) args"
| "occurs_in var _ = False"

fun apply_subst_term :: "'c Term \<Rightarrow> 'c Substitution \<Rightarrow> 'c Term" where
  "apply_subst_term (Var v) subst = (case map_of subst v of Some t \<Rightarrow> t | None \<Rightarrow> Var v)"
| "apply_subst_term (Fun f args) subst = Fun f (map (\<lambda>t. apply_subst_term t subst) args)"
| "apply_subst_term t subst = t"

definition apply_subst_predicate :: "'c Predicate \<Rightarrow> 'c Substitution \<Rightarrow> 'c Predicate" where
  "apply_subst_predicate pred subst =
     \<lparr>p_name = p_name pred, p_args = map (\<lambda>t. apply_subst_term t subst) (p_args pred)\<rparr>"

definition unify_var :: "string \<Rightarrow> 'c Term \<Rightarrow> 'c Substitution \<Rightarrow> 'c Substitution option" where
  "unify_var v t subst =
     (if t = Var v then Some subst
      else if occurs_in v t then None
      else Some (hm_insert v t subst))"

fun unify :: "nat \<Rightarrow> 'c Term \<Rightarrow> 'c Term \<Rightarrow> 'c Substitution \<Rightarrow> (core_error, 'c Substitution option) outcome"
  and unify_args :: "nat \<Rightarrow> 'c Term list \<Rightarrow> 'c Term list \<Rightarrow> 'c Substitution \<Rightarrow> (core_error, 'c Substitution option) outcome" where
  "unify 0 t1 t2 subst = Diverge"
| "unify (Suc fuel) t1 t2 subst =
     (case (apply_subst_term t1 subst, apply_subst_term t2 subst) of
        (Const c1, Const c2) \<Rightarrow> Ok (if c1 = c2 then Some subst else None)
      | (Var v, t) \<Rightarrow> Ok (unify_var v t subst)
      | (t, Var v) \<Rightarrow> Ok (unify_var v t subst)
      | (Fun f1 args1, Fun f2 args2) \<Rightarrow>
          (if f1 = f2 \<and> length args1 = length args2 then unify_args fuel args1 args2 subst else Ok None)
      | (Ref r1, Ref r2) \<Rightarrow> Ok (if tr_cid r1 = tr_cid r2 then Some subst else None)
      | _ \<Rightarrow> Ok None)"
| "unify_args fuel (a1 # args1) (a2 # args2) subst =
     obind (unify fuel a1 a2 subst) (\<lambda>r. case r of
       Some subst \<Rightarrow> unify_args fuel args1 args2 subst | None \<Rightarrow> Ok None)"
| "unify_args fuel _ _ subst = Ok (Some subst)"

definition unify_predicates ::
    "nat \<Rightarrow> 'c Predicate \<Rightarrow> 'c Predicate \<Rightarrow> 'c Substitution \<Rightarrow> (core_error, 'c Substitution option) outcome" where
  "unify_predicates fuel p1 p2 subst =
     (if p_name p1 \<noteq> p_name p2 \<or> length (p_args p1) \<noteq> length (p_args p2) then Ok None
      else unify_args fuel (p_args p1) (p_args p2) subst)"

fun nat_digits :: "nat \<Rightarrow> string" where
  "nat_digits n = (if n < 10 then [char_of (48 + n)] else nat_digits (n div 10) @ [char_of (48 + n mod 10)])"

declare nat_digits.simps [simp del]

definition renamed_var :: "string \<Rightarrow> nat \<Rightarrow> string" where
  "renamed_var v suffix = v @ ''_'' @ nat_digits suffix"

definition rename_rule_vars :: "'c Rule \<Rightarrow> nat \<Rightarrow> 'c Rule" where
  "rename_rule_vars rule suffix =
     (let rename_subst = map (\<lambda>v. (v, Var (renamed_var v suffix))) (rule_variables rule) in
      \<lparr>r_head = apply_subst_predicate (r_head rule) rename_subst,
       r_body = map (\<lambda>p. apply_subst_predicate p rename_subst) (r_body rule)\<rparr>)"

subsection \<open>Backward chaining\<close>

record InferenceEngine =
  max_depth :: nat
  max_solutions :: nat
  cycle_detection :: bool

definition ie_new :: InferenceEngine where
  "ie_new = \<lparr>max_depth = 100, max_solutions = 100, cycle_detection = True\<rparr>"

definition ie_with_limits :: "nat \<Rightarrow> nat \<Rightarrow> InferenceEngine" where
  "ie_with_limits depth sols = \<lparr>max_depth = depth, max_solutions = sols, cycle_detection = True\<rparr>"

definition ie_with_cycle_detection :: "InferenceEngine \<Rightarrow> bool \<Rightarrow> InferenceEngine" where
  "ie_with_cycle_detection eng enabled = eng\<lparr>cycle_detection := enabled\<rparr>"

text \<open>The loop over the facts; the flag says that the solution limit was reached.\<close>

fun solve_facts ::
    "nat \<Rightarrow> InferenceEngine \<Rightarrow> 'c Predicate \<Rightarrow> 'c Substitution \<Rightarrow> 'c Predicate list \<Rightarrow> 'c Substitution list
       \<Rightarrow> (core_error, 'c Substitution list \<times> bool) outcome" where
  "solve_facts fuel eng goal subst [] solutions = Ok (solutions, False)"
| "solve_facts fuel eng goal subst (p # ps) solutions =
     obind (unify_predicates fuel goal p subst) (\<lambda>r. case r of
       None \<Rightarrow> solve_facts fuel eng goal subst ps solutions
     | Some new_subst \<Rightarrow>
         let solutions = solutions @ [new_subst] in
         if max_solutions eng \<le> length solutions then Ok (solutions, True)
         else solve_facts fuel eng goal subst ps solutions)"

function solve_goal ::
    "nat \<Rightarrow> InferenceEngine \<Rightarrow> 'c Predicate \<Rightarrow> 'c Substitution \<Rightarrow> 'c KnowledgeBase \<Rightarrow> nat \<Rightarrow> 'c Substitution list
       \<Rightarrow> (core_error, 'c Substitution list) outcome"
  and solve_conjunction ::
    "nat \<Rightarrow> InferenceEngine \<Rightarrow> 'c Predicate list \<Rightarrow> 'c Substitution \<Rightarrow> 'c KnowledgeBase \<Rightarrow> nat \<Rightarrow> 'c Substitution list
       \<Rightarrow> (core_error, 'c Substitution list) outcome" where
  "solve_goal fuel eng goal subst kb depth solutions =
     (if max_depth eng < depth then Ok solutions
      else if max_solutions eng \<le> length solutions then Ok solutions
      else let goal = apply_subst_predicate goal subst in
        obind (solve_facts fuel eng goal subst (get_predicates kb (p_name goal)) solutions) (\<lambda>(solutions, full).
          if full then Ok solutions
          else ofold (\<lambda>solutions rule.
                 let renamed_rule = rename_rule_vars rule depth in
                 obind (unify_predicates fuel goal (r_head renamed_rule) subst) (\<lambda>r. case r of
                   None \<Rightarrow> Ok solutions
                 | Some new_subst \<Rightarrow>
                     solve_conjunction fuel eng (r_body renamed_rule) new_subst kb (depth + 1) solutions))
               solutions (get_rules kb (p_name goal))))"
| "solve_conjunction fuel eng goals subst kb depth solutions =
     (case goals of
        [] \<Rightarrow> Ok (solutions @ [subst])
      | first_goal # rest_goals \<Rightarrow>
          obind (solve_goal fuel eng first_goal subst kb depth []) (\<lambda>intermediate_solutions.
            ofold (\<lambda>solutions intermediate_subst.
                if max_solutions eng \<le> length solutions then Ok solutions
                else solve_conjunction fuel eng rest_goals intermediate_subst kb depth solutions)
              solutions intermediate_solutions))"
  by pat_completeness auto
termination
  by (relation "measures [\<lambda>x. case x of Inl (fuel, eng, goal, subst, kb, depth, sols) \<Rightarrow> Suc (max_depth eng) - depth
        | Inr (fuel, eng, goals, subst, kb, depth, sols) \<Rightarrow> Suc (max_depth eng) - depth,
      \<lambda>x. case x of Inl _ \<Rightarrow> 0 | Inr (fuel, eng, goals, subst, kb, depth, sols) \<Rightarrow> length goals]") auto

declare solve_goal.simps [simp del] solve_conjunction.simps [simp del]

definition query :: "nat \<Rightarrow> InferenceEngine \<Rightarrow> 'c Predicate \<Rightarrow> 'c KnowledgeBase \<Rightarrow> (core_error, 'c Substitution list) outcome" where
  "query fuel eng goal kb = solve_goal fuel eng goal [] kb 0 []"

subsection \<open>Proof trees\<close>

record 'c ProofRule =
  pr_head :: "'c Predicate"
  pr_body :: "'c Predicate list"
  pr_is_fact :: bool

datatype 'c Proof = Proof (pf_goal: "'c Predicate") (pf_rule: "'c ProofRule option") (pf_subproofs: "'c Proof list")

definition proof_fact :: "'c Predicate \<Rightarrow> 'c Proof" where
  "proof_fact goal = Proof goal (Some \<lparr>pr_head = goal, pr_body = [], pr_is_fact = True\<rparr>) []"

definition proof_from_rule :: "'c Predicate \<Rightarrow> 'c Rule \<Rightarrow> 'c Proof list \<Rightarrow> 'c Proof" where
  "proof_from_rule goal rule subproofs =
     Proof goal (Some \<lparr>pr_head = r_head rule, pr_body = r_body rule, pr_is_fact = False\<rparr>) subproofs"

fun proof_depth :: "'c Proof \<Rightarrow> nat" where
  "proof_depth (Proof _ _ subproofs) = (if subproofs = [] then 1 else 1 + Max (set (map proof_depth subproofs)))"

fun proof_tree_size :: "'c Proof \<Rightarrow> nat" where
  "proof_tree_size (Proof _ _ subproofs) = 1 + sum_list (map proof_tree_size subproofs)"

definition proof_is_fact :: "'c Proof \<Rightarrow> bool" where
  "proof_is_fact p = (pf_subproofs p = [])"

fun all_goals :: "'c Proof \<Rightarrow> 'c Predicate list" where
  "all_goals (Proof goal _ subproofs) = goal # concat (map all_goals subproofs)"

function prove_goal ::
    "nat \<Rightarrow> InferenceEngine \<Rightarrow> 'c Predicate \<Rightarrow> 'c Substitution \<Rightarrow> 'c KnowledgeBase \<Rightarrow> nat
       \<Rightarrow> (core_error, 'c Proof option) outcome"
  and prove_conjunction ::
    "nat \<Rightarrow> InferenceEngine \<Rightarrow> 'c Predicate list \<Rightarrow> 'c Substitution \<Rightarrow> 'c KnowledgeBase \<Rightarrow> nat
       \<Rightarrow> (core_error, 'c Proof list option) outcome" where
  "prove_goal fuel eng goal subst kb depth =
     (if max_depth eng < depth then Ok None
      else let goal = apply_subst_predicate goal subst in
        obind (ofind (\<lambda>p. unify_predicates fuel goal p subst) (get_predicates kb (p_name goal))) (\<lambda>r. case r of
          Some _ \<Rightarrow> Ok (Some (proof_fact goal))
        | None \<Rightarrow>
            ofind (\<lambda>rule.
                let renamed_rule = rename_rule_vars rule depth in
                obind (unify_predicates fuel goal (r_head renamed_rule) subst) (\<lambda>r. case r of
                  None \<Rightarrow> Ok None
                | Some new_subst \<Rightarrow>
                    obind (prove_conjunction fuel eng (r_body renamed_rule) new_subst kb (depth + 1)) (\<lambda>ps.
                      Ok (map_option (proof_from_rule goal renamed_rule) ps))))
              (get_rules kb (p_name goal))))"
| "prove_conjunction fuel eng goals subst kb depth =
     (case goals of
        [] \<Rightarrow> Ok (Some [])
      | first_goal # rest_goals \<Rightarrow>
          obind (prove_goal fuel eng first_goal subst kb depth) (\<lambda>r. case r of
            None \<Rightarrow> Ok None
          | Some first_proof \<Rightarrow>
              obind (prove_conjunction fuel eng rest_goals subst kb depth) (\<lambda>ps.
                Ok (map_option (\<lambda>rest_proofs. first_proof # rest_proofs) ps))))"
  by pat_completeness auto
termination
  by (relation "measures [\<lambda>x. case x of Inl (fuel, eng, goal, subst, kb, depth) \<Rightarrow> Suc (max_depth eng) - depth
        | Inr (fuel, eng, goals, subst, kb, depth) \<Rightarrow> Suc (max_depth eng) - depth,
      \<lambda>x. case x of Inl _ \<Rightarrow> 0 | Inr (fuel, eng, goals, subst, kb, depth) \<Rightarrow> length goals]") auto

declare prove_goal.simps [simp del] prove_conjunction.simps [simp del]

definition prove :: "nat \<Rightarrow> InferenceEngine \<Rightarrow> 'c Predicate \<Rightarrow> 'c KnowledgeBase \<Rightarrow> (core_error, 'c Proof option) outcome" where
  "prove fuel eng goal kb = prove_goal fuel eng goal [] kb 0"

text \<open>The test that a rule of the knowledge base has the shape of the rule of a proof.\<close>

definition rule_matches :: "'c Rule \<Rightarrow> 'c ProofRule \<Rightarrow> bool" where
  "rule_matches kb_rule rule \<longleftrightarrow>
     p_name (r_head kb_rule) = p_name (pr_head rule) \<and>
     length (p_args (r_head kb_rule)) = length (p_args (pr_head rule)) \<and>
     length (r_body kb_rule) = length (pr_body rule) \<and>
     list_all (\<lambda>(b1, b2). p_name b1 = p_name b2 \<and> length (p_args b1) = length (p_args b2))
       (zip (r_body kb_rule) (pr_body rule))"

fun verify_proof_recursive ::
    "nat \<Rightarrow> InferenceEngine \<Rightarrow> 'c Proof \<Rightarrow> 'c KnowledgeBase \<Rightarrow> nat \<Rightarrow> (core_error, bool) outcome"
  and verify_subproofs ::
    "nat \<Rightarrow> InferenceEngine \<Rightarrow> 'c Proof list \<Rightarrow> 'c Predicate list \<Rightarrow> 'c KnowledgeBase \<Rightarrow> nat \<Rightarrow> (core_error, bool) outcome" where
  "verify_proof_recursive fuel eng (Proof goal rule subproofs) kb depth =
     (if max_depth eng < depth then Ok False
      else case rule of
        None \<Rightarrow> Ok False
      | Some rule \<Rightarrow>
          if pr_is_fact rule
          then obind (ofind (\<lambda>p. unify_predicates fuel goal p []) (get_predicates kb (p_name goal)))
                 (\<lambda>r. Ok (r \<noteq> None))
          else if \<not> list_ex (\<lambda>kb_rule. rule_matches kb_rule rule) (get_rules kb (p_name goal)) then Ok False
          else if length subproofs \<noteq> length (pr_body rule) then Ok False
          else verify_subproofs fuel eng subproofs (pr_body rule) kb depth)"
| "verify_subproofs fuel eng [] body kb depth = Ok True"
| "verify_subproofs fuel eng (p # ps) [] kb depth = Panic"
| "verify_subproofs fuel eng (p # ps) (b # body) kb depth =
     (if p_name (pf_goal p) \<noteq> p_name b then Ok False
      else obind (verify_proof_recursive fuel eng p kb (depth + 1)) (\<lambda>ok.
        if \<not> ok then Ok False else verify_subproofs fuel eng ps body kb depth))"

definition verify :: "nat \<Rightarrow> InferenceEngine \<Rightarrow> 'c Proof \<Rightarrow> 'c KnowledgeBase \<Rightarrow> (core_error, bool) outcome" where
  "verify fuel eng pf kb = verify_proof_recursive fuel eng pf kb 0"

subsection \<open>Goal decompositions and cycles\<close>

record 'c GoalDecomposition =
  gd_goal :: "'c Predicate"
  gd_subgoals :: "'c Predicate list"
  gd_rule_applied :: "'c Rule option"
  gd_local_solutions :: "bool list"
  gd_depth :: nat

definition gd_new :: "'c Predicate \<Rightarrow> nat \<Rightarrow> 'c GoalDecomposition" where
  "gd_new goal depth =
     \<lparr>gd_goal = goal, gd_subgoals = [], gd_rule_applied = None, gd_local_solutions = [], gd_depth = depth\<rparr>"

definition gd_apply_rule :: "'c GoalDecomposition \<Rightarrow> 'c Rule \<Rightarrow> 'c GoalDecomposition" where
  "gd_apply_rule gd rule =
     gd\<lparr>gd_rule_applied := Some rule, gd_subgoals := r_body rule,
        gd_local_solutions := replicate (length (r_body rule)) False\<rparr>"

definition gd_mark_solved :: "'c GoalDecomposition \<Rightarrow> nat \<Rightarrow> 'c GoalDecomposition" where
  "gd_mark_solved gd index =
     (if index < length (gd_local_solutions gd)
      then gd\<lparr>gd_local_solutions := (gd_local_solutions gd)[index := True]\<rparr> else gd)"

definition gd_is_complete :: "'c GoalDecomposition \<Rightarrow> bool" where
  "gd_is_complete gd = list_all (\<lambda>solved. solved) (gd_local_solutions gd)"

definition gd_unsolved_subgoals :: "'c GoalDecomposition \<Rightarrow> 'c Predicate list" where
  "gd_unsolved_subgoals gd = map fst (filter (\<lambda>(_, solved). \<not> solved) (zip (gd_subgoals gd) (gd_local_solutions gd)))"

record CycleDetector =
  cd_goal_stack :: "string list"
  cd_goal_set :: "string list"

definition cd_new :: CycleDetector where
  "cd_new = \<lparr>cd_goal_stack = [], cd_goal_set = []\<rparr>"

definition goal_to_key :: "'c Predicate \<Rightarrow> string" where
  "goal_to_key goal = p_name goal @ ''('' @ nat_digits (length (p_args goal)) @ '')''"

definition cd_push :: "CycleDetector \<Rightarrow> 'c Predicate \<Rightarrow> CycleDetector \<times> bool" where
  "cd_push cd goal =
     (let key = goal_to_key goal in
      if key \<in> set (cd_goal_set cd) then (cd, False)
      else (\<lparr>cd_goal_stack = cd_goal_stack cd @ [key], cd_goal_set = hs_insert key (cd_goal_set cd)\<rparr>, True))"

definition cd_pop :: "CycleDetector \<Rightarrow> CycleDetector" where
  "cd_pop cd =
     (if cd_goal_stack cd = [] then cd
      else \<lparr>cd_goal_stack = butlast (cd_goal_stack cd),
            cd_goal_set = hs_remove (last (cd_goal_stack cd)) (cd_goal_set cd)\<rparr>)"

definition cd_would_cycle :: "CycleDetector \<Rightarrow> 'c Predicate \<Rightarrow> bool" where
  "cd_would_cycle cd goal \<longleftrightarrow> goal_to_key goal \<in> set (cd_goal_set cd)"

definition cd_depth :: "CycleDetector \<Rightarrow> nat" where
  "cd_depth cd = length (cd_goal_stack cd)"

definition cd_clear :: "CycleDetector \<Rightarrow> CycleDetector" where
  "cd_clear cd = cd_new"

text \<open>
  \<open>prove_tracking\<close> has no depth limit: the first fuel bounds its recursion. The records it pushes are
  returned in front of the outcome; the record of the goal itself is pushed last. A subgoal takes the
  substitution of the head alone.
\<close>

function (sequential) prove_tracking ::
    "nat \<Rightarrow> nat \<Rightarrow> 'c Predicate \<Rightarrow> 'c KnowledgeBase \<Rightarrow> nat \<Rightarrow> 'c GoalDecomposition list
       \<Rightarrow> 'c GoalDecomposition list \<times> (core_error, 'c Proof option) outcome"
  and track_rules ::
    "nat \<Rightarrow> nat \<Rightarrow> 'c Predicate \<Rightarrow> 'c KnowledgeBase \<Rightarrow> nat \<Rightarrow> 'c Rule list \<Rightarrow> 'c GoalDecomposition
       \<Rightarrow> 'c GoalDecomposition list \<Rightarrow> 'c GoalDecomposition list \<times> (core_error, 'c Proof option) outcome"
  and track_body ::
    "nat \<Rightarrow> nat \<Rightarrow> 'c KnowledgeBase \<Rightarrow> nat \<Rightarrow> 'c Substitution \<Rightarrow> nat \<Rightarrow> 'c Predicate list \<Rightarrow> 'c GoalDecomposition
       \<Rightarrow> 'c Proof list \<Rightarrow> 'c GoalDecomposition list
       \<Rightarrow> 'c GoalDecomposition list \<times> (core_error, 'c GoalDecomposition \<times> 'c Proof list option) outcome" where
  "prove_tracking 0 fuel goal kb depth ds = (ds, Diverge)"
| "prove_tracking (Suc n) fuel goal kb depth ds =
     sbind (ds, ofind (\<lambda>p. unify_predicates fuel goal p []) (get_predicates kb (p_name goal))) (\<lambda>ds r. case r of
       Some _ \<Rightarrow> (ds @ [gd_new goal depth], Ok (Some (proof_fact goal)))
     | None \<Rightarrow> track_rules n fuel goal kb depth (get_rules kb (p_name goal)) (gd_new goal depth) ds)"
| "track_rules n fuel goal kb depth [] decomp ds = (ds @ [decomp], Ok None)"
| "track_rules n fuel goal kb depth (rule # rules) decomp ds =
     (let renamed_rule = rename_rule_vars rule depth in
      sbind (ds, unify_predicates fuel goal (r_head renamed_rule) []) (\<lambda>ds r. case r of
        None \<Rightarrow> track_rules n fuel goal kb depth rules decomp ds
      | Some subst \<Rightarrow>
          sbind (track_body n fuel kb depth subst 0 (r_body renamed_rule) (gd_apply_rule decomp renamed_rule) [] ds)
            (\<lambda>ds (decomp, proved). case proved of
               Some subproofs \<Rightarrow> (ds @ [decomp], Ok (Some (proof_from_rule goal renamed_rule subproofs)))
             | None \<Rightarrow> track_rules n fuel goal kb depth rules decomp ds)))"
| "track_body n fuel kb depth subst i [] decomp subproofs ds = (ds, Ok (decomp, Some subproofs))"
| "track_body n fuel kb depth subst i (subgoal # body) decomp subproofs ds =
     sbind (prove_tracking n fuel (apply_subst_predicate subgoal subst) kb (depth + 1) ds) (\<lambda>ds r. case r of
       Some subproof \<Rightarrow>
         track_body n fuel kb depth subst (i + 1) body (gd_mark_solved decomp i) (subproofs @ [subproof]) ds
     | None \<Rightarrow> (ds, Ok (decomp, None)))"
  by pat_completeness auto
termination
  by (relation "measures [
      \<lambda>x. case x of Inl (n, _) \<Rightarrow> n | Inr (Inl (n, _)) \<Rightarrow> n | Inr (Inr (n, _)) \<Rightarrow> n,
      \<lambda>x. case x of Inl _ \<Rightarrow> 0 | Inr (Inl _) \<Rightarrow> 2 | Inr (Inr _) \<Rightarrow> 1,
      \<lambda>x. case x of Inl _ \<Rightarrow> 0 | Inr (Inl (n, fuel, goal, kb, depth, rules, _)) \<Rightarrow> length rules
        | Inr (Inr (n, fuel, kb, depth, subst, i, body, _)) \<Rightarrow> length body]") auto

end
