(* ===== verification/Reasoning_Sound.thy ===== *)
theory Reasoning_Sound
  imports Reasoning
begin

text \<open>
  What the inference engine of \<open>Reasoning\<close> computes.

  A valuation maps variables to terms; \<open>inst\<close> extends it to terms, and reads a reference by its CID, as
  \<open>unify\<close> does. A valuation satisfies a substitution when it respects every binding as an equation.
  Unification keeps every common instance of two terms, and returns if there is one. That the answers
  of a query are correct holds for programs whose calls to rules have no unbound variable (\<open>moded\<close>), where
  all bindings are ground; the last part shows how the engine fails beyond that.
\<close>

subsection \<open>Valuations\<close>

fun inst :: "(string \<Rightarrow> 'c Term) \<Rightarrow> 'c Term \<Rightarrow> 'c Term" where
  "inst \<theta> (Var v) = \<theta> v"
| "inst \<theta> (Const c) = Const c"
| "inst \<theta> (Fun f args) = Fun f (map (inst \<theta>) args)"
| "inst \<theta> (Ref r) = Ref (tr_new (tr_cid r))"

definition sat :: "(string \<Rightarrow> 'c Term) \<Rightarrow> 'c Substitution \<Rightarrow> bool" where
  "sat \<theta> subst \<longleftrightarrow> (\<forall>v t. map_of subst v = Some t \<longrightarrow> \<theta> v = inst \<theta> t)"

lemma sat_Nil [simp]: "sat \<theta> []"
  by (simp add: sat_def)

lemma sat_insert: "sat \<theta> subst \<Longrightarrow> \<theta> v = inst \<theta> t \<Longrightarrow> sat \<theta> (hm_insert v t subst)"
  by (simp add: sat_def)

lemma inst_apply: "sat \<theta> subst \<Longrightarrow> inst \<theta> (apply_subst_term t subst) = inst \<theta> t"
  by (induction t subst rule: apply_subst_term.induct) (auto simp: sat_def split: option.split)

lemma inst_cong: "(\<And>v. v \<in> tvars t \<Longrightarrow> \<theta> v = \<eta> v) \<Longrightarrow> inst \<theta> t = inst \<eta> t"
  by (induction t) auto

lemma inst_ground: "is_ground t \<Longrightarrow> inst \<theta> t = inst Var t"
  by (rule inst_cong) (simp add: is_ground_iff)

lemma complexity_pos: "0 < complexity t"
  by (cases t) simp_all

lemma occurs_in_iff: "occurs_in v t \<longleftrightarrow> v \<in> tvars t"
  by (induction t) (auto simp: list_ex_iff)

lemma complexity_var: "v \<in> tvars t \<Longrightarrow> complexity (\<theta> v) \<le> complexity (inst \<theta> t)"
proof (induction t)
  case (Fun f args)
  then obtain a where a: "a \<in> set args" "v \<in> tvars a" by auto
  with Fun.IH have "complexity (\<theta> v) \<le> complexity (inst \<theta> a)" by simp
  also have "\<dots> \<le> sum_list (map (complexity \<circ> inst \<theta>) args)"
    using a(1) member_le_sum_list [of "complexity (inst \<theta> a)" "map (complexity \<circ> inst \<theta>) args"] by force
  finally show ?case by simp
qed simp_all

text \<open>A variable is never equal to a term it occurs in.\<close>

lemma not_occurs: "\<theta> v = inst \<theta> t \<Longrightarrow> t \<noteq> Var v \<Longrightarrow> \<not> occurs_in v t"
proof (cases t)
  case (Fun f args)
  assume eq: "\<theta> v = inst \<theta> t"
  show ?thesis
  proof
    assume "occurs_in v t"
    then obtain a where a: "a \<in> set args" "v \<in> tvars a" using Fun by (auto simp: occurs_in_iff)
    have "complexity (\<theta> v) \<le> complexity (inst \<theta> a)" using complexity_var [OF a(2)] .
    also have "\<dots> \<le> sum_list (map (complexity \<circ> inst \<theta>) args)"
      using a(1) member_le_sum_list [of "complexity (inst \<theta> a)" "map (complexity \<circ> inst \<theta>) args"] by force
    also have "\<dots> < complexity (inst \<theta> t)" using Fun by simp
    finally show False using eq by simp
  qed
qed auto

subsection \<open>Unification keeps every common instance\<close>

lemma unify_var_complete:
  assumes "sat \<theta> subst" "\<theta> v = inst \<theta> t"
  shows "\<exists>subst'. unify_var v t subst = Some subst' \<and> sat \<theta> subst'"
  using assms not_occurs [OF assms(2)] by (auto simp: unify_var_def sat_insert)

lemma unify_complete:
  "sat \<theta> subst \<Longrightarrow> inst \<theta> t1 = inst \<theta> t2 \<Longrightarrow> complexity (inst \<theta> t1) \<le> fuel \<Longrightarrow>
   \<exists>subst'. unify fuel t1 t2 subst = Ok (Some subst') \<and> sat \<theta> subst'"
  "sat \<theta> subst \<Longrightarrow> map (inst \<theta>) as = map (inst \<theta>) bs \<Longrightarrow> (\<forall>a \<in> set as. complexity (inst \<theta> a) \<le> fuel) \<Longrightarrow>
   \<exists>subst'. unify_args fuel as bs subst = Ok (Some subst') \<and> sat \<theta> subst'"
proof (induction fuel t1 t2 subst and fuel as bs subst rule: unify_unify_args.induct)
  case (1 t1 t2 subst)
  then show ?case using complexity_pos [of "inst \<theta> t1"] by simp
next
  case (2 fuel t1 t2 subst)
  have eq: "inst \<theta> (apply_subst_term t1 subst) = inst \<theta> (apply_subst_term t2 subst)"
    and c: "complexity (inst \<theta> (apply_subst_term t1 subst)) \<le> Suc fuel"
    using "2.prems" by (simp_all add: inst_apply)
  have args: "\<forall>a \<in> set args. complexity (inst \<theta> a) \<le> fuel"
    if "apply_subst_term t1 subst = Fun f args" for f args
  proof
    fix a assume "a \<in> set args"
    then have "complexity (inst \<theta> a) \<le> sum_list (map (complexity \<circ> inst \<theta>) args)"
      using member_le_sum_list [of "complexity (inst \<theta> a)" "map (complexity \<circ> inst \<theta>) args"] by force
    then show "complexity (inst \<theta> a) \<le> fuel" using c that by simp
  qed
  consider (var1) v where "apply_subst_term t1 subst = Var v"
    | (var2) v where "apply_subst_term t2 subst = Var v" "\<forall>u. apply_subst_term t1 subst \<noteq> Var u"
    | (neither) "\<forall>u. apply_subst_term t1 subst \<noteq> Var u" "\<forall>u. apply_subst_term t2 subst \<noteq> Var u" by blast
  then show ?case
  proof cases
    case var1
    then show ?thesis
      using unify_var_complete [OF "2.prems"(1), of v "apply_subst_term t2 subst"] eq by simp
  next
    case var2
    have "\<exists>subst'. unify_var v (apply_subst_term t1 subst) subst = Some subst' \<and> sat \<theta> subst'"
      using unify_var_complete [OF "2.prems"(1), of v "apply_subst_term t1 subst"] eq var2(1) by simp
    then show ?thesis using var2 by (cases "apply_subst_term t1 subst") simp_all
  next
    case neither
    then show ?thesis
      using eq "2.IH" "2.prems"(1) args
      by (cases "apply_subst_term t1 subst"; cases "apply_subst_term t2 subst")
        (auto dest: map_eq_imp_length_eq simp: tr_new_def)
  qed
qed (fastforce simp: obind_eq_Ok)+

subsection \<open>Matching against ground terms\<close>

definition gsub :: "'c Substitution \<Rightarrow> bool" where
  "gsub subst \<longleftrightarrow> (\<forall>v t. map_of subst v = Some t \<longrightarrow> is_ground t)"

definition valuation :: "'c Substitution \<Rightarrow> string \<Rightarrow> 'c Term" where
  "valuation subst v = (case map_of subst v of Some t \<Rightarrow> inst Var t | None \<Rightarrow> Var v)"

lemma gsub_Nil [simp]: "gsub []"
  by (simp add: gsub_def)

lemma gsub_insert: "gsub subst \<Longrightarrow> is_ground t \<Longrightarrow> gsub (hm_insert v t subst)"
  by (simp add: gsub_def)

text \<open>A ground substitution is satisfied by the valuation of every ground extension.\<close>

lemma sat_valuation:
  assumes "gsub subst'" "map_of subst \<subseteq>\<^sub>m map_of subst'"
  shows "sat (valuation subst') subst"
  unfolding sat_def
proof (intro allI impI)
  fix v t assume v: "map_of subst v = Some t"
  then have "map_of subst' v = Some t" using assms(2) by (metis domI map_le_def)
  moreover from this have "is_ground t" using assms(1) by (simp add: gsub_def)
  ultimately show "valuation subst' v = inst (valuation subst') t"
    by (simp add: valuation_def inst_ground [of t "valuation subst'"] valuation_def)
qed

lemma tvars_apply: "gsub subst \<Longrightarrow> tvars (apply_subst_term t subst) = tvars t - dom (map_of subst)"
proof (induction t)
  case (Var v)
  then show ?case by (auto simp: gsub_def is_ground_iff split: option.split)
qed auto

lemma apply_ground: "is_ground t \<Longrightarrow> apply_subst_term t subst = t"
  by (induction t) (auto simp: list_all_iff map_idI)

lemma valuation_mono:
  assumes "map_of subst \<subseteq>\<^sub>m map_of subst'" "tvars t \<subseteq> dom (map_of subst)"
  shows "inst (valuation subst') t = inst (valuation subst) t"
proof (rule inst_cong)
  fix v assume "v \<in> tvars t"
  then have "map_of subst' v = map_of subst v" using assms by (metis map_le_def subsetD)
  then show "valuation subst' v = valuation subst v" by (simp add: valuation_def)
qed

definition matches :: "'c Substitution \<Rightarrow> string set \<Rightarrow> 'c Substitution \<Rightarrow> bool" where
  "matches subst V subst' \<longleftrightarrow>
     gsub subst' \<and> map_of subst \<subseteq>\<^sub>m map_of subst' \<and> dom (map_of subst') = dom (map_of subst) \<union> V"

lemma matches_refl: "gsub subst \<Longrightarrow> V \<subseteq> dom (map_of subst) \<Longrightarrow> matches subst V subst"
  by (auto simp: matches_def)

lemma matches_trans:
  "matches s V s' \<Longrightarrow> matches s' W s'' \<Longrightarrow> matches s (V \<union> W) s''"
  by (auto simp: matches_def intro: map_le_trans)

lemma matches_sat: "matches s V s' \<Longrightarrow> sat (valuation s') s"
  by (auto simp: matches_def intro: sat_valuation)

lemma apply_eq_Var: "gsub subst \<Longrightarrow> apply_subst_term t subst = Var v \<Longrightarrow> t = Var v \<and> map_of subst v = None"
  by (cases t) (force simp: gsub_def split: option.splits)+

text \<open>It does not matter whether a substitution has been applied before.\<close>

lemma matches_apply:
  assumes "gsub subst"
  shows "matches subst (tvars (apply_subst_term t subst)) s \<longleftrightarrow> matches subst (tvars t) s"
    "matches subst V s \<Longrightarrow> inst (valuation s) (apply_subst_term t subst) = inst (valuation s) t"
  using inst_apply [OF matches_sat] by (auto simp: matches_def tvars_apply [OF assms])

text \<open>
  Unifying with a ground term under a ground substitution returns; what it returns extends the
  substitution to the variables of the other term and makes the two equal.
\<close>

definition matched :: "'c Substitution \<Rightarrow> 'c Term list \<Rightarrow> 'c Term list \<Rightarrow> 'c Substitution option \<Rightarrow> bool" where
  "matched subst as bs r \<longleftrightarrow>
     (\<forall>s. r = Some s \<longrightarrow> matches subst (avars as) s \<and> map (inst (valuation s)) as = map (inst Var) bs)"

lemma unify_args_ground:
  assumes "\<And>b a subst. b \<in> set bs \<Longrightarrow> gsub subst \<Longrightarrow> \<exists>r. unify fuel a b subst = Ok r \<and> matched subst [a] [b] r"
    and "gsub subst" "length as = length bs"
  shows "\<exists>r. unify_args fuel as bs subst = Ok r \<and> matched subst as bs r"
  using assms
proof (induction bs arbitrary: as subst)
  case Nil
  then show ?case by (simp add: matched_def matches_refl)
next
  case (Cons b bs)
  then obtain a as' where as: "as = a # as'" "length as' = length bs" by (cases as) auto
  from Cons.prems(1) [of b subst a] Cons.prems(2) obtain r where
    r: "unify fuel a b subst = Ok r" "matched subst [a] [b] r" by auto
  show ?case
  proof (cases r)
    case None
    with r as show ?thesis by (simp add: matched_def)
  next
    case (Some s)
    then have s: "matches subst (tvars a) s" "inst (valuation s) a = inst Var b"
      using r(2) by (simp_all add: matched_def)
    then have "gsub s" by (simp add: matches_def)
    from Cons.IH [OF Cons.prems(1) this as(2)] obtain r' where
      r': "unify_args fuel as' bs s = Ok r'" "matched s as' bs r'" by auto
    have "matched subst as (b # bs) r'" unfolding matched_def
    proof (intro allI impI)
      fix s' assume "r' = Some s'"
      with r'(2) have s': "matches s (avars as') s'" "map (inst (valuation s')) as' = map (inst Var) bs"
        by (simp_all add: matched_def)
      have "inst (valuation s') a = inst (valuation s) a"
        by (rule valuation_mono) (use s(1) s'(1) in \<open>auto simp: matches_def\<close>)
      with s(2) s'(2) matches_trans [OF s(1) s'(1)]
      show "matches subst (avars as) s' \<and> map (inst (valuation s')) as = map (inst Var) (b # bs)"
        by (simp add: as(1))
    qed
    with r r' Some as(1) show ?thesis by simp
  qed
qed

lemma unify_var_ground:
  assumes "gsub subst" "is_ground t2" "apply_subst_term t1 subst = Var v"
  shows "unify (Suc n) t1 t2 subst = Ok (Some (hm_insert v t2 subst))"
    "matched subst [t1] [t2] (Some (hm_insert v t2 subst))"
proof -
  have "\<not> occurs_in v t2" "t2 \<noteq> Var v" using assms(2) by (auto simp: occurs_in_iff is_ground_iff)
  then show "unify (Suc n) t1 t2 subst = Ok (Some (hm_insert v t2 subst))"
    using assms(2,3) by (simp add: apply_ground unify_var_def)
  show "matched subst [t1] [t2] (Some (hm_insert v t2 subst))"
    using apply_eq_Var [OF assms(1,3)] assms(1,2)
    by (auto simp: matched_def matches_def gsub_insert valuation_def map_le_def)
qed

lemma matched_ground:
  assumes "gsub subst" "apply_subst_term t1 subst = u" "is_ground u" "inst Var u = inst Var t2"
  shows "matched subst [t1] [t2] (Some subst)"
proof -
  have "tvars t1 \<subseteq> dom (map_of subst)" using tvars_apply [OF assms(1), of t1] assms(2,3) by (auto simp: is_ground_iff)
  then have m: "matches subst (tvars t1) subst" by (rule matches_refl [OF assms(1)])
  have "inst (valuation subst) t1 = inst Var t2"
    using matches_apply(2) [OF assms(1) m, of t1] assms(2-4) by (simp add: inst_ground [of u "valuation subst"])
  with m show ?thesis by (simp add: matched_def)
qed

lemma matched_None [simp]: "matched subst as bs None"
  by (simp add: matched_def)

lemma unify_ground:
  assumes "gsub subst" "is_ground t2" "complexity t2 \<le> fuel"
  shows "\<exists>r. unify fuel t1 t2 subst = Ok r \<and> matched subst [t1] [t2] r"
  using assms
proof (induction t2 arbitrary: t1 subst fuel)
  case (Fun f bs)
  then obtain n where n: "fuel = Suc n" by (cases fuel) auto
  let ?u = "apply_subst_term t1 subst"
  have g: "apply_subst_term (Fun f bs) subst = Fun f bs" by (rule apply_ground [OF Fun.prems(2)])
  show ?case
  proof (cases ?u)
    case (Var v)
    then show ?thesis using unify_var_ground [OF Fun.prems(1,2)] n by blast
  next
    case u: (Fun h as)
    show ?thesis
    proof (cases "h = f \<and> length as = length bs")
      case True
      have "complexity b \<le> n" if "b \<in> set bs" for b
        using member_le_sum_list [of "complexity b" "map complexity bs"] that Fun.prems(3) n by force
      then have "\<exists>r. unify_args n as bs subst = Ok r \<and> matched subst as bs r"
        using True Fun.prems by (intro unify_args_ground) (auto intro!: Fun.IH simp: list_all_iff)
      then obtain r where r: "unify_args n as bs subst = Ok r" "matched subst as bs r" by blast
      have "unify fuel t1 (Fun f bs) subst = Ok r" using r(1) u True by (simp only: n unify.simps g) simp
      moreover have "matched subst [t1] [Fun f bs] r" unfolding matched_def
      proof (intro allI impI)
        fix s assume "r = Some s"
        then have "matches subst (tvars ?u) s" "inst (valuation s) ?u = inst Var (Fun f bs)"
          using r(2) True u by (simp_all add: matched_def avars_def)
        then show "matches subst (avars [t1]) s \<and> map (inst (valuation s)) [t1] = map (inst Var) [Fun f bs]"
          using matches_apply [OF Fun.prems(1)] by simp
      qed
      ultimately show ?thesis by blast
    next
      case False
      then have "unify fuel t1 (Fun f bs) subst = Ok None" using u by (simp only: n unify.simps g) auto
      then show ?thesis by (simp add: matched_def)
    qed
  qed (simp_all only: n unify.simps g, simp_all add: matched_def)
next
  case (Const c)
  then obtain n where n: "fuel = Suc n" by (cases fuel) auto
  show ?case
  proof (cases "apply_subst_term t1 subst")
    case (Var v)
    then show ?thesis using unify_var_ground [OF Const.prems(1,2)] n by blast
  next
    case u: (Const d)
    then show ?thesis using matched_ground [OF Const.prems(1) u, of "Const c"] by (simp add: n)
  qed (simp_all add: n)
next
  case (Ref r)
  then obtain n where n: "fuel = Suc n" by (cases fuel) auto
  show ?case
  proof (cases "apply_subst_term t1 subst")
    case (Var v)
    then show ?thesis using unify_var_ground [OF Ref.prems(1,2)] n by blast
  next
    case u: (Ref q)
    then show ?thesis using matched_ground [OF Ref.prems(1) u, of "Ref r"] by (simp add: n)
  qed (simp_all add: n)
qed simp

lemma unify_sym:
  "is_ground t1 \<Longrightarrow> unify fuel t1 t2 subst = unify fuel t2 t1 subst"
  "list_all is_ground as \<Longrightarrow> unify_args fuel as bs subst = unify_args fuel bs as subst"
proof (induction fuel t1 t2 subst and fuel as bs subst rule: unify_unify_args.induct)
  case (2 fuel t1 t2 subst)
  then show ?case
    using apply_ground [of t1 subst]
    by (cases t1; cases "apply_subst_term t2 subst") (auto simp del: apply_subst_term.simps)
next
  case (3 fuel a1 args1 a2 args2 subst)
  then show ?case by (auto intro!: obind_cong split: option.split)
qed auto

lemma unify_improves:
  "improves (unify n t1 t2 subst) (unify (Suc n) t1 t2 subst)"
  "improves (unify_args n as bs subst) (unify_args (Suc n) as bs subst)"
proof (induction n t1 t2 subst and n as bs subst rule: unify_unify_args.induct)
  case (2 fuel t1 t2 subst)
  then show ?case
    by (subst (1 2) unify.simps(2)) (auto split: Term.split)
next
  case (3 fuel a1 args1 a2 args2 subst)
  then show ?case by (auto intro!: improves_obind split: option.split simp del: unify.simps)
qed simp_all

lemma unify_predicates_improves: "improves (unify_predicates n p q s) (unify_predicates (Suc n) p q s)"
  by (simp add: unify_predicates_def unify_improves(2))

text \<open>Unifying predicates, one of which is ground.\<close>

lemma unify_predicates_ground:
  assumes "gsub subst" "pred_is_ground q"
  shows "\<exists>r. settles (\<lambda>fuel. unify_predicates fuel p q subst) (Ok r) \<and>
      settles (\<lambda>fuel. unify_predicates fuel q p subst) (Ok r) \<and> matched subst (p_args p) (p_args q) r \<and>
      (r \<noteq> None \<longrightarrow> p_name p = p_name q)"
proof (cases "p_name p = p_name q \<and> length (p_args p) = length (p_args q)")
  case True
  let ?n = "sum_list (map complexity (p_args q))"
  have "\<exists>r. unify ?n a b s = Ok r \<and> matched s [a] [b] r" if "b \<in> set (p_args q)" "gsub s" for a b s
    using that assms(2) member_le_sum_list [of "complexity b" "map complexity (p_args q)"]
    by (intro unify_ground) (auto simp: pred_is_ground_def list_all_iff)
  from unify_args_ground [OF this assms(1)] True obtain r where
    r: "unify_args ?n (p_args p) (p_args q) subst = Ok r" "matched subst (p_args p) (p_args q) r" by blast
  have s: "settles (\<lambda>fuel. unify_predicates fuel p q subst) (Ok r)"
    by (rule settlesI [of _ ?n], rule unify_predicates_improves) (use r(1) True in \<open>simp_all add: unify_predicates_def\<close>)
  have "unify_predicates fuel q p subst = unify_predicates fuel p q subst" for fuel
    using unify_sym(2) [of "p_args q" fuel "p_args p" subst] assms(2) by (auto simp: unify_predicates_def pred_is_ground_def)
  with r(2) s True show ?thesis by auto
next
  case False
  then have "unify_predicates fuel p q subst = Ok None" "unify_predicates fuel q p subst = Ok None" for fuel
    by (auto simp: unify_predicates_def)
  then show ?thesis by (intro exI [of _ None]) simp
qed

subsection \<open>Facts\<close>

definition hits :: "'c Substitution \<Rightarrow> 'c Predicate \<Rightarrow> 'c Predicate \<Rightarrow> bool" where
  "hits subst goal p \<longleftrightarrow>
     p_name goal = p_name p \<and> (\<exists>\<theta>. sat \<theta> subst \<and> map (inst \<theta>) (p_args goal) = map (inst \<theta>) (p_args p))"

lemma map_inst_ground: "pred_is_ground p \<Longrightarrow> map (inst \<theta>) (p_args p) = map (inst Var) (p_args p)"
  by (auto simp: pred_is_ground_def list_all_iff intro: inst_ground)

lemma unify_predicates_hits:
  assumes "gsub subst" "pred_is_ground p" "settles (\<lambda>fuel. unify_predicates fuel goal p subst) (Ok r)"
    and "matched subst (p_args goal) (p_args p) r" "r \<noteq> None \<longrightarrow> p_name goal = p_name p"
  shows "hits subst goal p \<longleftrightarrow> r \<noteq> None"
proof
  assume "r \<noteq> None"
  then obtain s where s: "matches subst (avars (p_args goal)) s"
    "map (inst (valuation s)) (p_args goal) = map (inst Var) (p_args p)" "p_name goal = p_name p"
    using assms(4,5) by (auto simp: matched_def)
  then show "hits subst goal p"
    using matches_sat map_inst_ground [OF assms(2)] unfolding hits_def by metis
next
  assume "hits subst goal p"
  then obtain \<theta> where \<theta>: "p_name goal = p_name p" "sat \<theta> subst" "map (inst \<theta>) (p_args goal) = map (inst \<theta>) (p_args p)"
    by (auto simp: hits_def)
  let ?n = "sum_list (map (complexity \<circ> inst \<theta>) (p_args goal))"
  have "\<forall>a \<in> set (p_args goal). complexity (inst \<theta> a) \<le> ?n"
    using member_le_sum_list [of _ "map (complexity \<circ> inst \<theta>) (p_args goal)"] by force
  from unify_complete(2) [OF \<theta>(2,3) this] obtain s where
    "unify_predicates ?n goal p subst = Ok (Some s)"
    using \<theta>(1) map_eq_imp_length_eq [OF \<theta>(3)] by (auto simp: unify_predicates_def)
  then have "settles (\<lambda>fuel. unify_predicates fuel goal p subst) (Ok (Some s))"
    by (intro settlesI [of _ ?n], intro unify_predicates_improves) simp_all
  from settles_unique [OF this assms(3)] show "r \<noteq> None" by auto
qed

text \<open>
  The loop over ground facts finds the facts that match, in order and up to the limit.
\<close>

definition answers_fact :: "'c Substitution \<Rightarrow> 'c Predicate \<Rightarrow> 'c Substitution \<Rightarrow> 'c Predicate \<Rightarrow> bool" where
  "answers_fact subst goal s p \<longleftrightarrow>
     matches subst (pvars goal) s \<and> map (inst (valuation s)) (p_args goal) = map (inst Var) (p_args p)"

lemma solve_facts_exact:
  assumes "gsub subst" "list_all pred_is_ground ps" "length sols < max_solutions eng"
  shows "\<exists>new. settles (\<lambda>fuel. solve_facts fuel eng goal subst ps sols)
      (Ok (sols @ new, max_solutions eng \<le> length sols + length new)) \<and>
    list_all2 (answers_fact subst goal) new (take (max_solutions eng - length sols) (filter (hits subst goal) ps))"
  using assms(2,3)
proof (induction ps arbitrary: sols)
  case (Cons p ps)
  let ?next = "\<lambda>r fuel. case r of
       None \<Rightarrow> solve_facts fuel eng goal subst ps sols
     | Some s \<Rightarrow> let sols = sols @ [s] in if max_solutions eng \<le> length sols then Ok (sols, True)
         else solve_facts fuel eng goal subst ps sols"
  have p: "pred_is_ground p" "list_all pred_is_ground ps" using Cons.prems(1) by auto
  from unify_predicates_ground [OF assms(1) p(1), of goal] obtain r where
    r: "settles (\<lambda>fuel. unify_predicates fuel goal p subst) (Ok r)" "matched subst (p_args goal) (p_args p) r"
      "r \<noteq> None \<longrightarrow> p_name goal = p_name p" by blast
  note h = unify_predicates_hits [OF assms(1) p(1) r]
  have step: "settles (\<lambda>fuel. solve_facts fuel eng goal subst (p # ps) sols) q" if "settles (?next r) q" for q
    using settles_obind [OF r(1), of ?next q] that by (simp only: solve_facts.simps)
  show ?case
  proof (cases r)
    case None
    from Cons.IH [OF p(2) Cons.prems(2)] obtain new where
      n: "settles (\<lambda>fuel. solve_facts fuel eng goal subst ps sols)
        (Ok (sols @ new, max_solutions eng \<le> length sols + length new))"
      "list_all2 (answers_fact subst goal) new (take (max_solutions eng - length sols) (filter (hits subst goal) ps))"
      by blast
    show ?thesis by (intro exI [of _ new] conjI step) (use n None h in simp_all)
  next
    case (Some s)
    have a: "answers_fact subst goal s p" using r(2) Some by (simp add: answers_fact_def matched_def pvars_def)
    have hp: "hits subst goal p" using h Some by simp
    show ?thesis
    proof (cases "max_solutions eng \<le> length (sols @ [s])")
      case True
      then have "max_solutions eng - length sols = 1" using Cons.prems(2) by simp
      moreover have "settles (\<lambda>fuel. solve_facts fuel eng goal subst (p # ps) sols) (Ok (sols @ [s], True))"
        by (rule step) (use True Some in \<open>simp add: Let_def\<close>)
      ultimately show ?thesis using True a hp by (intro exI [of _ "[s]"]) simp
    next
      case False
      from Cons.IH [of "sols @ [s]", OF p(2)] False obtain new where
        n: "settles (\<lambda>fuel. solve_facts fuel eng goal subst ps (sols @ [s]))
          (Ok ((sols @ [s]) @ new, max_solutions eng \<le> length (sols @ [s]) + length new))"
        "list_all2 (answers_fact subst goal) new
          (take (max_solutions eng - length (sols @ [s])) (filter (hits subst goal) ps))" by fastforce
      have "settles (\<lambda>fuel. solve_facts fuel eng goal subst (p # ps) sols)
          (Ok (sols @ s # new, max_solutions eng \<le> length sols + length (s # new)))"
        by (rule step) (use False Some n(1) in \<open>simp add: Let_def\<close>)
      moreover have "take (max_solutions eng - length sols) (p # filter (hits subst goal) ps) =
          p # take (max_solutions eng - length (sols @ [s])) (filter (hits subst goal) ps)"
        using Cons.prems(2) by (simp add: take_Cons')
      ultimately show ?thesis using n(2) a hp by (intro exI [of _ "s # new"]) simp
    qed
  qed
qed auto

subsection \<open>What a knowledge base entails\<close>

inductive derives :: "'c KnowledgeBase \<Rightarrow> string \<Rightarrow> 'c Term list \<Rightarrow> bool" for kb where
  fact_derives: "p \<in> set (kb_facts kb) \<Longrightarrow> derives kb (p_name p) (map (inst \<theta>) (p_args p))"
| rule_derives: "r \<in> set (kb_rules kb) \<Longrightarrow> (\<And>b. b \<in> set (r_body r) \<Longrightarrow> derives kb (p_name b) (map (inst \<theta>) (p_args b))) \<Longrightarrow>
    derives kb (p_name (r_head r)) (map (inst \<theta>) (p_args (r_head r)))"

inductive_cases derivesE: "derives kb n ts"

text \<open>
  A program is moded when its facts are ground and a body goal whose predicate has rules is called
  with variables only that occur in the head or in earlier goals of the body.
\<close>

fun moded_body :: "'c KnowledgeBase \<Rightarrow> string set \<Rightarrow> 'c Predicate list \<Rightarrow> bool" where
  "moded_body kb V [] = True"
| "moded_body kb V (b # bs) =
     ((get_rules kb (p_name b) = [] \<or> pvars b \<subseteq> V) \<and> moded_body kb (V \<union> pvars b) bs)"

definition moded :: "'c KnowledgeBase \<Rightarrow> bool" where
  "moded kb \<longleftrightarrow> list_all pred_is_ground (kb_facts kb) \<and>
     list_all (\<lambda>r. moded_body kb (pvars (r_head r)) (r_body r)) (kb_rules kb)"

lemma inst_subst: "inst \<theta> (apply_subst_term t subst) = inst (\<lambda>v. inst \<theta> (apply_subst_term (Var v) subst)) t"
  by (induction t) simp_all

lemma tvars_subst: "tvars (apply_subst_term t subst) = (\<Union>v \<in> tvars t. tvars (apply_subst_term (Var v) subst))"
  by (induction t) auto

lemma pvars_subst: "pvars (apply_subst_predicate p subst) = (\<Union>v \<in> pvars p. tvars (apply_subst_term (Var v) subst))"
proof -
  have "pvars (apply_subst_predicate p subst) = (\<Union>t \<in> set (p_args p). tvars (apply_subst_term t subst))"
    by (simp add: pvars_def avars_def apply_subst_predicate_def)
  also have "\<dots> = (\<Union>t \<in> set (p_args p). \<Union>v \<in> tvars t. tvars (apply_subst_term (Var v) subst))"
    by (subst tvars_subst) (rule refl)
  finally show ?thesis by (auto simp: pvars_def avars_def)
qed

lemma subst_predicate_simps [simp]:
  "p_name (apply_subst_predicate p subst) = p_name p"
  "length (p_args (apply_subst_predicate p subst)) = length (p_args p)"
  by (simp_all add: apply_subst_predicate_def)

lemma map_inst_subst:
  "map (inst \<theta>) (p_args (apply_subst_predicate p subst)) =
   map (inst (\<lambda>v. inst \<theta> (apply_subst_term (Var v) subst))) (p_args p)"
  by (simp add: apply_subst_predicate_def del: apply_subst_term.simps) (intro ballI inst_subst)

lemma moded_body_mono: "moded_body kb V bs \<Longrightarrow> V \<subseteq> W \<Longrightarrow> moded_body kb W bs"
proof (induction bs arbitrary: V W)
  case (Cons b bs)
  then show ?case using Cons.IH [of "V \<union> pvars b" "W \<union> pvars b"] by auto
qed simp

lemma moded_body_subst:
  assumes "moded_body kb V bs" "(\<Union>v \<in> V. tvars (apply_subst_term (Var v) subst)) \<subseteq> W"
  shows "moded_body kb W (map (\<lambda>p. apply_subst_predicate p subst) bs)"
  using assms
proof (induction bs arbitrary: V W)
  case (Cons b bs)
  have "moded_body kb (W \<union> pvars (apply_subst_predicate b subst)) (map (\<lambda>p. apply_subst_predicate p subst) bs)"
    by (rule Cons.IH [of "V \<union> pvars b"]) (use Cons.prems in \<open>auto simp: pvars_subst simp del: apply_subst_term.simps\<close>)
  with Cons.prems show ?case by (fastforce simp: pvars_subst simp del: apply_subst_term.simps)
qed simp

text \<open>Instances of a renamed rule are instances of the rule.\<close>

lemma derives_renamed:
  assumes "rule \<in> set (kb_rules kb)" "r = rename_rule_vars rule d"
    and "\<And>b. b \<in> set (r_body r) \<Longrightarrow> derives kb (p_name b) (map (inst \<theta>) (p_args b))"
  shows "derives kb (p_name (r_head r)) (map (inst \<theta>) (p_args (r_head r)))"
proof -
  obtain s where r: "r_head r = apply_subst_predicate (r_head rule) s"
    "r_body r = map (\<lambda>p. apply_subst_predicate p s) (r_body rule)"
    by (auto simp: assms(2) rename_rule_vars_def Let_def)
  have "derives kb (p_name b) (map (inst (\<lambda>v. inst \<theta> (apply_subst_term (Var v) s))) (p_args b))"
    if "b \<in> set (r_body rule)" for b
    using assms(3) [of "apply_subst_predicate b s"] that by (simp add: r(2) map_inst_subst del: apply_subst_term.simps)
  from rule_derives [OF assms(1) this] show ?thesis by (simp add: r(1) map_inst_subst del: apply_subst_term.simps)
qed

lemma moded_renamed:
  assumes "moded kb" "rule \<in> set (kb_rules kb)" "r = rename_rule_vars rule d" "pvars (r_head r) \<subseteq> W"
  shows "moded_body kb W (r_body r)"
proof -
  obtain s where r: "r_head r = apply_subst_predicate (r_head rule) s"
    "r_body r = map (\<lambda>p. apply_subst_predicate p s) (r_body rule)"
    by (auto simp: assms(3) rename_rule_vars_def Let_def)
  show ?thesis
    unfolding r(2) by (rule moded_body_subst [of kb "pvars (r_head rule)"])
      (use assms(1,2,4) in \<open>auto simp: moded_def list_all_iff r(1) pvars_subst simp del: apply_subst_term.simps\<close>)
qed

subsection \<open>Answers of the search\<close>

definition solves :: "'c KnowledgeBase \<Rightarrow> 'c Substitution \<Rightarrow> 'c Predicate list \<Rightarrow> 'c Substitution \<Rightarrow> bool" where
  "solves kb subst goals s \<longleftrightarrow>
     gsub s \<and> map_of subst \<subseteq>\<^sub>m map_of s \<and> \<Union> (pvars ` set goals) \<subseteq> dom (map_of s) \<and>
     (\<forall>g \<in> set goals. derives kb (p_name g) (map (inst (valuation s)) (p_args g)))"

lemma solvesD:
  assumes "solves kb subst goals s"
  shows "gsub s" "map_of subst \<subseteq>\<^sub>m map_of s" "dom (map_of subst) \<subseteq> dom (map_of s)" "g \<in> set goals \<Longrightarrow> pvars g \<subseteq> dom (map_of s)"
proof -
  show le: "gsub s" "map_of subst \<subseteq>\<^sub>m map_of s" "g \<in> set goals \<Longrightarrow> pvars g \<subseteq> dom (map_of s)"
    using assms by (auto simp: solves_def)
  show "dom (map_of subst) \<subseteq> dom (map_of s)" by (rule map_le_implies_dom_le [OF le(2)])
qed

lemma args_mono:
  assumes "map_of s \<subseteq>\<^sub>m map_of s'" "pvars p \<subseteq> dom (map_of s)"
  shows "map (inst (valuation s')) (p_args p) = map (inst (valuation s)) (p_args p)"
  using assms by (auto simp: pvars_def avars_def intro!: valuation_mono)

lemma solves_Cons:
  assumes "solves kb subst [g] s" "solves kb s gs s'"
  shows "solves kb subst (g # gs) s'"
proof -
  have eq: "map (inst (valuation s')) (p_args g) = map (inst (valuation s)) (p_args g)"
    using solvesD(2) [OF assms(2)] solvesD(4) [OF assms(1)] by (intro args_mono) auto
  have "derives kb (p_name g) (map (inst (valuation s')) (p_args g))"
    unfolding eq using assms(1) by (simp add: solves_def)
  moreover have "pvars g \<subseteq> dom (map_of s')" using solvesD(4) [OF assms(1), of g] solvesD(3) [OF assms(2)] by simp
  moreover have "map_of subst \<subseteq>\<^sub>m map_of s'" by (rule map_le_trans [OF solvesD(2) [OF assms(1)] solvesD(2) [OF assms(2)]])
  ultimately show ?thesis using assms(2) by (simp add: solves_def)
qed

lemma args_apply:
  assumes "sat \<theta> subst"
  shows "map (inst \<theta>) (p_args (apply_subst_predicate p subst)) = map (inst \<theta>) (p_args p)"
  by (simp add: apply_subst_predicate_def inst_apply [OF assms])

lemma pvars_apply: "gsub subst \<Longrightarrow> pvars (apply_subst_predicate p subst) = pvars p - dom (map_of subst)"
  by (auto simp: pvars_def avars_def apply_subst_predicate_def tvars_apply)

lemma ground_apply: "gsub subst \<Longrightarrow> pvars p \<subseteq> dom (map_of subst) \<Longrightarrow> pred_is_ground (apply_subst_predicate p subst)"
  using pvars_apply [of subst p] by (simp add: pred_is_ground_def ground_args_iff pvars_def)

text \<open>An answer from a fact, and one from a rule whose body is solved.\<close>

lemma solves_fact:
  assumes "gsub subst" "p \<in> set (kb_facts kb)" "p_name p = p_name goal"
    and "answers_fact subst (apply_subst_predicate goal subst) s p"
  shows "solves kb subst [goal] s"
proof -
  from assms(4) have s: "matches subst (pvars (apply_subst_predicate goal subst)) s"
    "map (inst (valuation s)) (p_args (apply_subst_predicate goal subst)) = map (inst Var) (p_args p)"
    by (simp_all add: answers_fact_def)
  have "derives kb (p_name goal) (map (inst (valuation s)) (p_args goal))"
    using fact_derives [OF assms(2), of Var] s(2) assms(3) args_apply [OF matches_sat [OF s(1)]] by simp
  with s(1) show ?thesis by (auto simp: solves_def matches_def pvars_apply [OF assms(1)])
qed

lemma solves_rule:
  assumes "gsub subst" "pvars goal \<subseteq> dom (map_of subst)" "rule \<in> set (kb_rules kb)" "r = rename_rule_vars rule d"
    and "matched subst (p_args (r_head r)) (p_args (apply_subst_predicate goal subst)) (Some s)"
    and "p_name (r_head r) = p_name goal" "solves kb s (r_body r) s'"
  shows "solves kb subst [goal] s'"
proof -
  from assms(5) have s: "matches subst (pvars (r_head r)) s"
    "map (inst (valuation s)) (p_args (r_head r)) = map (inst Var) (p_args (apply_subst_predicate goal subst))"
    by (simp_all add: matched_def pvars_def)
  have le: "map_of subst \<subseteq>\<^sub>m map_of s'" using s(1) solvesD(2) [OF assms(7)] by (auto simp: matches_def intro: map_le_trans)
  have "derives kb (p_name goal) (map (inst (valuation s')) (p_args (r_head r)))"
    unfolding assms(6) [symmetric] by (rule derives_renamed [OF assms(3,4)]) (use assms(7) in \<open>simp add: solves_def\<close>)
  also have "map (inst (valuation s')) (p_args (r_head r)) = map (inst (valuation s)) (p_args (r_head r))"
    using solvesD(2) [OF assms(7)] s(1) by (intro args_mono) (auto simp: matches_def)
  also have "\<dots> = map (inst (valuation s')) (p_args (apply_subst_predicate goal subst))"
    unfolding s(2) by (rule map_inst_ground [OF ground_apply [OF assms(1,2)], symmetric])
  also have "\<dots> = map (inst (valuation s')) (p_args goal)"
    using solvesD(1) [OF assms(7)] le by (intro args_apply sat_valuation)
  finally have d: "derives kb (p_name goal) (map (inst (valuation s')) (p_args goal))" .
  have "pvars goal \<subseteq> dom (map_of s')" using map_le_implies_dom_le [OF le] assms(2) by simp
  with d le solvesD(1) [OF assms(7)] show ?thesis by (simp add: solves_def)
qed

lemma solve_conjunction_simps:
  "solve_conjunction fuel eng [] subst kb depth solutions = Ok (solutions @ [subst])"
  "solve_conjunction fuel eng (g # gs) subst kb depth solutions =
     obind (solve_goal fuel eng g subst kb depth []) (\<lambda>inter.
       ofold (\<lambda>solutions s. if max_solutions eng \<le> length solutions then Ok solutions
           else solve_conjunction fuel eng gs s kb depth solutions) solutions inter)"
  by (subst solve_conjunction.simps, simp)+

definition goal_ok :: "InferenceEngine \<Rightarrow> 'c KnowledgeBase \<Rightarrow> nat \<Rightarrow> bool" where
  "goal_ok eng kb d \<longleftrightarrow> (\<forall>goal subst sols. gsub subst \<longrightarrow>
     get_rules kb (p_name goal) = [] \<or> pvars goal \<subseteq> dom (map_of subst) \<longrightarrow>
     (\<exists>new. settles (\<lambda>fuel. solve_goal fuel eng goal subst kb d sols) (Ok (sols @ new)) \<and>
        (\<forall>s \<in> set new. solves kb subst [goal] s)))"

definition conj_ok :: "InferenceEngine \<Rightarrow> 'c KnowledgeBase \<Rightarrow> nat \<Rightarrow> bool" where
  "conj_ok eng kb d \<longleftrightarrow> (\<forall>goals subst sols. gsub subst \<longrightarrow> moded_body kb (dom (map_of subst)) goals \<longrightarrow>
     (\<exists>new. settles (\<lambda>fuel. solve_conjunction fuel eng goals subst kb d sols) (Ok (sols @ new)) \<and>
        (\<forall>s \<in> set new. solves kb subst goals s)))"

lemma conj_ok_step:
  fixes kb :: "'c KnowledgeBase"
  assumes "goal_ok eng kb d"
  shows "conj_ok eng kb d"
  unfolding conj_ok_def
proof (intro allI impI)
  fix goals :: "'c Predicate list" and subst :: "'c Substitution" and sols :: "'c Substitution list"
  assume "gsub subst" "moded_body kb (dom (map_of subst)) goals"
  then show "\<exists>new. settles (\<lambda>fuel. solve_conjunction fuel eng goals subst kb d sols) (Ok (sols @ new)) \<and>
      (\<forall>s \<in> set new. solves kb subst goals s)"
  proof (induction goals arbitrary: subst sols)
    case Nil
    then show ?case by (intro exI [of _ "[subst]"]) (simp add: solves_def solve_conjunction_simps)
  next
    case (Cons g gs)
    let ?I = "\<lambda>sols'. \<exists>new. sols' = sols @ new \<and> (\<forall>s \<in> set new. solves kb subst (g # gs) s)"
    from assms Cons.prems obtain inter where
      i: "settles (\<lambda>fuel. solve_goal fuel eng g subst kb d []) (Ok inter)" "\<forall>s \<in> set inter. solves kb subst [g] s"
      unfolding goal_ok_def by fastforce
    have "\<exists>t. settles (\<lambda>fuel. ofold (\<lambda>sols s. if max_solutions eng \<le> length sols then Ok sols
          else solve_conjunction fuel eng gs s kb d sols) sols inter) (Ok t) \<and> ?I t"
    proof (rule settles_ofold)
      fix s sols' assume s: "s \<in> set inter" and I: "?I sols'"
      then have sg: "solves kb subst [g] s" using i(2) by blast
      have "moded_body kb (dom (map_of s)) gs"
        by (rule moded_body_mono [of _ "dom (map_of subst) \<union> pvars g"])
          (use Cons.prems(2) solvesD(3,4) [OF sg] in auto)
      from Cons.IH [OF solvesD(1) [OF sg] this, of sols'] obtain new' where
        n: "settles (\<lambda>fuel. solve_conjunction fuel eng gs s kb d sols') (Ok (sols' @ new'))"
          "\<forall>s' \<in> set new'. solves kb s gs s'" by blast
      then have "\<forall>s' \<in> set new'. solves kb subst (g # gs) s'" using solves_Cons [OF sg] by blast
      with I n(1) show "\<exists>t. settles (\<lambda>fuel. if max_solutions eng \<le> length sols' then Ok sols'
          else solve_conjunction fuel eng gs s kb d sols') (Ok t) \<and> ?I t"
        by (intro exI [of _ "if max_solutions eng \<le> length sols' then sols' else sols' @ new'"]) auto
    qed auto
    then obtain new where
      "settles (\<lambda>fuel. ofold (\<lambda>sols s. if max_solutions eng \<le> length sols then Ok sols
          else solve_conjunction fuel eng gs s kb d sols) sols inter) (Ok (sols @ new))"
      "\<forall>s \<in> set new. solves kb subst (g # gs) s" by blast
    with settles_obind [OF i(1)] show ?case by (intro exI [of _ new]) (simp add: solve_conjunction_simps)
  qed
qed

lemma solve_facts_solves:
  assumes "moded kb" "gsub subst" "length sols < max_solutions eng"
  shows "\<exists>new full. settles (\<lambda>fuel. solve_facts fuel eng (apply_subst_predicate goal subst) subst
      (get_predicates kb (p_name goal)) sols) (Ok (sols @ new, full)) \<and> (\<forall>s \<in> set new. solves kb subst [goal] s)"
proof -
  let ?goal = "apply_subst_predicate goal subst"
  have "list_all pred_is_ground (get_predicates kb (p_name goal))"
    using assms(1) by (auto simp: moded_def get_predicates_def list_all_iff)
  from solve_facts_exact [OF assms(2) this assms(3), of ?goal] obtain new full where
    f: "settles (\<lambda>fuel. solve_facts fuel eng ?goal subst (get_predicates kb (p_name goal)) sols) (Ok (sols @ new, full))"
      "list_all2 (answers_fact subst ?goal) new
        (take (max_solutions eng - length sols) (filter (hits subst ?goal) (get_predicates kb (p_name goal))))" by blast
  have "solves kb subst [goal] s" if "s \<in> set new" for s
  proof -
    from f(2) that obtain p where p: "answers_fact subst ?goal s p"
      "p \<in> set (take (max_solutions eng - length sols) (filter (hits subst ?goal) (get_predicates kb (p_name goal))))"
      by (metis in_set_conv_nth list_all2_conv_all_nth)
    then have "p \<in> set (kb_facts kb)" "p_name p = p_name goal"
      by (auto simp: get_predicates_def dest!: in_set_takeD)
    with p(1) show ?thesis using solves_fact [OF assms(2)] by blast
  qed
  with f(1) show ?thesis by blast
qed

text \<open>One iteration of the loop over the rules.\<close>

definition solve_rule ::
    "nat \<Rightarrow> InferenceEngine \<Rightarrow> 'c Predicate \<Rightarrow> 'c Substitution \<Rightarrow> 'c KnowledgeBase \<Rightarrow> nat \<Rightarrow> 'c Substitution list \<Rightarrow> 'c Rule
       \<Rightarrow> (core_error, 'c Substitution list) outcome" where
  "solve_rule fuel eng goal subst kb depth solutions rule =
     obind (unify_predicates fuel goal (r_head (rename_rule_vars rule depth)) subst) (\<lambda>x. case x of
       None \<Rightarrow> Ok solutions
     | Some s \<Rightarrow> solve_conjunction fuel eng (r_body (rename_rule_vars rule depth)) s kb (Suc depth) solutions)"

lemma solve_goal_unfold:
  assumes "d \<le> max_depth eng" "length sols < max_solutions eng"
  shows "solve_goal fuel eng goal subst kb d sols =
    obind (solve_facts fuel eng (apply_subst_predicate goal subst) subst (get_predicates kb (p_name goal)) sols)
      (\<lambda>(sols, full). if full then Ok sols
         else ofold (solve_rule fuel eng (apply_subst_predicate goal subst) subst kb d) sols (get_rules kb (p_name goal)))"
  using assms by (subst solve_goal.simps) (auto simp: Let_def solve_rule_def intro!: obind_cong ofold_cong)

lemma solve_rule_solves:
  assumes "moded kb" "conj_ok eng kb (Suc d)" "gsub subst" "pvars goal \<subseteq> dom (map_of subst)" "rule \<in> set (kb_rules kb)"
  shows "\<exists>new. settles (\<lambda>fuel. solve_rule fuel eng (apply_subst_predicate goal subst) subst kb d sols rule) (Ok (sols @ new)) \<and>
    (\<forall>s \<in> set new. solves kb subst [goal] s)"
proof -
  let ?goal = "apply_subst_predicate goal subst" and ?r = "rename_rule_vars rule d"
  let ?next = "\<lambda>x fuel. case x of None \<Rightarrow> Ok sols | Some s \<Rightarrow> solve_conjunction fuel eng (r_body ?r) s kb (Suc d) sols"
  from unify_predicates_ground [OF assms(3) ground_apply [OF assms(3,4)], of "r_head ?r"] obtain x where
    x: "settles (\<lambda>fuel. unify_predicates fuel ?goal (r_head ?r) subst) (Ok x)"
      "matched subst (p_args (r_head ?r)) (p_args ?goal) x" "x \<noteq> None \<longrightarrow> p_name (r_head ?r) = p_name goal" by auto
  have step: "settles (\<lambda>fuel. solve_rule fuel eng ?goal subst kb d sols rule) q" if "settles (?next x) q" for q
    using settles_obind [OF x(1), of ?next q] that by (simp only: solve_rule_def)
  show ?thesis
  proof (cases x)
    case None
    then show ?thesis by (intro exI [of _ "[]"] conjI step) simp_all
  next
    case (Some s)
    have s: "matches subst (pvars (r_head ?r)) s" using x(2) Some by (simp add: matched_def pvars_def)
    have "moded_body kb (dom (map_of s)) (r_body ?r)"
      by (rule moded_renamed [OF assms(1,5) refl]) (use s in \<open>auto simp: matches_def\<close>)
    with assms(2) s obtain new where
      n: "settles (\<lambda>fuel. solve_conjunction fuel eng (r_body ?r) s kb (Suc d) sols) (Ok (sols @ new))"
        "\<forall>s' \<in> set new. solves kb s (r_body ?r) s'"
      unfolding conj_ok_def matches_def by blast
    have "\<forall>s' \<in> set new. solves kb subst [goal] s'"
      using n(2) solves_rule [OF assms(3-5) refl] x(2,3) Some by blast
    with n(1) Some show ?thesis by (intro exI [of _ new] conjI step) simp_all
  qed
qed

lemma goal_ok_step:
  fixes kb :: "'c KnowledgeBase"
  assumes "moded kb" "conj_ok eng kb (Suc d)" "d \<le> max_depth eng"
  shows "goal_ok eng kb d"
  unfolding goal_ok_def
proof (intro allI impI)
  fix goal :: "'c Predicate" and subst :: "'c Substitution" and sols :: "'c Substitution list"
  assume g: "gsub subst" and call: "get_rules kb (p_name goal) = [] \<or> pvars goal \<subseteq> dom (map_of subst)"
  let ?I = "\<lambda>sols'. \<exists>new. sols' = sols @ new \<and> (\<forall>s \<in> set new. solves kb subst [goal] s)"
  let ?rest = "\<lambda>(sols, full) fuel. if full then Ok sols
      else ofold (solve_rule fuel eng (apply_subst_predicate goal subst) subst kb d) sols (get_rules kb (p_name goal))"
  show "\<exists>new. settles (\<lambda>fuel. solve_goal fuel eng goal subst kb d sols) (Ok (sols @ new)) \<and>
      (\<forall>s \<in> set new. solves kb subst [goal] s)"
  proof (cases "length sols < max_solutions eng")
    case True
    from solve_facts_solves [OF assms(1) g True] obtain new full where
      f: "settles (\<lambda>fuel. solve_facts fuel eng (apply_subst_predicate goal subst) subst
          (get_predicates kb (p_name goal)) sols) (Ok (sols @ new, full))"
        "\<forall>s \<in> set new. solves kb subst [goal] s" by blast
    have "\<exists>t. settles (\<lambda>fuel. ofold (solve_rule fuel eng (apply_subst_predicate goal subst) subst kb d)
        (sols @ new) (get_rules kb (p_name goal))) (Ok t) \<and> ?I t"
    proof (rule settles_ofold)
      fix rule sols' assume rule: "rule \<in> set (get_rules kb (p_name goal))" and I: "?I sols'"
      have "get_rules kb (p_name goal) \<noteq> []" using rule by auto
      then have "pvars goal \<subseteq> dom (map_of subst)" "rule \<in> set (kb_rules kb)"
        using call rule by (auto simp: get_rules_def)
      from solve_rule_solves [OF assms(1,2) g this, of sols'] I
      show "\<exists>t. settles (\<lambda>fuel. solve_rule fuel eng (apply_subst_predicate goal subst) subst kb d sols' rule) (Ok t) \<and> ?I t"
        by fastforce
    qed (use f(2) in blast)
    then have "\<exists>new'. settles (?rest (sols @ new, full)) (Ok (sols @ new')) \<and> (\<forall>s \<in> set new'. solves kb subst [goal] s)"
      using f(2) by (cases full) (force intro: exI [of _ new])+
    then obtain new' where "settles (?rest (sols @ new, full)) (Ok (sols @ new'))" "\<forall>s \<in> set new'. solves kb subst [goal] s"
      by blast
    with settles_obind [OF f(1), of ?rest] show ?thesis
      by (intro exI [of _ new']) (simp add: solve_goal_unfold [OF assms(3) True] case_prod_beta')
  next
    case False
    then have "solve_goal fuel eng goal subst kb d sols = Ok sols" for fuel by (simp add: solve_goal.simps)
    then show ?thesis by (intro exI [of _ "[]"]) simp
  qed
qed

lemma search_ok:
  assumes "moded kb"
  shows "goal_ok eng kb d"
proof (induction "Suc (max_depth eng) - d" arbitrary: d)
  case 0
  then have "solve_goal fuel eng goal subst kb d sols = Ok sols" for fuel goal subst sols
    by (simp add: solve_goal.simps)
  then show ?case unfolding goal_ok_def by (intro allI impI exI [of _ "[]"]) simp
next
  case (Suc k)
  then have "goal_ok eng kb (Suc d)" "d \<le> max_depth eng" by auto
  then show ?case using goal_ok_step [OF assms] conj_ok_step by blast
qed

subsection \<open>Proofs without local variables\<close>

text \<open>
  \<open>prove_conjunction\<close> does not pass bindings from one goal to the next. It is right when there are none to
  pass: the goal is ground and the body of a rule has only variables of its head.
\<close>

definition closed_kb :: "'c KnowledgeBase \<Rightarrow> bool" where
  "closed_kb kb \<longleftrightarrow> list_all pred_is_ground (kb_facts kb) \<and>
     list_all (\<lambda>r. list_all (\<lambda>b. pvars b \<subseteq> pvars (r_head r)) (r_body r)) (kb_rules kb)"

definition proved :: "InferenceEngine \<Rightarrow> 'c KnowledgeBase \<Rightarrow> nat \<Rightarrow> 'c Substitution \<Rightarrow> 'c Predicate \<Rightarrow> 'c Proof \<Rightarrow> bool" where
  "proved eng kb d subst goal pf \<longleftrightarrow>
     pf_goal pf = apply_subst_predicate goal subst \<and>
     derives kb (p_name goal) (map (inst (valuation subst)) (p_args goal)) \<and>
     settles (\<lambda>fuel. verify_proof_recursive fuel eng pf kb d) (Ok True)"

definition prove_ok :: "InferenceEngine \<Rightarrow> 'c KnowledgeBase \<Rightarrow> nat \<Rightarrow> bool" where
  "prove_ok eng kb d \<longleftrightarrow> (\<forall>goal subst. gsub subst \<longrightarrow> pvars goal \<subseteq> dom (map_of subst) \<longrightarrow>
     (\<exists>r. settles (\<lambda>fuel. prove_goal fuel eng goal subst kb d) (Ok r) \<and>
        (\<forall>pf. r = Some pf \<longrightarrow> proved eng kb d subst goal pf)))"

lemma prove_conjunction_simps:
  "prove_conjunction fuel eng [] subst kb depth = Ok (Some [])"
  "prove_conjunction fuel eng (g # gs) subst kb depth =
     obind (prove_goal fuel eng g subst kb depth) (\<lambda>r. case r of
       None \<Rightarrow> Ok None
     | Some pf \<Rightarrow> obind (prove_conjunction fuel eng gs subst kb depth) (\<lambda>ps. Ok (map_option (\<lambda>pfs. pf # pfs) ps)))"
  by (subst prove_conjunction.simps, simp)+

lemma prove_conjunction_ok:
  assumes "prove_ok eng kb d" "gsub subst" "\<And>g. g \<in> set goals \<Longrightarrow> pvars g \<subseteq> dom (map_of subst)"
  shows "\<exists>r. settles (\<lambda>fuel. prove_conjunction fuel eng goals subst kb d) (Ok r) \<and>
    (\<forall>pfs. r = Some pfs \<longrightarrow> list_all2 (proved eng kb d subst) goals pfs)"
  using assms(3)
proof (induction goals)
  case (Cons g gs)
  let ?tail = "\<lambda>pf ps. Ok (map_option (\<lambda>pfs. pf # pfs) ps)"
  let ?next = "\<lambda>r fuel. case r of None \<Rightarrow> Ok None
      | Some pf \<Rightarrow> obind (prove_conjunction fuel eng gs subst kb d) (?tail pf)"
  from assms(1,2) Cons.prems obtain r where r: "settles (\<lambda>fuel. prove_goal fuel eng g subst kb d) (Ok r)"
    "\<forall>pf. r = Some pf \<longrightarrow> proved eng kb d subst g pf" unfolding prove_ok_def by (meson list.set_intros(1))
  from Cons obtain q where q: "settles (\<lambda>fuel. prove_conjunction fuel eng gs subst kb d) (Ok q)"
    "\<forall>pfs. q = Some pfs \<longrightarrow> list_all2 (proved eng kb d subst) gs pfs" by auto
  note step = settles_obind [OF r(1), of ?next]
  show ?case
  proof (cases r)
    case None
    with step [of "Ok None"] show ?thesis by (intro exI [of _ None]) (simp add: prove_conjunction_simps)
  next
    case (Some pf)
    have "settles (?next r) (Ok (map_option (\<lambda>pfs. pf # pfs) q))"
      using settles_obind [OF q(1), of "\<lambda>ps fuel. ?tail pf ps"] Some by simp
    from step [OF this] r(2) q(2) Some show ?thesis
      by (intro exI [of _ "map_option (\<lambda>pfs. pf # pfs) q"]) (auto simp: prove_conjunction_simps)
  qed
qed (auto simp: prove_conjunction_simps intro!: exI [of _ "Some []"])

lemma verify_subproofs_ok:
  "list_all2 (proved eng kb (Suc d) subst) goals pfs \<Longrightarrow>
   settles (\<lambda>fuel. verify_subproofs fuel eng pfs goals kb d) (Ok True)"
proof (induction goals pfs rule: list_all2_induct)
  case (Cons g gs pf pfs)
  have v: "settles (\<lambda>fuel. verify_proof_recursive fuel eng pf kb (Suc d)) (Ok True)" "p_name (pf_goal pf) = p_name g"
    using Cons.hyps(1) by (simp_all add: proved_def)
  show ?case
    using settles_obind [OF v(1), of "\<lambda>ok fuel. if \<not> ok then Ok False else verify_subproofs fuel eng pfs gs kb d" "Ok True"]
      Cons.IH v(2) by simp
qed simp

text \<open>The facts a ground goal matches do not depend on the substitution it was made with.\<close>

lemma find_fact:
  assumes "list_all pred_is_ground ps" "gsub subst"
  shows "\<exists>r. settles (\<lambda>fuel. ofind (\<lambda>p. unify_predicates fuel goal p subst) ps) (Ok r) \<and>
    (r \<noteq> None \<longleftrightarrow> (\<exists>p \<in> set ps. hits subst goal p))"
proof -
  have "\<exists>r. settles (\<lambda>fuel. unify_predicates fuel goal p subst) (Ok r) \<and> (hits subst goal p \<longleftrightarrow> r \<noteq> None)"
    if "p \<in> set ps" for p
    using unify_predicates_ground [OF assms(2), of p goal] unify_predicates_hits [OF assms(2), of p goal] that assms(1)
    by (metis list_all_iff)
  then obtain g where g: "\<And>p. p \<in> set ps \<Longrightarrow> settles (\<lambda>fuel. unify_predicates fuel goal p subst) (Ok (g p))"
    "\<And>p. p \<in> set ps \<Longrightarrow> hits subst goal p \<longleftrightarrow> g p \<noteq> None" by metis
  show ?thesis
  proof (intro exI conjI)
    show "settles (\<lambda>fuel. ofind (\<lambda>p. unify_predicates fuel goal p subst) ps)
        (Ok (case filter (\<lambda>x. g x \<noteq> None) ps of [] \<Rightarrow> None | x # _ \<Rightarrow> g x))"
      by (rule settles_ofind [OF g(1)])
    show "(case filter (\<lambda>x. g x \<noteq> None) ps of [] \<Rightarrow> None | x # _ \<Rightarrow> g x) \<noteq> None \<longleftrightarrow> (\<exists>p \<in> set ps. hits subst goal p)"
      using g(2) filter_eq_Cons_iff [of "\<lambda>x. g x \<noteq> None" ps] by (auto simp: filter_empty_conv split: list.split)
  qed
qed

lemma closed_renamed:
  assumes "closed_kb kb" "rule \<in> set (kb_rules kb)" "r = rename_rule_vars rule d" "b \<in> set (r_body r)"
  shows "pvars b \<subseteq> pvars (r_head r)"
proof -
  obtain s where r: "r_head r = apply_subst_predicate (r_head rule) s"
    "r_body r = map (\<lambda>p. apply_subst_predicate p s) (r_body rule)"
    by (auto simp: assms(3) rename_rule_vars_def Let_def)
  with assms(4) obtain b0 where b: "b0 \<in> set (r_body rule)" "b = apply_subst_predicate b0 s" by auto
  then have "pvars b0 \<subseteq> pvars (r_head rule)" using assms(1,2) by (simp add: closed_kb_def list_all_iff)
  then show ?thesis unfolding b(2) r(1) pvars_subst by (intro UN_mono) auto
qed

lemma rule_matches_renamed:
  "rule_matches rule \<lparr>pr_head = r_head (rename_rule_vars rule d), pr_body = r_body (rename_rule_vars rule d), pr_is_fact = False\<rparr>"
  by (simp add: rule_matches_def rename_rule_vars_def Let_def list_all_length)

lemma ground_args_valuation:
  assumes "gsub subst" "pvars goal \<subseteq> dom (map_of subst)"
  shows "map (inst Var) (p_args (apply_subst_predicate goal subst)) = map (inst (valuation subst)) (p_args goal)"
  using args_apply [OF sat_valuation [OF assms(1) map_le_refl]] map_inst_ground [OF ground_apply [OF assms]] by metis

lemma proved_fact:
  assumes "closed_kb kb" "gsub subst" "pvars goal \<subseteq> dom (map_of subst)" "d \<le> max_depth eng"
    and "p \<in> set (get_predicates kb (p_name goal))" "hits subst (apply_subst_predicate goal subst) p"
  shows "proved eng kb d subst goal (proof_fact (apply_subst_predicate goal subst))"
proof -
  let ?g = "apply_subst_predicate goal subst"
  have ps: "list_all pred_is_ground (get_predicates kb (p_name goal))" "p \<in> set (kb_facts kb)" "p_name p = p_name goal"
    using assms(1,5) by (auto simp: closed_kb_def list_all_iff get_predicates_def)
  have pg: "pred_is_ground p" using ps(1) assms(5) by (simp add: list_all_iff)
  from assms(6) obtain \<theta> where "map (inst \<theta>) (p_args ?g) = map (inst \<theta>) (p_args p)" by (auto simp: hits_def)
  then have "map (inst Var) (p_args ?g) = map (inst Var) (p_args p)"
    using map_inst_ground [OF pg] map_inst_ground [OF ground_apply [OF assms(2,3)]] by metis
  then have d: "derives kb (p_name goal) (map (inst (valuation subst)) (p_args goal))"
    using fact_derives [OF ps(2), of Var] ps(3) ground_args_valuation [OF assms(2,3)] by simp
  have "hits [] ?g p" using assms(6) by (auto simp: hits_def)
  with find_fact [OF ps(1) gsub_Nil, of ?g] assms(5) obtain r where
    r: "settles (\<lambda>fuel. ofind (\<lambda>p. unify_predicates fuel ?g p []) (get_predicates kb (p_name goal))) (Ok r)" "r \<noteq> None" by blast
  have "settles (\<lambda>fuel. verify_proof_recursive fuel eng (proof_fact ?g) kb d) (Ok True)"
    using settles_obind [OF r(1), of "\<lambda>r fuel. Ok (r \<noteq> None)"] r(2) assms(4) by (simp add: proof_fact_def)
  with d show ?thesis by (simp add: proved_def proof_fact_def)
qed

definition prove_rule ::
    "nat \<Rightarrow> InferenceEngine \<Rightarrow> 'c Predicate \<Rightarrow> 'c Substitution \<Rightarrow> 'c KnowledgeBase \<Rightarrow> nat \<Rightarrow> 'c Rule
       \<Rightarrow> (core_error, 'c Proof option) outcome" where
  "prove_rule fuel eng goal subst kb depth rule =
     (let r = rename_rule_vars rule depth in
      obind (unify_predicates fuel goal (r_head r) subst) (\<lambda>x. case x of
        None \<Rightarrow> Ok None
      | Some s \<Rightarrow> obind (prove_conjunction fuel eng (r_body r) s kb (Suc depth)) (\<lambda>ps.
          Ok (map_option (proof_from_rule goal r) ps))))"

lemma prove_goal_unfold:
  assumes "d \<le> max_depth eng"
  shows "prove_goal fuel eng goal subst kb d =
    obind (ofind (\<lambda>p. unify_predicates fuel (apply_subst_predicate goal subst) p subst) (get_predicates kb (p_name goal)))
      (\<lambda>r. case r of Some _ \<Rightarrow> Ok (Some (proof_fact (apply_subst_predicate goal subst)))
        | None \<Rightarrow> ofind (prove_rule fuel eng (apply_subst_predicate goal subst) subst kb d) (get_rules kb (p_name goal)))"
  using assms by (subst prove_goal.simps)
    (auto simp: Let_def prove_rule_def intro!: obind_cong ofind_cong split: option.split)

lemma prove_rule_ok:
  assumes "closed_kb kb" "prove_ok eng kb (Suc d)" "gsub subst" "pvars goal \<subseteq> dom (map_of subst)"
    and "rule \<in> set (get_rules kb (p_name goal))" "d \<le> max_depth eng"
  shows "\<exists>q. settles (\<lambda>fuel. prove_rule fuel eng (apply_subst_predicate goal subst) subst kb d rule) (Ok q) \<and>
    (\<forall>pf. q = Some pf \<longrightarrow> proved eng kb d subst goal pf)"
proof -
  let ?g = "apply_subst_predicate goal subst" and ?r = "rename_rule_vars rule d"
  let ?wrap = "\<lambda>ps fuel. Ok (map_option (proof_from_rule ?g ?r) ps)"
  let ?next = "\<lambda>x fuel. case x of None \<Rightarrow> Ok None
      | Some s \<Rightarrow> obind (prove_conjunction fuel eng (r_body ?r) s kb (Suc d)) (\<lambda>ps. ?wrap ps fuel)"
  have kr: "rule \<in> set (kb_rules kb)" using assms(5) by (simp add: get_rules_def)
  from unify_predicates_ground [OF assms(3) ground_apply [OF assms(3,4)], of "r_head ?r"] obtain x where
    x: "settles (\<lambda>fuel. unify_predicates fuel ?g (r_head ?r) subst) (Ok x)"
      "matched subst (p_args (r_head ?r)) (p_args ?g) x" "x \<noteq> None \<longrightarrow> p_name (r_head ?r) = p_name goal" by auto
  have step: "settles (\<lambda>fuel. prove_rule fuel eng ?g subst kb d rule) q" if "settles (?next x) q" for q
    using settles_obind [OF x(1), of ?next q] that by (simp only: prove_rule_def Let_def)
  show ?thesis
  proof (cases x)
    case None
    then show ?thesis by (intro exI [of _ None] conjI step) simp_all
  next
    case (Some s)
    then have s: "matches subst (pvars (r_head ?r)) s" "p_name (r_head ?r) = p_name goal"
      "map (inst (valuation s)) (p_args (r_head ?r)) = map (inst Var) (p_args ?g)"
      using x(2,3) by (simp_all add: matched_def pvars_def)
    have b: "pvars b \<subseteq> dom (map_of s)" if "b \<in> set (r_body ?r)" for b
      using closed_renamed [OF assms(1) kr refl that] s(1) by (auto simp: matches_def)
    have "gsub s" using s(1) by (simp add: matches_def)
    from prove_conjunction_ok [OF assms(2) this, of "r_body ?r"] b obtain q where
      q: "settles (\<lambda>fuel. prove_conjunction fuel eng (r_body ?r) s kb (Suc d)) (Ok q)"
        "\<forall>pfs. q = Some pfs \<longrightarrow> list_all2 (proved eng kb (Suc d) s) (r_body ?r) pfs" by blast
    have "proved eng kb d subst goal (proof_from_rule ?g ?r pfs)" if "q = Some pfs" for pfs
    proof -
      have pfs: "list_all2 (proved eng kb (Suc d) s) (r_body ?r) pfs" using q(2) that by blast
      have "derives kb (p_name b) (map (inst (valuation s)) (p_args b))" if "b \<in> set (r_body ?r)" for b
        using pfs that by (auto simp: proved_def list_all2_conv_all_nth in_set_conv_nth)
      then have "derives kb (p_name (r_head ?r)) (map (inst (valuation s)) (p_args (r_head ?r)))"
        by (rule derives_renamed [OF kr refl])
      then have "derives kb (p_name goal) (map (inst (valuation subst)) (p_args goal))"
        using s by (simp add: ground_args_valuation [OF assms(3,4)])
      moreover have "list_ex (\<lambda>kr. rule_matches kr \<lparr>pr_head = r_head ?r, pr_body = r_body ?r, pr_is_fact = False\<rparr>)
          (get_rules kb (p_name goal))"
        using assms(5) rule_matches_renamed by (auto simp: list_ex_iff)
      ultimately show ?thesis
        using verify_subproofs_ok [OF pfs] list_all2_lengthD [OF pfs] assms(6)
        by (simp add: proved_def proof_from_rule_def)
    qed
    then show ?thesis using Some settles_obind [OF q(1), of ?wrap]
      by (intro exI [of _ "map_option (proof_from_rule ?g ?r) q"] conjI step) auto
  qed
qed

lemma prove_ok_step:
  fixes kb :: "'c KnowledgeBase"
  assumes "closed_kb kb" "prove_ok eng kb (Suc d)" "d \<le> max_depth eng"
  shows "prove_ok eng kb d"
  unfolding prove_ok_def
proof (intro allI impI)
  fix goal :: "'c Predicate" and subst :: "'c Substitution"
  assume g: "gsub subst" "pvars goal \<subseteq> dom (map_of subst)"
  let ?g = "apply_subst_predicate goal subst"
  let ?next = "\<lambda>r fuel. case r of Some _ \<Rightarrow> Ok (Some (proof_fact ?g))
      | None \<Rightarrow> ofind (prove_rule fuel eng ?g subst kb d) (get_rules kb (p_name goal))"
  have "list_all pred_is_ground (get_predicates kb (p_name goal))"
    using assms(1) by (auto simp: closed_kb_def get_predicates_def list_all_iff)
  from find_fact [OF this g(1), of ?g] obtain r where
    r: "settles (\<lambda>fuel. ofind (\<lambda>p. unify_predicates fuel ?g p subst) (get_predicates kb (p_name goal))) (Ok r)"
      "r \<noteq> None \<longleftrightarrow> (\<exists>p \<in> set (get_predicates kb (p_name goal)). hits subst ?g p)" by blast
  have step: "settles (\<lambda>fuel. prove_goal fuel eng goal subst kb d) q" if "settles (?next r) q" for q
    using settles_obind [OF r(1), of ?next q] that by (simp only: prove_goal_unfold [OF assms(3)])
  obtain q where q: "\<And>rule. rule \<in> set (get_rules kb (p_name goal)) \<Longrightarrow>
        settles (\<lambda>fuel. prove_rule fuel eng ?g subst kb d rule) (Ok (q rule))"
      "\<And>rule pf. rule \<in> set (get_rules kb (p_name goal)) \<Longrightarrow> q rule = Some pf \<Longrightarrow> proved eng kb d subst goal pf"
    using prove_rule_ok [OF assms(1,2) g _ assms(3)] by metis
  let ?q = "case filter (\<lambda>x. q x \<noteq> None) (get_rules kb (p_name goal)) of [] \<Rightarrow> None | x # _ \<Rightarrow> q x"
  show "\<exists>r. settles (\<lambda>fuel. prove_goal fuel eng goal subst kb d) (Ok r) \<and>
      (\<forall>pf. r = Some pf \<longrightarrow> proved eng kb d subst goal pf)"
  proof (cases r)
    case None
    have "proved eng kb d subst goal pf" if "?q = Some pf" for pf
    proof (cases "filter (\<lambda>x. q x \<noteq> None) (get_rules kb (p_name goal))")
      case (Cons rule rules)
      then have "rule \<in> set (get_rules kb (p_name goal))" by (metis filter_is_subset list.set_intros(1) subsetD)
      with that Cons q(2) show ?thesis by simp
    qed (use that in simp)
    then show ?thesis using settles_ofind [OF q(1)] None by (intro exI [of _ ?q] conjI step) simp_all
  next
    case (Some s)
    then obtain p where "p \<in> set (get_predicates kb (p_name goal))" "hits subst ?g p" using r(2) by blast
    from proved_fact [OF assms(1) g assms(3) this] Some show ?thesis
      by (intro exI [of _ "Some (proof_fact ?g)"] conjI step) simp_all
  qed
qed

lemma prove_search_ok:
  assumes "closed_kb kb"
  shows "prove_ok eng kb d"
proof (induction "Suc (max_depth eng) - d" arbitrary: d)
  case 0
  then have "prove_goal fuel eng goal subst kb d = Ok None" for fuel goal subst by (simp add: prove_goal.simps)
  then show ?case unfolding prove_ok_def by (intro allI impI exI [of _ None]) simp
next
  case (Suc k)
  then have "prove_ok eng kb (Suc d)" "d \<le> max_depth eng" by auto
  then show ?case using prove_ok_step [OF assms] by blast
qed

subsection \<open>Properties\<close>

text \<open>A small program for the examples: \<open>grandparent\<close> over a table of parents, and the goals that can be asked.\<close>

definition parents :: "nat KnowledgeBase" where
  "parents =
     \<lparr>kb_facts = [pred_new ''par'' [Const (CString ''a''), Const (CString ''b'')],
                  pred_new ''par'' [Const (CString ''b''), Const (CString ''c'')]],
      kb_rules = [rule_new (pred_new ''gp'' [Var ''X'', Var ''Z''])
        [pred_new ''par'' [Var ''X'', Var ''Y''], pred_new ''par'' [Var ''Y'', Var ''Z'']]]\<rparr>"

definition mortals :: "nat KnowledgeBase" where
  "mortals =
     \<lparr>kb_facts = [pred_new ''human'' [Const (CString ''socrates'')]],
      kb_rules = [rule_new (pred_new ''mortal'' [Var ''X'']) [pred_new ''human'' [Var ''X'']]]\<rparr>"

text \<open>
  (C27) Unification loses nothing: if a valuation satisfies a substitution and makes two terms equal,
  \<open>unify\<close> returns (with fuel for the size of the common instance), succeeds, and the valuation satisfies
  the substitution it returns.
\<close>

theorem unify_most_general:
  assumes "sat \<theta> subst" "inst \<theta> t1 = inst \<theta> t2"
  shows "\<exists>s. (\<forall>fuel \<ge> complexity (inst \<theta> t1). unify fuel t1 t2 subst = Ok (Some s)) \<and> sat \<theta> s"
proof -
  from unify_complete(1) [OF assms order_refl] obtain s where
    s: "unify (complexity (inst \<theta> t1)) t1 t2 subst = Ok (Some s)" "sat \<theta> s" by blast
  have "unify fuel t1 t2 subst = Ok (Some s)" if "complexity (inst \<theta> t1) \<le> fuel" for fuel
    using that
  proof (induction fuel rule: dec_induct)
    case (step n)
    then show ?case using improvesD [OF unify_improves(1)] by (metis outcome.distinct(5))
  qed (rule s(1))
  with s(2) show ?thesis by blast
qed

theorem unify_most_general_witness:
  "(\<exists>s. (\<forall>fuel \<ge> 3. unify fuel (Fun ''f'' [Var ''X'', Const (CInt 1)]) (Fun ''f'' [Var ''Y'', Var ''Z'']) ([] :: nat Substitution) = Ok (Some s)) \<and>
     sat (\<lambda>v. Const (CInt 1)) s) \<and>
   unify 2 (Fun ''f'' [Var ''X'', Const (CInt 1)]) (Fun ''f'' [Var ''Y'', Var ''Z'']) ([] :: nat Substitution) =
     Ok (Some [(''X'', Var ''Y''), (''Z'', Const (CInt 1))])"
proof
  show "\<exists>s. (\<forall>fuel \<ge> 3. unify fuel (Fun ''f'' [Var ''X'', Const (CInt 1)]) (Fun ''f'' [Var ''Y'', Var ''Z'']) ([] :: nat Substitution) = Ok (Some s)) \<and>
     sat (\<lambda>v. Const (CInt 1)) s"
    using unify_most_general [of "\<lambda>v. Const (CInt 1)" "[] :: nat Substitution" "Fun ''f'' [Var ''X'', Const (CInt 1)]"
        "Fun ''f'' [Var ''Y'', Var ''Z'']"]
    by (simp add: numeral_3_eq_3)
qed code_simp

text \<open>
  (C24) Answers are correct for the queries within the modes of a moded program: a query on a predicate that has no
  rules, or with a ground goal, returns, and each of its answers binds the variables of the goal to ground terms for
  which the goal follows from the knowledge base. Both conditions are needed: \<open>query_unsound\<close> of
  \<open>Reasoning_Limits\<close> has a wrong answer to a goal with a variable on a predicate with rules.
\<close>

theorem query_sound:
  assumes "moded kb" "get_rules kb (p_name goal) = [] \<or> pred_is_ground goal"
  shows "\<exists>sols N. (\<forall>fuel \<ge> N. query fuel eng goal kb = Ok sols) \<and>
    (\<forall>s \<in> set sols. gsub s \<and> pvars goal \<subseteq> dom (map_of s) \<and>
       derives kb (p_name goal) (map (inst (valuation s)) (p_args goal)))"
proof -
  have "get_rules kb (p_name goal) = [] \<or> pvars goal \<subseteq> dom (map_of ([] :: 'a Substitution))"
    using assms(2) by (auto simp: pred_is_ground_def ground_args_iff pvars_def)
  then obtain new where "settles (\<lambda>fuel. solve_goal fuel eng goal [] kb 0 []) (Ok ([] @ new))"
    "\<forall>s \<in> set new. solves kb [] [goal] s"
    using search_ok [OF assms(1), of eng 0] gsub_Nil unfolding goal_ok_def by blast
  then show ?thesis by (auto simp: settles_def query_def solves_def)
qed

theorem query_sound_witness:
  "(\<exists>sols N. (\<forall>fuel \<ge> N. query fuel ie_new (pred_new ''gp'' [Const (CString ''a''), Const (CString ''c'')]) parents = Ok sols) \<and>
     (\<forall>s \<in> set sols. gsub s \<and> derives parents ''gp'' [Const (CString ''a''), Const (CString ''c'')])) \<and>
   (\<exists>s. query 2 ie_new (pred_new ''gp'' [Const (CString ''a''), Const (CString ''c'')]) parents = Ok [s])"
proof
  have "moded parents" by (simp add: moded_def parents_def pred_is_ground_def get_rules_def)
  then show "\<exists>sols N. (\<forall>fuel \<ge> N. query fuel ie_new (pred_new ''gp'' [Const (CString ''a''), Const (CString ''c'')]) parents = Ok sols) \<and>
     (\<forall>s \<in> set sols. gsub s \<and> derives parents ''gp'' [Const (CString ''a''), Const (CString ''c'')])"
    using query_sound [of parents "pred_new ''gp'' [Const (CString ''a''), Const (CString ''c'')]" ie_new]
    by (auto simp: pred_is_ground_def)
  show "\<exists>s. query 2 ie_new (pred_new ''gp'' [Const (CString ''a''), Const (CString ''c'')]) parents = Ok [s]"
    by (rule exI [of _ "[(''X_0'', Const (CString ''a'')), (''Z_0'', Const (CString ''c'')), (''Y_0'', Const (CString ''b''))]"]) code_simp
qed

text \<open>
  (C25) A query on stored facts is exact: for a predicate without rules whose facts are ground, the
  answers are those of the facts that the goal has as an instance, one for each, in the order of the
  knowledge base, and as many as the limit allows.
\<close>

theorem query_facts_exact:
  assumes "list_all pred_is_ground (get_predicates kb (p_name goal))" "get_rules kb (p_name goal) = []"
  shows "\<exists>sols N. (\<forall>fuel \<ge> N. query fuel eng goal kb = Ok sols) \<and>
    list_all2 (\<lambda>s p. gsub s \<and> dom (map_of s) = pvars goal \<and> map (inst (valuation s)) (p_args goal) = map (inst Var) (p_args p))
      sols (take (max_solutions eng)
        (filter (\<lambda>p. \<exists>\<theta>. map (inst \<theta>) (p_args goal) = map (inst Var) (p_args p)) (get_predicates kb (p_name goal))))"
proof (cases "max_solutions eng = 0")
  case True
  then show ?thesis by (auto simp: query_def solve_goal.simps)
next
  case False
  have a: "apply_subst_predicate goal [] = goal"
  proof -
    have "apply_subst_term t [] = t" for t :: "'a Term" by (induction t) (simp_all add: map_idI)
    then show ?thesis by (simp add: apply_subst_predicate_def)
  qed
  from solve_facts_exact [OF gsub_Nil assms(1), of "[]" eng goal] False obtain new full where
    f: "settles (\<lambda>fuel. solve_facts fuel eng goal [] (get_predicates kb (p_name goal)) []) (Ok (new, full))"
      "list_all2 (answers_fact [] goal) new (take (max_solutions eng) (filter (hits [] goal) (get_predicates kb (p_name goal))))"
    by auto
  have h: "hits [] goal p \<longleftrightarrow> (\<exists>\<theta>. map (inst \<theta>) (p_args goal) = map (inst Var) (p_args p))"
    if "p \<in> set (get_predicates kb (p_name goal))" for p
  proof -
    have "pred_is_ground p" "p_name p = p_name goal"
      using that assms(1) by (auto simp: list_all_iff get_predicates_def)
    then show ?thesis unfolding hits_def using map_inst_ground sat_Nil by metis
  qed
  have "filter (hits [] goal) (get_predicates kb (p_name goal)) =
      filter (\<lambda>p. \<exists>\<theta>. map (inst \<theta>) (p_args goal) = map (inst Var) (p_args p)) (get_predicates kb (p_name goal))"
    by (rule filter_cong [OF refl h])
  moreover have "settles (\<lambda>fuel. query fuel eng goal kb) (Ok new)"
    using settles_obind [OF f(1), of "\<lambda>(sols, full) fuel. if full then Ok sols
        else ofold (solve_rule fuel eng goal [] kb 0) sols (get_rules kb (p_name goal))" "Ok new"] False
    by (simp add: query_def solve_goal_unfold a assms(2) case_prod_beta' cong: if_cong)
  moreover have "answers_fact [] goal =
      (\<lambda>s p. gsub s \<and> dom (map_of s) = pvars goal \<and> map (inst (valuation s)) (p_args goal) = map (inst Var) (p_args p))"
    by (auto simp: fun_eq_iff answers_fact_def matches_def map_le_def)
  ultimately show ?thesis using f(2) unfolding settles_def by metis
qed

theorem query_facts_exact_witness:
  "\<exists>s N. (\<forall>fuel \<ge> N. query fuel (ie_with_limits 5 1) (pred_new ''par'' [Var ''A'', Var ''B'']) parents = Ok [s]) \<and>
     map (inst (valuation s)) [Var ''A'', Var ''B''] = [Const (CString ''a''), Const (CString ''b'')]"
proof -
  have ex: "\<exists>\<theta>. \<theta> ''A'' = Const (CString ''a'') \<and> \<theta> ''B'' = (Const (CString ''b'') :: nat Term)"
    by (rule exI [of _ "\<lambda>v. Const (CString (if v = ''A'' then ''a'' else ''b''))"]) simp
  have kb: "get_rules parents ''par'' = []" "list_all pred_is_ground (get_predicates parents ''par'')"
    by (simp_all add: parents_def get_rules_def get_predicates_def pred_is_ground_def)
  have m: "max_solutions (ie_with_limits 5 1) = 1" by (simp add: ie_with_limits_def)
  let ?g = "pred_new ''par'' [Var ''A'', Var ''B''] :: nat Predicate"
  have "list_all pred_is_ground (get_predicates parents (p_name ?g))" "get_rules parents (p_name ?g) = []" using kb by simp_all
  from query_facts_exact [OF this, of "ie_with_limits 5 1", unfolded m new_simps] obtain sols N where
    sols: "\<forall>fuel \<ge> N. query fuel (ie_with_limits 5 1) (pred_new ''par'' [Var ''A'', Var ''B'']) parents = Ok sols"
      "list_all2 (\<lambda>s p. gsub s \<and> dom (map_of s) = pvars ?g \<and>
           map (inst (valuation s)) [Var ''A'', Var ''B''] = map (inst Var) (p_args p))
         sols (take 1 (filter (\<lambda>p. \<exists>\<theta>. map (inst \<theta>) [Var ''A'', Var ''B''] = map (inst Var) (p_args p)) (get_predicates parents ''par'')))"
    by blast
  have "take 1 (filter (\<lambda>p. \<exists>\<theta>. map (inst \<theta>) [Var ''A'', Var ''B''] = map (inst Var) (p_args p)) (get_predicates parents ''par'')) =
      [pred_new ''par'' [Const (CString ''a''), Const (CString ''b'')]]"
    using ex by (simp add: get_predicates_def parents_def)
  with sols show ?thesis by (force simp: list_all2_Cons2)
qed

text \<open>
  (C26) Proofs of ground goals are correct in programs without local variables: for a ground goal \<open>prove\<close> returns, a
  proof it returns is one of the goal, the goal follows from the knowledge base, and \<open>verify\<close> accepts the proof.
  Both conditions are needed: see \<open>prove_unsound\<close> and \<open>prove_open_goal_unsound\<close> of \<open>Reasoning_Limits\<close>.
\<close>

theorem prove_sound:
  assumes "closed_kb kb" "pred_is_ground goal"
  shows "\<exists>r N. (\<forall>fuel \<ge> N. prove fuel eng goal kb = Ok r) \<and>
    (\<forall>pf. r = Some pf \<longrightarrow> pf_goal pf = goal \<and> derives kb (p_name goal) (map (inst Var) (p_args goal)) \<and>
       (\<exists>M. \<forall>fuel \<ge> M. verify fuel eng pf kb = Ok True))"
proof -
  have v: "pvars goal \<subseteq> dom (map_of ([] :: 'a Substitution))"
    using assms(2) by (simp add: pred_is_ground_def ground_args_iff pvars_def)
  have a: "apply_subst_predicate goal [] = goal"
    using assms(2) by (simp add: apply_subst_predicate_def pred_is_ground_def list_all_iff apply_ground map_idI)
  from prove_search_ok [OF assms(1), of eng 0] v gsub_Nil obtain r where
    "settles (\<lambda>fuel. prove_goal fuel eng goal [] kb 0) (Ok r)" "\<forall>pf. r = Some pf \<longrightarrow> proved eng kb 0 [] goal pf"
    unfolding prove_ok_def by blast
  then show ?thesis
    unfolding prove_def verify_def proved_def settles_def a using ground_args_valuation [OF gsub_Nil v] a by metis
qed

theorem prove_sound_witness:
  "(\<exists>r N. (\<forall>fuel \<ge> N. prove fuel ie_new (pred_new ''mortal'' [Const (CString ''socrates'')]) mortals = Ok r) \<and>
     (\<forall>pf. r = Some pf \<longrightarrow> derives mortals ''mortal'' [Const (CString ''socrates'')] \<and>
        (\<exists>M. \<forall>fuel \<ge> M. verify fuel ie_new pf mortals = Ok True))) \<and>
   (\<exists>pf. prove 2 ie_new (pred_new ''mortal'' [Const (CString ''socrates'')]) mortals = Ok (Some pf))"
proof
  let ?g = "pred_new ''mortal'' [Const (CString ''socrates'')]"
  have "closed_kb mortals" by (simp add: closed_kb_def mortals_def pvars_def pred_is_ground_def)
  then show "\<exists>r N. (\<forall>fuel \<ge> N. prove fuel ie_new ?g mortals = Ok r) \<and>
     (\<forall>pf. r = Some pf \<longrightarrow> derives mortals ''mortal'' [Const (CString ''socrates'')] \<and>
        (\<exists>M. \<forall>fuel \<ge> M. verify fuel ie_new pf mortals = Ok True))"
    using prove_sound [of mortals ?g ie_new] by (simp add: pred_is_ground_def) blast
  have "case prove 2 ie_new ?g mortals of Ok (Some _) \<Rightarrow> True | _ \<Rightarrow> False" by code_simp
  then show "\<exists>pf. prove 2 ie_new ?g mortals = Ok (Some pf)" by (auto split: outcome.splits option.splits)
qed

end
