(* ===== verification/Query_Cache.thy ===== *)
theory Query_Cache
  imports Reasoning
begin

text \<open>
  The caches of the reasoning engine (\<open>ipfrs-tensorlogic/src/cache.rs\<close>) and the engines that use them
  (\<open>MemoizedInferenceEngine\<close> and \<open>DistributedReasoner\<close> of \<open>reasoning.rs\<close>).

  \<^item> \<open>LruCache\<close> of the crate \<open>lru\<close> is a record of operations with the laws of the locale \<open>lru_cache\<close>, stated on
    its iteration order; the theory interprets the locale on lists.
  \<^item> The bits of a parsed \<open>f64\<close> are a parameter of the keys; the hit rates and \<open>FactKey\<close> are left out.
  \<^item> The statistics are counters of 64 bits that wrap, as \<open>fetch_add\<close> does. The operations run one after
    the other, as the locks make them.
\<close>

subsection \<open>Keys\<close>

datatype GroundArg = GString string | GInt int | GFloat u64 | GVariable

record QueryKey =
  predicate_name :: string
  ground_args :: "GroundArg list"

fun ground_arg :: "(string \<Rightarrow> u64 option) \<Rightarrow> 'c Term \<Rightarrow> GroundArg" where
  "ground_arg bits (Const (CString s)) = GString s"
| "ground_arg bits (Const (CInt i)) = GInt i"
| "ground_arg bits (Const (CFloat f)) = GFloat (case bits f of Some v \<Rightarrow> v | None \<Rightarrow> 0)"
| "ground_arg bits (Const (CBool b)) = GInt (if b then 1 else 0)"
| "ground_arg bits _ = GVariable"

definition qk_from_predicate :: "(string \<Rightarrow> u64 option) \<Rightarrow> 'c Predicate \<Rightarrow> QueryKey" where
  "qk_from_predicate bits pred =
     \<lparr>predicate_name = p_name pred, ground_args = map (ground_arg bits) (p_args pred)\<rparr>"

subsection \<open>Cached results and statistics\<close>

record 'c CachedResult =
  cr_solutions :: "'c Substitution list"
  cr_cached_at :: instant
  cr_ttl :: "duration option"

definition cr_new :: "instant \<Rightarrow> 'c Substitution list \<Rightarrow> duration option \<Rightarrow> 'c CachedResult" where
  "cr_new now solutions ttl = \<lparr>cr_solutions = solutions, cr_cached_at = now, cr_ttl = ttl\<rparr>"

definition cr_is_expired :: "instant \<Rightarrow> 'c CachedResult \<Rightarrow> bool" where
  "cr_is_expired now r = (case cr_ttl r of Some ttl \<Rightarrow> now - cr_cached_at r > ttl | None \<Rightarrow> False)"

definition cr_remaining_ttl :: "instant \<Rightarrow> 'c CachedResult \<Rightarrow> duration option" where
  "cr_remaining_ttl now r = map_option (\<lambda>ttl. ttl - (now - cr_cached_at r)) (cr_ttl r)"

record CacheStats =
  cs_hits :: u64
  cs_misses :: u64
  cs_evictions :: u64
  cs_expirations :: u64

definition cs_new :: CacheStats where
  "cs_new = \<lparr>cs_hits = 0, cs_misses = 0, cs_evictions = 0, cs_expirations = 0\<rparr>"

definition record_hit :: "CacheStats \<Rightarrow> CacheStats" where
  "record_hit s = s\<lparr>cs_hits := cs_hits s + 1\<rparr>"

definition record_miss :: "CacheStats \<Rightarrow> CacheStats" where
  "record_miss s = s\<lparr>cs_misses := cs_misses s + 1\<rparr>"

definition record_eviction :: "CacheStats \<Rightarrow> CacheStats" where
  "record_eviction s = s\<lparr>cs_evictions := cs_evictions s + 1\<rparr>"

definition record_expiration :: "CacheStats \<Rightarrow> CacheStats" where
  "record_expiration s = s\<lparr>cs_expirations := cs_expirations s + 1\<rparr>"

record CacheStatsSnapshot =
  ss_hits :: u64
  ss_misses :: u64
  ss_evictions :: u64
  ss_expirations :: u64

definition cs_snapshot :: "CacheStats \<Rightarrow> CacheStatsSnapshot" where
  "cs_snapshot s =
     \<lparr>ss_hits = cs_hits s, ss_misses = cs_misses s, ss_evictions = cs_evictions s, ss_expirations = cs_expirations s\<rparr>"

subsection \<open>The query cache\<close>

record ('l, 'k, 'v) lru_ops =
  lr_new :: "nat \<Rightarrow> 'l"
  lr_get :: "'l \<Rightarrow> 'k \<Rightarrow> 'l \<times> 'v option"
  lr_put :: "'l \<Rightarrow> 'k \<Rightarrow> 'v \<Rightarrow> 'l"
  lr_pop :: "'l \<Rightarrow> 'k \<Rightarrow> 'l \<times> 'v option"
  lr_iter :: "'l \<Rightarrow> ('k \<times> 'v) list"
  lr_len :: "'l \<Rightarrow> nat"
  lr_cap :: "'l \<Rightarrow> nat"
  lr_clear :: "'l \<Rightarrow> 'l"

record 'l QueryCache =
  qc_cache :: 'l
  qc_default_ttl :: "duration option"
  qc_stats :: CacheStats

type_synonym ('l, 'c) query_lru = "('l, QueryKey, 'c CachedResult) lru_ops"

definition qc_new :: "('l, 'c) query_lru \<Rightarrow> nat \<Rightarrow> 'l QueryCache" where
  "qc_new L capacity =
     \<lparr>qc_cache = lr_new L (if capacity = 0 then 100 else capacity), qc_default_ttl = None, qc_stats = cs_new\<rparr>"

definition qc_with_ttl :: "('l, 'c) query_lru \<Rightarrow> nat \<Rightarrow> duration \<Rightarrow> 'l QueryCache" where
  "qc_with_ttl L capacity ttl =
     \<lparr>qc_cache = lr_new L (if capacity = 0 then 100 else capacity), qc_default_ttl = Some ttl, qc_stats = cs_new\<rparr>"

definition qc_get :: "('l, 'c) query_lru \<Rightarrow> instant \<Rightarrow> 'l QueryCache \<Rightarrow> QueryKey \<Rightarrow> 'l QueryCache \<times> 'c Substitution list option" where
  "qc_get L now qc key =
     (let (cache, found) = lr_get L (qc_cache qc) key in
      case found of
        Some result \<Rightarrow>
          if cr_is_expired now result
          then (qc\<lparr>qc_cache := fst (lr_pop L cache key), qc_stats := record_miss (record_expiration (qc_stats qc))\<rparr>, None)
          else (qc\<lparr>qc_cache := cache, qc_stats := record_hit (qc_stats qc)\<rparr>, Some (cr_solutions result))
      | None \<Rightarrow> (qc\<lparr>qc_cache := cache, qc_stats := record_miss (qc_stats qc)\<rparr>, None))"

text \<open>Both insertions put a result and count an eviction whenever the cache is full.\<close>

definition qc_put :: "('l, 'c) query_lru \<Rightarrow> 'l QueryCache \<Rightarrow> QueryKey \<Rightarrow> 'c CachedResult \<Rightarrow> 'l QueryCache" where
  "qc_put L qc key result =
     (let stats = if lr_cap L (qc_cache qc) \<le> lr_len L (qc_cache qc) then record_eviction (qc_stats qc) else qc_stats qc in
      qc\<lparr>qc_cache := lr_put L (qc_cache qc) key result, qc_stats := stats\<rparr>)"

definition qc_insert :: "('l, 'c) query_lru \<Rightarrow> instant \<Rightarrow> 'l QueryCache \<Rightarrow> QueryKey \<Rightarrow> 'c Substitution list \<Rightarrow> 'l QueryCache" where
  "qc_insert L now qc key solutions = qc_put L qc key (cr_new now solutions (qc_default_ttl qc))"

definition qc_insert_with_ttl ::
    "('l, 'c) query_lru \<Rightarrow> instant \<Rightarrow> 'l QueryCache \<Rightarrow> QueryKey \<Rightarrow> 'c Substitution list \<Rightarrow> duration \<Rightarrow> 'l QueryCache" where
  "qc_insert_with_ttl L now qc key solutions ttl = qc_put L qc key (cr_new now solutions (Some ttl))"

definition qc_invalidate :: "('l, 'c) query_lru \<Rightarrow> 'l QueryCache \<Rightarrow> QueryKey \<Rightarrow> 'l QueryCache \<times> bool" where
  "qc_invalidate L qc key =
     (let (cache, removed) = lr_pop L (qc_cache qc) key in (qc\<lparr>qc_cache := cache\<rparr>, removed \<noteq> None))"

definition pop_all :: "('l, 'k, 'v) lru_ops \<Rightarrow> 'l \<Rightarrow> 'k list \<Rightarrow> 'l" where
  "pop_all L cache keys = foldl (\<lambda>cache key. fst (lr_pop L cache key)) cache keys"

definition qc_invalidate_predicate :: "('l, 'c) query_lru \<Rightarrow> 'l QueryCache \<Rightarrow> string \<Rightarrow> 'l QueryCache" where
  "qc_invalidate_predicate L qc name =
     (let keys_to_remove = map fst (filter (\<lambda>(k, _). predicate_name k = name) (lr_iter L (qc_cache qc))) in
      qc\<lparr>qc_cache := pop_all L (qc_cache qc) keys_to_remove\<rparr>)"

definition qc_clear :: "('l, 'c) query_lru \<Rightarrow> 'l QueryCache \<Rightarrow> 'l QueryCache" where
  "qc_clear L qc = qc\<lparr>qc_cache := lr_clear L (qc_cache qc)\<rparr>"

definition qc_len :: "('l, 'c) query_lru \<Rightarrow> 'l QueryCache \<Rightarrow> nat" where
  "qc_len L qc = lr_len L (qc_cache qc)"

definition qc_is_empty :: "('l, 'c) query_lru \<Rightarrow> 'l QueryCache \<Rightarrow> bool" where
  "qc_is_empty L qc = (lr_len L (qc_cache qc) = 0)"

definition qc_capacity :: "('l, 'c) query_lru \<Rightarrow> 'l QueryCache \<Rightarrow> nat" where
  "qc_capacity L qc = lr_cap L (qc_cache qc)"

text \<open>The clock is read for every entry: \<open>clock k\<close> is the reading for the entry of \<open>k\<close>.\<close>

definition qc_evict_expired :: "('l, 'c) query_lru \<Rightarrow> (QueryKey \<Rightarrow> instant) \<Rightarrow> 'l QueryCache \<Rightarrow> 'l QueryCache \<times> nat" where
  "qc_evict_expired L clock qc =
     (let expired_keys = map fst (filter (\<lambda>(k, r). cr_is_expired (clock k) r) (lr_iter L (qc_cache qc))) in
      (qc\<lparr>qc_cache := pop_all L (qc_cache qc) expired_keys,
          qc_stats := (record_expiration ^^ length expired_keys) (qc_stats qc)\<rparr>,
       length expired_keys))"

subsection \<open>Remote facts\<close>

record 'c RemoteFact =
  rf_fact :: "'c Predicate"
  rf_source :: "'c option"
  rf_fetched_at :: instant
  rf_ttl :: duration

definition rf_new :: "instant \<Rightarrow> 'c Predicate \<Rightarrow> 'c option \<Rightarrow> duration \<Rightarrow> 'c RemoteFact" where
  "rf_new now p source ttl = \<lparr>rf_fact = p, rf_source = source, rf_fetched_at = now, rf_ttl = ttl\<rparr>"

definition rf_is_expired :: "instant \<Rightarrow> 'c RemoteFact \<Rightarrow> bool" where
  "rf_is_expired now f \<longleftrightarrow> now - rf_fetched_at f > rf_ttl f"

record 'c RemoteFactCache =
  rc_facts :: "(string \<times> 'c RemoteFact list) list"
  rc_max_per_predicate :: nat
  rc_default_ttl :: duration
  rc_stats :: CacheStats

definition rc_new :: "nat \<Rightarrow> duration \<Rightarrow> 'c RemoteFactCache" where
  "rc_new max_per_predicate default_ttl =
     \<lparr>rc_facts = [], rc_max_per_predicate = max_per_predicate, rc_default_ttl = default_ttl, rc_stats = cs_new\<rparr>"

text \<open>The facts of a vector that have not expired, \<open>clock i\<close> being the reading of the clock for the \<open>i\<close>-th.\<close>

definition unexpired :: "(nat \<Rightarrow> instant) \<Rightarrow> 'c RemoteFact list \<Rightarrow> 'c RemoteFact list" where
  "unexpired clock fs = map snd (filter (\<lambda>(i, f). \<not> rf_is_expired (clock i) f) (enumerate 0 fs))"

definition rc_get_facts :: "(nat \<Rightarrow> instant) \<Rightarrow> 'c RemoteFactCache \<Rightarrow> string \<Rightarrow> 'c RemoteFactCache \<times> 'c Predicate list" where
  "rc_get_facts clock rc name =
     (case map_of (rc_facts rc) name of
        Some remote_facts \<Rightarrow>
          let valid_facts = map rf_fact (unexpired clock remote_facts) in
          (rc\<lparr>rc_stats := (if valid_facts = [] then record_miss else record_hit) (rc_stats rc)\<rparr>, valid_facts)
      | None \<Rightarrow> (rc\<lparr>rc_stats := record_miss (rc_stats rc)\<rparr>, []))"

text \<open>
  \<open>remove(0)\<close> panics on an empty vector, which happens for a capacity of 0; the entry has been created by
  then.
\<close>

definition rc_add_fact_with_ttl ::
    "instant \<Rightarrow> (nat \<Rightarrow> instant) \<Rightarrow> 'c RemoteFactCache \<Rightarrow> 'c Predicate \<Rightarrow> 'c option \<Rightarrow> duration
       \<Rightarrow> 'c RemoteFactCache \<times> (core_error, unit) outcome" where
  "rc_add_fact_with_ttl now clock rc p source ttl =
     (let name = p_name p;
          remote_fact = rf_new now p source ttl;
          entry = unexpired clock (case map_of (rc_facts rc) name of Some fs \<Rightarrow> fs | None \<Rightarrow> []);
          store = (\<lambda>entry rc. rc\<lparr>rc_facts := hm_insert name entry (rc_facts rc)\<rparr>) in
      if rc_max_per_predicate rc \<le> length entry
      then (case sort_key rf_fetched_at entry of
              [] \<Rightarrow> (store [] rc, Panic)
            | _ # rest \<Rightarrow> (store (rest @ [remote_fact]) (rc\<lparr>rc_stats := record_eviction (rc_stats rc)\<rparr>), Ok ()))
      else (store (entry @ [remote_fact]) rc, Ok ()))"

definition rc_add_fact ::
    "instant \<Rightarrow> (nat \<Rightarrow> instant) \<Rightarrow> 'c RemoteFactCache \<Rightarrow> 'c Predicate \<Rightarrow> 'c option
       \<Rightarrow> 'c RemoteFactCache \<times> (core_error, unit) outcome" where
  "rc_add_fact now clock rc p source = rc_add_fact_with_ttl now clock rc p source (rc_default_ttl rc)"

text \<open>The clock readings of the \<open>j\<close>-th of several facts are \<open>now j\<close> and \<open>clock j\<close>.\<close>

fun rc_add_facts ::
    "(nat \<Rightarrow> instant) \<Rightarrow> (nat \<Rightarrow> nat \<Rightarrow> instant) \<Rightarrow> nat \<Rightarrow> 'c RemoteFactCache \<Rightarrow> 'c Predicate list \<Rightarrow> 'c option
       \<Rightarrow> 'c RemoteFactCache \<times> (core_error, unit) outcome" where
  "rc_add_facts now clock j rc [] source = (rc, Ok ())"
| "rc_add_facts now clock j rc (p # ps) source =
     sbind (rc_add_fact (now j) (clock j) rc p source) (\<lambda>rc _. rc_add_facts now clock (j + 1) rc ps source)"

definition rc_invalidate_predicate :: "'c RemoteFactCache \<Rightarrow> string \<Rightarrow> 'c RemoteFactCache" where
  "rc_invalidate_predicate rc name = rc\<lparr>rc_facts := hm_remove name (rc_facts rc)\<rparr>"

definition rc_clear :: "'c RemoteFactCache \<Rightarrow> 'c RemoteFactCache" where
  "rc_clear rc = rc\<lparr>rc_facts := []\<rparr>"

definition rc_len :: "'c RemoteFactCache \<Rightarrow> nat" where
  "rc_len rc = sum_list (map (length \<circ> snd) (rc_facts rc))"

definition rc_is_empty :: "'c RemoteFactCache \<Rightarrow> bool" where
  "rc_is_empty rc = (rc_len rc = 0)"

definition rc_evict_expired :: "(string \<Rightarrow> nat \<Rightarrow> instant) \<Rightarrow> 'c RemoteFactCache \<Rightarrow> 'c RemoteFactCache \<times> nat" where
  "rc_evict_expired clock rc =
     (let facts = map (\<lambda>(name, entry). (name, unexpired (clock name) entry)) (rc_facts rc);
          count = sum_list (map (\<lambda>(name, entry). length entry - length (unexpired (clock name) entry)) (rc_facts rc)) in
      (rc\<lparr>rc_facts := facts, rc_stats := (record_expiration ^^ count) (rc_stats rc)\<rparr>, count))"

subsection \<open>The cache manager\<close>

record ('l, 'c) CacheManager =
  cm_query_cache :: "'l QueryCache"
  cm_fact_cache :: "'c RemoteFactCache"

record CombinedCacheStats =
  query_stats :: CacheStatsSnapshot
  fact_stats :: CacheStatsSnapshot
  query_cache_size :: nat
  fact_cache_size :: nat

definition cm_new :: "('l, 'c) query_lru \<Rightarrow> ('l, 'c) CacheManager" where
  "cm_new L = \<lparr>cm_query_cache = qc_new L 10000, cm_fact_cache = rc_new 1000 (from_secs 300)\<rparr>"

definition cm_with_config ::
    "('l, 'c) query_lru \<Rightarrow> nat \<Rightarrow> duration option \<Rightarrow> nat \<Rightarrow> duration \<Rightarrow> ('l, 'c) CacheManager" where
  "cm_with_config L query_capacity query_ttl fact_capacity fact_ttl =
     \<lparr>cm_query_cache = (case query_ttl of Some ttl \<Rightarrow> qc_with_ttl L query_capacity ttl | None \<Rightarrow> qc_new L query_capacity),
      cm_fact_cache = rc_new fact_capacity fact_ttl\<rparr>"

definition cm_evict_expired ::
    "('l, 'c) query_lru \<Rightarrow> (QueryKey \<Rightarrow> instant) \<Rightarrow> (string \<Rightarrow> nat \<Rightarrow> instant) \<Rightarrow> ('l, 'c) CacheManager
       \<Rightarrow> ('l, 'c) CacheManager \<times> nat \<times> nat" where
  "cm_evict_expired L qclock fclock cm =
     (let (qc, queries) = qc_evict_expired L qclock (cm_query_cache cm);
          (rc, facts) = rc_evict_expired fclock (cm_fact_cache cm) in
      (\<lparr>cm_query_cache = qc, cm_fact_cache = rc\<rparr>, queries, facts))"

definition cm_clear_all :: "('l, 'c) query_lru \<Rightarrow> ('l, 'c) CacheManager \<Rightarrow> ('l, 'c) CacheManager" where
  "cm_clear_all L cm =
     \<lparr>cm_query_cache = qc_clear L (cm_query_cache cm), cm_fact_cache = rc_clear (cm_fact_cache cm)\<rparr>"

definition cm_stats :: "('l, 'c) query_lru \<Rightarrow> ('l, 'c) CacheManager \<Rightarrow> CombinedCacheStats" where
  "cm_stats L cm =
     \<lparr>query_stats = cs_snapshot (qc_stats (cm_query_cache cm)), fact_stats = cs_snapshot (rc_stats (cm_fact_cache cm)),
      query_cache_size = qc_len L (cm_query_cache cm), fact_cache_size = rc_len (cm_fact_cache cm)\<rparr>"

subsection \<open>The laws of an LRU cache\<close>

text \<open>The iteration starts at the entry used last; a full cache drops its last entry for a new key.\<close>

locale lru_cache =
  fixes L :: "('l, 'k, 'v) lru_ops" and linv :: "'l \<Rightarrow> bool"
  assumes lru_new: "0 < c \<Longrightarrow> linv (lr_new L c)" "lr_iter L (lr_new L c) = []" "lr_cap L (lr_new L c) = c"
    and lru_bounds: "linv l \<Longrightarrow> distinct (map fst (lr_iter L l)) \<and> length (lr_iter L l) \<le> lr_cap L l \<and> 0 < lr_cap L l"
    and lru_len: "linv l \<Longrightarrow> lr_len L l = length (lr_iter L l)"
    and lru_get: "linv l \<Longrightarrow> linv (fst (lr_get L l k)) \<and> snd (lr_get L l k) = map_of (lr_iter L l) k \<and>
      lr_cap L (fst (lr_get L l k)) = lr_cap L l \<and>
      lr_iter L (fst (lr_get L l k)) =
        (case map_of (lr_iter L l) k of None \<Rightarrow> lr_iter L l | Some v \<Rightarrow> (k, v) # filter (\<lambda>e. fst e \<noteq> k) (lr_iter L l))"
    and lru_put: "linv l \<Longrightarrow> linv (lr_put L l k v) \<and> lr_cap L (lr_put L l k v) = lr_cap L l \<and>
      lr_iter L (lr_put L l k v) =
        (k, v) # (if map_of (lr_iter L l) k = None then take (lr_cap L l - 1) (lr_iter L l)
                  else filter (\<lambda>e. fst e \<noteq> k) (lr_iter L l))"
    and lru_pop: "linv l \<Longrightarrow> linv (fst (lr_pop L l k)) \<and> snd (lr_pop L l k) = map_of (lr_iter L l) k \<and>
      lr_cap L (fst (lr_pop L l k)) = lr_cap L l \<and> lr_iter L (fst (lr_pop L l k)) = filter (\<lambda>e. fst e \<noteq> k) (lr_iter L l)"
    and lru_clear: "linv l \<Longrightarrow> linv (lr_clear L l) \<and> lr_cap L (lr_clear L l) = lr_cap L l \<and> lr_iter L (lr_clear L l) = []"

text \<open>The laws hold for a capacity and a list of the entries.\<close>

definition list_lru :: "(nat \<times> ('k \<times> 'v) list, 'k, 'v) lru_ops" where
  "list_lru =
     \<lparr>lr_new = (\<lambda>c. (c, [])),
      lr_get = (\<lambda>(c, es) k. case map_of es k of None \<Rightarrow> ((c, es), None) | Some v \<Rightarrow> ((c, (k, v) # filter (\<lambda>e. fst e \<noteq> k) es), Some v)),
      lr_put = (\<lambda>(c, es) k v. (c, (k, v) # (if map_of es k = None then take (c - 1) es else filter (\<lambda>e. fst e \<noteq> k) es))),
      lr_pop = (\<lambda>(c, es) k. ((c, filter (\<lambda>e. fst e \<noteq> k) es), map_of es k)),
      lr_iter = snd, lr_len = (\<lambda>(c, es). length es), lr_cap = fst, lr_clear = (\<lambda>(c, es). (c, []))\<rparr>"

definition list_lru_inv :: "nat \<times> ('k \<times> 'v) list \<Rightarrow> bool" where
  "list_lru_inv l \<longleftrightarrow> distinct (map fst (snd l)) \<and> length (snd l) \<le> fst l \<and> 0 < fst l"

lemma map_of_filter_keys: "map_of (filter (\<lambda>e. P (fst e)) es) k = (if P k then map_of es k else None)"
  by (induction es) auto

lemma distinct_filter_keys: "distinct (map fst es) \<Longrightarrow> distinct (map fst (filter P es))"
  by (rule distinct_map_filter)

lemma length_filter_key:
  assumes "map_of es k = Some v"
  shows "length (filter (\<lambda>e. fst e \<noteq> k) es) < length es"
  using length_filter_less [of "(k, v)" es "\<lambda>e. fst e \<noteq> k"] map_of_SomeD [OF assms] by simp

interpretation list_lru: lru_cache list_lru list_lru_inv
proof unfold_locales
  fix l :: "nat \<times> ('k \<times> 'v) list" and k v
  assume inv: "list_lru_inv l"
  obtain c es where l: "l = (c, es)" by (cases l)
  have d: "distinct (map fst es)" "length es \<le> c" "0 < c" using inv by (simp_all add: list_lru_inv_def l)
  have f: "distinct (map fst (filter (\<lambda>e. fst e \<noteq> k) es))" using d(1) by (rule distinct_filter_keys)
  have lf: "length (filter (\<lambda>e. fst e \<noteq> k) es) \<le> c" using length_filter_le [of _ es] d(2) le_trans by blast
  have t: "distinct (map fst (take n es))" for n using d(1) by (simp add: take_map [symmetric])
  have n: "k \<notin> fst ` set (take n es)" if "map_of es k = None" for n
    using that by (auto simp: map_of_eq_None_iff dest: in_set_takeD)
  have lk: "length (filter (\<lambda>e. fst e \<noteq> k) es) < c" if "map_of es k = Some v" for v
    using length_filter_key [OF that] d(2) by simp
  show "list_lru_inv (fst (lr_get list_lru l k)) \<and> snd (lr_get list_lru l k) = map_of (lr_iter list_lru l) k \<and>
      lr_cap list_lru (fst (lr_get list_lru l k)) = lr_cap list_lru l \<and>
      lr_iter list_lru (fst (lr_get list_lru l k)) =
        (case map_of (lr_iter list_lru l) k of None \<Rightarrow> lr_iter list_lru l
         | Some v \<Rightarrow> (k, v) # filter (\<lambda>e. fst e \<noteq> k) (lr_iter list_lru l))"
    using d f lk by (cases "map_of es k") (auto simp: l list_lru_def list_lru_inv_def Suc_le_eq)
  show "list_lru_inv (lr_put list_lru l k v) \<and> lr_cap list_lru (lr_put list_lru l k v) = lr_cap list_lru l \<and>
      lr_iter list_lru (lr_put list_lru l k v) =
        (k, v) # (if map_of (lr_iter list_lru l) k = None then take (lr_cap list_lru l - 1) (lr_iter list_lru l)
                  else filter (\<lambda>e. fst e \<noteq> k) (lr_iter list_lru l))"
    using d f t n lk by (cases "map_of es k") (auto simp: l list_lru_def list_lru_inv_def Suc_le_eq)
  show "list_lru_inv (fst (lr_pop list_lru l k)) \<and> snd (lr_pop list_lru l k) = map_of (lr_iter list_lru l) k \<and>
      lr_cap list_lru (fst (lr_pop list_lru l k)) = lr_cap list_lru l \<and>
      lr_iter list_lru (fst (lr_pop list_lru l k)) = filter (\<lambda>e. fst e \<noteq> k) (lr_iter list_lru l)"
    using d f lf by (simp add: l list_lru_def list_lru_inv_def)
qed (auto simp: list_lru_def list_lru_inv_def)

subsection \<open>The query cache against its history\<close>

text \<open>
  The calls that change a query cache. \<open>qc_spec\<close> is what an unbounded cache would hold after them: for a key the
  last result put for it, unless it has been removed since.
\<close>

datatype 'c qc_op =
    Get instant QueryKey
  | Insert instant QueryKey "'c Substitution list"
  | Insert_Ttl instant QueryKey "'c Substitution list" duration
  | Invalidate QueryKey
  | Invalidate_Predicate string
  | Clear
  | Evict_Expired "QueryKey \<Rightarrow> instant"

fun qc_step :: "('l, 'c) query_lru \<Rightarrow> 'l QueryCache \<Rightarrow> 'c qc_op \<Rightarrow> 'l QueryCache" where
  "qc_step L qc (Get now key) = fst (qc_get L now qc key)"
| "qc_step L qc (Insert now key sols) = qc_insert L now qc key sols"
| "qc_step L qc (Insert_Ttl now key sols ttl) = qc_insert_with_ttl L now qc key sols ttl"
| "qc_step L qc (Invalidate key) = fst (qc_invalidate L qc key)"
| "qc_step L qc (Invalidate_Predicate name) = qc_invalidate_predicate L qc name"
| "qc_step L qc Clear = qc_clear L qc"
| "qc_step L qc (Evict_Expired clock) = fst (qc_evict_expired L clock qc)"

definition qc_run :: "('l, 'c) query_lru \<Rightarrow> 'l QueryCache \<Rightarrow> 'c qc_op list \<Rightarrow> 'l QueryCache" where
  "qc_run L qc ops = foldl (qc_step L) qc ops"

type_synonym 'c qc_map = "QueryKey \<Rightarrow> 'c CachedResult option"

definition drop_expired :: "(QueryKey \<Rightarrow> instant) \<Rightarrow> 'c qc_map \<Rightarrow> 'c qc_map" where
  "drop_expired clock m k = (case m k of Some r \<Rightarrow> if cr_is_expired (clock k) r then None else Some r | None \<Rightarrow> None)"

fun spec_step :: "duration option \<Rightarrow> 'c qc_map \<Rightarrow> 'c qc_op \<Rightarrow> 'c qc_map" where
  "spec_step ttl m (Get now key) = m(key := drop_expired (\<lambda>_. now) m key)"
| "spec_step ttl m (Insert now key sols) = m(key \<mapsto> cr_new now sols ttl)"
| "spec_step ttl m (Insert_Ttl now key sols t) = m(key \<mapsto> cr_new now sols (Some t))"
| "spec_step ttl m (Invalidate key) = m(key := None)"
| "spec_step ttl m (Invalidate_Predicate name) = (\<lambda>k. if predicate_name k = name then None else m k)"
| "spec_step ttl m Clear = (\<lambda>_. None)"
| "spec_step ttl m (Evict_Expired clock) = drop_expired clock m"

definition qc_spec :: "duration option \<Rightarrow> 'c qc_op list \<Rightarrow> 'c qc_map" where
  "qc_spec ttl ops = foldl (spec_step ttl) (\<lambda>_. None) ops"

fun op_key :: "'c qc_op \<Rightarrow> QueryKey list" where
  "op_key (Insert now key sols) = [key]"
| "op_key (Insert_Ttl now key sols ttl) = [key]"
| "op_key _ = []"

definition inserted_keys :: "'c qc_op list \<Rightarrow> QueryKey set" where
  "inserted_keys ops = set (concat (map op_key ops))"

fun is_get :: "'c qc_op \<Rightarrow> bool" where
  "is_get (Get now key) = True"
| "is_get _ = False"

lemma record_expirations [simp]:
  "cs_hits ((record_expiration ^^ n) s) = cs_hits s" "cs_misses ((record_expiration ^^ n) s) = cs_misses s"
  by (induction n) (simp_all add: record_expiration_def)

lemma qc_run_snoc: "qc_run L qc (ops @ [op]) = qc_step L (qc_run L qc ops) op"
  by (simp add: qc_run_def)

lemma qc_spec_snoc: "qc_spec ttl (ops @ [op]) = spec_step ttl (qc_spec ttl ops) op"
  by (simp add: qc_spec_def)

lemma inserted_keys_snoc: "inserted_keys (ops @ [op]) = inserted_keys ops \<union> set (op_key op)"
  by (auto simp: inserted_keys_def)

lemma finite_inserted_keys [simp]: "finite (inserted_keys ops)"
  by (simp add: inserted_keys_def)

lemma drop_expired_mono: "m \<subseteq>\<^sub>m m' \<Longrightarrow> drop_expired clock m \<subseteq>\<^sub>m drop_expired clock m'"
  unfolding map_le_def drop_expired_def dom_def by (auto split: option.splits)

lemma spec_step_mono: "m \<subseteq>\<^sub>m m' \<Longrightarrow> spec_step ttl m op \<subseteq>\<^sub>m spec_step ttl m' op"
proof (cases op)
  case (Get now key)
  assume le: "m \<subseteq>\<^sub>m m'"
  show ?thesis
    using le drop_expired_mono [OF le, of "\<lambda>_. now"] by (auto simp: Get map_le_def dom_def)
next
  case (Evict_Expired clock)
  assume "m \<subseteq>\<^sub>m m'"
  then show ?thesis by (simp add: Evict_Expired drop_expired_mono)
qed (auto simp: map_le_def dom_def)

lemma dom_spec: "dom (qc_spec ttl ops) \<subseteq> inserted_keys ops"
proof (induction ops rule: rev_induct)
  case (snoc op ops)
  have "dom (spec_step ttl m op) \<subseteq> dom m \<union> set (op_key op)" for m
    by (cases op) (auto simp: drop_expired_def split: option.splits if_splits)
  with snoc show ?case by (fastforce simp: qc_spec_snoc inserted_keys_snoc)
qed (simp add: qc_spec_def)

definition qc_view :: "('l, 'c) query_lru \<Rightarrow> 'l QueryCache \<Rightarrow> 'c qc_map" where
  "qc_view L qc = map_of (lr_iter L (qc_cache qc))"

locale query_cache = lru_cache L linv
  for L :: "('l, 'c) query_lru" and linv
begin

lemma pop_all_iter:
  assumes "linv l"
  shows "linv (pop_all L l ks) \<and> lr_cap L (pop_all L l ks) = lr_cap L l \<and>
    lr_iter L (pop_all L l ks) = filter (\<lambda>e. fst e \<notin> set ks) (lr_iter L l)"
  using assms
proof (induction ks arbitrary: l)
  case (Cons k ks)
  then show ?case using lru_pop [OF Cons.prems, of k] by (simp add: pop_all_def)
qed (simp add: pop_all_def)

lemma pop_all_ok: "linv l \<Longrightarrow> linv (pop_all L l ks)" "linv l \<Longrightarrow> lr_cap L (pop_all L l ks) = lr_cap L l"
  using pop_all_iter by simp_all

lemma view_pop_all:
  assumes "linv (qc_cache qc)"
  shows "map_of (lr_iter L (pop_all L (qc_cache qc) (map fst (filter (\<lambda>(k, r). P k r) (lr_iter L (qc_cache qc)))))) k =
    (case qc_view L qc k of Some r \<Rightarrow> if P k r then None else Some r | None \<Rightarrow> None)"
proof -
  have "k \<in> set (map fst (filter (\<lambda>(k, r). P k r) (lr_iter L (qc_cache qc)))) \<longleftrightarrow>
      (\<exists>r. qc_view L qc k = Some r \<and> P k r)"
    using lru_bounds [OF assms] by (force simp: qc_view_def)
  then show ?thesis
    by (auto simp: pop_all_iter [OF assms] map_of_filter_keys [of "\<lambda>k. k \<notin> _"] qc_view_def split: option.split)
qed

lemma length_view: "linv (qc_cache qc) \<Longrightarrow> length (lr_iter L (qc_cache qc)) = card (dom (qc_view L qc))"
  using lru_bounds [of "qc_cache qc"] distinct_card [of "map fst (lr_iter L (qc_cache qc))"]
  by (simp add: qc_view_def dom_map_of_conv_image_fst)

lemma finite_view [simp]: "finite (dom (qc_view L qc))"
  by (simp add: qc_view_def finite_dom_map_of)

text \<open>A put has room if its key is present or the cache is not full.\<close>

lemma qc_put_view:
  assumes "linv (qc_cache qc)"
  shows "linv (qc_cache (qc_put L qc k r))" "lr_cap L (qc_cache (qc_put L qc k r)) = lr_cap L (qc_cache qc)"
    "qc_view L (qc_put L qc k r) \<subseteq>\<^sub>m (qc_view L qc)(k \<mapsto> r)"
    "k \<in> dom (qc_view L qc) \<or> card (dom (qc_view L qc)) < lr_cap L (qc_cache qc) \<Longrightarrow>
       qc_view L (qc_put L qc k r) = (qc_view L qc)(k \<mapsto> r)"
proof -
  let ?es = "lr_iter L (qc_cache qc)"
  note put = lru_put [OF assms, of k r]
  show "linv (qc_cache (qc_put L qc k r))" "lr_cap L (qc_cache (qc_put L qc k r)) = lr_cap L (qc_cache qc)"
    using put by (simp_all add: qc_put_def)
  have v: "qc_view L (qc_put L qc k r) =
      (if map_of ?es k = None then map_of (take (lr_cap L (qc_cache qc) - 1) ?es) else map_of (filter (\<lambda>e. fst e \<noteq> k) ?es))(k \<mapsto> r)"
    using put by (simp add: qc_view_def qc_put_def)
  have t: "map_of (take n ?es) \<subseteq>\<^sub>m map_of ?es" for n
    by (metis append_take_drop_id map_le_map_add map_of_append)
  have f: "(map_of (filter (\<lambda>e. fst e \<noteq> k) ?es))(k \<mapsto> r) = (map_of ?es)(k \<mapsto> r)"
    by (auto simp: fun_eq_iff map_of_filter_keys [of "\<lambda>x. x \<noteq> k"])
  show "qc_view L (qc_put L qc k r) \<subseteq>\<^sub>m (qc_view L qc)(k \<mapsto> r)"
    unfolding v using t f by (simp add: qc_view_def map_le_upd)
  show "qc_view L (qc_put L qc k r) = (qc_view L qc)(k \<mapsto> r)"
    if "k \<in> dom (qc_view L qc) \<or> card (dom (qc_view L qc)) < lr_cap L (qc_cache qc)"
    unfolding v using that f length_view [OF assms] by (auto simp: qc_view_def)
qed

lemma qc_get_view:
  assumes "linv (qc_cache qc)"
  shows "linv (qc_cache (fst (qc_get L now qc k)))" "lr_cap L (qc_cache (fst (qc_get L now qc k))) = lr_cap L (qc_cache qc)"
    "qc_view L (fst (qc_get L now qc k)) = (qc_view L qc)(k := drop_expired (\<lambda>_. now) (qc_view L qc) k)"
    "snd (qc_get L now qc k) = map_option cr_solutions (drop_expired (\<lambda>_. now) (qc_view L qc) k)"
proof -
  note get = lru_get [OF assms, of k]
  obtain l r where l: "lr_get L (qc_cache qc) k = (l, r)" by fastforce
  have inv: "linv l" "lr_cap L l = lr_cap L (qc_cache qc)" and r: "r = qc_view L qc k"
    using get l by (simp_all add: qc_view_def)
  note pop = lru_pop [OF inv(1), of k]
  show "linv (qc_cache (fst (qc_get L now qc k)))" "lr_cap L (qc_cache (fst (qc_get L now qc k))) = lr_cap L (qc_cache qc)"
    using inv pop by (auto simp: qc_get_def l split: option.split)
  have v: "map_of (lr_iter L l) = qc_view L qc"
    using get l by (auto simp: qc_view_def fun_eq_iff map_of_filter_keys [of "\<lambda>x. x \<noteq> k"] split: option.splits)
  have p: "map_of (lr_iter L (fst (lr_pop L l k))) = (qc_view L qc)(k := None)"
    using pop v by (auto simp: fun_eq_iff map_of_filter_keys [of "\<lambda>x. x \<noteq> k"])
  show "qc_view L (fst (qc_get L now qc k)) = (qc_view L qc)(k := drop_expired (\<lambda>_. now) (qc_view L qc) k)"
    using v p by (auto simp: qc_get_def l r drop_expired_def qc_view_def [of _ "_ :: 'l QueryCache"] fun_eq_iff split: option.split)
  show "snd (qc_get L now qc k) = map_option cr_solutions (drop_expired (\<lambda>_. now) (qc_view L qc) k)"
    by (auto simp: qc_get_def l r drop_expired_def split: option.split)
qed

lemma pop_all_step:
  assumes "linv (qc_cache qc)" "qc_cache qc' = pop_all L (qc_cache qc) (map fst (filter (\<lambda>(k, r). P k r) (lr_iter L (qc_cache qc))))"
  shows "linv (qc_cache qc')" "lr_cap L (qc_cache qc') = lr_cap L (qc_cache qc)"
    "qc_view L qc' = (\<lambda>k. case qc_view L qc k of Some r \<Rightarrow> if P k r then None else Some r | None \<Rightarrow> None)"
proof -
  show "linv (qc_cache qc')" "lr_cap L (qc_cache qc') = lr_cap L (qc_cache qc)"
    using assms pop_all_ok by simp_all
  show "qc_view L qc' = (\<lambda>k. case qc_view L qc k of Some r \<Rightarrow> if P k r then None else Some r | None \<Rightarrow> None)"
    using view_pop_all [OF assms(1), of P] by (simp add: fun_eq_iff qc_view_def [of _ qc'] assms(2))
qed

text \<open>One call: the cache follows the unbounded one, and coincides with it if it has room.\<close>

lemma qc_step_follows:
  assumes "linv (qc_cache qc)"
  shows "linv (qc_cache (qc_step L qc op)) \<and> lr_cap L (qc_cache (qc_step L qc op)) = lr_cap L (qc_cache qc) \<and>
    qc_default_ttl (qc_step L qc op) = qc_default_ttl qc \<and>
    qc_view L (qc_step L qc op) \<subseteq>\<^sub>m spec_step (qc_default_ttl qc) (qc_view L qc) op \<and>
    (set (op_key op) \<subseteq> dom (qc_view L qc) \<or> card (dom (qc_view L qc)) < lr_cap L (qc_cache qc) \<longrightarrow>
       qc_view L (qc_step L qc op) = spec_step (qc_default_ttl qc) (qc_view L qc) op)"
proof (cases op)
  case (Get now key)
  then show ?thesis
    using qc_get_view [OF assms, of now key] by (auto simp: qc_get_def split: prod.split option.split)
next
  case (Insert now key sols)
  then show ?thesis
    using qc_put_view [OF assms, of key "cr_new now sols (qc_default_ttl qc)"] by (auto simp: qc_insert_def qc_put_def Let_def)
next
  case (Insert_Ttl now key sols ttl)
  then show ?thesis
    using qc_put_view [OF assms, of key "cr_new now sols (Some ttl)"] by (auto simp: qc_insert_with_ttl_def qc_put_def Let_def)
next
  case (Invalidate key)
  have "map_of (filter (\<lambda>e. fst e \<noteq> key) (lr_iter L (qc_cache qc))) = (qc_view L qc)(key := None)"
    by (auto simp: fun_eq_iff map_of_filter_keys [of "\<lambda>x. x \<noteq> key"] qc_view_def)
  then show ?thesis
    using lru_pop [OF assms, of key] by (auto simp: Invalidate qc_invalidate_def qc_view_def split: prod.split)
next
  case (Invalidate_Predicate name)
  show ?thesis
    using pop_all_step [OF assms, of "qc_invalidate_predicate L qc name" "\<lambda>k r. predicate_name k = name"]
    by (auto simp: Invalidate_Predicate qc_invalidate_predicate_def map_le_def fun_eq_iff split: option.split)
next
  case Clear
  then show ?thesis using lru_clear [OF assms] by (simp add: qc_clear_def qc_view_def)
next
  case (Evict_Expired clock)
  have "(\<lambda>k. case qc_view L qc k of Some r \<Rightarrow> if cr_is_expired (clock k) r then None else Some r | None \<Rightarrow> None) =
      drop_expired clock (qc_view L qc)"
    by (simp add: fun_eq_iff drop_expired_def)
  then show ?thesis
    using pop_all_step [OF assms, of "fst (qc_evict_expired L clock qc)" "\<lambda>k r. cr_is_expired (clock k) r"]
    by (simp add: Evict_Expired qc_evict_expired_def)
qed

lemma qc_run_follows:
  assumes "linv (qc_cache qc)" "qc_view L qc = (\<lambda>_. None)"
  shows "linv (qc_cache (qc_run L qc ops)) \<and> lr_cap L (qc_cache (qc_run L qc ops)) = lr_cap L (qc_cache qc) \<and>
    qc_default_ttl (qc_run L qc ops) = qc_default_ttl qc \<and>
    qc_view L (qc_run L qc ops) \<subseteq>\<^sub>m qc_spec (qc_default_ttl qc) ops"
proof (induction ops rule: rev_induct)
  case (snoc op ops)
  then show ?case
    using qc_step_follows [of "qc_run L qc ops" op] spec_step_mono [of "qc_view L (qc_run L qc ops)"]
    by (auto simp: qc_run_snoc qc_spec_snoc intro: map_le_trans)
qed (simp add: qc_run_def qc_spec_def assms)

lemma qc_run_exact:
  assumes "linv (qc_cache qc)" "qc_view L qc = (\<lambda>_. None)" "card (inserted_keys ops) \<le> lr_cap L (qc_cache qc)"
  shows "qc_view L (qc_run L qc ops) = qc_spec (qc_default_ttl qc) ops"
  using assms(3)
proof (induction ops rule: rev_induct)
  case (snoc op ops)
  let ?qc = "qc_run L qc ops" and ?ks = "inserted_keys (ops @ [op])"
  have sub: "inserted_keys ops \<subseteq> ?ks" by (auto simp: inserted_keys_snoc)
  then have IH: "qc_view L ?qc = qc_spec (qc_default_ttl qc) ops"
    using snoc card_mono [OF finite_inserted_keys sub] by simp
  have run: "linv (qc_cache ?qc)" "lr_cap L (qc_cache ?qc) = lr_cap L (qc_cache qc)" "qc_default_ttl ?qc = qc_default_ttl qc"
    using qc_run_follows [OF assms(1,2)] by simp_all
  have d: "dom (qc_view L ?qc) \<union> set (op_key op) \<subseteq> ?ks" unfolding IH inserted_keys_snoc using dom_spec by fast
  have "set (op_key op) \<subseteq> dom (qc_view L ?qc) \<or> card (dom (qc_view L ?qc)) < lr_cap L (qc_cache ?qc)"
  proof (rule disjCI)
    assume "\<not> card (dom (qc_view L ?qc)) < lr_cap L (qc_cache ?qc)"
    then have "card ?ks \<le> card (dom (qc_view L ?qc))" using snoc.prems run(2) by simp
    then have "dom (qc_view L ?qc) = ?ks" using d card_seteq [OF finite_inserted_keys, of "dom (qc_view L ?qc)" "ops @ [op]"] by blast
    then show "set (op_key op) \<subseteq> dom (qc_view L ?qc)" using d by blast
  qed
  then show ?case using qc_step_follows [OF run(1), of op] run(3) by (simp add: qc_run_snoc qc_spec_snoc IH)
qed (simp add: qc_run_def qc_spec_def assms)

lemma qc_run_stats:
  "cs_hits (qc_stats (qc_run L qc ops)) + cs_misses (qc_stats (qc_run L qc ops)) =
   cs_hits (qc_stats qc) + cs_misses (qc_stats qc) + of_nat (length (filter is_get ops))"
proof (induction ops rule: rev_induct)
  case (snoc op ops)
  have "cs_hits (qc_stats (qc_step L q op)) + cs_misses (qc_stats (qc_step L q op)) =
      cs_hits (qc_stats q) + cs_misses (qc_stats q) + (if is_get op then 1 else 0)" for q
    by (cases op) (auto simp: qc_get_def qc_insert_def qc_insert_with_ttl_def qc_put_def qc_invalidate_def
        qc_invalidate_predicate_def qc_clear_def qc_evict_expired_def record_hit_def record_miss_def
        record_eviction_def record_expiration_def Let_def split: prod.split option.split)
  with snoc show ?case by (simp add: qc_run_snoc)
qed (simp add: qc_run_def)

end

interpretation list_query: query_cache list_lru list_lru_inv
  by unfold_locales

text \<open>
  (C28) The query cache refines a cache without a bound. After any calls, a result it returns is the last
  one put for the key, not removed since and not expired; it holds no more entries than its capacity;
  hits and misses add up to the lookups (modulo \<open>2^64\<close>). As long as no more keys have been put than the
  capacity, a lookup returns exactly what the unbounded cache holds.
\<close>

theorem query_cache_refines:
  fixes L :: "('l, 'c) query_lru"
  assumes "lru_cache L linv" and qc0: "qc0 = qc_new L capacity \<or> qc0 = qc_with_ttl L capacity ttl"
    and qc: "qc = qc_run L qc0 ops"
  shows "(\<forall>now k s. snd (qc_get L now qc k) = Some s \<longrightarrow>
      (\<exists>r. qc_spec (qc_default_ttl qc0) ops k = Some r \<and> \<not> cr_is_expired now r \<and> s = cr_solutions r)) \<and>
    qc_len L qc \<le> (if capacity = 0 then 100 else capacity) \<and>
    cs_hits (qc_stats qc) + cs_misses (qc_stats qc) = of_nat (length (filter is_get ops)) \<and>
    (card (inserted_keys ops) \<le> qc_capacity L qc0 \<longrightarrow>
      (\<forall>now k. snd (qc_get L now qc k) = map_option cr_solutions (drop_expired (\<lambda>_. now) (qc_spec (qc_default_ttl qc0) ops) k)))"
proof -
  have q: "query_cache L linv" using assms(1) by (simp add: query_cache_def)
  have init: "linv (qc_cache qc0)" "qc_view L qc0 = (\<lambda>_. None)" "lr_cap L (qc_cache qc0) = (if capacity = 0 then 100 else capacity)"
    "qc_stats qc0 = cs_new"
    using qc0 lru_cache.lru_new [OF assms(1)] by (auto simp: qc_new_def qc_with_ttl_def qc_view_def)
  note run = query_cache.qc_run_follows [OF q init(1,2), of ops, folded qc]
  note inv = run [THEN conjunct1]
  have get: "snd (qc_get L now qc k) = map_option cr_solutions (drop_expired (\<lambda>_. now) (qc_view L qc) k)" for now k
    by (rule query_cache.qc_get_view(4) [OF q inv])
  have "\<exists>r. qc_spec (qc_default_ttl qc0) ops k = Some r \<and> \<not> cr_is_expired now r \<and> s = cr_solutions r"
    if "snd (qc_get L now qc k) = Some s" for now k s
    using that run by (auto simp: get drop_expired_def map_le_def dom_def split: option.splits if_splits)
  moreover have "qc_len L qc \<le> (if capacity = 0 then 100 else capacity)"
    using lru_cache.lru_len [OF assms(1) inv] lru_cache.lru_bounds [OF assms(1) inv] run init(3) by (simp add: qc_len_def)
  moreover have "cs_hits (qc_stats qc) + cs_misses (qc_stats qc) = of_nat (length (filter is_get ops))"
    using query_cache.qc_run_stats [OF q, of qc0 ops, folded qc] by (simp add: init(4) cs_new_def)
  moreover have "snd (qc_get L now qc k) = map_option cr_solutions (drop_expired (\<lambda>_. now) (qc_spec (qc_default_ttl qc0) ops) k)"
    if "card (inserted_keys ops) \<le> qc_capacity L qc0" for now k
    using query_cache.qc_run_exact [OF q init(1,2), of ops, folded qc] that by (simp add: get qc_capacity_def)
  ultimately show ?thesis by blast
qed

definition example_key :: QueryKey where
  "example_key = \<lparr>predicate_name = ''p'', ground_args = [GVariable]\<rparr>"

theorem query_cache_refines_witness:
  "snd (qc_get list_lru 7 (qc_run list_lru (qc_with_ttl list_lru 2 5) [Insert 3 example_key [[(''X'', Var ''Y'' :: nat Term)]], Get 4 example_key]) example_key) =
     Some [[(''X'', Var ''Y'')]] \<and>
   snd (qc_get list_lru 9 (qc_run list_lru (qc_with_ttl list_lru 2 5) [Insert 3 example_key [[(''X'', Var ''Y'' :: nat Term)]], Get 4 example_key]) example_key) = None"
proof -
  let ?ops = "[Insert 3 example_key [[(''X'', Var ''Y'' :: nat Term)]], Get 4 example_key]"
  have "inserted_keys ?ops = {example_key}" by (simp add: inserted_keys_def)
  then show ?thesis
    using query_cache_refines [OF list_lru.lru_cache_axioms disjI2 [OF refl] refl, of 2 5 ?ops]
    by (simp add: qc_capacity_def qc_with_ttl_def list_lru_def qc_spec_def drop_expired_def cr_new_def cr_is_expired_def)
qed

subsection \<open>Remote facts against their history\<close>

datatype 'c rc_op =
    Add instant "nat \<Rightarrow> instant" "'c Predicate" "'c option" duration
  | Invalidate_Facts string
  | Clear_Facts
  | Evict_Facts "string \<Rightarrow> nat \<Rightarrow> instant"

fun rc_step :: "'c RemoteFactCache \<Rightarrow> 'c rc_op \<Rightarrow> 'c RemoteFactCache" where
  "rc_step rc (Add now clock p source ttl) = fst (rc_add_fact_with_ttl now clock rc p source ttl)"
| "rc_step rc (Invalidate_Facts name) = rc_invalidate_predicate rc name"
| "rc_step rc Clear_Facts = rc_clear rc"
| "rc_step rc (Evict_Facts clock) = fst (rc_evict_expired clock rc)"

definition rc_run :: "'c RemoteFactCache \<Rightarrow> 'c rc_op list \<Rightarrow> 'c RemoteFactCache" where
  "rc_run rc ops = foldl rc_step rc ops"

definition added :: "'c rc_op list \<Rightarrow> 'c RemoteFact set" where
  "added ops = {rf_new now p source ttl | now clock p source ttl. Add now clock p source ttl \<in> set ops}"

text \<open>The vector of a predicate, empty if there is none.\<close>

definition bucket :: "'c RemoteFactCache \<Rightarrow> string \<Rightarrow> 'c RemoteFact list" where
  "bucket rc name = (case map_of (rc_facts rc) name of Some fs \<Rightarrow> fs | None \<Rightarrow> [])"

lemma unexpired_Nil [simp]: "unexpired clock [] = []"
  by (simp add: unexpired_def)

lemma set_unexpired: "set (unexpired clock fs) = {fs ! i | i. i < length fs \<and> \<not> rf_is_expired (clock i) (fs ! i)}"
  by (force simp: unexpired_def in_set_conv_nth enumerate_map_nth)

lemma unexpired_subset: "f \<in> set (unexpired clock fs) \<Longrightarrow> f \<in> set fs"
  by (auto simp: set_unexpired)

lemma length_unexpired: "length (unexpired clock fs) \<le> length fs"
  unfolding unexpired_def length_map using length_filter_le [of _ "enumerate 0 fs"] by simp

lemma bucket_add:
  assumes "0 < rc_max_per_predicate rc"
  shows "\<exists>old. snd (rc_add_fact_with_ttl now clock rc p source ttl) = Ok () \<and>
    rc_max_per_predicate (fst (rc_add_fact_with_ttl now clock rc p source ttl)) = rc_max_per_predicate rc \<and>
    bucket (fst (rc_add_fact_with_ttl now clock rc p source ttl)) =
      (bucket rc)(p_name p := old @ [rf_new now p source ttl]) \<and>
    set old \<subseteq> set (bucket rc (p_name p)) \<and> length old < max (rc_max_per_predicate rc) (length (bucket rc (p_name p)))"
proof -
  let ?e = "unexpired clock (bucket rc (p_name p))"
  have l: "length ?e \<le> length (bucket rc (p_name p))" and s: "set ?e \<subseteq> set (bucket rc (p_name p))"
    using length_unexpired unexpired_subset by blast+
  show ?thesis
  proof (cases "rc_max_per_predicate rc \<le> length ?e")
    case True
    then obtain f rest where r: "sort_key rf_fetched_at ?e = f # rest"
      using assms by (cases "sort_key rf_fetched_at ?e") (auto dest: arg_cong [where f = length])
    then have "set (f # rest) = set ?e" "length (f # rest) = length ?e" by (metis set_sort, metis length_sort)
    then show ?thesis
      using True r l s
      by (intro exI [of _ rest]) (auto simp: rc_add_fact_with_ttl_def bucket_def Let_def fun_eq_iff)
  next
    case False
    then show ?thesis
      using l s by (intro exI [of _ ?e]) (auto simp: rc_add_fact_with_ttl_def bucket_def Let_def fun_eq_iff)
  qed
qed

lemma bucket_step:
  "bucket (rc_invalidate_predicate rc name) = (bucket rc)(name := [])"
  "bucket (rc_clear rc) = (\<lambda>_. [])"
  "bucket (fst (rc_evict_expired clock rc)) = (\<lambda>name. unexpired (clock name) (bucket rc name))"
proof -
  have "map_of (map (\<lambda>(name, entry). (name, unexpired (clock name) entry)) fs) n = map_option (unexpired (clock n)) (map_of fs n)"
    for fs :: "(string \<times> 'a RemoteFact list) list" and n
    by (induction fs) auto
  then show "bucket (fst (rc_evict_expired clock rc)) = (\<lambda>name. unexpired (clock name) (bucket rc name))"
    by (auto simp: bucket_def rc_evict_expired_def Let_def fun_eq_iff split: option.split)
qed (auto simp: bucket_def rc_invalidate_predicate_def rc_clear_def)

lemma max_step:
  "rc_max_per_predicate (rc_invalidate_predicate rc name) = rc_max_per_predicate rc"
  "rc_max_per_predicate (rc_clear rc) = rc_max_per_predicate rc"
  "rc_max_per_predicate (fst (rc_evict_expired clock rc)) = rc_max_per_predicate rc"
  by (simp_all add: rc_invalidate_predicate_def rc_clear_def rc_evict_expired_def Let_def)

lemma rc_run_ok:
  assumes "0 < capacity"
  shows "rc_max_per_predicate (rc_run (rc_new capacity ttl) ops) = capacity \<and>
    (\<forall>name. length (bucket (rc_run (rc_new capacity ttl) ops) name) \<le> capacity \<and>
      (\<forall>f \<in> set (bucket (rc_run (rc_new capacity ttl) ops) name). p_name (rf_fact f) = name \<and> f \<in> added ops))"
proof (induction ops rule: rev_induct)
  case Nil
  then show ?case by (simp add: rc_run_def rc_new_def bucket_def)
next
  case (snoc op ops)
  let ?rc = "rc_run (rc_new capacity ttl) ops"
  have run: "rc_run (rc_new capacity ttl) (ops @ [op]) = rc_step ?rc op" by (simp add: rc_run_def)
  have mono: "added ops \<subseteq> added (ops @ [op])" by (fastforce simp: added_def)
  have IH: "length (bucket ?rc name) \<le> capacity" "f \<in> set (bucket ?rc name) \<Longrightarrow> p_name (rf_fact f) = name \<and> f \<in> added (ops @ [op])"
    "rc_max_per_predicate ?rc = capacity" for name f
    using snoc mono by auto
  show ?case
  proof (cases op)
    case (Add now clock p source t)
    from bucket_add [of ?rc now clock p source t] IH(3) assms obtain old where
      old: "rc_max_per_predicate (rc_step ?rc op) = capacity"
        "bucket (rc_step ?rc op) = (bucket ?rc)(p_name p := old @ [rf_new now p source t])"
        "set old \<subseteq> set (bucket ?rc (p_name p))" "length old < max capacity (length (bucket ?rc (p_name p)))"
      by (auto simp: Add)
    have "length old < capacity" using old(4) IH(1) [of "p_name p"] by simp
    moreover have "rf_new now p source t \<in> added (ops @ [op])" unfolding added_def Add by fastforce
    ultimately show ?thesis unfolding run using old IH(1,2) by (auto simp: rf_new_def)
  next
    case (Evict_Facts clock)
    have "length (unexpired c (bucket ?rc name)) \<le> capacity" for c name
      using length_unexpired IH(1) le_trans by blast
    then show ?thesis unfolding run using IH by (auto simp: Evict_Facts bucket_step max_step dest: unexpired_subset)
  qed (unfold run, use IH in \<open>auto simp: bucket_step max_step\<close>)
qed

text \<open>
  The cache of remote facts is bounded and fresh. With a positive capacity, whatever the calls: a
  predicate has at most that many facts; a fact found for a predicate is one of it that was added and
  has not expired; adding a fact succeeds, and the fact is found while its time to live lasts.
\<close>

theorem remote_facts_fresh:
  assumes "0 < capacity" and rc: "rc = rc_run (rc_new capacity ttl) ops"
  shows "(\<forall>name. length (bucket rc name) \<le> capacity) \<and>
    (\<forall>clock name p. p \<in> set (snd (rc_get_facts clock rc name)) \<longrightarrow>
       p_name p = name \<and> (\<exists>now c source t i. Add now c p source t \<in> set ops \<and> clock i - now \<le> t)) \<and>
    (\<forall>now clock p source t. snd (rc_add_fact_with_ttl now clock rc p source t) = Ok () \<and>
       (\<forall>clock'. (\<forall>i. clock' i - now \<le> t) \<longrightarrow>
          p \<in> set (snd (rc_get_facts clock' (fst (rc_add_fact_with_ttl now clock rc p source t)) (p_name p)))))"
proof -
  have get: "set (snd (rc_get_facts clock rc name)) = rf_fact ` set (unexpired clock (bucket rc name))" for clock rc and name
    by (auto simp: rc_get_facts_def bucket_def split: option.split)
  note ok = rc_run_ok [OF assms(1), of ttl ops, folded rc]
  have fresh: "p_name p = name \<and> (\<exists>now c source t i. Add now c p source t \<in> set ops \<and> clock i - now \<le> t)"
    if "p \<in> set (snd (rc_get_facts clock rc name))" for clock name p
  proof -
    from that obtain i where i: "i < length (bucket rc name)" "\<not> rf_is_expired (clock i) (bucket rc name ! i)" "p = rf_fact (bucket rc name ! i)"
      by (auto simp: get set_unexpired)
    then have "p_name p = name" "bucket rc name ! i \<in> added ops" using ok nth_mem [OF i(1)] by blast+
    then obtain now c q source t where "Add now c q source t \<in> set ops" "bucket rc name ! i = rf_new now q source t"
      by (auto simp: added_def)
    moreover from this(2) i(2,3) have "p = q" "clock i - now \<le> t" by (simp_all add: rf_new_def rf_is_expired_def)
    ultimately show ?thesis using \<open>p_name p = name\<close> by blast
  qed
  have add: "snd (rc_add_fact_with_ttl now clock rc p source t) = Ok ()"
    "(\<forall>i. clock' i - now \<le> t) \<Longrightarrow> p \<in> set (snd (rc_get_facts clock' (fst (rc_add_fact_with_ttl now clock rc p source t)) (p_name p)))"
    for now clock p source t clock'
  proof -
    from bucket_add [of rc now clock p source t] ok assms(1) obtain old where
      old: "snd (rc_add_fact_with_ttl now clock rc p source t) = Ok ()"
        "bucket (fst (rc_add_fact_with_ttl now clock rc p source t)) (p_name p) = old @ [rf_new now p source t]" by auto
    then show "snd (rc_add_fact_with_ttl now clock rc p source t) = Ok ()" by simp
    show "p \<in> set (snd (rc_get_facts clock' (fst (rc_add_fact_with_ttl now clock rc p source t)) (p_name p)))"
      if "\<forall>i. clock' i - now \<le> t"
      using that unfolding get old(2) set_unexpired
      by (intro image_eqI [of _ _ "rf_new now p source t"], simp add: rf_new_def)
        (auto simp: rf_new_def rf_is_expired_def not_less intro!: exI [of _ "length old"])
  qed
  show ?thesis using ok fresh add by (intro conjI allI impI) simp_all
qed

theorem remote_facts_fresh_witness:
  "(\<exists>rc. rc = rc_run (rc_new 1 9) [Add 0 (\<lambda>_. 0) (pred_new ''p'' [Const (CInt 1)] :: nat Predicate) None 9, Add 1 (\<lambda>_. 1) (pred_new ''p'' [Const (CInt 2)]) None 9] \<and>
     length (bucket rc ''p'') \<le> 1 \<and> snd (rc_get_facts (\<lambda>_. 5) rc ''p'') = [pred_new ''p'' [Const (CInt 2)]])"
proof -
  let ?ops = "[Add 0 (\<lambda>_. 0) (pred_new ''p'' [Const (CInt 1)] :: nat Predicate) None 9, Add 1 (\<lambda>_. 1) (pred_new ''p'' [Const (CInt 2)]) None 9]"
  have "snd (rc_get_facts (\<lambda>_. 5) (rc_run (rc_new 1 9) ?ops) ''p'') = [pred_new ''p'' [Const (CInt 2)]]" by code_simp
  then show ?thesis using remote_facts_fresh [of 1 "rc_run (rc_new 1 9) ?ops" 9 ?ops] by simp
qed

text \<open>With a capacity of 0 the first fact of a predicate panics.\<close>

lemma rc_zero_capacity_panics: "snd (rc_add_fact_with_ttl now clock (rc_new 0 ttl) p source t) = Panic"
  by (simp add: rc_add_fact_with_ttl_def rc_new_def)

end
