(* ===== verification/Memo_Engine.thy ===== *)
theory Memo_Engine
  imports Query_Cache
begin

text \<open>
  The inference engine with a query cache and the distributed reasoner (\<open>MemoizedInferenceEngine\<close> and
  \<open>DistributedReasoner\<close> of \<open>ipfrs-tensorlogic/src/reasoning.rs\<close>). The cache manager is shared and changed in place; a
  query returns it updated. \<open>now\<close> and \<open>later\<close> are the readings of the clock by the lookup and the insertion.
\<close>

subsection \<open>The code\<close>

definition cached_query ::
    "('l, 'c) query_lru \<Rightarrow> (string \<Rightarrow> u64 option) \<Rightarrow> instant \<Rightarrow> instant \<Rightarrow> nat \<Rightarrow> InferenceEngine \<Rightarrow> ('l, 'c) CacheManager
       \<Rightarrow> 'c Predicate \<Rightarrow> 'c KnowledgeBase \<Rightarrow> ('l, 'c) CacheManager \<times> (core_error, 'c Substitution list) outcome" where
  "cached_query L bits now later fuel eng cm goal kb =
     (let key = qk_from_predicate bits goal;
          (qc, found) = qc_get L now (cm_query_cache cm) key;
          cm = cm\<lparr>cm_query_cache := qc\<rparr> in
      case found of
        Some cached \<Rightarrow> (cm, Ok cached)
      | None \<Rightarrow>
          sbind (cm, query fuel eng goal kb) (\<lambda>cm solutions.
            (if solutions = [] then cm else cm\<lparr>cm_query_cache := qc_insert L later (cm_query_cache cm) key solutions\<rparr>,
             Ok solutions)))"

record ('l, 'c) MemoizedInferenceEngine =
  me_engine :: InferenceEngine
  me_cache :: "('l, 'c) CacheManager"

definition me_new :: "('l, 'c) CacheManager \<Rightarrow> ('l, 'c) MemoizedInferenceEngine" where
  "me_new cache = \<lparr>me_engine = ie_new, me_cache = cache\<rparr>"

definition me_with_limits :: "nat \<Rightarrow> nat \<Rightarrow> ('l, 'c) CacheManager \<Rightarrow> ('l, 'c) MemoizedInferenceEngine" where
  "me_with_limits depth sols cache = \<lparr>me_engine = ie_with_limits depth sols, me_cache = cache\<rparr>"

definition me_query ::
    "('l, 'c) query_lru \<Rightarrow> (string \<Rightarrow> u64 option) \<Rightarrow> instant \<Rightarrow> instant \<Rightarrow> nat \<Rightarrow> ('l, 'c) MemoizedInferenceEngine
       \<Rightarrow> 'c Predicate \<Rightarrow> 'c KnowledgeBase
       \<Rightarrow> ('l, 'c) MemoizedInferenceEngine \<times> (core_error, 'c Substitution list) outcome" where
  "me_query L bits now later fuel me goal kb =
     (let (cm, r) = cached_query L bits now later fuel (me_engine me) (me_cache me) goal kb in (me\<lparr>me_cache := cm\<rparr>, r))"

definition me_prove ::
    "nat \<Rightarrow> ('l, 'c) MemoizedInferenceEngine \<Rightarrow> 'c Predicate \<Rightarrow> 'c KnowledgeBase \<Rightarrow> (core_error, 'c Proof option) outcome" where
  "me_prove fuel me goal kb = prove fuel (me_engine me) goal kb"

definition me_cache_stats :: "('l, 'c) query_lru \<Rightarrow> ('l, 'c) MemoizedInferenceEngine \<Rightarrow> CombinedCacheStats" where
  "me_cache_stats L me = cm_stats L (me_cache me)"

definition me_clear_cache :: "('l, 'c) query_lru \<Rightarrow> ('l, 'c) MemoizedInferenceEngine \<Rightarrow> ('l, 'c) MemoizedInferenceEngine" where
  "me_clear_cache L me =
     me\<lparr>me_cache := (me_cache me)\<lparr>cm_query_cache := qc_clear L (cm_query_cache (me_cache me))\<rparr>\<rparr>"

record ('l, 'c) DistributedReasoner =
  dr_engine :: InferenceEngine
  dr_cache :: "('l, 'c) CacheManager option"
  dr_decompositions :: "'c GoalDecomposition list"

definition dr_new :: "('l, 'c) DistributedReasoner" where
  "dr_new = \<lparr>dr_engine = ie_new, dr_cache = None, dr_decompositions = []\<rparr>"

definition dr_with_cache :: "('l, 'c) CacheManager \<Rightarrow> ('l, 'c) DistributedReasoner" where
  "dr_with_cache cache = \<lparr>dr_engine = ie_new, dr_cache = Some cache, dr_decompositions = []\<rparr>"

definition dr_query ::
    "('l, 'c) query_lru \<Rightarrow> (string \<Rightarrow> u64 option) \<Rightarrow> instant \<Rightarrow> instant \<Rightarrow> nat \<Rightarrow> ('l, 'c) DistributedReasoner
       \<Rightarrow> 'c Predicate \<Rightarrow> 'c KnowledgeBase \<Rightarrow> ('l, 'c) DistributedReasoner \<times> (core_error, 'c Substitution list) outcome" where
  "dr_query L bits now later fuel dr goal kb =
     (case dr_cache dr of
        Some cache \<Rightarrow>
          let (cm, r) = cached_query L bits now later fuel (dr_engine dr) cache goal kb in (dr\<lparr>dr_cache := Some cm\<rparr>, r)
      | None \<Rightarrow> (dr, query fuel (dr_engine dr) goal kb))"

definition dr_prove ::
    "nat \<Rightarrow> ('l, 'c) DistributedReasoner \<Rightarrow> 'c Predicate \<Rightarrow> 'c KnowledgeBase \<Rightarrow> (core_error, 'c Proof option) outcome" where
  "dr_prove fuel dr goal kb = prove fuel (dr_engine dr) goal kb"

definition prove_with_decomposition ::
    "nat \<Rightarrow> nat \<Rightarrow> ('l, 'c) DistributedReasoner \<Rightarrow> 'c Predicate \<Rightarrow> 'c KnowledgeBase
       \<Rightarrow> ('l, 'c) DistributedReasoner \<times> (core_error, 'c Proof option \<times> 'c GoalDecomposition list) outcome" where
  "prove_with_decomposition n fuel dr goal kb =
     (let (ds, r) = prove_tracking n fuel goal kb 0 [] in
      sbind (dr\<lparr>dr_decompositions := ds\<rparr>, r) (\<lambda>dr pf.
        (dr\<lparr>dr_decompositions := []\<rparr>, Ok (pf, dr_decompositions dr))))"

definition get_unsolved_goals :: "('l, 'c) DistributedReasoner \<Rightarrow> 'c Predicate list" where
  "get_unsolved_goals dr = concat (map gd_unsolved_subgoals (dr_decompositions dr))"

definition dr_cache_stats :: "('l, 'c) query_lru \<Rightarrow> ('l, 'c) DistributedReasoner \<Rightarrow> CombinedCacheStats option" where
  "dr_cache_stats L dr = map_option (cm_stats L) (dr_cache dr)"

subsection \<open>Memoised answers\<close>

text \<open>
  A cache is consistent with a knowledge base on some goals when every result it holds for the key of
  such a goal is the answer of the engine.
\<close>

definition consistent ::
    "('l, 'c) query_lru \<Rightarrow> (string \<Rightarrow> u64 option) \<Rightarrow> nat \<Rightarrow> InferenceEngine \<Rightarrow> 'c KnowledgeBase \<Rightarrow> 'c Predicate set \<Rightarrow> 'l QueryCache \<Rightarrow> bool" where
  "consistent L bits fuel eng kb G qc \<longleftrightarrow>
     (\<forall>g \<in> G. \<forall>r. qc_view L qc (qk_from_predicate bits g) = Some r \<longrightarrow> query fuel eng g kb = Ok (cr_solutions r))"

context query_cache
begin

lemma cached_query_exact:
  assumes "linv (qc_cache (cm_query_cache cm))" "consistent L bits fuel eng kb G (cm_query_cache cm)"
    and "inj_on (qk_from_predicate bits) G" "g \<in> G"
  shows "snd (cached_query L bits now later fuel eng cm g kb) = query fuel eng g kb"
    "linv (qc_cache (cm_query_cache (fst (cached_query L bits now later fuel eng cm g kb))))"
    "consistent L bits fuel eng kb G (cm_query_cache (fst (cached_query L bits now later fuel eng cm g kb)))"
proof -
  let ?k = "qk_from_predicate bits g" and ?qc = "cm_query_cache cm"
  obtain qc found where get: "qc_get L now ?qc ?k = (qc, found)" by fastforce
  note view = qc_get_view [OF assms(1), of now ?k, unfolded get fst_conv snd_conv]
  have c: "consistent L bits fuel eng kb G qc"
    using assms(2) by (auto simp: consistent_def view(3) drop_expired_def split: option.splits if_splits)
  have ins: "consistent L bits fuel eng kb G (qc_insert L later qc ?k sols)" if "query fuel eng g kb = Ok sols" for sols
    unfolding consistent_def
  proof (intro ballI allI impI)
    fix h r assume h: "h \<in> G" "qc_view L (qc_insert L later qc ?k sols) (qk_from_predicate bits h) = Some r"
    have "((qc_view L qc)(?k \<mapsto> cr_new later sols (qc_default_ttl qc))) (qk_from_predicate bits h) = Some r"
      using h(2) qc_put_view(3) [OF view(1), of ?k "cr_new later sols (qc_default_ttl qc)"]
      by (metis domI map_le_def qc_insert_def)
    then show "query fuel eng h kb = Ok (cr_solutions r)"
      using c h(1) that assms(3,4) by (auto simp: consistent_def cr_new_def dest: inj_onD split: if_splits)
  qed
  have hit: "query fuel eng g kb = Ok s" if "found = Some s" for s
    using that view(4) assms(2,4) by (auto simp: consistent_def drop_expired_def split: option.splits if_splits)
  have inv: "linv (qc_cache (qc_insert L later qc ?k sols))" for sols
    using qc_put_view(1) [OF view(1)] by (simp add: qc_insert_def)
  have q: "cached_query L bits now later fuel eng cm g kb =
      (case found of Some s \<Rightarrow> (cm\<lparr>cm_query_cache := qc\<rparr>, Ok s)
       | None \<Rightarrow> sbind (cm\<lparr>cm_query_cache := qc\<rparr>, query fuel eng g kb) (\<lambda>cm sols.
           (if sols = [] then cm else cm\<lparr>cm_query_cache := qc_insert L later (cm_query_cache cm) ?k sols\<rparr>, Ok sols)))"
    by (simp add: cached_query_def get Let_def)
  show "snd (cached_query L bits now later fuel eng cm g kb) = query fuel eng g kb"
    using hit unfolding q by (cases found; cases "query fuel eng g kb") simp_all
  show "linv (qc_cache (cm_query_cache (fst (cached_query L bits now later fuel eng cm g kb))))"
    using view(1) inv unfolding q by (cases found; cases "query fuel eng g kb") simp_all
  show "consistent L bits fuel eng kb G (cm_query_cache (fst (cached_query L bits now later fuel eng cm g kb)))"
    using c ins unfolding q by (cases found; cases "query fuel eng g kb") simp_all
qed

end

text \<open>A sequence of queries, each with its readings of the clock.\<close>

fun me_run ::
    "('l, 'c) query_lru \<Rightarrow> (string \<Rightarrow> u64 option) \<Rightarrow> nat \<Rightarrow> ('l, 'c) MemoizedInferenceEngine
       \<Rightarrow> (instant \<times> instant \<times> 'c Predicate) list \<Rightarrow> 'c KnowledgeBase \<Rightarrow> (core_error, 'c Substitution list) outcome list" where
  "me_run L bits fuel me [] kb = []"
| "me_run L bits fuel me ((now, later, goal) # qs) kb =
     (let (me, r) = me_query L bits now later fuel me goal kb in r # me_run L bits fuel me qs kb)"

lemma me_run_exact:
  assumes "query_cache L linv" "linv (qc_cache (cm_query_cache (me_cache me)))"
    "consistent L bits fuel (me_engine me) kb G (cm_query_cache (me_cache me))"
    "inj_on (qk_from_predicate bits) G" "snd ` snd ` set qs \<subseteq> G"
  shows "me_run L bits fuel me qs kb = map (\<lambda>(_, _, g). query fuel (me_engine me) g kb) qs"
  using assms(2,3,5)
proof (induction qs arbitrary: me)
  case (Cons q qs)
  obtain now later g where q: "q = (now, later, g)" by (cases q)
  have g: "g \<in> G" using Cons.prems(3) by (simp add: q)
  note e = query_cache.cached_query_exact [OF assms(1) Cons.prems(1,2) assms(4) g, of now later]
  let ?me = "me\<lparr>me_cache := fst (cached_query L bits now later fuel (me_engine me) (me_cache me) g kb)\<rparr>"
  have "me_run L bits fuel ?me qs kb = map (\<lambda>(_, _, g). query fuel (me_engine ?me) g kb) qs"
    by (rule Cons.IH) (use e Cons.prems(3) in simp_all)
  then show ?case using e(1) by (simp add: q me_query_def split_def Let_def)
qed simp

text \<open>
  (C29) Memoisation is transparent while goals with the same key are the same: on one knowledge base, a new
  memoised engine answers every query of a sequence as the plain engine does, whatever the capacity,
  the time to live and the clock.
\<close>

theorem memo_query_exact:
  assumes "lru_cache L linv" "inj_on (qk_from_predicate bits) (snd ` snd ` set qs)"
  shows "me_run L bits fuel (me_with_limits depth sols (cm_with_config L qcap qttl fcap fttl)) qs kb =
    map (\<lambda>(_, _, goal). query fuel (ie_with_limits depth sols) goal kb) qs"
proof -
  let ?me = "me_with_limits depth sols (cm_with_config L qcap qttl fcap fttl)"
  have q: "query_cache L linv" using assms(1) by (simp add: query_cache_def)
  have "linv (qc_cache (cm_query_cache (me_cache ?me)))"
    "consistent L bits fuel (me_engine ?me) kb (snd ` snd ` set qs) (cm_query_cache (me_cache ?me))"
    using lru_cache.lru_new [OF assms(1)]
    by (auto simp: me_with_limits_def cm_with_config_def qc_new_def qc_with_ttl_def consistent_def qc_view_def split: option.split)
  then show ?thesis using me_run_exact [OF q _ _ assms(2) order_refl] by (simp add: me_with_limits_def)
qed

definition likes :: "nat KnowledgeBase" where
  "likes = \<lparr>kb_facts = [pred_new ''likes'' [Const (CString ''a''), Const (CString ''b'')]], kb_rules = []\<rparr>"

theorem memo_query_exact_witness:
  "me_run list_lru (\<lambda>_. None) 2 (me_with_limits 5 5 (cm_with_config list_lru 1 (Some 3) 1 1))
     [(0, 1, pred_new ''likes'' [Const (CString ''a''), Var ''X'']), (2, 2, pred_new ''likes'' [Const (CString ''b''), Var ''X'']),
      (3, 3, pred_new ''likes'' [Const (CString ''a''), Var ''X''])] likes =
   [Ok [[(''X'', Const (CString ''b''))]], Ok [], Ok [[(''X'', Const (CString ''b''))]]]"
proof -
  let ?g = "\<lambda>s. pred_new ''likes'' [Const (CString s), Var ''X''] :: nat Predicate"
  have "query 2 (ie_with_limits 5 5) (?g ''a'') likes = Ok [[(''X'', Const (CString ''b''))]]"
    "query 2 (ie_with_limits 5 5) (?g ''b'') likes = Ok []" by code_simp+
  then show ?thesis
    using memo_query_exact [OF list_lru.lru_cache_axioms, of "\<lambda>_. None" "[(0, 1, ?g ''a''), (2, 2, ?g ''b''), (3, 3, ?g ''a'')]"]
    by (auto simp: inj_on_def qk_from_predicate_def)
qed

text \<open>
  The key forgets the names of variables, so a query that differs in a name only gets bindings for the
  wrong variable; it also forgets the knowledge base.
\<close>

theorem memo_wrong_variable:
  "me_run list_lru (\<lambda>_. None) 2 (me_with_limits 5 5 (cm_with_config list_lru 2 None 1 1))
     [(0, 0, pred_new ''likes'' [Const (CString ''a''), Var ''X'']), (0, 0, pred_new ''likes'' [Const (CString ''a''), Var ''Y''])] likes =
   [Ok [[(''X'', Const (CString ''b''))]], Ok [[(''X'', Const (CString ''b''))]]] \<and>
   query 2 (ie_with_limits 5 5) (pred_new ''likes'' [Const (CString ''a''), Var ''Y'']) likes = Ok [[(''Y'', Const (CString ''b''))]]"
  by code_simp

end
