(* ===== verification/Reasoning_Limits.thy ===== *)
theory Reasoning_Limits
  imports Reasoning_Sound Memo_Engine
begin

text \<open>
  How the inference engine fails outside the programs of \<open>Reasoning_Sound\<close>, on small knowledge bases:
  bindings are overwritten, bindings are not passed along a conjunction, renamed variables are
  captured, and two recursions do not end.
\<close>

definition con :: "string \<Rightarrow> nat Term" where
  "con s = Const (CString s)"

subsection \<open>Unification\<close>

text \<open>
  A variable bound to a variable is looked up once, so the second binding of \<open>Y\<close> replaces the first: two
  terms without a common instance unify.
\<close>

theorem unify_overwrites:
  "unify 2 (Fun ''f'' [Var ''X'', Var ''Y'', Var ''X'']) (Fun ''f'' [Var ''Y'', con ''a'', con ''b'']) [] =
     Ok (Some [(''X'', Var ''Y''), (''Y'', con ''b'')]) \<and>
   (\<nexists>\<theta>. inst \<theta> (Fun ''f'' [Var ''X'', Var ''Y'', Var ''X'']) = inst \<theta> (Fun ''f'' [Var ''Y'', con ''a'', con ''b'']))"
  by (simp add: con_def numeral_eq_Suc unify_var_def hm_insert_def)

definition loop_subst :: "nat Substitution" where
  "loop_subst = [(''Y'', Var ''Z''), (''Z'', Fun ''f'' [Var ''X'']), (''X'', Fun ''g'' [Var ''Z''])]"

lemma loop_subst_diverges:
  "unify fuel (Var ''X'') (Var ''X'') loop_subst = Diverge"
  "unify fuel (Var ''Z'') (Var ''Z'') loop_subst = Diverge"
  by (induction fuel) (simp_all add: loop_subst_def)

text \<open>
  The occurs check looks at one binding only, so a substitution can become cyclic, and then \<open>unify\<close> does
  not return, whatever the fuel.
\<close>

theorem unify_diverges:
  "unify fuel (Fun ''h'' [Var ''Y'', Var ''Z'', Var ''X'', Var ''X''])
     (Fun ''h'' [Var ''Z'', Fun ''f'' [Var ''X''], Fun ''g'' [Var ''Y''], Var ''X'']) ([] :: nat Substitution) = Diverge"
proof (cases fuel)
  case (Suc n)
  then show ?thesis
    using loop_subst_diverges(1) [of n]
    by (cases n) (simp_all add: unify_var_def hm_insert_def loop_subst_def)
qed simp

subsection \<open>Search\<close>

text \<open>
  A wrong answer: \<open>p(X) :- q(X), r(X)\<close>, with \<open>q\<close> reaching \<open>q2(a)\<close> through two rules, and the fact \<open>r(b)\<close>.
  The binding of \<open>X\<close> is three variables away when \<open>r\<close> is called, and is overwritten.
\<close>

definition chain_kb :: "nat KnowledgeBase" where
  "chain_kb =
     \<lparr>kb_facts = [pred_new ''q2'' [con ''a''], pred_new ''r'' [con ''b'']],
      kb_rules =
        [rule_new (pred_new ''p'' [Var ''X'']) [pred_new ''q'' [Var ''X''], pred_new ''r'' [Var ''X'']],
         rule_new (pred_new ''q'' [Var ''X'']) [pred_new ''q1'' [Var ''X'']],
         rule_new (pred_new ''q1'' [Var ''X'']) [pred_new ''q2'' [Var ''X'']]]\<rparr>"

lemma chain_kb_derives:
  "derives chain_kb n ts \<Longrightarrow> (n = ''q2'' \<longrightarrow> ts = [con ''a'']) \<and> (n = ''q1'' \<longrightarrow> ts = [con ''a'']) \<and> (n = ''q'' \<longrightarrow> ts = [con ''a'']) \<and>
     (n = ''r'' \<longrightarrow> ts = [con ''b'']) \<and> n \<noteq> ''p''"
proof (induction rule: derives.induct)
  case (rule_derives r \<theta>)
  have q: "\<theta> ''X'' = con ''a''" if "pred_new ''q'' [Var ''X''] \<in> set (r_body r)"
    using rule_derives.IH [OF that] by (simp add: pred_new_def)
  have r: "\<theta> ''X'' = con ''b''" if "pred_new ''r'' [Var ''X''] \<in> set (r_body r)"
    using rule_derives.IH [OF that] by (simp add: pred_new_def)
  have q1: "\<theta> ''X'' = con ''a''" if "pred_new ''q1'' [Var ''X''] \<in> set (r_body r)"
    using rule_derives.IH [OF that] by (simp add: pred_new_def)
  have q2: "\<theta> ''X'' = con ''a''" if "pred_new ''q2'' [Var ''X''] \<in> set (r_body r)"
    using rule_derives.IH [OF that] by (simp add: pred_new_def)
  from rule_derives.hyps q r q1 q2 show ?case
    by (auto simp: chain_kb_def rule_new_def pred_new_def con_def)
qed (auto simp: chain_kb_def pred_new_def con_def)

theorem query_unsound:
  "(\<exists>s. query 9 ie_new (pred_new ''p'' [Var ''A'']) chain_kb = Ok [s]) \<and> (\<forall>ts. \<not> derives chain_kb ''p'' ts)"
proof
  show "\<exists>s. query 9 ie_new (pred_new ''p'' [Var ''A'']) chain_kb = Ok [s]"
    by (rule exI [of _ "[(''A'', Var ''X_0''), (''X_0'', Var ''X_1''), (''X_1'', Var ''X_2''), (''X_2'', con ''b'')]"]) code_simp
  show "\<forall>ts. \<not> derives chain_kb ''p'' ts" using chain_kb_derives by blast
qed

text \<open>
  A missed answer: both goals of \<open>p :- q(a), q(b)\<close> use the rule \<open>q(X) :- e(X)\<close> at the same depth, so its
  variable has the same name in both.
\<close>

definition twice_kb :: "nat KnowledgeBase" where
  "twice_kb =
     \<lparr>kb_facts = [pred_new ''e'' [con ''a''], pred_new ''e'' [con ''b'']],
      kb_rules =
        [rule_new (pred_new ''p'' []) [pred_new ''q'' [con ''a''], pred_new ''q'' [con ''b'']],
         rule_new (pred_new ''q'' [Var ''X'']) [pred_new ''e'' [Var ''X'']]]\<rparr>"

lemma twice_kb_q:
  assumes "c \<in> {''a'', ''b''}"
  shows "derives twice_kb ''q'' [con c]"
proof -
  have "derives twice_kb ''e'' [con c]"
    using assms fact_derives [of "pred_new ''e'' [con c]" twice_kb Var] by (auto simp: twice_kb_def pred_new_def con_def)
  then show ?thesis
    using rule_derives [of "rule_new (pred_new ''q'' [Var ''X'']) [pred_new ''e'' [Var ''X'']]" twice_kb "\<lambda>_. con c"]
    by (auto simp: twice_kb_def rule_new_def pred_new_def)
qed

theorem query_incomplete:
  "query 9 ie_new (pred_new ''p'' []) twice_kb = Ok [] \<and> derives twice_kb ''p'' []"
proof
  show "query 9 ie_new (pred_new ''p'' []) twice_kb = Ok []" by code_simp
  show "derives twice_kb ''p'' []"
    using rule_derives [of "rule_new (pred_new ''p'' []) [pred_new ''q'' [con ''a''], pred_new ''q'' [con ''b'']]" twice_kb Var]
      twice_kb_q [of "''a''"] twice_kb_q [of "''b''"]
    by (force simp: twice_kb_def con_def)
qed

text \<open>The solution limit is not checked for rules with an empty body.\<close>

theorem query_exceeds_limit:
  "\<exists>s1 s2. query 9 (ie_with_limits 5 1) (pred_new ''p'' [Var ''A''])
     \<lparr>kb_facts = [], kb_rules = [rule_fact (pred_new ''p'' [con ''a'']), rule_fact (pred_new ''p'' [con ''b''])]\<rparr> = Ok [s1, s2]"
  by (rule exI [of _ "[(''A'', con ''a'')]"], rule exI [of _ "[(''A'', con ''b'')]"]) code_simp

subsection \<open>Proofs\<close>

text \<open>
  A proof of something false, which the verifier accepts: \<open>Y\<close> stands for two different people in the two
  premises of \<open>gp(X, Z) :- par(X, Y), par(Y, Z)\<close>.
\<close>

definition family :: "nat KnowledgeBase" where
  "family =
     \<lparr>kb_facts = [pred_new ''par'' [con ''a'', con ''b''], pred_new ''par'' [con ''c'', con ''d'']],
      kb_rules = [rule_new (pred_new ''gp'' [Var ''X'', Var ''Z''])
        [pred_new ''par'' [Var ''X'', Var ''Y''], pred_new ''par'' [Var ''Y'', Var ''Z'']]]\<rparr>"

lemma family_derives:
  "derives family n ts \<Longrightarrow> (n = ''par'' \<longrightarrow> ts = [con ''a'', con ''b''] \<or> ts = [con ''c'', con ''d'']) \<and> n \<noteq> ''gp''"
proof (induction rule: derives.induct)
  case (rule_derives r \<theta>)
  have b: "map \<theta> [''X'', ''Y''] = [con ''a'', con ''b''] \<or> map \<theta> [''X'', ''Y''] = [con ''c'', con ''d'']"
    if "pred_new ''par'' [Var ''X'', Var ''Y''] \<in> set (r_body r)"
    using rule_derives.IH [OF that] by simp
  have c: "map \<theta> [''Y'', ''Z''] = [con ''a'', con ''b''] \<or> map \<theta> [''Y'', ''Z''] = [con ''c'', con ''d'']"
    if "pred_new ''par'' [Var ''Y'', Var ''Z''] \<in> set (r_body r)"
    using rule_derives.IH [OF that] by simp
  from rule_derives.hyps b c show ?case by (auto simp: family_def con_def)
qed (auto simp: family_def pred_new_def con_def)

theorem prove_unsound:
  "(\<exists>pf. prove 9 ie_new (pred_new ''gp'' [con ''a'', con ''d'']) family = Ok (Some pf) \<and> verify 9 ie_new pf family = Ok True) \<and>
   \<not> derives family ''gp'' [con ''a'', con ''d'']"
proof
  let ?r = "prove 9 ie_new (pred_new ''gp'' [con ''a'', con ''d'']) family"
  have "(case ?r of Ok (Some pf) \<Rightarrow> verify 9 ie_new pf family = Ok True | _ \<Rightarrow> False)" by code_simp
  then show "\<exists>pf. ?r = Ok (Some pf) \<and> verify 9 ie_new pf family = Ok True"
    by (auto split: outcome.splits option.splits)
  show "\<not> derives family ''gp'' [con ''a'', con ''d'']" using family_derives by blast
qed

text \<open>
  Without local variables the same happens for a goal that is not ground: in \<open>p(X) :- q(X), r(X)\<close> the binding of the
  first premise is not passed to the second, so \<open>p(A)\<close> has a proof although no instance of it follows.
\<close>

definition closed_example :: "nat KnowledgeBase" where
  "closed_example =
     \<lparr>kb_facts = [pred_new ''q'' [con ''a''], pred_new ''r'' [con ''b'']],
      kb_rules = [rule_new (pred_new ''p'' [Var ''X'']) [pred_new ''q'' [Var ''X''], pred_new ''r'' [Var ''X'']]]\<rparr>"

lemma closed_example_derives:
  "derives closed_example n ts \<Longrightarrow> (n = ''q'' \<longrightarrow> ts = [con ''a'']) \<and> (n = ''r'' \<longrightarrow> ts = [con ''b'']) \<and> n \<noteq> ''p''"
proof (induction rule: derives.induct)
  case (rule_derives r \<theta>)
  have q: "\<theta> ''X'' = con ''a''" if "pred_new ''q'' [Var ''X''] \<in> set (r_body r)" using rule_derives.IH [OF that] by simp
  have r: "\<theta> ''X'' = con ''b''" if "pred_new ''r'' [Var ''X''] \<in> set (r_body r)" using rule_derives.IH [OF that] by simp
  from rule_derives.hyps q r show ?case by (auto simp: closed_example_def con_def)
qed (auto simp: closed_example_def pred_new_def con_def)

theorem prove_open_goal_unsound:
  "closed_kb closed_example \<and> (\<exists>pf. prove 9 ie_new (pred_new ''p'' [Var ''A'']) closed_example = Ok (Some pf)) \<and>
   (\<forall>t. \<not> derives closed_example ''p'' [t])"
proof (intro conjI allI)
  show "closed_kb closed_example"
    by (auto simp: closed_kb_def closed_example_def con_def pred_is_ground_def pvars_def)
  have "(case prove 9 ie_new (pred_new ''p'' [Var ''A'']) closed_example of Ok (Some pf) \<Rightarrow> True | _ \<Rightarrow> False)" by code_simp
  then show "\<exists>pf. prove 9 ie_new (pred_new ''p'' [Var ''A'']) closed_example = Ok (Some pf)"
    by (auto split: outcome.splits option.splits)
  show "\<not> derives closed_example ''p'' [t]" for t using closed_example_derives by blast
qed

text \<open>\<open>prove_with_decomposition\<close> has no depth limit: \<open>p(X) :- p(X)\<close> makes it recurse for ever.\<close>

definition loop_kb :: "nat KnowledgeBase" where
  "loop_kb = \<lparr>kb_facts = [], kb_rules = [rule_new (pred_new ''p'' [Var ''X'']) [pred_new ''p'' [Var ''X'']]]\<rparr>"

lemma prove_tracking_diverges:
  "snd (prove_tracking n fuel (pred_new ''p'' [con ''a'']) loop_kb depth ds) = Diverge"
proof (induction n arbitrary: depth ds)
  case (Suc n)
  let ?v = "renamed_var ''X'' depth"
  have r: "rename_rule_vars (rule_new (pred_new ''p'' [Var ''X'']) [pred_new ''p'' [Var ''X'']]) depth =
      rule_new (pred_new ''p'' [Var ?v]) [pred_new ''p'' [Var ?v]]"
    by (simp add: rename_rule_vars_def rule_variables_def pred_variables_def rule_new_def pred_new_def apply_subst_predicate_def)
  have u: "unify_predicates fuel (pred_new ''p'' [con ''a'']) (pred_new ''p'' [Var ?v]) [] =
      (if fuel = 0 then Diverge else Ok (Some [(?v, con ''a'')]))"
    by (cases fuel) (simp_all add: unify_predicates_def pred_new_def con_def unify_var_def hm_insert_def)
  have a: "apply_subst_predicate (pred_new ''p'' [Var ?v]) [(?v, con ''a'')] = pred_new ''p'' [con ''a'']"
    by (simp add: apply_subst_predicate_def pred_new_def)
  have g: "get_predicates loop_kb ''p'' = []"
    "get_rules loop_kb ''p'' = [rule_new (pred_new ''p'' [Var ''X'']) [pred_new ''p'' [Var ''X'']]]"
    by (simp_all add: loop_kb_def get_predicates_def get_rules_def rule_new_def pred_new_def)
  show ?case
    using Suc.IH by (simp add: r u a g Let_def snd_sbind_Diverge)
qed simp

text \<open>
  \<open>prove_with_decomposition\<close> moves the records out of the reasoner, so \<open>get_unsolved_goals\<close> finds none after it
  has returned, even when no proof was found.
\<close>

theorem unsolved_goals_lost:
  assumes "prove_with_decomposition n fuel dr goal kb = (dr', Ok (pf, ds))"
  shows "get_unsolved_goals dr' = []"
  using assms by (auto simp: prove_with_decomposition_def get_unsolved_goals_def sbind_eq_Ok split: prod.splits)

end
