(* ===== verification/Spec2Isabelle.thy ===== *)
theory Spec2Isabelle
  imports Graph_Persistence Pinning Want_List Merkle_Batch Car_Archive Dag_Reader Raft
    Write_Ahead_Log Version_Control Message_Codec Reasoning_Limits
begin

text \<open>
  IPFRS is a content-addressed storage system: data is kept in blocks named by the hash of their
  bytes (CIDs), blocks link to each other by CID, and everything else is built on blocks. This
  development models the parts of the system that carry its own logic and proves them correct.
  Paths below are relative to \<open>src/ipfrs_source/crates/\<close>.

  \<^bold>\<open>Parts and how they interact.\<close> Values of the IPLD data model are encoded as DAG-CBOR; the CID of
  the encoding names the block. A block store maps CIDs to bytes. The knowledge crate keeps a graph
  in a block store: typed nodes, a trie from entity ids to nodes, a second trie from entity ids to
  relation lists, a vector index, and a head block that links to these and to the previous head. Its
  store is a memory tier in front of a persistent backend; \<open>flush\<close> writes through, \<open>hydrate\<close> reads
  back what a head needs, and the collector deletes from the backend what no pin leads to. Files are
  cut into chunks, whose blocks hang below a tree of DAG-CBOR nodes that readers walk through a fetcher,
  and blocks travel in CAR archives. Beside these stand the pins, the consensus node, the write-ahead
  logs and the version control of the storage crate, the message codec of the network crate, the want list of the transport crate, the batch proofs of the core crate, and the inference engine of the tensor-logic
  crate, which answers queries on a knowledge base of facts and rules, alone or behind a cache.

  \<^bold>\<open>Theories.\<close>

  \<^item> \<open>Rust_Prelude\<close>: results with errors, panics and non-termination as values (\<open>outcome\<close>, \<open>obind\<close>,
    and \<open>sbind\<close> for \<open>&mut self\<close> methods, which return the state on errors too), machine integers, byte
    strings, \<open>BTreeMap\<close>, \<open>HashMap\<close> and \<open>HashSet\<close> as association lists and distinct lists.
  \<^item> \<open>Cid_Core\<close> (\<open>ipfrs-core/src/cid.rs\<close>, \<open>error.rs\<close>): hash and multibase names, the CID builder, version
    conversion. The crates \<open>cid\<close> and \<open>multihash\<close> are the record \<open>cid_crate\<close>, what the code relies on is
    \<open>cid_laws\<close>. Lemmas: CIDv0/CIDv1 conversions are inverse, names parse back.
  \<^item> \<open>Ipld_Core\<close>, \<open>Dag_Cbor\<close> (\<open>ipfrs-core/src/ipld.rs\<close>): values, accessors and the DAG-CBOR codec. Lemmas:
    round trip, the code is prefix-free, decoding never exhausts its fuel, re-encoding, and two defects (large
    integers are truncated, large announced lengths panic).
  \<^item> \<open>Block_Store\<close> (\<open>ipfrs-knowledge/src/store.rs\<close>, \<open>ipfrs-storage/src/traits.rs\<close>, \<open>memory.rs\<close>): the two store
    interfaces as records of operations, with the locales \<open>block_store\<close> and \<open>cold_store\<close> for what their
    clients rely on, interpreted on \<open>MemStore\<close> and \<open>MemoryBlockStore\<close> (and, later, on \<open>TieredStore\<close>).
  \<^item> \<open>Hamt\<close> (\<open>ipfrs-knowledge/src/hamt.rs\<close>): the trie, refined to a trie in memory and to a finite map.
  \<^item> \<open>Rust_Float\<close>, \<open>Knowledge_Node\<close> (\<open>node.rs\<close>), \<open>Vector_Index\<close> (\<open>vector.rs\<close>): float casts on bit
    patterns, node encodings, the index and its search. Lemmas: round trips, safety of decoded
    indices, the search returns the best entries in order.
  \<^item> \<open>Worklist\<close>: the traversal shared by the loops over links, with the locale \<open>link_graph\<close> that bounds it.
  \<^item> \<open>Tiered_Store\<close> (\<open>tiered.rs\<close>), \<open>Knowledge_Gc\<close> (\<open>gc.rs\<close>), \<open>Knowledge_Graph\<close> (\<open>graph.rs\<close>): as above. Lemmas:
    flushing loses nothing, hydration and collection touch precisely what links reach, graph
    operations act on an abstract graph (\<open>kg_rep\<close>), a committed head reopens.
  \<^item> \<open>Graph_Persistence\<close>: all blocks of a graph lie below its head.
  \<^item> \<open>Pinning\<close> (\<open>ipfrs-storage/src/pinning.rs\<close>): reference-counted pins; a step relation over all
    operations with the invariant that the statistics count the pins, recursive pinning and unpinning.
  \<^item> \<open>Want_List\<close> (\<open>ipfrs-transport/src/want_list.rs\<close>): the priority queue with lazy deletion over an
    abstract heap (locales \<open>max_heap\<close> and \<open>want_queue\<close>), and its lock-protected wrapper under every interleaving.
    Lemmas: the invariant of lazy deletion, and draining in the order of a ledger of the priorities scheduled last.
  \<^item> \<open>Merkle_Batch\<close> (\<open>ipfrs-core/src/merkle_batch.rs\<close>): batch inclusion proofs, completeness and soundness for
    distinct indices inside the tree, and two defects of the verifier, which does not check the indices.
  \<^item> \<open>Core_Block\<close> (\<open>ipfrs-core/src/block.rs\<close>) and \<open>Car_Archive\<close> (\<open>compression.rs\<close>, \<open>car.rs\<close>): blocks, the varint code,
    archive writer and reader. Lemmas: what reading gives with and without compression (the blocks, or an error
    if one has not the default CID of its data), the reader ends on every input and returns only blocks whose CIDs are
    right.
  \<^item> \<open>Chunker\<close> (\<open>ipfrs-core/src/chunking.rs\<close>): fixed-size and content-defined chunks, the tree above them.
    Lemmas: sizes of chunks, the chunker returns, deduplication counts, one link per node never ends.
  \<^item> \<open>Dag_Reader\<close> (\<open>ipfrs-core/src/streaming.rs\<close>): fetchers (locale \<open>block_fetcher\<close>, interpreted on the memory
    fetcher), block readers, the chunk stream and \<open>read_chunked_file\<close>. Lemmas: both read back what the
    chunker wrote; on trees with leaves of different depths they disagree.
  \<^item> \<open>Raft\<close> (\<open>ipfrs-storage/src/raft.rs\<close>): the consensus node as events on a record state, in which each access of
    the election timer to the shared state is a step of its own (locale \<open>raft_store\<close> for the state machine, interpreted
    on the memory store). Lemmas: one vote per term and election safety when no message is handled between the locks of
    the timer for the term and for the vote, log replication, application in order; no node becomes leader, a race lets
    a node vote twice, a heartbeat commits stale entries.
  \<^item> \<open>Write_Ahead_Log\<close> (\<open>ipfrs-storage/src/wal.rs\<close>): both logs. Lemmas: replay returns what was accepted since the
    checkpoint and not truncated, numbering and byte counts are kept, and three defects.
  \<^item> \<open>Version_Control\<close> (\<open>ipfrs-storage/src/vcs.rs\<close>): commits, references, checkout, history and merge over any
    store that answers reads (locale \<open>commit_store\<close>, which extends \<open>cold_store\<close>, interpreted on the memory store), and
    a step relation over all operations. Lemmas: every reference has a history that is complete up to the commits
    given by CID, commits are recorded, merges keep both sides, the searches decide reachability; tags move, merging an
    ancestor reverts, and a commit without its parents can be checked out.
  \<^item> \<open>Message_Codec\<close> (\<open>ipfrs-network/src/message_codec.rs\<close>): frames with a CRC32. Lemmas: the table computes the
    remainder, round trip, every changed byte is detected.
  \<^item> \<open>Term_Ir\<close>, \<open>Reasoning\<close> (\<open>ipfrs-tensorlogic/src/ir.rs\<close>, \<open>reasoning.rs\<close>): terms, rules, knowledge bases,
    unification, queries, proofs and their verification.
  \<^item> \<open>Reasoning_Sound\<close>, \<open>Reasoning_Limits\<close>: on which programs and goals the engine is right (ground facts; rules whose
    variables are bound in order; goals that are ground or on predicates without rules), and concrete programs and goals
    on which it is not.
  \<^item> \<open>Query_Cache\<close> (\<open>cache.rs\<close>) and \<open>Memo_Engine\<close>: the query cache over an LRU cache (locales \<open>lru_cache\<close> and
    \<open>query_cache\<close>), remote facts, the memoised engine and the distributed reasoner. Lemmas: the cache
    refines a map of unexpired results, the memoised engine answers as the plain one.

  This theory holds what spans components: a graph survives a restart and a collection.

  \<^bold>\<open>Fuel.\<close> Loops that follow stored links take fuel, since a store may hold anything: \<open>hydrate\<close>, \<open>collect\<close>,
  \<open>pin_recursive\<close>, \<open>unpin_recursive\<close> and \<open>entries\<close>. The number of links among the stored blocks (of nodes,
  for \<open>entries\<close>) is enough, and the theorems about these operations show that they return with it.
  The CBOR decoder takes as fuel one more than the length of its input, and never exhausts it; the stack of the machine,
  which its recursion uses, has no limit in the model. The chunker needs no
  more levels than its data has bytes, when nodes have two links or more. The readers of trees follow
  what a fetcher returns, and the ancestor searches what a store holds; that enough fuel gives the result is stated with \<open>settles\<close>. Unification and the
  tracking prover may recurse for ever, and their fuel bounds the depth of calls. All other loops
  terminate by a measure.

  \<^bold>\<open>Hash collisions.\<close> CIDs are values of an arbitrary type and hashing an arbitrary function of the
  bytes. Where a store could confuse two blocks, the theorem assumes that the blocks at hand have
  different CIDs. The batch proofs compute FNV-1a on 64-bit words, and soundness names the collision.

  \<^bold>\<open>Not modelled.\<close> Third-party crates (\<open>cid\<close>, \<open>multihash\<close>, \<open>petgraph\<close>, the serialisation of pins and of commits, the float
  operations of the hardware) are parameters or left out. Asynchronous code is run to completion,
  one call after the other. Left out are the network, HTTP, command-line and language bindings
  (input and output), the database backends, DAG-JSON, tensors, and the many stand-alone policy and
  statistics modules of the storage, network, semantic and tensor-logic crates.
\<close>

section \<open>A graph survives a restart\<close>

text \<open>
  (C1) A knowledge graph survives a restart and a garbage collection. Commit a graph held in a
  two-tier store, flush, collect the backend with the new head as its only pin (whatever the outcome
  of the collection), and start a new store on the backend, empty: \<open>hydrate\<close> from the head returns,
  \<open>open\<close> succeeds, and the new graph has the same index, vector index, entities and relations. What
  is assumed is that the flush succeeds, that the backend can be read, and that the blocks involved
  have different CIDs.
\<close>

theorem graph_survives_restart:
  assumes "cid_env E" "cold_store K content kinv"
    and "kg_rep E tiered_store ts_inv kg ti te rels B" "vi_ok E (kg_vindex kg)"
    and "kinv (ts_cold (kg_store kg))" "ts_synced content (kg_store kg)"
    and "vb = encode_dag_cbor E (vi_to_ipld (kg_vindex kg))"
    and "hb = encode_dag_cbor E (head_ipld kg (dag_cbor_cid E vb))"
    and "dag_cbor_cid E hb \<noteq> dag_cbor_cid E vb"
    and "\<forall>b \<in> {hb, vb}. bs_get tiered_store (kg_store kg) (dag_cbor_cid E b) \<in> {None, Some b}"
    and "commit E tiered_store kg = (kg1, Ok head)"
    and "flush K (kg_store kg1) = (ts1, Ok ())"
    and "collect E K fuel (ts_cold ts1) [head] keep_history = (cold2, r)"
    and "reads_ok E K cold2"
    and "(\<Sum>c \<in> dom (content cold2). length (store_links E False (content cold2) c)) < fuel'"
  shows "\<exists>ts2 n kg2. hydrate E K fuel' (ts_new cold2) head = (ts2, Ok n) \<and>
    kg_open E tiered_store ts2 head = Ok kg2 \<and>
    kg_rep E tiered_store ts_inv kg2 ti te rels (graph_blocks E ti te rels) \<and>
    kg_vindex kg2 = kg_vindex kg \<and>
    (\<forall>i. entity_cid E tiered_store kg2 i = entity_cid E tiered_store kg i) \<and>
    (\<forall>i e. get_entity E tiered_store kg i = Ok e \<longrightarrow> get_entity E tiered_store kg2 i = Ok e) \<and>
    (\<forall>i rs. length i = 32 \<longrightarrow> relations_of E tiered_store kg i = Ok rs \<longrightarrow>
       relations_of E tiered_store kg2 i = Ok rs)"
proof -
  let ?vc = "dag_cbor_cid E vb" and ?hc = "dag_cbor_cid E hb" and ?m = "content (ts_cold ts1)"
  let ?R = "reach (store_links E (\<not> keep_history) ?m) {?hc}"
  have ts: "ts_inv (kg_store kg)" using assms(3) by (simp add: kg_rep_def)
  note kg1 = commit_tiered [OF assms(1) ts assms(6-11)]
  have k1: "kinv (ts_cold (kg_store kg1))" using assms(5) kg1(4) by simp
  note fl = cold_store.flush_correct [OF assms(2) k1 kg1(2,3) assms(12)]
  have m: "?m c = Some bs" if "bs_get tiered_store (kg_store kg1) c = Some bs" for c bs
    using fl that by simp
  have m0: "\<forall>c bs. bs_get tiered_store (kg_store kg) c = Some bs \<longrightarrow> ?m c = Some bs" using m kg1(7) by blast
  note below = head_below [OF assms(1,3,8) m [OF kg1(5)] m0 refl, of "\<not> keep_history"]
  have "collect E K fuel (ts_cold ts1) [?hc] keep_history = (cold2, r)" using assms(13) kg1(1) by simp
  from cold_store.collect_then_hydrate [OF assms(2) _ this assms(14,15)] fl obtain ts2 n where
    hyd: "hydrate E K fuel' (ts_new cold2) ?hc = (ts2, Ok n)" "ts_inv ts2"
      "\<forall>c \<in> ?R. bs_get mem_store (ts_hot ts2) c = ?m c" by blast
  have keeps: "\<forall>c \<in> ?R. \<forall>bs. bs_get tiered_store (kg_store kg) c = Some bs \<longrightarrow> bs_get tiered_store ts2 c = Some bs"
    using hyd(3) m0 by simp
  have "bs_get tiered_store ts2 ?hc = Some hb" "bs_get tiered_store ts2 ?vc = Some vb"
    using hyd(3) below(1,2) m [OF kg1(5)] m [OF kg1(6)] by simp_all
  note opens = open_head [OF assms(1,4,7,8) this]
  from graph_reads_back [OF assms(1,3) refl hyd(2) keeps below(3-5)] hyd(1) opens kg1(1)
  show ?thesis
    by (intro exI [of _ ts2] exI [of _ n] exI [of _ "kg\<lparr>kg_store := ts2, kg_prev := Some ?hc\<rparr>"]) simp
qed

theorem graph_survives_restart_witness:
  "\<exists>kg kg1 head ts1 cold2 r fuel ts2 n kg2.
     kg_new crate_len tiered_store (ts_new mb_new) = Ok kg \<and>
     commit crate_len tiered_store kg = (kg1, Ok head) \<and>
     flush memory_block_store (kg_store kg1) = (ts1, Ok ()) \<and>
     collect crate_len memory_block_store 9 (ts_cold ts1) [head] False = (cold2, r) \<and>
     hydrate crate_len memory_block_store fuel (ts_new cold2) head = (ts2, Ok n) \<and>
     kg_open crate_len tiered_store ts2 head = Ok kg2 \<and> kg_vindex kg2 = kg_vindex kg"
proof -
  let ?kg = "kg_fresh (ts_new mb_new)" and ?t = "tbytes crate_len tempty"
  define vb where "vb = encode_dag_cbor crate_len (vi_to_ipld (kg_vindex ?kg))"
  define hb where "hb = encode_dag_cbor crate_len (head_ipld ?kg (dag_cbor_cid crate_len vb))"
  note b = kg_fresh_blocks [OF vb_def hb_def]
  have ne: "dag_cbor_cid crate_len hb \<noteq> dag_cbor_cid crate_len vb"
    "dag_cbor_cid crate_len hb \<noteq> tcid crate_len tempty" "dag_cbor_cid crate_len vb \<noteq> tcid crate_len tempty"
    unfolding tcid_def by (rule dag_cbor_cid_neq; simp add: b(1,2) length_tbytes_tempty)+
  have rep: "kg_rep crate_len tiered_store ts_inv ?kg tempty tempty (\<lambda>_. []) {?t}"
    using tiered.kg_new_rep [OF cid_env_crate_len ts_new_ok(1)] by (simp add: kg_new_fresh)
  obtain kg1 head where c: "commit crate_len tiered_store ?kg = (kg1, Ok head)"
    by (simp add: tiered.commit_eq [OF cid_env_crate_len] Let_def del: encode_dag_cbor.simps)
  have clash: "\<forall>b \<in> {hb, vb}. bs_get tiered_store (kg_store ?kg) (dag_cbor_cid crate_len b) \<in> {None, Some b}"
    unfolding kg_fresh_ok(4) using ne(2,3) by simp
  note kg1 = commit_tiered [OF cid_env_crate_len kg_fresh_ok(1,2) vb_def hb_def ne(1) clash c]
  obtain ts1 where f: "flush memory_block_store (kg_store kg1) = (ts1, Ok ())"
    using flush_loop_memory by (metis flush_def surjective_pairing)
  have k1: "mb_inv (ts_cold (kg_store kg1))" "mb_content (ts_cold (kg_store kg1)) c = None" for c
    unfolding kg1(4) kg_fresh_ok(3) by (simp_all add: mb_inv_def mb_new_def hm_ok_def mb_content_def)
  note fl = mb.flush_correct [OF k1(1) kg1(2,3) f]
  obtain cold2 r where g: "collect crate_len memory_block_store 9 (ts_cold ts1) [head] False = (cold2, r)" by force
  have k: "mb_inv (ts_cold ts1)" using fl by simp
  have k2: "mb_inv cold2" "mb_content cold2 \<subseteq>\<^sub>m mb_content (ts_cold ts1)"
    using mb.collect_keeps_live [OF k g] mb.collect_le [OF k g] by auto
  have hot: "bs_get tiered_store (kg_store kg1) c \<in> {None, Some ?t, Some vb, Some hb}" for c
    unfolding commit_reads [OF cid_env_crate_len kg_fresh_ok(1) vb_def hb_def c] kg_fresh_ok(4) by simp
  have "reads_ok crate_len memory_block_store cold2"
  proof (rule reads_ok_memory [OF k2(1)])
    fix c bs assume "mb_content cold2 c = Some bs"
    then have "mb_content (ts_cold ts1) c = Some bs" using k2(2) by (auto simp: map_le_def dom_def)
    then have "bs_get mem_store (ts_hot (kg_store kg1)) c = Some bs" using fl k1(2) by (simp split: option.splits)
    then show "from_dag_cbor crate_len bs \<noteq> Panic" using hot [of c] b(3-5) by auto
  qed
  from graph_survives_restart [OF cid_env_crate_len mb.cold_store_axioms rep b(6) _ kg_fresh_ok(2) vb_def hb_def ne(1)
      clash c f g this lessI] k1(1)
  show ?thesis using kg_new_fresh c f g by (simp add: kg1(4)) blast
qed

end
